(* ===== verification/Prelude.thy ===== *)
theory Prelude
  imports Main "HOL-Library.Word" "HOL-Library.Code_Target_Nat"
begin

text \<open>
  Shared vocabulary of the development: bytes, machine integers, the error values
  of the Go code, the fixed-size array \<open>Hash\<close>, bit counting
  (\<open>math/bits\<close>), and the arithmetic facts about powers of two, words and
  lists that the component theories rely on.
\<close>

unbundle bit_operations_syntax

named_theorems go_defs \<open>unfoldings of small Go helpers\<close>
named_theorems result_simps \<open>rewriting of the error-propagation combinators\<close>
named_theorems u64_simps \<open>from 64-bit words to natural numbers\<close>

section \<open>Types\<close>

type_synonym byte = "8 word"
type_synonym bytes = "8 word list"
type_synonym u16 = "16 word"
type_synonym u64 = "64 word"

section \<open>Errors as values\<close>

text \<open>
  A Go function that returns \<open>(T, error)\<close> is modelled with the sum type
  \<open>goerror + 'a\<close>. \<open>Errorf\<close> is an error made by \<open>errors.New\<close> or
  \<open>fmt.Errorf\<close> (the formatted operands are dropped: no code inspects them),
  \<open>Wrapf\<close> is \<open>fmt.Errorf\<close> with \<open>%w\<close>, \<open>Sentinel\<close> is a named error
  variable that code tests with \<open>errors.Is\<close>, and \<open>Panic\<close> is a run-time
  panic: it unwinds through every caller and is never wrapped.
\<close>

datatype goerror = Errorf string | Wrapf string goerror | Sentinel string | Panic string

type_synonym 'a result = "goerror + 'a"

definition wrapf :: "string \<Rightarrow> goerror \<Rightarrow> goerror" where
  "wrapf s e = (case e of Panic m \<Rightarrow> Panic m | _ \<Rightarrow> Wrapf s e)"

primrec errors_Is :: "goerror \<Rightarrow> string \<Rightarrow> bool" where
  "errors_Is (Errorf s) t = False"
| "errors_Is (Wrapf s e) t = errors_Is e t"
| "errors_Is (Sentinel s) t = (s = t)"
| "errors_Is (Panic s) t = False"

definition rbind :: "'a result \<Rightarrow> ('a \<Rightarrow> 'b result) \<Rightarrow> 'b result" where
  "rbind m f = (case m of Inl e \<Rightarrow> Inl e | Inr x \<Rightarrow> f x)"

definition rwrap :: "string \<Rightarrow> 'a result \<Rightarrow> 'a result" where
  "rwrap s m = (case m of Inl e \<Rightarrow> Inl (wrapf s e) | Inr x \<Rightarrow> Inr x)"

lemma rbind_simps [simp, result_simps]:
  "rbind (Inl e) f = Inl e"
  "rbind (Inr x) f = f x"
  by (simp_all add: rbind_def)

lemma rwrap_simps [simp, result_simps]:
  "rwrap s (Inl e) = Inl (wrapf s e)"
  "rwrap s (Inr x) = Inr x"
  by (simp_all add: rwrap_def)

lemma rbind_eq_Inr [result_simps]:
  "rbind m f = Inr y \<longleftrightarrow> (\<exists>x. m = Inr x \<and> f x = Inr y)"
  by (cases m) auto

lemma rwrap_eq_Inr [simp, result_simps]: "rwrap s m = Inr y \<longleftrightarrow> m = Inr y"
  by (cases m) auto

lemma rbind_cong [fundef_cong]:
  assumes "m = m'" and "\<And>x. m' = Inr x \<Longrightarrow> f x = f' x"
  shows "rbind m f = rbind m' f'"
  using assms by (cases m') auto

lemma if_Inl_eq_Inr [result_simps]:
  "(if b then Inl e else m) = Inr y \<longleftrightarrow> \<not> b \<and> m = Inr y"
  "(if b then m else Inl e) = Inr y \<longleftrightarrow> b \<and> m = Inr y"
  by auto

text \<open>A loop that stops at the first error.\<close>

fun rmap :: "('a \<Rightarrow> 'b result) \<Rightarrow> 'a list \<Rightarrow> 'b list result" where
  "rmap f [] = Inr []"
| "rmap f (x # xs) = rbind (f x) (\<lambda>y. rbind (rmap f xs) (\<lambda>ys. Inr (y # ys)))"

lemma rmap_eq_Inr:
  "rmap f xs = Inr ys \<longleftrightarrow> list_all2 (\<lambda>x y. f x = Inr y) xs ys"
proof (induction xs arbitrary: ys)
  case Nil
  then show ?case by auto
next
  case (Cons x xs)
  then show ?case by (cases ys) (auto simp: rbind_eq_Inr)
qed

lemma rmap_InrD: "rmap f xs = Inr ys \<Longrightarrow> x \<in> set xs \<Longrightarrow> \<exists>y. f x = Inr y"
  by (induction xs arbitrary: ys) (auto simp: rbind_eq_Inr)

lemma rmap_Inr_map: "(\<And>x. x \<in> set xs \<Longrightarrow> f x = Inr (g x)) \<Longrightarrow> rmap f xs = Inr (map g xs)"
  by (induction xs) auto

section \<open>Fixed-size hashes\<close>

text \<open>\<open>type Hash [HashSize]byte\<close> (tlogx/subtree.go): an array of exactly 32 bytes.\<close>

definition HashSize :: nat where
  "HashSize = 32"

typedef Hash = "{b :: bytes. length b = 32}" morphisms hash_bytes Abs_Hash
  by (rule exI [of _ "replicate 32 0"]) simp

text \<open>\<open>copy(out[:], b)\<close> into a zero array: the first 32 bytes, the rest stays zero.\<close>

definition mk_Hash :: "bytes \<Rightarrow> Hash" where
  "mk_Hash b = Abs_Hash (take 32 (b @ replicate 32 0))"

lemma Hash_abstype [code abstype]: "Abs_Hash (hash_bytes h) = h"
  by (rule hash_bytes_inverse)

lemma hash_bytes_mk_Hash_raw [code abstract]:
  "hash_bytes (mk_Hash b) = take 32 (b @ replicate 32 0)"
  by (simp add: mk_Hash_def Abs_Hash_inverse)

lemma length_hash_bytes [simp]: "length (hash_bytes h) = 32"
  using hash_bytes [of h] by simp

lemma hash_bytes_eq_iff [simp]: "hash_bytes a = hash_bytes b \<longleftrightarrow> a = b"
  by (rule hash_bytes_inject)

lemma hash_bytes_mk_Hash: "length b = 32 \<Longrightarrow> hash_bytes (mk_Hash b) = b"
  by (simp add: hash_bytes_mk_Hash_raw)

lemma mk_Hash_hash_bytes [simp]: "mk_Hash (hash_bytes h) = h"
  by (simp flip: hash_bytes_eq_iff add: hash_bytes_mk_Hash)

instantiation Hash :: equal
begin

definition equal_Hash :: "Hash \<Rightarrow> Hash \<Rightarrow> bool" where
  "equal_Hash a b = (hash_bytes a = hash_bytes b)"

instance
  by standard (simp add: equal_Hash_def)

end

section \<open>Counting bits\<close>

text \<open>\<open>bits.Len64\<close> and \<open>bits.OnesCount64\<close> of the standard library.\<close>

fun bit_len :: "nat \<Rightarrow> nat" where
  "bit_len n = (if n = 0 then 0 else Suc (bit_len (n div 2)))"

fun ones :: "nat \<Rightarrow> nat" where
  "ones n = (if n = 0 then 0 else n mod 2 + ones (n div 2))"

declare bit_len.simps [simp del]
declare ones.simps [simp del]

definition Len64 :: "u64 \<Rightarrow> nat" where
  "Len64 x = bit_len (unat x)"

definition OnesCount64 :: "u64 \<Rightarrow> nat" where
  "OnesCount64 x = ones (unat x)"

lemma bit_len_0 [simp]: "bit_len 0 = 0"
  by (simp add: bit_len.simps)

lemma ones_0 [simp]: "ones 0 = 0"
  by (simp add: ones.simps)

lemma bit_len_pos: "0 < n \<Longrightarrow> bit_len n = Suc (bit_len (n div 2))"
  by (subst bit_len.simps) simp

lemma bit_len_eq_0 [simp]: "bit_len n = 0 \<longleftrightarrow> n = 0"
  by (subst bit_len.simps) simp

lemma bit_len_le_iff: "bit_len n \<le> k \<longleftrightarrow> n < 2 ^ k"
proof (induction n arbitrary: k rule: bit_len.induct)
  case (1 n)
  show ?case
  proof (cases "n = 0")
    case True
    then show ?thesis by simp
  next
    case False
    show ?thesis
    proof (cases k)
      case 0
      with False show ?thesis by simp
    next
      case (Suc k')
      have "bit_len n \<le> k \<longleftrightarrow> bit_len (n div 2) \<le> k'"
        using False Suc by (simp add: bit_len_pos)
      also have "\<dots> \<longleftrightarrow> n div 2 < 2 ^ k'"
        using False by (rule 1)
      also have "\<dots> \<longleftrightarrow> n < 2 ^ k"
        using Suc by (simp add: div_less_iff_less_mult mult.commute)
      finally show ?thesis .
    qed
  qed
qed

lemma less_bit_len: "n < 2 ^ bit_len n"
  using bit_len_le_iff [of n "bit_len n"] by simp

lemma bit_len_lower: "0 < n \<Longrightarrow> 2 ^ (bit_len n - 1) \<le> n"
  using bit_len_le_iff [of n "bit_len n - 1"] by (cases "bit_len n") auto

lemma bit_len_unique: "2 ^ k \<le> n \<Longrightarrow> n < 2 ^ Suc k \<Longrightarrow> bit_len n = Suc k"
proof -
  assume a: "2 ^ k \<le> n" and b: "n < 2 ^ Suc k"
  have "bit_len n \<le> Suc k" using b by (simp only: bit_len_le_iff)
  moreover have "\<not> bit_len n \<le> k" using a by (simp add: bit_len_le_iff)
  ultimately show ?thesis by simp
qed

lemma Len64_le_64: "Len64 x \<le> 64"
  unfolding Len64_def bit_len_le_iff
  using unsigned_less [of x, where ?'a = nat] by simp

section \<open>Powers of two\<close>

text \<open>The largest power of two strictly below \<open>n\<close> (for \<open>n > 1\<close>), the split point of RFC 9162.\<close>

definition lp2 :: "nat \<Rightarrow> nat" where
  "lp2 n = 2 ^ (bit_len (n - 1) - 1)"

lemma lp2_less: "1 < n \<Longrightarrow> lp2 n < n"
proof -
  assume n: "1 < n"
  then have "2 ^ (bit_len (n - 1) - 1) \<le> n - 1" by (intro bit_len_lower) simp
  with n show ?thesis by (simp add: lp2_def)
qed

lemma lp2_pos [simp]: "0 < lp2 n"
  by (simp add: lp2_def)

lemma lp2_double: "1 < n \<Longrightarrow> n \<le> 2 * lp2 n"
proof -
  assume n: "1 < n"
  then have "0 < bit_len (n - 1)" by (simp add: bit_len_pos)
  then have "2 * lp2 n = 2 ^ bit_len (n - 1)"
    by (simp add: lp2_def flip: power_Suc)
  moreover have "n - 1 < 2 ^ bit_len (n - 1)" by (rule less_bit_len)
  ultimately show ?thesis by simp
qed

lemma lp2_power: "\<exists>j. lp2 n = 2 ^ j"
  by (auto simp: lp2_def)

lemma power2_between_unique:
  fixes i j :: nat
  assumes "2 ^ i < (n::nat)" "n \<le> 2 * 2 ^ i" "2 ^ j < n" "n \<le> 2 * 2 ^ j"
  shows "i = j"
proof (rule ccontr)
  assume "i \<noteq> j"
  then consider "i < j" | "j < i" by linarith
  then show False
  proof cases
    case 1
    then have "(2::nat) ^ Suc i \<le> 2 ^ j" by (intro power_increasing) auto
    with assms show False by simp
  next
    case 2
    then have "(2::nat) ^ Suc j \<le> 2 ^ i" by (intro power_increasing) auto
    with assms show False by simp
  qed
qed

lemma lp2_unique: "2 ^ j < n \<Longrightarrow> n \<le> 2 * 2 ^ j \<Longrightarrow> lp2 n = 2 ^ j"
proof -
  assume a: "2 ^ j < n" and b: "n \<le> 2 * 2 ^ j"
  then have n: "1 < n" by (metis le_less_trans one_le_numeral one_le_power)
  obtain i where i: "lp2 n = 2 ^ i" using lp2_power by blast
  have "i = j"
    using a b lp2_less [OF n] lp2_double [OF n] i
    by (intro power2_between_unique) auto
  with i show ?thesis by simp
qed

lemma lp2_power_Suc [simp]: "lp2 (2 ^ Suc m) = 2 ^ m"
  by (rule lp2_unique) auto

lemma xor_nat_eq_0_iff: "(a::nat) XOR b = 0 \<longleftrightarrow> a = b"
proof
  assume eq: "a XOR b = 0"
  show "a = b"
  proof (rule bit_eqI)
    fix n
    have "\<not> bit (a XOR b) n" by (simp add: eq)
    then show "bit a n \<longleftrightarrow> bit b n" by (simp add: bit_xor_iff)
  qed
qed simp

lemma and_self_minus_1_double:
  "0 < (m::nat) \<Longrightarrow> (2 * m) AND (2 * m - 1) = 2 * (m AND (m - 1))"
proof -
  assume "0 < m"
  then have "2 * m - 1 = Suc (2 * (m - 1))" by simp
  then show ?thesis by (simp add: and_nat_rec [of "2 * m"])
qed

lemma and_minus_1_eq_0_iff: "0 < (n::nat) \<Longrightarrow> n AND (n - 1) = 0 \<longleftrightarrow> (\<exists>k. n = 2 ^ k)"
proof (induction n rule: bit_len.induct)
  case (1 n)
  show ?case
  proof (cases "even n")
    case True
    then obtain m where m: "n = 2 * m" by blast
    with 1(2) have mpos: "0 < m" by simp
    have "n AND (n - 1) = 0 \<longleftrightarrow> m AND (m - 1) = 0"
      using and_self_minus_1_double [OF mpos] m by simp
    also have "\<dots> \<longleftrightarrow> (\<exists>k. m = 2 ^ k)"
      using 1(1) 1(2) m mpos by simp
    also have "\<dots> \<longleftrightarrow> (\<exists>k. n = 2 ^ k)"
    proof
      assume "\<exists>k. m = 2 ^ k"
      then show "\<exists>k. n = 2 ^ k" using m by (metis power_Suc)
    next
      assume "\<exists>k. n = 2 ^ k"
      then obtain k where k: "n = 2 ^ k" by blast
      with True 1(2) obtain k' where "k = Suc k'" by (cases k) auto
      with k m show "\<exists>k. m = 2 ^ k" by auto
    qed
    finally show ?thesis .
  next
    case False
    then obtain m where m: "n = Suc (2 * m)" by (metis oddE Suc_eq_plus1)
    have "n AND (n - 1) = 2 * m"
      using m by (simp add: and_nat_rec [of "Suc (2 * m)"])
    moreover have "(\<exists>k. n = 2 ^ k) \<longleftrightarrow> m = 0"
    proof
      assume "\<exists>k. n = 2 ^ k"
      then obtain k where k: "Suc (2 * m) = 2 ^ k" using m by auto
      show "m = 0"
      proof (cases k)
        case 0
        with k show ?thesis by simp
      next
        case (Suc k')
        with k have "Suc (2 * m) = 2 * 2 ^ k'" by simp
        then show ?thesis by presburger
      qed
    next
      assume "m = 0"
      with m show "\<exists>k. n = 2 ^ k" by (intro exI [of _ 0]) simp
    qed
    ultimately show ?thesis by simp
  qed
qed

section \<open>64-bit words as natural numbers\<close>

lemma unat_less_u64: "unat (x::u64) < 2 ^ 64"
  using unsigned_less [of x, where ?'a = nat] by simp

lemma unat_drop_u64 [u64_simps]: "unat (drop_bit n x :: u64) = unat x div 2 ^ n"
  by (subst unat_drop_bit_eq) (rule drop_bit_eq_div)

lemma unat_diff_u64 [u64_simps]: "b \<le> (a::u64) \<Longrightarrow> unat (a - b) = unat a - unat b"
  by (rule unat_sub)

lemma unat_add_u64: "unat a + unat b < 2 ^ 64 \<Longrightarrow> unat (a + b :: u64) = unat a + unat b"
  by (simp add: unat_word_ariths)

lemma u64_eq_iff: "(a::u64) = b \<longleftrightarrow> unat a = unat b"
  by (rule word_unat_eq_iff)

lemma u64_less_iff: "(a::u64) < b \<longleftrightarrow> unat a < unat b"
  by (rule word_less_nat_alt)

lemma u64_le_iff: "(a::u64) \<le> b \<longleftrightarrow> unat a \<le> unat b"
  by (rule word_le_nat_alt)

lemma unat_and_1: "unat ((x::u64) AND 1) = unat x mod 2"
  by (subst unsigned_and_eq) (simp add: and_one_eq)

lemma u64_and_1_odd: "(x::u64) AND 1 = 1 \<longleftrightarrow> odd (unat x)"
  by (simp add: u64_eq_iff unat_and_1 odd_iff_mod_2_eq_one)

lemma u64_and_1_even: "(x::u64) AND 1 = 0 \<longleftrightarrow> even (unat x)"
  by (simp add: u64_eq_iff unat_and_1 even_iff_mod_2_eq_zero)

lemma u64_pow2_test: "x \<noteq> (0::u64) \<Longrightarrow> x AND (x - 1) = 0 \<longleftrightarrow> (\<exists>k. unat x = 2 ^ k)"
proof -
  assume "x \<noteq> 0"
  then have pos: "0 < unat x" by (simp add: unat_gt_0)
  have "1 \<le> x" using pos by (simp add: u64_le_iff)
  then have m: "unat (x - 1) = unat x - 1" by (simp add: unat_diff_u64)
  have "x AND (x - 1) = 0 \<longleftrightarrow> unat (x AND (x - 1)) = 0"
    by (simp only: unat_eq_zero)
  also have "\<dots> \<longleftrightarrow> unat x AND (unat x - 1) = 0"
    by (simp only: unsigned_and_eq m)
  also have "\<dots> \<longleftrightarrow> (\<exists>k. unat x = 2 ^ k)"
    using pos by (rule and_minus_1_eq_0_iff)
  finally show ?thesis .
qed

lemma unat_shift_1 [u64_simps]: "k < 64 \<Longrightarrow> unat (push_bit k 1 :: u64) = 2 ^ k"
  by (subst unsigned_push_bit_eq) (simp add: take_bit_nat_eq_self)

lemma unat_2pow [u64_simps]: "k < 64 \<Longrightarrow> unat (2 ^ k :: u64) = 2 ^ k"
  using unat_shift_1 [of k] by simp

lemma u64_mask: "(push_bit k 1 - 1 :: u64) = mask k"
  by (simp add: mask_eq_exp_minus_1)

lemma unat_push_u64:
  "unat x * 2 ^ k < 2 ^ 64 \<Longrightarrow> unat (push_bit k x :: u64) = unat x * 2 ^ k"
  by (subst unsigned_push_bit_eq) (simp add: take_bit_nat_eq_self push_bit_eq_mult)

lemma u64_clear_low:
  "unat (x AND NOT (push_bit k 1 - 1) :: u64) = unat x div 2 ^ k * 2 ^ k"
proof -
  have eq: "x AND NOT (mask k) = push_bit k (drop_bit k x)"
    by (rule bit_word_eqI) (auto simp: bit_simps)
  have "unat x div 2 ^ k * 2 ^ k \<le> unat x" by simp
  then have "unat (drop_bit k x) * 2 ^ k < 2 ^ 64"
    unfolding unat_drop_u64 using unat_less_u64 [of x] by linarith
  then show ?thesis
    unfolding u64_mask eq by (simp only: unat_push_u64 unat_drop_u64)
qed

lemma u64_low_complement:
  assumes "k \<le> 64"
  shows "unat (NOT x AND (push_bit k 1 - 1) :: u64) = 2 ^ k - 1 - unat x mod 2 ^ k"
proof -
  let ?a = "NOT x AND mask k" and ?b = "x AND mask k"
  have "?a OR ?b = mask k" and "?a AND ?b = 0"
    by (auto intro!: bit_word_eqI simp: bit_simps)
  then have "unat ?a OR unat ?b = unat (mask k :: u64)" and "unat ?a AND unat ?b = 0"
    by (metis unsigned_or_eq, metis unsigned_and_eq unsigned_0)
  then have "unat ?a + unat ?b = unat (mask k :: u64)"
    using disjunctive_add_eq_or [of "unat ?a" "unat ?b"] by simp
  moreover have "unat (mask k :: u64) = mask k"
  proof -
    have "(mask k :: u64) = of_nat (mask k)" by (simp add: of_nat_mask_eq)
    moreover have "(2::nat) ^ k \<le> 2 ^ 64" using assms by (intro power_increasing) simp_all
    then have "mask k < (2::nat) ^ 64"
      by (simp only: mask_eq_exp_minus_1) (simp add: less_le_trans)
    ultimately show ?thesis by (simp add: unat_of_nat)
  qed
  moreover have "unat ?b = unat x mod 2 ^ k"
    by (simp add: unsigned_take_bit_eq flip: take_bit_eq_mask take_bit_eq_mod)
  ultimately show ?thesis unfolding u64_mask by (simp add: mask_eq_exp_minus_1)
qed


lemma unat_of_nat64: "n < 2 ^ 64 \<Longrightarrow> unat (of_nat n :: u64) = n"
  by (simp add: unat_of_nat take_bit_nat_eq_self)

lemma of_nat64_inject: "m < 2 ^ 64 \<Longrightarrow> n < 2 ^ 64 \<Longrightarrow> (of_nat m :: u64) = of_nat n \<longleftrightarrow> m = n"
  by (metis unat_of_nat64)

end
