(* ===== verification/Wire.thy ===== *)
theory Wire
  imports Prelude
begin

text \<open>
  What the code uses of the Go standard library and of cryptobyte for its encodings: strings as byte
  strings, decimal formatting and parsing (\<open>strconv\<close>), \<open>strings.Split\<close> and \<open>strings.Join\<close>,
  big-endian integers and length-prefixed vectors.
\<close>

section \<open>Strings and bytes\<close>

text \<open>A Go string is a sequence of bytes; \<open>[]byte(s)\<close> and \<open>string(b)\<close> convert.\<close>

definition bytes_of :: "string \<Rightarrow> bytes" where
  "bytes_of s = map of_char s"

definition string_of :: "bytes \<Rightarrow> string" where
  "string_of b = map (\<lambda>x. char_of (unat x)) b"

lemma of_char_byte: "unat (of_char c :: byte) = of_char c"
proof -
  have lt: "(of_char c :: nat) < 256" by simp
  have "(of_char c :: byte) = of_nat (of_char c)" by (simp add: of_nat_of_char)
  then have "unat (of_char c :: byte) = take_bit 8 (of_char c :: nat)"
    by (simp only: unsigned_of_nat) simp
  with lt show ?thesis by (simp add: take_bit_nat_eq_self)
qed

lemma string_of_bytes_of [simp]: "string_of (bytes_of s) = s"
  by (induction s) (simp_all add: string_of_def bytes_of_def of_char_byte)

lemma bytes_of_inject [simp]: "bytes_of s = bytes_of t \<longleftrightarrow> s = t"
  by (metis string_of_bytes_of)

lemma length_bytes_of [simp]: "length (bytes_of s) = length s"
  by (simp add: bytes_of_def)

lemma bytes_of_eq_Nil [simp]: "bytes_of s = [] \<longleftrightarrow> s = []"
  by (simp add: bytes_of_def)

lemma bytes_of_append [simp]: "bytes_of (s @ t) = bytes_of s @ bytes_of t"
  by (simp add: bytes_of_def)

section \<open>Decimal numbers\<close>

definition digit_char :: "nat \<Rightarrow> char" where
  "digit_char d = char_of (48 + d)"

text \<open>\<open>strconv.FormatUint(v, 10)\<close> and \<open>%d\<close>.\<close>

fun decimal :: "nat \<Rightarrow> string" where
  "decimal n = (if n < 10 then [digit_char n] else decimal (n div 10) @ [digit_char (n mod 10)])"

declare decimal.simps [simp del]

definition is_digit :: "char \<Rightarrow> bool" where
  "is_digit c = (48 \<le> (of_char c :: nat) \<and> (of_char c :: nat) \<le> 57)"

definition digit_val :: "char \<Rightarrow> nat" where
  "digit_val c = of_char c - 48"

text \<open>\<open>strconv.ParseUint(s, 10, 64)\<close>.\<close>

fun parse_digits :: "nat \<Rightarrow> string \<Rightarrow> nat result" where
  "parse_digits n [] = Inr n"
| "parse_digits n (c # cs) =
     (if \<not> is_digit c then Inl (Errorf ''invalid syntax'')
      else if n * 10 + digit_val c \<ge> 2 ^ 64 then Inl (Errorf ''value out of range'')
      else parse_digits (n * 10 + digit_val c) cs)"

definition ParseUint :: "string \<Rightarrow> u64 result" where
  "ParseUint s = (if s = [] then Inl (Errorf ''invalid syntax'')
     else rbind (parse_digits 0 s) (\<lambda>n. Inr (of_nat n)))"

definition FormatUint :: "u64 \<Rightarrow> string" where
  "FormatUint v = decimal (unat v)"

lemma digit_char_props:
  assumes "d < 10"
  shows "is_digit (digit_char d)" "digit_val (digit_char d) = d"
  using assms by (simp_all add: is_digit_def digit_val_def digit_char_def of_char_of)

lemma decimal_not_Nil [simp]: "decimal n \<noteq> []"
  by (subst decimal.simps) simp

lemma decimal_digits: "c \<in> set (decimal n) \<Longrightarrow> is_digit c"
proof (induction n rule: decimal.induct)
  case (1 n)
  then show ?case
    by (subst (asm) (2) decimal.simps) (auto simp: digit_char_props split: if_splits)
qed

lemma parse_digits_append:
  "parse_digits n (xs @ ys) = rbind (parse_digits n xs) (\<lambda>m. parse_digits m ys)"
  by (induction xs arbitrary: n) simp_all

lemma parse_decimal: "n < 2 ^ 64 \<Longrightarrow> parse_digits 0 (decimal n) = Inr n"
proof (induction n rule: decimal.induct)
  case (1 n)
  show ?case
  proof (cases "n < 10")
    case True
    then show ?thesis by (subst decimal.simps) (simp add: digit_char_props)
  next
    case False
    have "n div 10 < 2 ^ 64" using 1(2) by (rule le_less_trans [OF div_le_dividend])
    then have "parse_digits 0 (decimal (n div 10)) = Inr (n div 10)" using 1(1) False by simp
    moreover have "n div 10 * 10 + n mod 10 = n" by (rule div_mult_mod_eq)
    ultimately show ?thesis
      using False 1(2) by (subst decimal.simps) (simp add: parse_digits_append digit_char_props)
  qed
qed

lemma ParseUint_FormatUint [simp]: "ParseUint (FormatUint v) = Inr v"
  using parse_decimal [OF unat_less_u64 [of v]] by (simp add: ParseUint_def FormatUint_def)

lemma decimal_inject: "m < 2 ^ 64 \<Longrightarrow> n < 2 ^ 64 \<Longrightarrow> decimal m = decimal n \<longleftrightarrow> m = n"
  by (metis parse_decimal sum.inject(2))

section \<open>Splitting and joining\<close>

text \<open>\<open>strings.Split(s, sep)\<close> for a one-byte separator: at least one part.\<close>

fun split_on :: "char \<Rightarrow> string \<Rightarrow> string list" where
  "split_on sep [] = [[]]"
| "split_on sep (c # cs) =
     (if c = sep then [] # split_on sep cs
      else (case split_on sep cs of [] \<Rightarrow> [[c]] | p # ps \<Rightarrow> (c # p) # ps))"

fun join_with :: "char \<Rightarrow> string list \<Rightarrow> string" where
  "join_with sep [] = []"
| "join_with sep [p] = p"
| "join_with sep (p # q # ps) = p @ sep # join_with sep (q # ps)"

lemma split_on_not_Nil [simp]: "split_on sep s \<noteq> []"
  by (cases s) (auto split: list.splits)

lemma split_on_no_sep: "sep \<notin> set s \<Longrightarrow> split_on sep s = [s]"
  by (induction s) auto

lemma split_on_append:
  "sep \<notin> set s \<Longrightarrow> split_on sep (s @ sep # t) = s # split_on sep t"
  by (induction s) auto

lemma split_join:
  "ps \<noteq> [] \<Longrightarrow> (\<And>p. p \<in> set ps \<Longrightarrow> sep \<notin> set p) \<Longrightarrow> split_on sep (join_with sep ps) = ps"
  by (induction sep ps rule: join_with.induct) (simp_all add: split_on_no_sep split_on_append)

lemma join_split: "join_with sep (split_on sep s) = s"
proof (induction s)
  case (Cons c cs)
  obtain p ps where ps: "split_on sep cs = p # ps" by (metis split_on_not_Nil list.exhaust)
  have "join_with sep ([] # p # ps) = sep # cs" using Cons ps by simp
  moreover have "join_with sep ((c # p) # ps) = c # cs" using Cons ps by (cases ps) auto
  ultimately show ?case using ps by simp
qed simp

lemma split_on_sep_append: "split_on sep (s @ sep # t) = split_on sep s @ split_on sep t"
proof (induction s)
  case (Cons c s)
  obtain p ps where "split_on sep s = p # ps" by (metis split_on_not_Nil list.exhaust)
  with Cons show ?case by simp
qed simp

lemma join_with_append:
  "xs \<noteq> [] \<Longrightarrow> ys \<noteq> [] \<Longrightarrow> join_with sep (xs @ ys) = join_with sep xs @ sep # join_with sep ys"
proof (induction sep xs rule: join_with.induct)
  case (2 sep p)
  then show ?case by (cases ys) simp_all
qed simp_all

lemma split_on_no_sep_in: "p \<in> set (split_on sep s) \<Longrightarrow> sep \<notin> set p"
proof (induction s arbitrary: p)
  case (Cons c s)
  obtain q ps where "split_on sep s = q # ps" by (metis split_on_not_Nil list.exhaust)
  with Cons show ?case by (auto split: if_splits)
qed simp

section \<open>Big-endian integers\<close>

fun be :: "nat \<Rightarrow> nat \<Rightarrow> bytes" where
  "be 0 n = []"
| "be (Suc k) n = be k (n div 256) @ [of_nat n]"

definition unbe :: "bytes \<Rightarrow> nat" where
  "unbe bs = foldl (\<lambda>a b. a * 256 + unat b) 0 bs"

lemma length_be [simp]: "length (be k n) = k"
  by (induction k arbitrary: n) simp_all

lemma unbe_snoc [simp]: "unbe (bs @ [b]) = unbe bs * 256 + unat b"
  by (simp add: unbe_def)

lemma unbe_Nil [simp]: "unbe [] = 0"
  by (simp add: unbe_def)

lemma unat_of_nat_byte: "unat (of_nat n :: byte) = n mod 256"
  by (simp add: unsigned_of_nat take_bit_eq_mod)

lemma unbe_be: "n < 256 ^ k \<Longrightarrow> unbe (be k n) = n"
proof (induction k arbitrary: n)
  case (Suc k)
  then have "n div 256 < 256 ^ k" by (simp add: less_mult_imp_div_less mult.commute)
  with Suc.IH show ?case by (simp add: unat_of_nat_byte)
qed simp

lemma be_unbe: "be (length bs) (unbe bs) = bs"
proof (induction bs rule: rev_induct)
  case (snoc b bs)
  have "unat b < 256" using unsigned_less [of b, where ?'a = nat] by simp
  then have "(unbe bs * 256 + unat b) div 256 = unbe bs" by simp
  moreover have "(of_nat (unbe bs * 256 + unat b) :: byte) = b"
  proof -
    have "unat (of_nat (unbe bs * 256 + unat b) :: byte) = unat b"
      unfolding unat_of_nat_byte using \<open>unat b < 256\<close> by simp
    then show ?thesis by (simp only: word_unat_eq_iff)
  qed
  ultimately show ?case using snoc by simp
qed simp

lemma unbe_less: "unbe bs < 256 ^ length bs"
proof (induction bs rule: rev_induct)
  case (snoc b bs)
  have "unat b < 256" using unsigned_less [of b, where ?'a = nat] by simp
  with snoc show ?case by simp
qed simp

lemma be_step: "0 < k \<Longrightarrow> be k n = be (k - 1) (n div 256) @ [of_nat n]"
  by (cases k) simp_all

lemma be_unfold:
  "be (Suc 0) n = [of_nat n]" "be 1 n = [of_nat n]"
  "be 2 n = [of_nat (n div 2 ^ 8), of_nat n]"
  "be 3 n = [of_nat (n div 2 ^ 16), of_nat (n div 2 ^ 8), of_nat n]"
  "be 4 n = [of_nat (n div 2 ^ 24), of_nat (n div 2 ^ 16), of_nat (n div 2 ^ 8), of_nat n]"
  by (simp_all add: be_step div_mult2_eq [symmetric])

lemma be_inject: "m < 256 ^ k \<Longrightarrow> n < 256 ^ k \<Longrightarrow> be k m = be k n \<longleftrightarrow> m = n"
  by (metis unbe_be)

section \<open>cryptobyte\<close>

text \<open>
  A \<open>Builder\<close> that holds a length-prefixed child fails in \<open>Bytes\<close> when the child does not fit its
  prefix. A \<open>String\<close> reader returns the value and the rest, or fails.
\<close>

definition prefixed :: "nat \<Rightarrow> bytes \<Rightarrow> bytes result" where
  "prefixed k b = (if length b \<ge> 256 ^ k then Inl (Errorf ''cryptobyte: pending child length exceeds length prefix'')
     else Inr (be k (length b) @ b))"

abbreviation AddUint8LengthPrefixed :: "bytes \<Rightarrow> bytes result" where
  "AddUint8LengthPrefixed \<equiv> prefixed 1"

abbreviation AddUint16LengthPrefixed :: "bytes \<Rightarrow> bytes result" where
  "AddUint16LengthPrefixed \<equiv> prefixed 2"

definition read_bytes :: "nat \<Rightarrow> bytes \<Rightarrow> (bytes \<times> bytes) option" where
  "read_bytes n s = (if n \<le> length s then Some (take n s, drop n s) else None)"

definition read_prefixed :: "nat \<Rightarrow> bytes \<Rightarrow> (bytes \<times> bytes) option" where
  "read_prefixed k s =
     (case read_bytes k s of None \<Rightarrow> None | Some (l, s') \<Rightarrow> read_bytes (unbe l) s')"

abbreviation ReadUint8LengthPrefixed :: "bytes \<Rightarrow> (bytes \<times> bytes) option" where
  "ReadUint8LengthPrefixed \<equiv> read_prefixed 1"

abbreviation ReadUint16LengthPrefixed :: "bytes \<Rightarrow> (bytes \<times> bytes) option" where
  "ReadUint16LengthPrefixed \<equiv> read_prefixed 2"

definition ReadUint16 :: "bytes \<Rightarrow> (u16 \<times> bytes) option" where
  "ReadUint16 s = (case read_bytes 2 s of None \<Rightarrow> None | Some (l, s') \<Rightarrow> Some (of_nat (unbe l), s'))"

lemma opt_case_eq_Inr:
  "(case r of None \<Rightarrow> Inl e | Some x \<Rightarrow> f x) = Inr y \<longleftrightarrow> (\<exists>x. r = Some x \<and> f x = Inr y)"
  by (cases r) auto

lemma read_bytes_append [simp]: "length a = n \<Longrightarrow> read_bytes n (a @ b) = Some (a, b)"
  by (simp add: read_bytes_def)

lemma read_bytes_SomeD: "read_bytes n s = Some (a, b) \<Longrightarrow> s = a @ b \<and> length a = n"
  by (auto simp: read_bytes_def split: if_splits)

lemma read_prefixed_prefixed:
  assumes "prefixed k b = Inr e"
  shows "read_prefixed k (e @ rest) = Some (b, rest)"
  using assms by (auto simp: prefixed_def read_prefixed_def unbe_be split: if_splits)

lemma read_prefixed_SomeD:
  assumes "read_prefixed k s = Some (b, rest)"
  shows "\<exists>e. prefixed k b = Inr e \<and> s = e @ rest"
proof -
  obtain l s' where l: "read_bytes k s = Some (l, s')" and b: "read_bytes (unbe l) s' = Some (b, rest)"
    using assms by (auto simp: read_prefixed_def split: option.splits)
  have s: "s = l @ s'" "length l = k" "s' = b @ rest" "length b = unbe l"
    using read_bytes_SomeD [OF l] read_bytes_SomeD [OF b] by auto
  have "be k (length b) = l" using be_unbe [of l] s by simp
  moreover have "length b < 256 ^ k" using unbe_less [of l] s by simp
  ultimately show ?thesis using s by (auto simp: prefixed_def)
qed

lemma prefixed_length: "prefixed k b = Inr e \<Longrightarrow> length e = k + length b"
  by (auto simp: prefixed_def split: if_splits)

lemma prefixed_ok: "length b < 256 ^ k \<Longrightarrow> prefixed k b = Inr (be k (length b) @ b)"
  by (simp add: prefixed_def)

lemma ReadUint16_be: "ReadUint16 (be 2 (unat t) @ rest) = Some (t, rest)"
proof -
  have "unat t < 256 ^ 2" using unsigned_less [of t, where ?'a = nat] by simp
  then show ?thesis by (simp add: ReadUint16_def unbe_be)
qed

lemma read_shorter:
  "read_bytes n s = Some (a, b) \<Longrightarrow> length b \<le> length s"
  "read_prefixed k s = Some (a, b) \<Longrightarrow> length b \<le> length s"
  "ReadUint16 s = Some (t, b) \<Longrightarrow> length b < length s"
  by (auto simp: read_bytes_def read_prefixed_def ReadUint16_def split: if_splits option.splits)

lemma read_prefixed_shorter: "0 < k \<Longrightarrow> read_prefixed k s = Some (a, b) \<Longrightarrow> length b < length s"
  by (auto simp: read_bytes_def read_prefixed_def split: if_splits option.splits)

lemma read8_shorter: "read_prefixed (Suc 0) s = Some (a, b) \<Longrightarrow> length b < length s"
  by (rule read_prefixed_shorter [OF zero_less_Suc])

lemma read16_le: "ReadUint16LengthPrefixed s = Some (a, b) \<Longrightarrow> length b \<le> length s"
  by (rule read_shorter(2))

section \<open>Shifted octets\<close>

lemma or_byte:
  assumes "unat a < 2 ^ 56"
  shows "unat (push_bit 8 a OR ucast (b :: byte) :: u64) = unat a * 256 + unat b"
proof -
  have b: "unat (ucast b :: u64) = unat b"
    using unsigned_less [of b, where ?'a = nat] by (simp add: unsigned_ucast_eq take_bit_nat_eq_self)
  have "push_bit 8 a AND (ucast b :: u64) = 0"
    by (rule bit_word_eqI) (auto simp: bit_simps dest: bit_imp_le_length)
  then have "push_bit 8 a OR ucast b = push_bit 8 a + (ucast b :: u64)"
    by (simp add: disjunctive_add_eq_or)
  moreover have p: "unat (push_bit 8 a) = unat a * 256"
    using assms by (subst unat_push_u64) simp_all
  moreover have "unat b < 256" using unsigned_less [of b, where ?'a = nat] by simp
  ultimately show ?thesis
    using assms b by (simp add: unat_add_u64)
qed

section \<open>Stable sorting\<close>

text \<open>\<open>sort.SliceStable\<close>: insertion from the right keeps the order of equal elements.\<close>

fun insert_by :: "('a \<Rightarrow> 'a \<Rightarrow> bool) \<Rightarrow> 'a \<Rightarrow> 'a list \<Rightarrow> 'a list" where
  "insert_by lt x [] = [x]"
| "insert_by lt x (y # ys) = (if lt y x then y # insert_by lt x ys else x # y # ys)"

definition stable_sort :: "('a \<Rightarrow> 'a \<Rightarrow> bool) \<Rightarrow> 'a list \<Rightarrow> 'a list" where
  "stable_sort lt xs = foldr (insert_by lt) xs []"

lemma set_insert_by [simp]: "set (insert_by lt x ys) = insert x (set ys)"
  by (induction ys) auto

lemma set_stable_sort [simp]: "set (stable_sort lt xs) = set xs"
  unfolding stable_sort_def by (induction xs) simp_all

lemma length_insert_by [simp]: "length (insert_by lt x ys) = Suc (length ys)"
  by (induction ys) auto

lemma length_stable_sort [simp]: "length (stable_sort lt xs) = length xs"
  unfolding stable_sort_def by (induction xs) simp_all

text \<open>No element is followed directly by a smaller one.\<close>

fun no_descent :: "('a \<Rightarrow> 'a \<Rightarrow> bool) \<Rightarrow> 'a list \<Rightarrow> bool" where
  "no_descent lt (x # y # ys) = (\<not> lt y x \<and> no_descent lt (y # ys))"
| "no_descent lt xs = True"

lemma insert_by_no_descent:
  assumes "\<And>x y. lt x y \<Longrightarrow> \<not> lt y x"
  shows "no_descent lt ys \<Longrightarrow> no_descent lt (insert_by lt x ys)"
proof (induction ys)
  case (Cons y ys)
  then show ?case using assms by (cases ys) auto
qed simp

lemma stable_sort_no_descent:
  assumes "\<And>x y. lt x y \<Longrightarrow> \<not> lt y x"
  shows "no_descent lt (stable_sort lt xs)"
  unfolding stable_sort_def by (induction xs) (simp_all add: insert_by_no_descent [OF assms])

lemma stable_sort_sorted: "no_descent lt xs \<Longrightarrow> stable_sort lt xs = xs"
proof (induction xs)
  case (Cons x xs)
  then show ?case by (cases xs) (simp_all add: stable_sort_def)
qed (simp add: stable_sort_def)

lemma map_insert_by:
  "(\<And>y. y \<in> insert x (set ys) \<Longrightarrow> lt y x = lt' (f y) (f x)) \<Longrightarrow>
    map f (insert_by lt x ys) = insert_by lt' (f x) (map f ys)"
  by (induction ys) auto

lemma map_stable_sort:
  "(\<And>x y. x \<in> set xs \<Longrightarrow> y \<in> set xs \<Longrightarrow> lt x y = lt' (f x) (f y)) \<Longrightarrow>
    map f (stable_sort lt xs) = stable_sort lt' (map f xs)"
proof (induction xs)
  case (Cons x xs)
  have "map f (insert_by lt x (stable_sort lt xs)) = insert_by lt' (f x) (map f (stable_sort lt xs))"
    using Cons.prems by (intro map_insert_by) auto
  with Cons show ?case by (simp add: stable_sort_def)
qed (simp add: stable_sort_def)

end
