(* ===== verification/GoStrings.thy ===== *)
theory GoStrings
  imports Wire
begin

text \<open>
  What the code uses of the packages \<open>strings\<close> and \<open>encoding/base64\<close>. A Go string is a list of bytes;
  white space is that of ASCII text.
\<close>

section \<open>Package strings\<close>

definition TrimPrefix :: "string \<Rightarrow> string \<Rightarrow> string" where
  "TrimPrefix s p = (if take (length p) s = p then drop (length p) s else s)"

definition HasPrefix :: "string \<Rightarrow> string \<Rightarrow> bool" where
  "HasPrefix s p = (take (length p) s = p)"

definition is_space :: "char \<Rightarrow> bool" where
  "is_space c = (c \<in> {CHR 0x20, CHR 0x09, CHR 0x0A, CHR 0x0B, CHR 0x0C, CHR 0x0D})"

definition TrimRight :: "char \<Rightarrow> string \<Rightarrow> string" where
  "TrimRight c s = rev (dropWhile (\<lambda>x. x = c) (rev s))"

definition TrimSpace :: "string \<Rightarrow> string" where
  "TrimSpace s = rev (dropWhile is_space (rev (dropWhile is_space s)))"

function Fields :: "string \<Rightarrow> string list" where
  "Fields s =
     (let t = dropWhile is_space s
      in if t = [] then [] else takeWhile (\<lambda>c. \<not> is_space c) t # Fields (dropWhile (\<lambda>c. \<not> is_space c) t))"
  by pat_completeness auto
termination
proof (relation "measure length")
  fix s t :: string
  assume t: "t = dropWhile is_space s" "t \<noteq> []"
  have "\<not> is_space (hd t)" using t hd_dropWhile by blast
  then have "length (dropWhile (\<lambda>c. \<not> is_space c) t) < length t"
    using t(2) length_dropWhile_le [of "\<lambda>c. \<not> is_space c" "tl t"] by (cases t) (simp_all add: less_Suc_eq_le)
  also have "\<dots> \<le> length s" using t(1) length_dropWhile_le [of is_space s] by simp
  finally show "(dropWhile (\<lambda>c. \<not> is_space c) t, s) \<in> measure length" by simp
qed simp

declare Fields.simps [simp del]

lemma concat_lines: "xs \<noteq> [] \<Longrightarrow> concat (map (\<lambda>x. x @ [c]) xs) = join_with c xs @ [c]"
  by (induction xs rule: join_with.induct) auto

lemma last_join_with: "xs \<noteq> [] \<Longrightarrow> last xs \<noteq> [] \<Longrightarrow> join_with c xs \<noteq> [] \<and> last (join_with c xs) = last (last xs)"
  by (induction c xs rule: join_with.induct) auto

lemma TrimRight_line: "s \<noteq> [] \<Longrightarrow> last s \<noteq> c \<Longrightarrow> TrimRight c (s @ [c]) = s"
  by (cases s rule: rev_cases) (simp_all add: TrimRight_def)

lemma split_lines:
  assumes "xs \<noteq> []" "\<forall>x\<in>set xs. x \<noteq> [] \<and> c \<notin> set x"
  shows "split_on c (TrimRight c (concat (map (\<lambda>x. x @ [c]) xs))) = xs"
proof -
  have l: "last xs \<noteq> []" "c \<notin> set (last xs)" using assms by auto
  have "last (join_with c xs) \<noteq> c" "join_with c xs \<noteq> []"
    using last_join_with [OF assms(1) l(1), of c] l last_in_set by metis+
  then show ?thesis
    using assms by (simp add: concat_lines TrimRight_line split_join)
qed

lemma digit_not_space: "is_digit c \<Longrightarrow> \<not> is_space c"
  by (auto simp: is_digit_def is_space_def)

lemma uint_not_space: "\<forall>c\<in>set (FormatUint v). \<not> is_space c"
  by (auto simp: FormatUint_def dest: decimal_digits digit_not_space)

lemma takeWhile_word: "\<forall>c\<in>set a. \<not> is_space c \<Longrightarrow> takeWhile (\<lambda>c. \<not> is_space c) (a @ CHR '' '' # b) = a"
  by (induction a) (auto simp: is_space_def)

lemma dropWhile_word: "\<forall>c\<in>set a. \<not> is_space c \<Longrightarrow> dropWhile (\<lambda>c. \<not> is_space c) (a @ CHR '' '' # b) = CHR '' '' # b"
  by (induction a) (auto simp: is_space_def)

lemma dropWhile_space_word: "\<forall>c\<in>set a. \<not> is_space c \<Longrightarrow> dropWhile is_space a = a"
  by (cases a) auto

lemma Fields_word: "a \<noteq> [] \<Longrightarrow> \<forall>c\<in>set a. \<not> is_space c \<Longrightarrow> Fields a = [a]"
proof -
  assume a: "a \<noteq> []" "\<forall>c\<in>set a. \<not> is_space c"
  have d: "dropWhile (\<lambda>c. \<not> is_space c) a = []" and "takeWhile (\<lambda>c. \<not> is_space c) a = a"
    using a(2) by (simp_all add: dropWhile_eq_Nil_conv takeWhile_eq_all_conv)
  moreover have "Fields (dropWhile (\<lambda>c. \<not> is_space c) a) = []" unfolding d by (simp add: Fields.simps)
  ultimately show ?thesis using a
    by (simp add: Fields.simps [of a] Fields.simps [of "[]"] dropWhile_space_word Let_def)
qed

lemma Fields_two:
  assumes "a \<noteq> []" "\<forall>c\<in>set a. \<not> is_space c" "b \<noteq> []" "\<forall>c\<in>set b. \<not> is_space c"
  shows "Fields (a @ CHR '' '' # b) = [a, b]"
proof -
  have sp: "is_space (CHR '' '')" by (simp add: is_space_def)
  have "dropWhile is_space (a @ CHR '' '' # b) = a @ CHR '' '' # b" using assms(1,2) by (cases a) auto
  moreover have "Fields (CHR '' '' # b) = Fields b"
    using sp by (simp add: Fields.simps [of "CHR '' '' # b"] Fields.simps [of b])
  ultimately show ?thesis
    using assms sp by (subst Fields.simps) (simp add: Let_def takeWhile_word dropWhile_word Fields_word)
qed



text \<open>\<open>strings.SplitN(s, sep, 2)\<close>: the text before and after the first separator, or no separator.\<close>

fun split2 :: "string \<Rightarrow> string \<Rightarrow> (string \<times> string) option" where
  "split2 sep [] = None"
| "split2 sep (c # s) =
     (if HasPrefix (c # s) sep then Some ([], drop (length sep) (c # s))
      else map_option (\<lambda>(a, b). (c # a, b)) (split2 sep s))"

lemma HasPrefix_append [simp]: "HasPrefix (p @ s) p"
  by (simp add: HasPrefix_def)

lemma TrimPrefix_append [simp]: "TrimPrefix (p @ s) p = s"
  by (simp add: TrimPrefix_def)

lemma split2_char: "c \<notin> set a \<Longrightarrow> split2 [c] (a @ c # b) = Some (a, b)"
  by (induction a) (auto simp: HasPrefix_def)

lemma HasPrefix_Cons: "HasPrefix (c # s) (d # p) \<longleftrightarrow> c = d \<and> HasPrefix s p"
  by (simp add: HasPrefix_def)

text \<open>The blank line after lines that are not empty is the first one.\<close>

lemma split2_line:
  assumes "c \<notin> set x" "d \<noteq> c"
  shows "split2 [c, c] (x @ c # d # s) = map_option (\<lambda>(a, b). (x @ c # a, b)) (split2 [c, c] (d # s))"
  using assms
proof (induction x)
  case Nil
  then show ?case by (simp add: HasPrefix_Cons)
next
  case (Cons y x)
  then show ?case by (cases "split2 [c, c] (d # s)") (auto simp: HasPrefix_Cons)
qed

lemma split2_last_line: "c \<notin> set x \<Longrightarrow> split2 [c, c] (x @ c # c # b) = Some (x, b)"
  by (induction x) (auto simp: HasPrefix_Cons HasPrefix_def)

lemma split2_blank_line:
  assumes "xs \<noteq> []" "\<forall>x\<in>set xs. x \<noteq> [] \<and> c \<notin> set x"
  shows "split2 [c, c] (join_with c xs @ c # c # b) = Some (join_with c xs, b)"
  using assms
proof (induction c xs rule: join_with.induct)
  case (3 c x y ys)
  obtain d z where d: "y = d # z" "d \<noteq> c" using 3(3) by (cases y) auto
  then obtain t where t: "join_with c (y # ys) = d # t" by (cases ys) auto
  have "split2 [c, c] (d # t @ c # c # b) = Some (d # t, b)" using 3 t by simp
  moreover have "c \<notin> set x" using 3(3) by simp
  ultimately show ?case using split2_line [of c x d "t @ c # c # b"] d(2) t by simp
qed (simp_all add: split2_last_line)

section \<open>Package encoding/base64\<close>

definition b64char :: "nat \<Rightarrow> char" where
  "b64char i = char_of (if i < 26 then 65 + i else if i < 52 then 71 + i else if i < 62 then i - 4
     else if i = 62 then 43 else 47)"

definition b64val :: "char \<Rightarrow> nat option" where
  "b64val c = (let n = of_char c :: nat in
     if 65 \<le> n \<and> n \<le> 90 then Some (n - 65) else if 97 \<le> n \<and> n \<le> 122 then Some (n - 71)
     else if 48 \<le> n \<and> n \<le> 57 then Some (n + 4) else if n = 43 then Some 62 else if n = 47 then Some 63 else None)"

definition b64chars :: "nat \<Rightarrow> string" where
  "b64chars n = [b64char (n div 2 ^ 18 mod 64), b64char (n div 2 ^ 12 mod 64), b64char (n div 2 ^ 6 mod 64), b64char (n mod 64)]"

text \<open>\<open>base64.StdEncoding.EncodeToString\<close>.\<close>

fun EncodeToString :: "bytes \<Rightarrow> string" where
  "EncodeToString [] = []"
| "EncodeToString [a] = take 2 (b64chars (unat a * 2 ^ 16)) @ ''==''"
| "EncodeToString [a, b] = take 3 (b64chars (unat a * 2 ^ 16 + unat b * 2 ^ 8)) @ ''=''"
| "EncodeToString (a # b # c # r) = b64chars (unat a * 2 ^ 16 + unat b * 2 ^ 8 + unat c) @ EncodeToString r"

text \<open>
  \<open>base64.StdEncoding.DecodeString\<close>: carriage returns and newlines are skipped anywhere, padding is
  required, and the unused bits of the last group are not checked.
\<close>

fun decodeQuanta :: "string \<Rightarrow> bytes result" where
  "decodeQuanta [] = Inr []"
| "decodeQuanta (c0 # c1 # c2 # c3 # r) =
     (case (b64val c0, b64val c1) of
        (Some v0, Some v1) \<Rightarrow>
          (case b64val c2 of
             None \<Rightarrow>
               if c2 = CHR ''='' \<and> c3 = CHR ''='' \<and> r = [] then Inr [of_nat ((v0 * 2 ^ 18 + v1 * 2 ^ 12) div 2 ^ 16)]
               else Inl (Errorf ''illegal base64 data'')
           | Some v2 \<Rightarrow>
               (case b64val c3 of
                  None \<Rightarrow>
                    if c3 = CHR ''='' \<and> r = [] then
                      Inr [of_nat ((v0 * 2 ^ 18 + v1 * 2 ^ 12 + v2 * 2 ^ 6) div 2 ^ 16),
                           of_nat ((v0 * 2 ^ 18 + v1 * 2 ^ 12 + v2 * 2 ^ 6) div 2 ^ 8)]
                    else Inl (Errorf ''illegal base64 data'')
                | Some v3 \<Rightarrow>
                    let n = v0 * 2 ^ 18 + v1 * 2 ^ 12 + v2 * 2 ^ 6 + v3
                    in rbind (decodeQuanta r) (\<lambda>rest. Inr (of_nat (n div 2 ^ 16) # of_nat (n div 2 ^ 8) # of_nat n # rest))))
      | _ \<Rightarrow> Inl (Errorf ''illegal base64 data''))"
| "decodeQuanta _ = Inl (Errorf ''illegal base64 data'')"

definition DecodeString :: "string \<Rightarrow> bytes result" where
  "DecodeString s = decodeQuanta (filter (\<lambda>c. c \<noteq> CHR 0x0A \<and> c \<noteq> CHR 0x0D) s)"

lemma b64val_char: "i < 64 \<Longrightarrow> b64val (b64char i) = Some i"
proof -
  assume i: "i < 64"
  have "of_char (b64char i) = (if i < 26 then 65 + i else if i < 52 then 71 + i else if i < 62 then i - 4
      else if i = 62 then 43 else 47)"
    using i by (simp add: b64char_def of_char_of)
  then show ?thesis using i by (auto simp: b64val_def Let_def)
qed

lemma b64_group:
  assumes "n < 2 ^ 24"
  shows "(n div 2 ^ 18 mod 64) * 2 ^ 18 + (n div 2 ^ 12 mod 64) * 2 ^ 12 + (n div 2 ^ 6 mod 64) * 2 ^ 6 + n mod 64 = (n :: nat)"
proof -
  define a b r0 r1 r2 where d: "a = n div 64" "b = a div 64" "r0 = n mod 64" "r1 = a mod 64" "r2 = b mod 64"
  have top: "n div 2 ^ 18 mod 64 = n div 2 ^ 18" using assms by (simp add: div_less_iff_less_mult)
  have q: "n div 2 ^ 18 = b div 64" "n div 2 ^ 12 = b" "n div 2 ^ 6 = a"
    unfolding d by (simp_all flip: div_mult2_eq)
  have e: "n = a * 64 + r0" "a = b * 64 + r1" "b = b div 64 * 64 + r2" unfolding d by simp_all
  have "b div 64 * 2 ^ 18 + r2 * 2 ^ 12 + r1 * 2 ^ 6 + r0 = n" using e by simp
  then show ?thesis unfolding top unfolding q d(3-5) [symmetric] .
qed

lemma b64char_plain: "i < 64 \<Longrightarrow> b64char i \<noteq> CHR ''='' \<and> b64char i \<noteq> CHR 0x0A \<and> b64char i \<noteq> CHR 0x0D \<and>
    b64char i \<noteq> CHR '' '' \<and> (of_char (b64char i) :: nat) < 128"
proof -
  assume i: "i < 64"
  then have "b64val (b64char i) = Some i" by (rule b64val_char)
  moreover have "b64val (CHR ''='') = None" "b64val (CHR 0x0A) = None" "b64val (CHR 0x0D) = None" "b64val (CHR '' '') = None"
    by (simp_all add: b64val_def)
  ultimately show ?thesis using i by (auto simp: b64char_def of_char_of)
qed


lemma byte_less: "unat (b :: byte) < 256"
  using unsigned_less [of b, where ?'a = nat] by simp

lemma byte_eqI: "m mod 256 = unat b \<Longrightarrow> of_nat m = (b :: byte)"
  by (simp add: word_unat_eq_iff unat_of_nat_byte)

lemma group_bytes:
  defines "n a b c \<equiv> unat (a :: byte) * 2 ^ 16 + unat (b :: byte) * 2 ^ 8 + unat (c :: byte)"
  shows "n a b c < 2 ^ 24" "of_nat (n a b c div 2 ^ 16) = a" "of_nat (n a b c div 2 ^ 8) = b" "of_nat (n a b c) = c"
proof -
  note l = byte_less [of a] byte_less [of b] byte_less [of c]
  show "n a b c < 2 ^ 24" unfolding n_def using l by simp
  have "n a b c div 2 ^ 16 = unat a" unfolding n_def using l by simp
  then show "of_nat (n a b c div 2 ^ 16) = a" using l by (intro byte_eqI) simp
  have "n a b c = (unat a * 256 + unat b) * 2 ^ 8 + unat c" unfolding n_def by simp
  then have "n a b c div 2 ^ 8 = unat a * 256 + unat b" using l by simp
  then show "of_nat (n a b c div 2 ^ 8) = b" using l by (intro byte_eqI) simp
  have "n a b c mod 256 = unat c" unfolding n_def using l by (simp add: mod_add_eq [symmetric, of _ "unat c"])
  then show "of_nat (n a b c) = c" by (rule byte_eqI)
qed

lemma b64_top: "n < 2 ^ 24 \<Longrightarrow> n div 2 ^ 18 mod 64 = (n :: nat) div 2 ^ 18"
  by (simp add: div_less_iff_less_mult)

lemma b64val_top: "n < 2 ^ 24 \<Longrightarrow> b64val (b64char (n div 262144)) = Some (n div 262144)"
  by (rule b64val_char) (simp add: div_less_iff_less_mult)

lemma decode_b64chars:
  assumes "n < 2 ^ 24"
  shows "decodeQuanta (b64chars n @ r) =
    rbind (decodeQuanta r) (\<lambda>rest. Inr (of_nat (n div 2 ^ 16) # of_nat (n div 2 ^ 8) # of_nat n # rest))"
  using b64_group [OF assms] b64_group [OF assms, unfolded b64_top [OF assms]]
  by (simp add: b64chars_def b64val_char Let_def del: of_nat_add)

lemma b64val_pad: "b64val (CHR ''='') = None"
  by (simp add: b64val_def)

lemma decode_pad1:
  assumes "n < 2 ^ 24" "n mod 64 = 0"
  shows "decodeQuanta (take 3 (b64chars n) @ ''='') = Inr [of_nat (n div 2 ^ 16), of_nat (n div 2 ^ 8)]"
proof -
  have "n div 2 ^ 18 * 2 ^ 18 + (n div 2 ^ 12 mod 64) * 2 ^ 12 + (n div 2 ^ 6 mod 64) * 2 ^ 6 = n"
    using b64_group [OF assms(1), unfolded b64_top [OF assms(1)]] assms(2) by simp
  then show ?thesis by (simp add: b64chars_def b64val_char b64val_pad b64_top [OF assms(1), simplified] b64val_top [OF assms(1)]
      del: of_nat_add)
qed

lemma decode_pad2:
  assumes "n < 2 ^ 24" "n mod 64 = 0" "n div 2 ^ 6 mod 64 = 0"
  shows "decodeQuanta (take 2 (b64chars n) @ ''=='') = Inr [of_nat (n div 2 ^ 16)]"
proof -
  have "n div 2 ^ 18 * 2 ^ 18 + (n div 2 ^ 12 mod 64) * 2 ^ 12 = n"
    using b64_group [OF assms(1), unfolded b64_top [OF assms(1)]] assms(2,3) by simp
  then show ?thesis by (simp add: b64chars_def b64val_char b64val_pad b64_top [OF assms(1), simplified] b64val_top [OF assms(1)]
      del: of_nat_add)
qed

lemma decodeQuanta_encode: "decodeQuanta (EncodeToString bs) = Inr bs"
proof (induction bs rule: EncodeToString.induct)
  case (2 a)
  let ?n = "unat a * 2 ^ 16"
  have n: "?n < 2 ^ 24" using byte_less [of a] by simp
  have "of_nat (?n div 2 ^ 16) = a" using byte_less [of a] by (intro byte_eqI) simp
  moreover have m: "?n mod 64 = 0" "?n div 2 ^ 6 mod 64 = 0"
  proof -
    have e: "?n = unat a * 16 * 64 * 64" by simp
    show "?n mod 64 = 0" unfolding e by (simp only: mod_mult_self2_is_0)
    show "?n div 2 ^ 6 mod 64 = 0" unfolding e by simp
  qed
  ultimately show ?case using decode_pad2 [OF n m] by simp
next
  case (3 a b)
  let ?n = "unat a * 2 ^ 16 + unat b * 2 ^ 8"
  have g: "unat a * 2 ^ 16 + unat b * 2 ^ 8 + unat (0 :: byte) = ?n" by simp
  have "?n = (unat a * 1024 + unat b * 4) * 64" by simp
  then have "?n mod 64 = 0" by (simp only: mod_mult_self2_is_0)
  then show ?case using decode_pad1 [of ?n] group_bytes [of a b 0, unfolded g] by simp
next
  case (4 a b c r)
  then show ?case using decode_b64chars [OF group_bytes(1) [of a b c], of "EncodeToString r"] group_bytes [of a b c] by simp
qed simp

definition plain_char :: "char \<Rightarrow> bool" where
  "plain_char c \<longleftrightarrow> c \<noteq> CHR 0x0A \<and> c \<noteq> CHR 0x0D \<and> c \<noteq> CHR '' '' \<and> (of_char c :: nat) < 128"

lemma b64chars_plain: "\<forall>c\<in>set (b64chars n). plain_char c"
  using b64char_plain by (simp add: b64chars_def plain_char_def)

lemma EncodeToString_plain: "\<forall>c\<in>set (EncodeToString bs). plain_char c"
proof (induction bs rule: EncodeToString.induct)
  case (2 a)
  then show ?case using b64chars_plain [of "unat a * 2 ^ 16"]
    by (auto simp: plain_char_def dest: in_set_takeD)
next
  case (3 a b)
  then show ?case using b64chars_plain [of "unat a * 2 ^ 16 + unat b * 2 ^ 8"]
    by (auto simp: plain_char_def dest: in_set_takeD)
next
  case (4 a b c r)
  then show ?case using b64chars_plain [of "unat a * 2 ^ 16 + unat b * 2 ^ 8 + unat c"] by auto
qed simp

lemma DecodeString_EncodeToString [simp]: "DecodeString (EncodeToString bs) = Inr bs"
proof -
  have "filter (\<lambda>c. c \<noteq> CHR 0x0A \<and> c \<noteq> CHR 0x0D) (EncodeToString bs) = EncodeToString bs"
    using EncodeToString_plain [of bs] by (simp add: filter_id_conv plain_char_def)
  then show ?thesis by (simp add: DecodeString_def decodeQuanta_encode)
qed

lemma EncodeToString_eq_Nil [simp]: "EncodeToString bs = [] \<longleftrightarrow> bs = []"
  by (cases bs rule: EncodeToString.cases) (simp_all add: b64chars_def)

end
