(* ===== verification/Storage.thy ===== *)
theory Storage
  imports GoStrings
begin

text \<open>
  The storage layer (storage/storage.go): the interface \<open>FS\<close> the other packages use, as a map from
  names to contents with injected write and read faults, and its implementation \<open>Disk\<close>, which
  resolves a name to a path below its root and makes system calls on a tree of files and directories.
  Any system call may fail, a write after some of its bytes. A crash is a run in which every later call
  fails: a failed call changes nothing, apart from the bytes that a write has written.
\<close>

section \<open>The interface\<close>

definition ErrNotExist :: goerror where
  "ErrNotExist = Sentinel ''file does not exist''"

definition ErrExists :: goerror where
  "ErrExists = Sentinel ''storage: file already exists''"

record FS =
  files :: "string \<Rightarrow> bytes option"
  put_faults :: "bool list"
  get_faults :: "string \<Rightarrow> bool"

definition Get :: "FS \<Rightarrow> string \<Rightarrow> bytes result" where
  "Get fs name =
     (if get_faults fs name then Inl (Errorf ''read error'')
      else case files fs name of None \<Rightarrow> Inl ErrNotExist | Some data \<Rightarrow> Inr data)"

definition next_fault :: "bool list \<Rightarrow> bool \<times> bool list" where
  "next_fault fs = (case fs of [] \<Rightarrow> (False, []) | f # r \<Rightarrow> (f, r))"

definition Put :: "FS \<Rightarrow> string \<Rightarrow> bytes \<Rightarrow> bool \<Rightarrow> unit result \<times> FS" where
  "Put fs name data exclusive =
     (let (fault, rest) = next_fault (put_faults fs); fs' = fs\<lparr>put_faults := rest\<rparr>
      in if fault then (Inl (Errorf ''write error''), fs')
         else if exclusive \<and> files fs name \<noteq> None then (Inl ErrExists, fs')
         else (Inr (), fs'\<lparr>files := (files fs)(name := Some data)\<rparr>))"

definition Exists :: "FS \<Rightarrow> string \<Rightarrow> bool result" where
  "Exists fs name =
     (if get_faults fs name then Inl (Errorf ''stat error'') else Inr (files fs name \<noteq> None))"

section \<open>Paths\<close>

definition sep :: char where
  "sep = CHR ''/''"

text \<open>\<open>path.Clean\<close> and \<open>filepath.Clean\<close> of a rooted path.\<close>

definition clean_step :: "string list \<Rightarrow> string \<Rightarrow> string list" where
  "clean_step st seg =
     (if seg = [] \<or> seg = ''.'' then st else if seg = ''..'' then butlast st else st @ [seg])"

definition Clean :: "string \<Rightarrow> string" where
  "Clean p = sep # join_with sep (foldl clean_step [] (split_on sep p))"

text \<open>\<open>filepath.Join\<close> of a non-empty absolute path and another element.\<close>

definition Join :: "string \<Rightarrow> string \<Rightarrow> string" where
  "Join a b = (if b = [] then Clean a else Clean (a @ sep # b))"

section \<open>The interface contract\<close>

text \<open>
  What a client relies on, for the names of a name space: a successful write changes the named file only;
  a failed write changes nothing, apart from a file that an exclusive write was to create; an exclusive
  write never changes a file that is present.
\<close>

locale file_store =
  fixes ok :: "'s \<Rightarrow> bool"
    and name_ok :: "'s \<Rightarrow> string \<Rightarrow> bool"
    and lookup :: "'s \<Rightarrow> string \<Rightarrow> bytes option"
    and put :: "'s \<Rightarrow> string \<Rightarrow> bytes \<Rightarrow> bool \<Rightarrow> unit result \<times> 's"
  assumes put_keeps: "ok s \<Longrightarrow> name_ok s n \<Longrightarrow> put s n d x = (r, s') \<Longrightarrow> ok s' \<and> name_ok s' = name_ok s"
    and put_ok: "ok s \<Longrightarrow> name_ok s n \<Longrightarrow> name_ok s m \<Longrightarrow> put s n d x = (Inr (), s') \<Longrightarrow>
      lookup s' m = (if m = n then Some d else lookup s m)"
    and put_error: "ok s \<Longrightarrow> name_ok s n \<Longrightarrow> name_ok s m \<Longrightarrow> put s n d x = (Inl e, s') \<Longrightarrow>
      x \<longrightarrow> m \<noteq> n \<or> lookup s n \<noteq> None \<Longrightarrow> lookup s' m = lookup s m"
    and put_exclusive: "ok s \<Longrightarrow> name_ok s n \<Longrightarrow> lookup s n \<noteq> None \<Longrightarrow> fst (put s n d True) \<noteq> Inr ()"
begin

lemma lookup_put_same: "ok s \<Longrightarrow> name_ok s n \<Longrightarrow> put s n d x = (Inr (), s') \<Longrightarrow> lookup s' n = Some d"
  using put_ok [of s n n d x s'] by simp

lemma lookup_put_other:
  assumes "ok s" "name_ok s n" "name_ok s m" "m \<noteq> n"
  shows "lookup (snd (put s n d x)) m = lookup s m"
proof -
  obtain r s' where r: "put s n d x = (r, s')" by (cases "put s n d x")
  with assms put_ok [of s n m d x s'] put_error [of s n m d x _ s'] show ?thesis by (cases r) auto
qed

text \<open>An exclusive write never changes a name that is present.\<close>

lemma exclusive_preserves:
  assumes "ok s" "name_ok s n" "name_ok s m" "lookup s m = Some c"
  shows "lookup (snd (put s n d True)) m = Some c"
proof (cases "m = n")
  case True
  obtain r s' where r: "put s n d True = (r, s')" by (cases "put s n d True") auto
  with put_exclusive [OF assms(1,2), of d] assms(4) True obtain e where "r = Inl e"
    by (cases r) auto
  with r put_error [of s n m d True e s'] assms True show ?thesis by simp
next
  case False
  with lookup_put_other [OF assms(1-3), of d True] assms(4) show ?thesis by simp
qed

end

interpretation fs: file_store "\<lambda>_. True" "\<lambda>_ _. True" files Put
proof
  fix s n m d x s'
  assume "Put s n d x = (Inr (), s')"
  then show "files s' m = (if m = n then Some d else files s m)"
    by (auto simp: Put_def Let_def split: prod.splits if_splits)
next
  fix s n m d x e s'
  assume "Put s n d x = (Inl e, s')"
  then show "files s' m = files s m"
    by (auto simp: Put_def Let_def split: prod.splits if_splits)
next
  fix n d and s :: FS
  assume "files s n \<noteq> None"
  then show "fst (Put s n d True) \<noteq> Inr ()"
    by (auto simp: Put_def Let_def split: prod.splits)
qed simp

section \<open>System calls\<close>

text \<open>
  A path is the list of its segments. Every call takes the next element of \<open>faults\<close>: nothing, and it is
  carried out, or a number, and it fails (a write after that many bytes).
\<close>

datatype node = DirNode | FileNode bytes

record OS =
  nodes :: "string list \<Rightarrow> node option"
  faults :: "nat option list"
  read_faults :: "string list \<Rightarrow> bool"
  temp_names :: "nat \<Rightarrow> string"
  temps :: nat

definition segs :: "string \<Rightarrow> string list" where
  "segs p = filter (\<lambda>s. s \<noteq> []) (split_on sep p)"

definition ErrExist :: goerror where
  "ErrExist = Sentinel ''file exists''"

definition ENOTDIR :: goerror where
  "ENOTDIR = Sentinel ''not a directory''"

definition EISDIR :: goerror where
  "EISDIR = Sentinel ''is a directory''"

definition next_call :: "OS \<Rightarrow> nat option \<times> OS" where
  "next_call s = (case faults s of [] \<Rightarrow> (None, s) | f # r \<Rightarrow> (f, s\<lparr>faults := r\<rparr>))"

text \<open>The walk to the last segment fails at the first ancestor that is missing or a file.\<close>

definition walk_error :: "(string list \<Rightarrow> node option) \<Rightarrow> string list \<Rightarrow> goerror option" where
  "walk_error ns p =
     (case find (\<lambda>q. ns q \<noteq> Some DirNode) (map (\<lambda>k. take k p) [1..<length p]) of
        None \<Rightarrow> None
      | Some q \<Rightarrow> Some (if ns q = None then ErrNotExist else ENOTDIR))"

definition sys_call :: "OS \<Rightarrow> string list \<Rightarrow> (OS \<Rightarrow> 'a result \<times> OS) \<Rightarrow> 'a result \<times> OS" where
  "sys_call s p act =
     (case next_call s of
        (Some _, s') \<Rightarrow> (Inl (Errorf ''system call failed''), s')
      | (None, s') \<Rightarrow> (case walk_error (nodes s') p of Some e \<Rightarrow> (Inl e, s') | None \<Rightarrow> act s'))"

definition mkdirNode :: "OS \<Rightarrow> string list \<Rightarrow> unit result \<times> OS" where
  "mkdirNode s p = sys_call s p (\<lambda>s.
     if nodes s p \<noteq> None then (Inl ErrExist, s) else (Inr (), s\<lparr>nodes := (nodes s)(p := Some DirNode)\<rparr>))"

text \<open>\<open>os.OpenFile\<close> with \<open>O_CREATE\<close> and \<open>O_EXCL\<close>.\<close>

definition openExcl :: "OS \<Rightarrow> string list \<Rightarrow> unit result \<times> OS" where
  "openExcl s p = sys_call s p (\<lambda>s.
     if nodes s p \<noteq> None then (Inl ErrExist, s) else (Inr (), s\<lparr>nodes := (nodes s)(p := Some (FileNode []))\<rparr>))"

definition writeFile :: "OS \<Rightarrow> string list \<Rightarrow> bytes \<Rightarrow> unit result \<times> OS" where
  "writeFile s p data =
     (case nodes s p of
        Some (FileNode b) \<Rightarrow>
          (case next_call s of
             (Some k, s') \<Rightarrow> (Inl (Errorf ''write failed''), s'\<lparr>nodes := (nodes s')(p := Some (FileNode (b @ take k data)))\<rparr>)
           | (None, s') \<Rightarrow> (Inr (), s'\<lparr>nodes := (nodes s')(p := Some (FileNode (b @ data)))\<rparr>))
      | _ \<Rightarrow> (Inl (Errorf ''bad file descriptor''), s))"

definition closeFile :: "OS \<Rightarrow> unit result \<times> OS" where
  "closeFile s = (case next_call s of (Some _, s') \<Rightarrow> (Inl (Errorf ''close failed''), s') | (None, s') \<Rightarrow> (Inr (), s'))"

definition removeFile :: "OS \<Rightarrow> string list \<Rightarrow> unit result \<times> OS" where
  "removeFile s p = sys_call s p (\<lambda>s.
     case nodes s p of
       Some (FileNode _) \<Rightarrow> (Inr (), s\<lparr>nodes := (nodes s)(p := None)\<rparr>)
     | Some DirNode \<Rightarrow> (Inl EISDIR, s)
     | None \<Rightarrow> (Inl ErrNotExist, s))"

definition renameFile :: "OS \<Rightarrow> string list \<Rightarrow> string list \<Rightarrow> unit result \<times> OS" where
  "renameFile s p q = sys_call s q (\<lambda>s.
     case nodes s p of
       None \<Rightarrow> (Inl ErrNotExist, s)
     | Some n \<Rightarrow> if q = [] \<or> nodes s q = Some DirNode then (Inl ErrExist, s)
               else (Inr (), s\<lparr>nodes := ((nodes s)(p := None))(q := Some n)\<rparr>))"

text \<open>\<open>os.MkdirAll\<close>: the missing directories, outermost first.\<close>

fun mkdirLoop :: "OS \<Rightarrow> string list list \<Rightarrow> unit result \<times> OS" where
  "mkdirLoop s [] = (Inr (), s)"
| "mkdirLoop s (q # qs) =
     (case nodes s q of
        Some DirNode \<Rightarrow> mkdirLoop s qs
      | Some (FileNode _) \<Rightarrow> (Inl ENOTDIR, s)
      | None \<Rightarrow> (case mkdirNode s q of (Inl e, s') \<Rightarrow> (Inl e, s') | (Inr _, s') \<Rightarrow> mkdirLoop s' qs))"

definition MkdirAll :: "OS \<Rightarrow> string list \<Rightarrow> unit result \<times> OS" where
  "MkdirAll s p = mkdirLoop s (map (\<lambda>k. take k p) [1..<Suc (length p)])"

text \<open>\<open>os.CreateTemp\<close> tries random names until one is free, 10000 times at most.\<close>

definition tempPrefix :: string where
  "tempPrefix = ''.tmp-''"

fun createTemp :: "nat \<Rightarrow> OS \<Rightarrow> string list \<Rightarrow> string list result \<times> OS" where
  "createTemp 0 s dir = (Inl ErrExist, s)"
| "createTemp (Suc k) s dir =
     (let p = dir @ [tempPrefix @ temp_names s (temps s)]
      in case openExcl (s\<lparr>temps := temps s + 1\<rparr>) p of
           (Inl e, s') \<Rightarrow> if e = ErrExist then createTemp k s' dir else (Inl e, s')
         | (Inr _, s') \<Rightarrow> (Inr p, s'))"

section \<open>The disk implementation\<close>

record Disk =
  root :: string
  dos :: OS

text \<open>\<open>absRoot\<close> is what \<open>filepath.Abs\<close> returns for the configured directory.\<close>

definition Disk_New :: "string \<Rightarrow> OS \<Rightarrow> Disk result \<times> OS" where
  "Disk_New absRoot s =
     (case MkdirAll s (segs absRoot) of
        (Inl e, s') \<Rightarrow> (Inl (wrapf ''mkdir'' e), s')
      | (Inr _, s') \<Rightarrow> (Inr \<lparr>root = absRoot, dos = s'\<rparr>, s'))"

definition resolve :: "Disk \<Rightarrow> string \<Rightarrow> string result" where
  "resolve d name =
     (if name = [] then Inl (Errorf ''storage: empty name'')
      else if ''..'' \<in> set (split_on sep name) then Inl (Errorf ''storage: escaping path'')
      else
        let cleaned = Clean (sep # name); rel = TrimPrefix cleaned [sep]; full = Join (root d) rel
        in if full \<noteq> root d \<and> \<not> HasPrefix full (root d @ [sep]) then Inl (Errorf ''storage: escaping path'')
           else Inr full)"

definition Disk_Get :: "Disk \<Rightarrow> string \<Rightarrow> bytes result" where
  "Disk_Get d name =
     rbind (resolve d name) (\<lambda>full.
       let p = segs full
       in if read_faults (dos d) p then Inl (Errorf ''read error'')
          else case walk_error (nodes (dos d)) p of
            Some e \<Rightarrow> Inl e
          | None \<Rightarrow> (case nodes (dos d) p of
              None \<Rightarrow> Inl (if p = [] then EISDIR else ErrNotExist)
            | Some DirNode \<Rightarrow> Inl EISDIR
            | Some (FileNode data) \<Rightarrow> Inr data))"

definition Disk_Exists :: "Disk \<Rightarrow> string \<Rightarrow> bool result" where
  "Disk_Exists d name =
     rbind (resolve d name) (\<lambda>full.
       let p = segs full
       in if read_faults (dos d) p then Inl (Errorf ''stat error'')
          else case walk_error (nodes (dos d)) p of
            Some e \<Rightarrow> if errors_Is e ''file does not exist'' then Inr False else Inl e
          | None \<Rightarrow> Inr (case nodes (dos d) p of Some (FileNode _) \<Rightarrow> True | _ \<Rightarrow> False))"

definition Disk_Mkdir :: "Disk \<Rightarrow> string \<Rightarrow> unit result \<times> Disk" where
  "Disk_Mkdir d name =
     (case resolve d name of
        Inl e \<Rightarrow> (Inl e, d)
      | Inr full \<Rightarrow> (case MkdirAll (dos d) (segs full) of (r, s) \<Rightarrow> (r, d\<lparr>dos := s\<rparr>)))"

text \<open>A call, what happens on an error, and what happens next.\<close>

definition call :: "'a result \<times> OS \<Rightarrow> (goerror \<Rightarrow> OS \<Rightarrow> 'b result \<times> OS) \<Rightarrow> ('a \<Rightarrow> OS \<Rightarrow> 'b result \<times> OS) \<Rightarrow> 'b result \<times> OS" where
  "call c failed k = (case c of (Inl e, s) \<Rightarrow> failed e s | (Inr x, s) \<Rightarrow> k x s)"

definition putExclusive :: "OS \<Rightarrow> string list \<Rightarrow> bytes \<Rightarrow> unit result \<times> OS" where
  "putExclusive s full data =
     call (openExcl s full) (\<lambda>e s. (Inl (if errors_Is e ''file exists'' then ErrExists else wrapf ''open exclusive'' e), s)) (\<lambda>_ s.
     call (writeFile s full data) (\<lambda>e s. (Inl (wrapf ''write'' e), snd (removeFile (snd (closeFile s)) full))) (\<lambda>_ s.
       closeFile s))"

definition putTemp :: "OS \<Rightarrow> string list \<Rightarrow> bytes \<Rightarrow> unit result \<times> OS" where
  "putTemp s full data =
     call (createTemp 10000 s (butlast full)) (\<lambda>e s. (Inl (wrapf ''tempfile'' e), s)) (\<lambda>tmp s.
     call (writeFile s tmp data) (\<lambda>e s. (Inl (wrapf ''write tmp'' e), snd (removeFile (snd (closeFile s)) tmp))) (\<lambda>_ s.
     call (closeFile s) (\<lambda>e s. (Inl (wrapf ''close tmp'' e), snd (removeFile s tmp))) (\<lambda>_ s.
     call (renameFile s tmp full) (\<lambda>e s. (Inl (wrapf ''rename'' e), snd (removeFile s tmp))) (\<lambda>_ s.
       (Inr (), s)))))"

definition Disk_Put :: "Disk \<Rightarrow> string \<Rightarrow> bytes \<Rightarrow> bool \<Rightarrow> unit result \<times> Disk" where
  "Disk_Put d name data exclusive =
     (case resolve d name of
        Inl e \<Rightarrow> (Inl e, d)
      | Inr full \<Rightarrow>
          (case call (MkdirAll (dos d) (butlast (segs full))) (\<lambda>e s. (Inl (wrapf ''mkdir'' e), s)) (\<lambda>_ s.
                  if exclusive then putExclusive s (segs full) data else putTemp s (segs full) data) of
             (r, s) \<Rightarrow> (r, d\<lparr>dos := s\<rparr>)))"

section \<open>Resolving names\<close>

definition clean_seg :: "string \<Rightarrow> bool" where
  "clean_seg seg \<longleftrightarrow> seg \<noteq> [] \<and> seg \<noteq> ''.'' \<and> seg \<noteq> ''..''"

definition clean_name :: "string \<Rightarrow> bool" where
  "clean_name n \<longleftrightarrow> (\<forall>seg\<in>set (split_on sep n). clean_seg seg)"

text \<open>The root that \<open>filepath.Abs\<close> returns, other than the file-system root itself.\<close>

definition clean_root :: "string \<Rightarrow> bool" where
  "clean_root r \<longleftrightarrow> (\<exists>n. r = sep # n \<and> clean_name n)"

lemma foldl_clean_step: "\<forall>seg\<in>set xs. clean_seg seg \<Longrightarrow> foldl clean_step st xs = st @ xs"
  by (induction xs arbitrary: st) (simp_all add: clean_step_def clean_seg_def)

lemma clean_step_sub: "seg \<in> set (clean_step st x) \<Longrightarrow> seg \<in> set st \<or> seg = x \<and> clean_seg x"
  by (auto simp: clean_step_def clean_seg_def split: if_splits dest: in_set_butlastD)

lemma foldl_clean_sub:
  "seg \<in> set (foldl clean_step st xs) \<Longrightarrow> seg \<in> set st \<or> seg \<in> set xs \<and> clean_seg seg"
proof (induction xs arbitrary: st)
  case (Cons a xs)
  then have "seg \<in> set (clean_step st a) \<or> seg \<in> set xs \<and> clean_seg seg" by simp
  with clean_step_sub [of seg st a] show ?case by auto
qed simp

lemma Clean_rooted: "clean_name n \<Longrightarrow> Clean (sep # n) = sep # n"
  by (simp add: Clean_def clean_name_def clean_step_def foldl_clean_step join_split)

lemma Clean_below:
  assumes "clean_root r" "clean_name n"
  shows "Clean (r @ sep # n) = r @ sep # n"
proof -
  obtain m where m: "r = sep # m" "clean_name m" using assms(1) by (auto simp: clean_root_def)
  have "clean_name (m @ sep # n)"
    using m(2) assms(2) by (auto simp: clean_name_def split_on_sep_append)
  from Clean_rooted [OF this] show ?thesis by (simp add: m(1))
qed

lemma clean_name_ok:
  assumes "clean_name n" shows "n \<noteq> []" "''..'' \<notin> set (split_on sep n)"
proof -
  have "\<not> clean_seg []" "\<not> clean_seg ''..''" by (simp_all add: clean_seg_def)
  moreover have "split_on sep [] = [[]]" by simp
  ultimately show "n \<noteq> []" "''..'' \<notin> set (split_on sep n)" using assms
    unfolding clean_name_def by force+
qed

lemma resolve_clean:
  assumes "clean_root (root d)" "clean_name n"
  shows "resolve d n = Inr (root d @ sep # n)"
  using assms clean_name_ok [OF assms(2)]
  by (simp add: resolve_def Let_def Clean_rooted TrimPrefix_def Join_def Clean_below HasPrefix_def)

section \<open>The effect of the calls\<close>

lemma next_call_same:
  assumes "next_call s = (f, s')"
  shows "nodes s' = nodes s" "read_faults s' = read_faults s" "temps s' = temps s" "temp_names s' = temp_names s"
    "faults s = [] \<Longrightarrow> f = None \<and> s' = s"
  using assms by (auto simp: next_call_def split: list.splits)

lemma walk_error_cases: "walk_error ns p = Some e \<Longrightarrow> e = ErrNotExist \<or> e = ENOTDIR"
  by (auto simp: walk_error_def split: option.splits if_splits)

lemma walk_error_None: "walk_error ns p = None \<longleftrightarrow> (\<forall>k. 0 < k \<longrightarrow> k < length p \<longrightarrow> ns (take k p) = Some DirNode)"
proof -
  have "walk_error ns p = None \<longleftrightarrow> find (\<lambda>q. ns q \<noteq> Some DirNode) (map (\<lambda>k. take k p) [1..<length p]) = None"
    by (simp add: walk_error_def split: option.split)
  then show ?thesis unfolding find_None_iff by (auto simp: Suc_le_eq)
qed

lemma walk_error_sibling: "walk_error ns (p @ [x]) = walk_error ns (p @ [y])"
proof -
  have "map (\<lambda>k. take k (p @ [x])) [1..<length (p @ [x])] = map (\<lambda>k. take k (p @ [y])) [1..<length (p @ [y])]"
    by (intro map_cong) (auto simp: less_Suc_eq_le)
  then show ?thesis unfolding walk_error_def by (simp only:)
qed

lemma error_neq [simp]: "ErrNotExist \<noteq> ErrExist" "ENOTDIR \<noteq> ErrExist" "ErrExist \<noteq> ErrNotExist" "ErrExist \<noteq> ENOTDIR"
  by (simp_all add: ErrNotExist_def ErrExist_def ENOTDIR_def)

lemma openExcl_effect:
  assumes "openExcl s p = (r, s')"
  shows "read_faults s' = read_faults s \<and> temps s' = temps s \<and> temp_names s' = temp_names s"
    "r = Inr () \<Longrightarrow> nodes s p = None \<and> nodes s' = (nodes s)(p \<mapsto> FileNode [])"
    "r = Inl e \<Longrightarrow> nodes s' = nodes s \<and> (errors_Is e ''file exists'' \<longrightarrow> nodes s p \<noteq> None)"
    "faults s = [] \<Longrightarrow> walk_error (nodes s) p = None \<Longrightarrow> r = (if nodes s p = None then Inr () else Inl ErrExist) \<and> faults s' = []"
proof -
  obtain f s1 where f: "next_call s = (f, s1)" by (cases "next_call s")
  note n = next_call_same [OF f]
  note d = assms [unfolded openExcl_def sys_call_def f prod.case]
  show "read_faults s' = read_faults s \<and> temps s' = temps s \<and> temp_names s' = temp_names s"
    using d n by (auto split: option.splits if_splits)
  show "r = Inr () \<Longrightarrow> nodes s p = None \<and> nodes s' = (nodes s)(p \<mapsto> FileNode [])"
    using d n by (auto split: option.splits if_splits)
  show "r = Inl e \<Longrightarrow> nodes s' = nodes s \<and> (errors_Is e ''file exists'' \<longrightarrow> nodes s p \<noteq> None)"
    using d n walk_error_cases by (fastforce simp: ErrNotExist_def ENOTDIR_def split: option.splits if_splits)
  show "r = (if nodes s p = None then Inr () else Inl ErrExist) \<and> faults s' = []"
    if "faults s = []" "walk_error (nodes s) p = None"
    using d n(5) [OF that(1)] that by (auto split: option.splits if_splits)
qed

lemma createTemp_effect:
  assumes "createTemp k s dir = (r, s')"
  shows "read_faults s' = read_faults s \<and>
    (\<forall>t. r = Inr t \<longrightarrow> nodes s t = None \<and> nodes s' = (nodes s)(t \<mapsto> FileNode []) \<and> (\<exists>x. t = dir @ [tempPrefix @ x])) \<and>
    (\<forall>e. r = Inl e \<longrightarrow> nodes s' = nodes s)"
  using assms
proof (induction k s dir arbitrary: r s' rule: createTemp.induct)
  case (2 k s dir)
  let ?p = "dir @ [tempPrefix @ temp_names s (temps s)]"
  obtain q s1 where q: "openExcl (s\<lparr>temps := temps s + 1\<rparr>) ?p = (q, s1)" by (cases "openExcl (s\<lparr>temps := temps s + 1\<rparr>) ?p")
  note o = openExcl_effect [OF q, simplified]
  show ?case
  proof (cases q)
    case (Inl e)
    note n1 = o(3) [OF Inl]
    show ?thesis
    proof (cases "e = ErrExist")
      case True
      then have "createTemp k s1 dir = (r, s')" using 2(2) q Inl by (simp add: Let_def)
      from 2(1) [OF refl q [symmetric] Inl True this] n1 o(1) show ?thesis by simp
    next
      case False
      then show ?thesis using 2(2) q Inl n1 o(1) by (auto simp: Let_def)
    qed
  next
    case (Inr u)
    then show ?thesis using 2(2) q o(1,2) by (auto simp: Let_def)
  qed
qed simp

lemma createTemp_progress:
  assumes "faults s = []" "walk_error (nodes s) (dir @ [y]) = None"
    "\<exists>i<k. nodes s (dir @ [tempPrefix @ temp_names s (temps s + i)]) = None"
  shows "\<exists>t s'. createTemp k s dir = (Inr t, s') \<and> faults s' = []"
  using assms
proof (induction k arbitrary: s)
  case (Suc k)
  let ?p = "dir @ [tempPrefix @ temp_names s (temps s)]" and ?s = "s\<lparr>temps := temps s + 1\<rparr>"
  obtain q s1 where q: "openExcl ?s ?p = (q, s1)" by (cases "openExcl ?s ?p")
  note o = openExcl_effect [OF q]
  have w: "walk_error (nodes ?s) ?p = None"
    using Suc.prems(2) walk_error_sibling [of "nodes s" dir y] by simp
  have q': "q = (if nodes s ?p = None then Inr () else Inl ErrExist)" "faults s1 = []" using o(4) Suc.prems(1) w by auto
  show ?case
  proof (cases "nodes s ?p")
    case None
    then show ?thesis using q q' by (simp add: Let_def)
  next
    case (Some nd)
    then have qe: "q = Inl ErrExist" using q' by simp
    obtain i where i: "i < Suc k" "nodes s (dir @ [tempPrefix @ temp_names s (temps s + i)]) = None" using Suc.prems(3) by blast
    with Some obtain j where j: "i = Suc j" by (cases i) auto
    have "\<exists>t s'. createTemp k s1 dir = (Inr t, s') \<and> faults s' = []"
      using o(1) o(3) [OF qe] q'(2) Suc.prems(2) i j by (intro Suc.IH) auto
    then show ?thesis using q qe by (simp add: Let_def)
  qed
qed simp

lemma writeFile_effect:
  assumes "writeFile s p data = (r, s')" "nodes s p = Some (FileNode [])"
  shows "read_faults s' = read_faults s"
    "r = Inr () \<Longrightarrow> nodes s' = (nodes s)(p \<mapsto> FileNode data)" "r = Inl e \<Longrightarrow> \<exists>k. nodes s' = (nodes s)(p \<mapsto> FileNode (take k data))"
    "faults s = [] \<Longrightarrow> r = Inr () \<and> faults s' = []"
proof -
  obtain f s1 where f: "next_call s = (f, s1)" by (cases "next_call s")
  note n = next_call_same [OF f]
  show "read_faults s' = read_faults s"
    "r = Inr () \<Longrightarrow> nodes s' = (nodes s)(p \<mapsto> FileNode data)" "r = Inl e \<Longrightarrow> \<exists>k. nodes s' = (nodes s)(p \<mapsto> FileNode (take k data))"
    "faults s = [] \<Longrightarrow> r = Inr () \<and> faults s' = []"
    using assms n by (auto simp: writeFile_def f split: option.splits)
qed

lemma closeFile_effect:
  assumes "closeFile s = (r, s')"
  shows "nodes s' = nodes s" "read_faults s' = read_faults s" "faults s = [] \<Longrightarrow> r = Inr () \<and> faults s' = []"
proof -
  obtain f s1 where f: "next_call s = (f, s1)" by (cases "next_call s")
  note n = next_call_same [OF f]
  show "nodes s' = nodes s" "read_faults s' = read_faults s" "faults s = [] \<Longrightarrow> r = Inr () \<and> faults s' = []"
    using assms n by (auto simp: closeFile_def f split: option.splits)
qed

lemma removeFile_effect:
  "read_faults (snd (removeFile s p)) = read_faults s"
  "nodes (snd (removeFile s p)) = nodes s \<or> nodes (snd (removeFile s p)) = (nodes s)(p := None)"
proof -
  obtain f s1 where f: "next_call s = (f, s1)" by (cases "next_call s")
  note n = next_call_same [OF f]
  show "read_faults (snd (removeFile s p)) = read_faults s"
    "nodes (snd (removeFile s p)) = nodes s \<or> nodes (snd (removeFile s p)) = (nodes s)(p := None)"
    using n by (auto simp: removeFile_def sys_call_def f split: option.splits node.splits)
qed

lemma renameFile_effect:
  assumes "renameFile s p q = (r, s')"
  shows "read_faults s' = read_faults s"
    "r = Inr () \<Longrightarrow> \<exists>n. nodes s p = Some n \<and> nodes s' = ((nodes s)(p := None))(q \<mapsto> n)" "r = Inl e \<Longrightarrow> nodes s' = nodes s"
    "faults s = [] \<Longrightarrow> walk_error (nodes s) q = None \<Longrightarrow> nodes s p \<noteq> None \<Longrightarrow> nodes s q \<noteq> Some DirNode \<Longrightarrow> q \<noteq> [] \<Longrightarrow> r = Inr ()"
proof -
  obtain f s1 where f: "next_call s = (f, s1)" by (cases "next_call s")
  note n = next_call_same [OF f]
  show "read_faults s' = read_faults s"
    "r = Inr () \<Longrightarrow> \<exists>n. nodes s p = Some n \<and> nodes s' = ((nodes s)(p := None))(q \<mapsto> n)" "r = Inl e \<Longrightarrow> nodes s' = nodes s"
    "faults s = [] \<Longrightarrow> walk_error (nodes s) q = None \<Longrightarrow> nodes s p \<noteq> None \<Longrightarrow> nodes s q \<noteq> Some DirNode \<Longrightarrow> q \<noteq> [] \<Longrightarrow> r = Inr ()"
    using assms n by (auto simp: renameFile_def sys_call_def f split: option.splits if_splits)
qed

text \<open>
  The net effect of a write by way of a temporary file: all or nothing at the target, and at most a
  temporary file is left over.
\<close>

lemma putTemp_effect:
  assumes "putTemp s full data = (r, s')"
  shows "read_faults s' = read_faults s"
    and "r = Inr () \<Longrightarrow> nodes s' = (nodes s)(full \<mapsto> FileNode data)"
    and "r = Inl e \<Longrightarrow> nodes s' = nodes s \<or>
      (\<exists>x b. nodes s (butlast full @ [tempPrefix @ x]) = None \<and> nodes s' = (nodes s)(butlast full @ [tempPrefix @ x] \<mapsto> FileNode b))"
proof -
  let ?left = "nodes s' = nodes s \<or>
      (\<exists>x b. nodes s (butlast full @ [tempPrefix @ x]) = None \<and> nodes s' = (nodes s)(butlast full @ [tempPrefix @ x] \<mapsto> FileNode b))"
  have "read_faults s' = read_faults s \<and> (r = Inr () \<longrightarrow> nodes s' = (nodes s)(full \<mapsto> FileNode data)) \<and> (\<forall>e. r = Inl e \<longrightarrow> ?left)"
  proof -
    obtain rt s1 where t: "createTemp 10000 s (butlast full) = (rt, s1)" by (cases "createTemp 10000 s (butlast full)")
    note te = createTemp_effect [OF t]
    show ?thesis
    proof (cases rt)
      case (Inl e)
      then show ?thesis using assms t te by (auto simp: putTemp_def call_def)
    next
      case (Inr tmp)
      then obtain x where x: "tmp = butlast full @ [tempPrefix @ x]" and n1: "nodes s tmp = None" "nodes s1 = (nodes s)(tmp \<mapsto> FileNode [])"
        using te by auto
      have undo: "nodes (snd (removeFile s2 tmp)) = nodes s \<or> (\<exists>b. nodes (snd (removeFile s2 tmp)) = (nodes s)(tmp \<mapsto> FileNode b))"
        if "nodes s2 = (nodes s)(tmp \<mapsto> FileNode b)" for s2 b
        using removeFile_effect(2) [of s2 tmp] that n1(1) by (auto simp: fun_upd_idem)
      have left: ?left if "nodes s' = nodes s \<or> (\<exists>b. nodes s' = (nodes s)(tmp \<mapsto> FileNode b))"
        using that n1(1) x by auto
      obtain rw s2 where w: "writeFile s1 tmp data = (rw, s2)" by (cases "writeFile s1 tmp data")
      have we: "read_faults s2 = read_faults s" "rw = Inr () \<Longrightarrow> nodes s2 = (nodes s)(tmp \<mapsto> FileNode data)"
          "rw = Inl e \<Longrightarrow> \<exists>b. nodes s2 = (nodes s)(tmp \<mapsto> FileNode b)" for e
        using writeFile_effect [OF w] n1 te by auto
      obtain rc s3 where c: "closeFile s2 = (rc, s3)" by (cases "closeFile s2")
      note ce = closeFile_effect [OF c]
      show ?thesis
      proof (cases rw)
        case (Inl e)
        then have s': "s' = snd (removeFile s3 tmp)" "r = Inl (wrapf ''write tmp'' e)"
          using assms t \<open>rt = Inr tmp\<close> w c by (auto simp: putTemp_def call_def)
        obtain b where "nodes s3 = (nodes s)(tmp \<mapsto> FileNode b)" using we(3) [OF Inl] ce(1) by auto
        from undo [OF this] left s' removeFile_effect(1) [of s3 tmp] ce(2) we(1) show ?thesis by auto
      next
        case (Inr u)
        then have n3: "nodes s3 = (nodes s)(tmp \<mapsto> FileNode data)" using we(2) ce(1) by simp
        show ?thesis
        proof (cases rc)
          case (Inl e)
          then have s': "s' = snd (removeFile s3 tmp)" "r = Inl (wrapf ''close tmp'' e)"
            using assms t \<open>rt = Inr tmp\<close> w c \<open>rw = Inr u\<close> by (auto simp: putTemp_def call_def)
          from undo [OF n3] left s' removeFile_effect(1) [of s3 tmp] ce(2) we(1) show ?thesis by auto
        next
          case (Inr v)
          obtain rn s4 where n: "renameFile s3 tmp full = (rn, s4)" by (cases "renameFile s3 tmp full")
          note ne = renameFile_effect [OF n]
          show ?thesis
          proof (cases rn)
            case (Inl e)
            then have s': "s' = snd (removeFile s4 tmp)" "r = Inl (wrapf ''rename'' e)"
              using assms t \<open>rt = Inr tmp\<close> w c n \<open>rw = Inr u\<close> \<open>rc = Inr v\<close> by (auto simp: putTemp_def call_def)
            have "nodes s4 = (nodes s)(tmp \<mapsto> FileNode data)" using ne(3) [OF Inl] n3 by simp
            from undo [OF this] left s' removeFile_effect(1) [of s4 tmp] ce(2) we(1) ne(1) show ?thesis by auto
          next
            case (Inr v')
            then have s': "s' = s4" "r = Inr ()"
              using assms t \<open>rt = Inr tmp\<close> w c n \<open>rw = Inr u\<close> \<open>rc = Inr v\<close> by (auto simp: putTemp_def call_def)
            have "nodes s4 = ((nodes s3)(tmp := None))(full \<mapsto> FileNode data)" using ne(2) Inr n3 by auto
            also have "(nodes s3)(tmp := None) = nodes s" unfolding n3 using n1(1) by (simp add: fun_upd_idem)
            finally show ?thesis using s' ce(2) we(1) ne(1) by (simp add: fun_upd_def)
          qed
        qed
      qed
    qed
  qed
  then show "read_faults s' = read_faults s" "r = Inr () \<Longrightarrow> nodes s' = (nodes s)(full \<mapsto> FileNode data)" "r = Inl e \<Longrightarrow> ?left"
    by blast+
qed

lemma putExclusive_effect:
  assumes "putExclusive s full data = (r, s')"
  shows "read_faults s' = read_faults s"
    and "r = Inr () \<Longrightarrow> nodes s full = None \<and> nodes s' = (nodes s)(full \<mapsto> FileNode data)"
    and "r = Inl e \<Longrightarrow> nodes s' = nodes s \<or> nodes s full = None \<and> (\<exists>k. nodes s' = (nodes s)(full \<mapsto> FileNode (take k data)))"
proof -
  let ?left = "nodes s' = nodes s \<or> nodes s full = None \<and> (\<exists>k. nodes s' = (nodes s)(full \<mapsto> FileNode (take k data)))"
  have "read_faults s' = read_faults s \<and> (r = Inr () \<longrightarrow> nodes s full = None \<and> nodes s' = (nodes s)(full \<mapsto> FileNode data)) \<and>
    (\<forall>e. r = Inl e \<longrightarrow> ?left)"
  proof -
    obtain ro s1 where o: "openExcl s full = (ro, s1)" by (cases "openExcl s full")
    note oe = openExcl_effect [OF o]
    show ?thesis
    proof (cases ro)
      case (Inl e)
      then show ?thesis using assms o oe(1) oe(3) [OF Inl] by (auto simp: putExclusive_def call_def)
    next
      case (Inr u)
      then have n1: "nodes s full = None" "nodes s1 = (nodes s)(full \<mapsto> FileNode [])" using oe(2) by auto
      obtain rw s2 where w: "writeFile s1 full data = (rw, s2)" by (cases "writeFile s1 full data")
      have we: "read_faults s2 = read_faults s" "rw = Inr () \<Longrightarrow> nodes s2 = (nodes s)(full \<mapsto> FileNode data)"
          "rw = Inl e \<Longrightarrow> \<exists>k. nodes s2 = (nodes s)(full \<mapsto> FileNode (take k data))" for e
        using writeFile_effect [OF w] n1 oe(1) by auto
      obtain rc s3 where c: "closeFile s2 = (rc, s3)" by (cases "closeFile s2")
      note ce = closeFile_effect [OF c]
      show ?thesis
      proof (cases rw)
        case (Inl e)
        then have s': "s' = snd (removeFile s3 full)" "r = Inl (wrapf ''write'' e)"
          using assms o \<open>ro = Inr u\<close> w c by (auto simp: putExclusive_def call_def)
        obtain k where k: "nodes s3 = (nodes s)(full \<mapsto> FileNode (take k data))" using we(3) [OF Inl] ce(1) by auto
        have "(nodes s3)(full := None) = nodes s" unfolding k using n1(1) by (simp add: fun_upd_idem)
        then have ?left using removeFile_effect(2) [of s3 full] s'(1) k n1(1) by auto
        then show ?thesis using s' removeFile_effect(1) [of s3 full] ce(2) we(1) by simp
      next
        case (Inr v)
        then have s': "s' = s3" "r = rc" using assms o \<open>ro = Inr u\<close> w c by (auto simp: putExclusive_def call_def)
        have n3: "nodes s3 = (nodes s)(full \<mapsto> FileNode data)" using we(2) Inr ce(1) by simp
        then have "nodes s3 = (nodes s)(full \<mapsto> FileNode (take (length data) data))" by simp
        then have ?left using s'(1) n1(1) by blast
        then show ?thesis using s' n3 n1(1) ce(2) we(1) by simp
      qed
    qed
  qed
  then show "read_faults s' = read_faults s" "r = Inr () \<Longrightarrow> nodes s full = None \<and> nodes s' = (nodes s)(full \<mapsto> FileNode data)"
    "r = Inl e \<Longrightarrow> ?left"
    by blast+
qed

text \<open>With no faults and a free temporary name the write succeeds.\<close>

definition temp_free :: "OS \<Rightarrow> string list \<Rightarrow> bool" where
  "temp_free s dir \<longleftrightarrow> (\<exists>i<10000. nodes s (dir @ [tempPrefix @ temp_names s (temps s + i)]) = None)"

lemma putTemp_progress:
  assumes "faults s = []" "full \<noteq> []" "walk_error (nodes s) full = None" "nodes s full \<noteq> Some DirNode" "temp_free s (butlast full)"
  shows "fst (putTemp s full data) = Inr ()"
proof -
  have b: "butlast full @ [last full] = full" using assms(2) by simp
  obtain t s1 where t: "createTemp 10000 s (butlast full) = (Inr t, s1)" "faults s1 = []"
    using createTemp_progress [of s "butlast full" "last full" 10000] assms(1,3,5) b by (auto simp: temp_free_def)
  have n1: "nodes s t = None" "nodes s1 = (nodes s)(t \<mapsto> FileNode [])" and x: "\<exists>x. t = butlast full @ [tempPrefix @ x]"
    using createTemp_effect [OF t(1)] by auto
  obtain rw s2 where w: "writeFile s1 t data = (rw, s2)" by (cases "writeFile s1 t data")
  have w2: "rw = Inr ()" "faults s2 = []" "nodes s2 = (nodes s)(t \<mapsto> FileNode data)" using writeFile_effect [OF w] t(2) n1 by auto
  obtain rc s3 where c: "closeFile s2 = (rc, s3)" by (cases "closeFile s2")
  have c3: "rc = Inr ()" "faults s3 = []" "nodes s3 = (nodes s)(t \<mapsto> FileNode data)" using closeFile_effect [OF c] w2 by auto
  obtain rn s4 where n: "renameFile s3 t full = (rn, s4)" by (cases "renameFile s3 t full")
  have "length t = length full" using x assms(2) by auto
  then have "walk_error (nodes s3) full = None" using assms(3) unfolding walk_error_None c3(3) by auto
  then have "rn = Inr ()" using renameFile_effect(4) [OF n] c3 assms(2,4) by (auto split: if_splits)
  then show ?thesis using t(1) w w2(1) c c3(1) n by (simp add: putTemp_def call_def)
qed

section \<open>Name spaces\<close>

definition empty_os :: OS where
  "empty_os = \<lparr>nodes = (\<lambda>_. None), faults = [], read_faults = (\<lambda>_. False), temp_names = decimal, temps = 0\<rparr>"

lemma sample_root: "clean_root ''/d''"
proof -
  have "''/d'' = sep # ''d''" "clean_name ''d''" by code_simp+
  then show ?thesis unfolding clean_root_def by blast
qed

text \<open>
  Clean names without segments that look like temporary files, none of which is a directory of another: the
  names that the program uses, such as \<open>log/checkpoint\<close> and the tiles below \<open>log/tile\<close>.
\<close>

definition names_ok :: "string set \<Rightarrow> bool" where
  "names_ok N \<longleftrightarrow>
     (\<forall>n\<in>N. clean_name n \<and> (\<forall>seg\<in>set (split_on sep n). \<not> HasPrefix seg tempPrefix)) \<and>
     (\<forall>n\<in>N. \<forall>m\<in>N. \<forall>k. take k (split_on sep n) = split_on sep m \<longrightarrow> n = m)"

text \<open>A tree of files in which ancestors are directories, names are not, and their ancestors are not files.\<close>

definition tree_ok :: "string list \<Rightarrow> string set \<Rightarrow> (string list \<Rightarrow> node option) \<Rightarrow> bool" where
  "tree_ok R N ns \<longleftrightarrow>
     (\<forall>p q. ns (p @ q) \<noteq> None \<longrightarrow> p \<noteq> [] \<longrightarrow> q \<noteq> [] \<longrightarrow> ns p = Some DirNode) \<and>
     (\<forall>n\<in>N. ns (R @ split_on sep n) \<noteq> Some DirNode \<and>
       (\<forall>k<length (R @ split_on sep n). \<forall>b. ns (take k (R @ split_on sep n)) \<noteq> Some (FileNode b)))"

definition file_at :: "(string list \<Rightarrow> node option) \<Rightarrow> string list \<Rightarrow> bytes option" where
  "file_at ns p = (case ns p of Some (FileNode b) \<Rightarrow> Some b | _ \<Rightarrow> None)"

lemma names_prefix:
  assumes "names_ok N" "n \<in> N" "m \<in> N" "take k (R @ split_on sep n) = R @ split_on sep m"
  shows "n = m"
proof -
  have "0 < length (split_on sep m)" by simp
  moreover have "length R + length (split_on sep m) \<le> k" using arg_cong [OF assms(4), of length] by (metis length_append length_take min.cobounded2)
  ultimately have "length R < k" by linarith
  then have "take (k - length R) (split_on sep n) = split_on sep m" using assms(4) by simp
  then show ?thesis using assms(1-3) unfolding names_ok_def by blast
qed

lemma names_no_temp:
  assumes "names_ok N" "n \<in> N" "k \<le> length (R @ split_on sep n)" "length R < k"
  shows "take k (R @ split_on sep n) \<noteq> dir @ [tempPrefix @ x]"
proof
  assume "take k (R @ split_on sep n) = dir @ [tempPrefix @ x]"
  then have "last (take (k - length R) (split_on sep n)) = tempPrefix @ x" "take (k - length R) (split_on sep n) \<noteq> []"
    using assms(3,4) by (auto dest: arg_cong [of _ _ last] split: if_splits)
  then have "tempPrefix @ x \<in> set (split_on sep n)" by (metis last_in_set in_set_takeD)
  then have "\<not> HasPrefix (tempPrefix @ x) tempPrefix" using assms(1,2) unfolding names_ok_def by blast
  then show False by (simp add: HasPrefix_def)
qed

lemma find_member: "find P xs = Some x \<Longrightarrow> P x \<and> x \<in> set xs"
  by (auto simp: find_Some_iff)

lemma tree_walk:
  assumes "tree_ok R N ns"
  shows "ns p \<noteq> None \<Longrightarrow> walk_error ns p = None"
    and "n \<in> N \<Longrightarrow> walk_error ns (R @ split_on sep n) = None \<or> walk_error ns (R @ split_on sep n) = Some ErrNotExist"
proof -
  show "walk_error ns p = None" if "ns p \<noteq> None"
    unfolding walk_error_None
  proof (intro allI impI)
    fix k assume k: "0 < k" "k < length p"
    have "ns (take k p @ drop k p) \<noteq> None" using that by simp
    moreover have "take k p \<noteq> []" "drop k p \<noteq> []" using k by auto
    ultimately show "ns (take k p) = Some DirNode" using assms unfolding tree_ok_def by blast
  qed
  show "walk_error ns (R @ split_on sep n) = None \<or> walk_error ns (R @ split_on sep n) = Some ErrNotExist" if n: "n \<in> N"
  proof (cases "walk_error ns (R @ split_on sep n)")
    case (Some e)
    then obtain q where q: "find (\<lambda>q. ns q \<noteq> Some DirNode) (map (\<lambda>k. take k (R @ split_on sep n)) [1..<length (R @ split_on sep n)]) = Some q"
        "e = (if ns q = None then ErrNotExist else ENOTDIR)"
      by (auto simp: walk_error_def split: option.splits)
    from find_member [OF q(1)] obtain k where k: "k < length (R @ split_on sep n)" "q = take k (R @ split_on sep n)" and nd: "ns q \<noteq> Some DirNode"
      unfolding set_map set_upt image_iff Bex_def atLeastLessThan_iff by blast
    have "ns q \<noteq> Some (FileNode b)" for b using assms n k unfolding tree_ok_def by blast
    with nd have "ns q = None" by (cases "ns q") (auto intro: node.exhaust)
    then show ?thesis using Some q(2) by simp
  qed simp
qed

lemma tree_upd:
  assumes t: "tree_ok R N ns" and x: "\<forall>j. 0 < j \<longrightarrow> j < length x \<longrightarrow> ns (take j x) = Some DirNode"
    and f: "nd = DirNode \<or> ns x \<noteq> Some DirNode"
    and d: "\<And>m. m \<in> N \<Longrightarrow> nd = DirNode \<Longrightarrow> R @ split_on sep m \<noteq> x"
    and a: "\<And>m k b. m \<in> N \<Longrightarrow> k < length (R @ split_on sep m) \<Longrightarrow> nd = FileNode b \<Longrightarrow> take k (R @ split_on sep m) \<noteq> x"
  shows "tree_ok R N (ns(x \<mapsto> nd))"
  unfolding tree_ok_def
proof (intro conjI ballI allI impI)
  fix p q assume pq: "(ns(x \<mapsto> nd)) (p @ q) \<noteq> None" "p \<noteq> []" "q \<noteq> []"
  show "(ns(x \<mapsto> nd)) p = Some DirNode"
  proof (cases "p @ q = x")
    case True
    then have p: "p = take (length p) x" "length p < length x" using pq(3) by auto
    have "ns (take (length p) x) = Some DirNode" using x p(2) pq(2) by simp
    moreover have "p \<noteq> x" using p(2) by auto
    ultimately show ?thesis using p(1) by simp
  next
    case False
    then have "ns p = Some DirNode" using pq t unfolding tree_ok_def by (simp only: fun_upd_apply if_False) blast
    then show ?thesis using f by auto
  qed
next
  fix m assume m: "m \<in> N"
  show "(ns(x \<mapsto> nd)) (R @ split_on sep m) \<noteq> Some DirNode"
    using t m d [OF m] unfolding tree_ok_def by (cases nd) auto
  fix k b assume k: "k < length (R @ split_on sep m)"
  show "(ns(x \<mapsto> nd)) (take k (R @ split_on sep m)) \<noteq> Some (FileNode b)"
    using t m k a [OF m k] unfolding tree_ok_def by (cases nd) auto
qed

text \<open>The three updates that a write makes: an ancestor, the file itself, a temporary file beside it.\<close>

lemma tree_updates:
  assumes N: "names_ok N" and t: "tree_ok R N ns" and n: "n \<in> N" and p: "p = R @ split_on sep n"
  shows "0 < k \<Longrightarrow> k < length p \<Longrightarrow> \<forall>j. 0 < j \<longrightarrow> j < k \<longrightarrow> ns (take j p) = Some DirNode \<Longrightarrow> ns (take k p) = None \<Longrightarrow>
      tree_ok R N (ns(take k p \<mapsto> DirNode)) \<and> (\<forall>m\<in>N. file_at (ns(take k p \<mapsto> DirNode)) (R @ split_on sep m) = file_at ns (R @ split_on sep m))"
    and "walk_error ns p = None \<Longrightarrow>
      tree_ok R N (ns(p \<mapsto> FileNode b)) \<and>
      (\<forall>m\<in>N. file_at (ns(p \<mapsto> FileNode b)) (R @ split_on sep m) = (if m = n then Some b else file_at ns (R @ split_on sep m)))"
    and "walk_error ns p = None \<Longrightarrow> ns (butlast p @ [tempPrefix @ x]) = None \<Longrightarrow>
      tree_ok R N (ns(butlast p @ [tempPrefix @ x] \<mapsto> FileNode b)) \<and>
      (\<forall>m\<in>N. file_at (ns(butlast p @ [tempPrefix @ x] \<mapsto> FileNode b)) (R @ split_on sep m) = file_at ns (R @ split_on sep m))"
proof -
  have pn: "ns p \<noteq> Some DirNode" using t n p unfolding tree_ok_def by blast
  have lp: "length R < length p" using p by (simp add: Suc_le_eq)
  have pre: "m = n" if "m \<in> N" "take k p = R @ split_on sep m" for m k
    using names_prefix [OF N n that(1), of k R] that(2) p by simp
  show "tree_ok R N (ns(take k p \<mapsto> DirNode)) \<and> (\<forall>m\<in>N. file_at (ns(take k p \<mapsto> DirNode)) (R @ split_on sep m) = file_at ns (R @ split_on sep m))"
    if k: "0 < k" "k < length p" and anc: "\<forall>j. 0 < j \<longrightarrow> j < k \<longrightarrow> ns (take j p) = Some DirNode" and no: "ns (take k p) = None"
  proof -
    have ne: "R @ split_on sep m \<noteq> take k p" if m: "m \<in> N" for m
    proof
      assume e: "R @ split_on sep m = take k p"
      then have "m = n" using pre [OF m] by simp
      then have "length (take k p) = length p" using e p by (metis length_take)
      then show False using k by simp
    qed
    have "tree_ok R N (ns(take k p \<mapsto> DirNode))"
      by (rule tree_upd [OF t]) (use anc k ne in \<open>auto simp: min_def\<close>)
    then show ?thesis using ne by (auto simp: file_at_def)
  qed
  show "tree_ok R N (ns(p \<mapsto> FileNode b)) \<and>
      (\<forall>m\<in>N. file_at (ns(p \<mapsto> FileNode b)) (R @ split_on sep m) = (if m = n then Some b else file_at ns (R @ split_on sep m)))"
    if w: "walk_error ns p = None"
  proof -
    have "take k (R @ split_on sep m) \<noteq> p" if "m \<in> N" "k < length (R @ split_on sep m)" for m k
    proof
      assume e: "take k (R @ split_on sep m) = p"
      then have "m = n" using names_prefix [OF N that(1) n, of k R] p by simp
      then show False using e p that(2) by (metis length_take min.absorb4 less_irrefl)
    qed
    then have "tree_ok R N (ns(p \<mapsto> FileNode b))"
      by (intro tree_upd [OF t]) (use w pn in \<open>auto simp: walk_error_None\<close>)
    moreover have "R @ split_on sep m = p \<longleftrightarrow> m = n" if "m \<in> N" for m using pre [OF that, of "length p"] p by auto
    ultimately show ?thesis by (simp add: file_at_def)
  qed
  show "tree_ok R N (ns(butlast p @ [tempPrefix @ x] \<mapsto> FileNode b)) \<and>
      (\<forall>m\<in>N. file_at (ns(butlast p @ [tempPrefix @ x] \<mapsto> FileNode b)) (R @ split_on sep m) = file_at ns (R @ split_on sep m))"
    if w: "walk_error ns p = None" and no: "ns (butlast p @ [tempPrefix @ x]) = None"
  proof -
    let ?t = "butlast p @ [tempPrefix @ x]"
    have lt: "length ?t = length p" using lp by (cases p) auto
    have wt: "walk_error ns ?t = None" using w walk_error_sibling [of ns "butlast p" "last p" "tempPrefix @ x"] lp by (cases "p = []") auto
    have ne: "take k (R @ split_on sep m) \<noteq> ?t" if "m \<in> N" "k \<le> length (R @ split_on sep m)" for m k
    proof
      assume e: "take k (R @ split_on sep m) = ?t"
      then have "k = length p" using that(2) lt by (metis length_take min.absorb2)
      then show False using names_no_temp [OF N that(1,2)] lp e by blast
    qed
    have "R @ split_on sep m \<noteq> ?t" if "m \<in> N" for m using ne [OF that, of "length (R @ split_on sep m)"] by simp
    moreover have "tree_ok R N (ns(?t \<mapsto> FileNode b))"
      by (rule tree_upd [OF t]) (use wt no ne in \<open>auto simp: walk_error_None\<close>)
    ultimately show ?thesis by (simp add: file_at_def)
  qed
qed

section \<open>Making directories\<close>

lemma mkdirNode_effect:
  assumes "mkdirNode s p = (r, s')" "nodes s p = None"
  shows "read_faults s' = read_faults s \<and> temps s' = temps s \<and> temp_names s' = temp_names s"
    "r = Inr () \<Longrightarrow> nodes s' = (nodes s)(p \<mapsto> DirNode)" "r = Inl e \<Longrightarrow> nodes s' = nodes s"
    "faults s = [] \<Longrightarrow> walk_error (nodes s) p = None \<Longrightarrow> r = Inr () \<and> faults s' = []"
proof -
  obtain f s1 where f: "next_call s = (f, s1)" by (cases "next_call s")
  note n = next_call_same [OF f]
  show "read_faults s' = read_faults s \<and> temps s' = temps s \<and> temp_names s' = temp_names s"
    "r = Inr () \<Longrightarrow> nodes s' = (nodes s)(p \<mapsto> DirNode)" "r = Inl e \<Longrightarrow> nodes s' = nodes s"
    "faults s = [] \<Longrightarrow> walk_error (nodes s) p = None \<Longrightarrow> r = Inr () \<and> faults s' = []"
    using assms n by (auto simp: mkdirNode_def sys_call_def f split: option.splits if_splits)
qed

text \<open>What making the directories of a name keeps and achieves.\<close>

definition made_dirs :: "string list \<Rightarrow> string set \<Rightarrow> string list \<Rightarrow> OS \<Rightarrow> unit result \<Rightarrow> OS \<Rightarrow> bool" where
  "made_dirs R N p s r s' \<longleftrightarrow>
     tree_ok R N (nodes s') \<and> (\<forall>m\<in>N. file_at (nodes s') (R @ split_on sep m) = file_at (nodes s) (R @ split_on sep m)) \<and>
     (\<forall>q. length p \<le> length q \<longrightarrow> nodes s' q = nodes s q) \<and>
     read_faults s' = read_faults s \<and> temps s' = temps s \<and> temp_names s' = temp_names s \<and>
     (r = Inr () \<longrightarrow> walk_error (nodes s') p = None) \<and> (faults s = [] \<longrightarrow> r = Inr () \<and> faults s' = [])"

lemma mkdirLoop_effect:
  assumes N: "names_ok N" "n \<in> N" and p: "p = R @ split_on sep n"
    and t: "tree_ok R N (nodes s)" and j: "0 < j" "j \<le> length p" "\<forall>i. 0 < i \<longrightarrow> i < j \<longrightarrow> nodes s (take i p) = Some DirNode"
    and run: "mkdirLoop s (map (\<lambda>k. take k p) [j..<length p]) = (r, s')"
  shows "made_dirs R N p s r s'"
  using t j run
proof (induction "length p - j" arbitrary: j s)
  case 0
  then have "[j..<length p] = []" by simp
  with 0 show ?case by (auto simp: made_dirs_def walk_error_None)
next
  case (Suc d)
  then have lt: "j < length p" by simp
  then have l: "map (\<lambda>k. take k p) [j..<length p] = take j p # map (\<lambda>k. take k p) [Suc j..<length p]" by (simp add: upt_conv_Cons)
  have d: "d = length p - Suc j" "0 < Suc j" "Suc j \<le> length p" using Suc(2) lt by simp_all
  have w: "walk_error (nodes s) (take j p) = None" using Suc.prems(4) by (auto simp: walk_error_None min_def)
  show ?case
  proof (cases "nodes s (take j p)")
    case (Some nd)
    have "nd \<noteq> FileNode b" for b using Suc.prems(1) N(2) lt Some unfolding tree_ok_def p by blast
    then have nd: "nd = DirNode" by (cases nd) auto
    have "\<forall>i. 0 < i \<longrightarrow> i < Suc j \<longrightarrow> nodes s (take i p) = Some DirNode" using Suc.prems(4) Some nd by (auto simp: less_Suc_eq)
    then show ?thesis using Suc.prems(1,5) d Some nd l by (intro Suc(1)) simp_all
  next
    case None
    obtain q s1 where q: "mkdirNode s (take j p) = (q, s1)" by (cases "mkdirNode s (take j p)")
    note me = mkdirNode_effect [OF q None]
    show ?thesis
    proof (cases q)
      case (Inl e)
      then have "r = Inl e" "s' = s1" using Suc.prems(5) l None q by simp_all
      moreover have "faults s \<noteq> []" using me(4) w Inl by auto
      ultimately show ?thesis using me(1) me(3) [OF Inl] Suc.prems(1) by (simp add: made_dirs_def)
    next
      case (Inr u)
      then have n1: "nodes s1 = (nodes s)(take j p \<mapsto> DirNode)" using me(2) by simp
      have u: "tree_ok R N (nodes s1)" "\<forall>m\<in>N. file_at (nodes s1) (R @ split_on sep m) = file_at (nodes s) (R @ split_on sep m)"
        using tree_updates(1) [OF N(1) Suc.prems(1) N(2) p Suc.prems(2) lt Suc.prems(4) None] n1 by simp_all
      have dirs: "\<forall>i. 0 < i \<longrightarrow> i < Suc j \<longrightarrow> nodes s1 (take i p) = Some DirNode"
        using Suc.prems(4) n1 by (auto simp: less_Suc_eq)
      have run1: "mkdirLoop s1 (map (\<lambda>k. take k p) [Suc j..<length p]) = (r, s')" using Suc.prems(5) l None q Inr by simp
      have "made_dirs R N p s1 r s'" by (rule Suc(1) [OF d(1) u(1) d(2,3) dirs run1])
      moreover have "nodes s1 q = nodes s q" if "length p \<le> length q" for q using n1 lt that by auto
      moreover have "faults s = [] \<Longrightarrow> faults s1 = []" using me(4) w by blast
      ultimately show ?thesis using me(1) u(2) by (simp add: made_dirs_def)
    qed
  qed
qed

lemma MkdirAll_effect:
  assumes "names_ok N" "n \<in> N" "p = R @ split_on sep n" "tree_ok R N (nodes s)" "MkdirAll s (butlast p) = (r, s')"
  shows "made_dirs R N p s r s'"
proof -
  have "p \<noteq> []" using assms(3) by simp
  then have "Suc (length (butlast p)) = length p" by simp
  moreover have "map (\<lambda>k. take k (butlast p)) [1..<length p] = map (\<lambda>k. take k p) [1..<length p]"
    by (intro map_cong) (auto simp: take_butlast)
  ultimately have "mkdirLoop s (map (\<lambda>k. take k p) [1..<length p]) = (r, s')" using assms(5) by (simp only: MkdirAll_def)
  from mkdirLoop_effect [OF assms(1-4) _ _ _ this] \<open>p \<noteq> []\<close> show ?thesis by (simp add: Suc_le_eq)
qed

section \<open>The disk meets the contract\<close>

definition disk_ok :: "string set \<Rightarrow> Disk \<Rightarrow> bool" where
  "disk_ok N d \<longleftrightarrow> clean_root (root d) \<and> tree_ok (segs (root d)) N (nodes (dos d))"

text \<open>The files of a disk by name, as a client of the interface sees them.\<close>

definition disk_path :: "Disk \<Rightarrow> string \<Rightarrow> string list" where
  "disk_path d n = segs (root d) @ split_on sep n"

definition disk_view :: "Disk \<Rightarrow> FS" where
  "disk_view d = \<lparr>files = (\<lambda>n. file_at (nodes (dos d)) (disk_path d n)), put_faults = [],
     get_faults = (\<lambda>n. read_faults (dos d) (disk_path d n))\<rparr>"

lemma resolve_name:
  assumes "names_ok N" "disk_ok N d" "n \<in> N"
  shows "\<exists>full. resolve d n = Inr full \<and> segs full = disk_path d n"
proof -
  have c: "clean_root (root d)" "clean_name n" using assms by (auto simp: disk_ok_def names_ok_def)
  have "filter (\<lambda>s. s \<noteq> []) (split_on sep n) = split_on sep n"
    using c(2) by (auto simp: clean_name_def clean_seg_def filter_id_conv)
  then have "segs (root d @ sep # n) = disk_path d n" by (simp add: segs_def split_on_sep_append disk_path_def)
  with resolve_clean [OF c] show ?thesis by blast
qed

text \<open>One write: the result, and what is left for each name.\<close>

lemma Disk_Put_effect:
  assumes N: "names_ok N" and ok: "disk_ok N d" and n: "n \<in> N" and run: "Disk_Put d n data x = (r, d')"
  shows "disk_ok N d'" "root d' = root d" "read_faults (dos d') = read_faults (dos d)"
    "r = Inr () \<Longrightarrow> m \<in> N \<Longrightarrow> files (disk_view d') m = (if m = n then Some data else files (disk_view d) m)"
    "r = Inl e \<Longrightarrow> m \<in> N \<Longrightarrow> x \<longrightarrow> m \<noteq> n \<or> files (disk_view d) n \<noteq> None \<Longrightarrow> files (disk_view d') m = files (disk_view d) m"
    "r = Inl e \<Longrightarrow> x \<Longrightarrow> files (disk_view d') n = files (disk_view d) n \<or> (\<exists>k. files (disk_view d') n = Some (take k data))"
    "x \<Longrightarrow> files (disk_view d) n \<noteq> None \<Longrightarrow> r \<noteq> Inr ()"
    "faults (dos d) = [] \<Longrightarrow> temp_free (dos d) (butlast (disk_path d n)) \<Longrightarrow> \<not> x \<Longrightarrow> r = Inr ()"
proof -
  let ?R = "segs (root d)" and ?p = "disk_path d n"
  have p: "?p = ?R @ split_on sep n" by (simp add: disk_path_def)
  obtain full where full: "resolve d n = Inr full" "segs full = ?p" using resolve_name [OF N ok n] by blast
  obtain rm s1 where m: "MkdirAll (dos d) (butlast ?p) = (rm, s1)" by (cases "MkdirAll (dos d) (butlast ?p)")
  have t: "tree_ok ?R N (nodes (dos d))" using ok by (simp add: disk_ok_def)
  note made = MkdirAll_effect [OF N n p t m, unfolded made_dirs_def]
  obtain q s2 where q: "(if x then putExclusive s1 ?p data else putTemp s1 ?p data) = (q, s2)" by fastforce
  have "Disk_Put d n data x = (case rm of Inl e \<Rightarrow> (Inl (wrapf ''mkdir'' e), d\<lparr>dos := s1\<rparr>) | Inr _ \<Rightarrow> (q, d\<lparr>dos := s2\<rparr>))"
    unfolding Disk_Put_def full sum.case m call_def prod.case by (cases rm) (simp_all only: sum.case prod.case q)
  then have d': "d' = d\<lparr>dos := if rm = Inr () then s2 else s1\<rparr>" "r = (case rm of Inl e \<Rightarrow> Inl (wrapf ''mkdir'' e) | Inr _ \<Rightarrow> q)"
    using run by (auto split: sum.splits)
  have view: "files (disk_view d) m = file_at (nodes (dos d)) (?R @ split_on sep m)"
    "files (disk_view d') m = file_at (nodes (dos d')) (?R @ split_on sep m)" for m
    using d'(1) by (simp_all add: disk_view_def disk_path_def)
  have same: "nodes s1 ?p = nodes (dos d) ?p" using made by simp
  have free: "temp_free s1 (butlast ?p)" if "temp_free (dos d) (butlast ?p)"
    using that made p by (simp add: temp_free_def)
  have nd: "nodes s1 ?p \<noteq> Some DirNode" using made n p unfolding tree_ok_def by metis
  have effect: "disk_ok N d' \<and> read_faults (dos d') = read_faults (dos d) \<and>
    (r = Inr () \<longrightarrow> (\<forall>m\<in>N. files (disk_view d') m = (if m = n then Some data else files (disk_view d) m)) \<and> (x \<longrightarrow> nodes (dos d) ?p = None)) \<and>
    (isl r \<longrightarrow> (\<forall>m\<in>N. files (disk_view d') m = files (disk_view d) m) \<or>
      x \<and> nodes (dos d) ?p = None \<and> (\<exists>k. \<forall>m\<in>N. files (disk_view d') m = (if m = n then Some (take k data) else files (disk_view d) m)))"
  proof (cases rm)
    case (Inl e)
    then show ?thesis using d' made view ok by (simp add: disk_ok_def)
  next
    case (Inr u)
    then have w: "walk_error (nodes s1) ?p = None" and t1: "tree_ok ?R N (nodes s1)" and dd: "dos d' = s2" "r = q" "root d' = root d"
      and f1: "\<forall>m\<in>N. file_at (nodes s1) (?R @ split_on sep m) = files (disk_view d) m"
      using made d' view(1) by simp_all
    note up = tree_updates(2,3) [OF N t1 n p w]
    show ?thesis
    proof (cases x)
      case True
      then have q': "putExclusive s1 ?p data = (q, s2)" using q by simp
      note pe = putExclusive_effect [OF q']
      show ?thesis
      proof (cases q)
        case (Inl e)
        from pe(3) [OF Inl] show ?thesis
        proof
          assume "nodes s2 = nodes s1"
          then show ?thesis using dd view(2) f1 t1 pe(1) made ok Inl by (simp add: disk_ok_def)
        next
          assume "nodes s1 ?p = None \<and> (\<exists>k. nodes s2 = (nodes s1)(?p \<mapsto> FileNode (take k data)))"
          then obtain k where k: "nodes (dos d) ?p = None" "nodes s2 = (nodes s1)(?p \<mapsto> FileNode (take k data))" using same by auto
          have "\<exists>k. \<forall>m\<in>N. files (disk_view d') m = (if m = n then Some (take k data) else files (disk_view d) m)"
            using up(1) [of "take k data"] dd view(2) f1 k(2) by (intro exI [of _ k]) simp
          then show ?thesis using up(1) [of "take k data"] dd k pe(1) made ok Inl True by (simp add: disk_ok_def)
        qed
      next
        case (Inr v)
        then show ?thesis using pe(1,2) up(1) [of data] dd view(2) f1 made ok same by (simp add: disk_ok_def)
      qed
    next
      case False
      then have q': "putTemp s1 ?p data = (q, s2)" using q by simp
      note pe = putTemp_effect [OF q']
      show ?thesis
      proof (cases q)
        case (Inl e)
        from pe(3) [OF Inl] show ?thesis
        proof
          assume "nodes s2 = nodes s1"
          then show ?thesis using dd view(2) f1 t1 pe(1) made ok Inl by (simp add: disk_ok_def)
        next
          assume "\<exists>x b. nodes s1 (butlast ?p @ [tempPrefix @ x]) = None \<and> nodes s2 = (nodes s1)(butlast ?p @ [tempPrefix @ x] \<mapsto> FileNode b)"
          then obtain y b where k: "nodes s1 (butlast ?p @ [tempPrefix @ y]) = None" "nodes s2 = (nodes s1)(butlast ?p @ [tempPrefix @ y] \<mapsto> FileNode b)" by blast
          show ?thesis using up(2) [OF k(1), of b] dd view(2) f1 k(2) pe(1) made ok Inl by (simp add: disk_ok_def)
        qed
      next
        case (Inr v)
        then show ?thesis using pe(1,2) up(1) [of data] dd view(2) f1 made ok False by (simp add: disk_ok_def)
      qed
    qed
  qed
  then show "disk_ok N d'" "root d' = root d" "read_faults (dos d') = read_faults (dos d)"
    "r = Inr () \<Longrightarrow> m \<in> N \<Longrightarrow> files (disk_view d') m = (if m = n then Some data else files (disk_view d) m)"
    using d'(1) by simp_all
  have pres: "files (disk_view d) n \<noteq> None \<Longrightarrow> nodes (dos d) ?p \<noteq> None" by (auto simp: disk_view_def file_at_def split: option.splits)
  show "files (disk_view d') m = files (disk_view d) m"
    if "r = Inl e" "m \<in> N" "x \<longrightarrow> m \<noteq> n \<or> files (disk_view d) n \<noteq> None"
    using effect that pres by auto
  show "files (disk_view d') n = files (disk_view d) n \<or> (\<exists>k. files (disk_view d') n = Some (take k data))" if "r = Inl e" "x"
    using effect that n by auto
  show "x \<Longrightarrow> files (disk_view d) n \<noteq> None \<Longrightarrow> r \<noteq> Inr ()" using effect pres by blast
  show "r = Inr ()" if "faults (dos d) = []" "temp_free (dos d) (butlast ?p)" "\<not> x"
  proof -
    have rm: "rm = Inr ()" "faults s1 = []" "walk_error (nodes s1) ?p = None" using made that(1) by auto
    have "fst (putTemp s1 ?p data) = Inr ()" using putTemp_progress [OF rm(2) _ rm(3) nd free [OF that(2)]] p by simp
    then show ?thesis using d'(2) rm(1) q that(3) by (simp add: prod_eq_iff)
  qed
qed

text \<open>A disk with the names it is used for is a store.\<close>

definition named_put :: "string set \<times> Disk \<Rightarrow> string \<Rightarrow> bytes \<Rightarrow> bool \<Rightarrow> unit result \<times> (string set \<times> Disk)" where
  "named_put s n data x = (case Disk_Put (snd s) n data x of (r, d') \<Rightarrow> (r, (fst s, d')))"

interpretation disk: file_store "\<lambda>s. names_ok (fst s) \<and> disk_ok (fst s) (snd s)" "\<lambda>s n. n \<in> fst s"
  "\<lambda>s. files (disk_view (snd s))" named_put
proof
  fix s n d x r s'
  assume a: "names_ok (fst s) \<and> disk_ok (fst s) (snd s)" "n \<in> fst s" "named_put s n d x = (r, s')"
  then have p: "Disk_Put (snd s) n d x = (r, snd s')" and f: "fst s' = fst s" by (auto simp: named_put_def split: prod.splits)
  note e = Disk_Put_effect [OF conjunct1 [OF a(1)] conjunct2 [OF a(1)] a(2) p]
  show "(names_ok (fst s') \<and> disk_ok (fst s') (snd s')) \<and> (\<lambda>n. n \<in> fst s') = (\<lambda>n. n \<in> fst s)" using e(1) a(1) f by simp
next
  fix s n m d x s'
  assume a: "names_ok (fst s) \<and> disk_ok (fst s) (snd s)" "n \<in> fst s" "m \<in> fst s" "named_put s n d x = (Inr (), s')"
  then have p: "Disk_Put (snd s) n d x = (Inr (), snd s')" by (auto simp: named_put_def split: prod.splits)
  show "files (disk_view (snd s')) m = (if m = n then Some d else files (disk_view (snd s)) m)"
    using Disk_Put_effect(4) [OF conjunct1 [OF a(1)] conjunct2 [OF a(1)] a(2) p refl a(3)] .
next
  fix s n m d x e s'
  assume a: "names_ok (fst s) \<and> disk_ok (fst s) (snd s)" "n \<in> fst s" "m \<in> fst s" "named_put s n d x = (Inl e, s')"
    "x \<longrightarrow> m \<noteq> n \<or> files (disk_view (snd s)) n \<noteq> None"
  then have p: "Disk_Put (snd s) n d x = (Inl e, snd s')" by (auto simp: named_put_def split: prod.splits)
  show "files (disk_view (snd s')) m = files (disk_view (snd s)) m"
    using Disk_Put_effect(5) [OF conjunct1 [OF a(1)] conjunct2 [OF a(1)] a(2) p refl a(3,5)] .
next
  fix s n d
  assume a: "names_ok (fst s) \<and> disk_ok (fst s) (snd s)" "n \<in> fst s" "files (disk_view (snd s)) n \<noteq> None"
  obtain r d' where p: "Disk_Put (snd s) n d True = (r, d')" by (cases "Disk_Put (snd s) n d True")
  show "fst (named_put s n d True) \<noteq> Inr ()"
    using Disk_Put_effect(7) [OF conjunct1 [OF a(1)] conjunct2 [OF a(1)] a(2) p TrueI a(3)] p by (simp add: named_put_def)
qed

section \<open>Properties\<close>

text \<open>
  C37: a name never escapes the root. When \<open>resolve\<close> accepts a name, the path is the root or below it,
  and no segment of it is empty, \<open>.\<close> or \<open>..\<close>.
\<close>

theorem resolve_confined:
  assumes "resolve d name = Inr full"
  shows "(full = root d \<or> HasPrefix full (root d @ [sep])) \<and>
    (\<exists>rel. full = sep # rel \<and> (rel = [] \<or> clean_name rel))"
proof -
  define rel where "rel = TrimPrefix (Clean (sep # name)) [sep]"
  have full: "full = Join (root d) rel" "full = root d \<or> HasPrefix full (root d @ [sep])"
    using assms by (auto simp: resolve_def Let_def rel_def split: if_splits)
  have "\<exists>r. Clean p = sep # r \<and> (r = [] \<or> clean_name r)" for p
  proof -
    let ?xs = "foldl clean_step [] (split_on sep p)"
    have sub: "seg \<in> set (split_on sep p) \<and> clean_seg seg" if "seg \<in> set ?xs" for seg
      using foldl_clean_sub [OF that] by simp
    then have cs: "\<forall>seg\<in>set ?xs. clean_seg seg" by blast
    have ns: "sep \<notin> set seg" if "seg \<in> set ?xs" for seg
      by (rule split_on_no_sep_in [OF conjunct1 [OF sub [OF that]]])
    show ?thesis
    proof (cases "?xs = []")
      case True
      then show ?thesis by (simp add: Clean_def)
    next
      case False
      have "split_on sep (join_with sep ?xs) = ?xs" using False ns by (rule split_join)
      with cs show ?thesis by (simp add: Clean_def clean_name_def)
    qed
  qed
  with full show ?thesis by (auto simp: Join_def)
qed

theorem resolve_confined_witness:
  "\<exists>d full. resolve d ''log//./a'' = Inr full \<and> full = ''/var/cactus/log/a'' \<and>
     (full = root d \<or> HasPrefix full (root d @ [sep])) \<and>
     (\<exists>rel. full = sep # rel \<and> (rel = [] \<or> clean_name rel))"
proof -
  let ?d = "\<lparr>root = ''/var/cactus'', dos = empty_os\<rparr>"
  have "resolve ?d ''log//./a'' = Inr ''/var/cactus/log/a''" by (simp add: resolve_def) code_simp
  with resolve_confined [OF this] show ?thesis by blast
qed

text \<open>
  C38: \<open>Disk\<close> refines the interface. The names are a set of clean names, none of them a directory of another
  or like a temporary file, and the tree has directories above its nodes and no directory at a name. Then
  for every name \<open>Get\<close> and \<open>Exists\<close> return what the interface's map returns. A write by way of a temporary
  file and a rename is a write of the map: when it succeeds the file has the new contents, and when any
  of its system calls fails (in particular when the process stops between two of them) every file has the
  old contents and an error is returned; with no fault and a free temporary name it succeeds. An exclusive
  write never changes a file that is present; when it fails it may leave the beginning of a new file. The
  conditions on the tree hold again afterwards.
\<close>

theorem disk_refines_fs:
  assumes "names_ok N" "disk_ok N d" "n \<in> N" "Disk_Put d n data x = (r, d')"
  shows "Disk_Get d n = Get (disk_view d) n \<and> Disk_Exists d n = Exists (disk_view d) n \<and> disk_ok N d' \<and>
    (case Put (disk_view d\<lparr>put_faults := [isl r]\<rparr>) n data x of (r', fs') \<Rightarrow>
       (isl r' \<longleftrightarrow> isl r) \<and> get_faults (disk_view d') = get_faults fs' \<and>
       (\<forall>m\<in>N. files (disk_view d') m = files fs' m \<or>
          x \<and> isl r \<and> m = n \<and> files fs' n = None \<and> (\<exists>k. files (disk_view d') m = Some (take k data)))) \<and>
    (faults (dos d) = [] \<and> temp_free (dos d) (butlast (disk_path d n)) \<and> \<not> x \<longrightarrow> r = Inr ())"
proof (intro conjI impI)
  have t: "tree_ok (segs (root d)) N (nodes (dos d))" using assms(2) by (simp add: disk_ok_def)
  obtain full where full: "resolve d n = Inr full" "segs full = disk_path d n" using resolve_name [OF assms(1-3)] by blast
  have nd: "nodes (dos d) (disk_path d n) \<noteq> Some DirNode" using t assms(3) unfolding tree_ok_def disk_path_def by blast
  have ne: "disk_path d n \<noteq> []" by (simp add: disk_path_def)
  note w = tree_walk(1) [OF t, of "disk_path d n"] tree_walk(2) [OF t assms(3), folded disk_path_def]
  show "Disk_Get d n = Get (disk_view d) n" "Disk_Exists d n = Exists (disk_view d) n"
    using w nd ne by (auto simp: Disk_Get_def Disk_Exists_def Get_def Exists_def full disk_view_def file_at_def Let_def ErrNotExist_def
        split: option.splits node.splits)
  note e = Disk_Put_effect [OF assms]
  show "disk_ok N d'" by (rule e(1))
  show "r = Inr ()" if "faults (dos d) = [] \<and> temp_free (dos d) (butlast (disk_path d n)) \<and> \<not> x" using e(8) that by blast
  have gf: "get_faults (disk_view d') = get_faults (disk_view d)" using e(2,3) by (simp add: disk_view_def disk_path_def)
  show "case Put (disk_view d\<lparr>put_faults := [isl r]\<rparr>) n data x of (r', fs') \<Rightarrow>
       (isl r' \<longleftrightarrow> isl r) \<and> get_faults (disk_view d') = get_faults fs' \<and>
       (\<forall>m\<in>N. files (disk_view d') m = files fs' m \<or>
          x \<and> isl r \<and> m = n \<and> files fs' n = None \<and> (\<exists>k. files (disk_view d') m = Some (take k data)))"
  proof (cases r)
    case (Inl err)
    have "files (disk_view d') m = files (disk_view d) m \<or>
        x \<and> m = n \<and> files (disk_view d) n = None \<and> (\<exists>k. files (disk_view d') m = Some (take k data))" if "m \<in> N" for m
      using e(5) [OF Inl that] e(6) [OF Inl] by blast
    then show ?thesis using Inl gf by (simp add: Put_def next_fault_def)
  next
    case (Inr u)
    then have "x \<Longrightarrow> files (disk_view d) n = None" using e(7) by (cases "files (disk_view d) n") auto
    then have "Put (disk_view d\<lparr>put_faults := [False]\<rparr>) n data x = (Inr (), (disk_view d)\<lparr>put_faults := [], files := (files (disk_view d))(n := Some data)\<rparr>)"
      by (cases x) (simp_all add: Put_def next_fault_def Let_def)
    then show ?thesis using Inr gf e(4) by simp
  qed
qed

text \<open>Two names on an empty disk, and a crash after the data has been written to the temporary file.\<close>

theorem disk_refines_fs_witness:
  "\<exists>d r d'. names_ok {''log/a'', ''log/b''} \<and> disk_ok {''log/a'', ''log/b''} d \<and> faults (dos d) \<noteq> [] \<and>
     Disk_Put d ''log/a'' [1] False = (r, d') \<and> Disk_Get d ''log/a'' = Get (disk_view d) ''log/a'' \<and> disk_ok {''log/a'', ''log/b''} d'"
proof -
  let ?N = "{''log/a'', ''log/b''}" and ?d = "\<lparr>root = ''/d'', dos = empty_os\<lparr>faults := [None, None, None, None, Some 0, Some 0]\<rparr>\<rparr>"
  have N: "names_ok ?N"
    by (auto simp: names_ok_def clean_name_def clean_seg_def sep_def HasPrefix_def tempPrefix_def take_Cons' split: if_splits)
  have "clean_root ''/d''" by (rule sample_root)
  then have ok: "disk_ok ?N ?d" by (simp add: disk_ok_def tree_ok_def empty_os_def)
  obtain r d' where p: "Disk_Put ?d ''log/a'' [1] False = (r, d')" by (cases "Disk_Put ?d ''log/a'' [1] False")
  have "''log/a'' \<in> ?N" by simp
  from disk_refines_fs [OF N ok this p] N ok p show ?thesis by (intro exI [of _ ?d] exI [of _ r] exI [of _ d']) simp
qed

end
