(* ===== verification/TrustAnchor.thy ===== *)
theory TrustAnchor
  imports Wire
begin

text \<open>
  Trust anchor IDs (cert/trustanchorid.go) and the identifiers and serial numbers derived from a CA ID
  (cert/caid.go). A \<open>TrustAnchorID\<close> holds the relative dotted-decimal ASCII form; its binary form is
  the content of a RELATIVE-OID, one base-128 integer per arc.
\<close>

section \<open>The code\<close>

type_synonym TrustAnchorID = string

definition TrustAnchorOIDBase :: string where
  "TrustAnchorOIDBase = ''1.3.6.1.4.1''"

definition OIDNamePrefix :: string where
  "OIDNamePrefix = ''oid/''"

definition OIDName :: "TrustAnchorID \<Rightarrow> string" where
  "OIDName ID = OIDNamePrefix @ TrustAnchorOIDBase @ ''.'' @ ID"

text \<open>The loop of \<open>appendBase128\<close> fills its buffer from the end.\<close>

lemma u64_shift_7_less:
  fixes v :: u64
  assumes "v \<noteq> 0"
  shows "unat (drop_bit 7 v) < unat v"
proof -
  have "0 < unat v" using assms by (simp add: unat_gt_0)
  then show ?thesis unfolding unat_drop_u64 by simp
qed

function base128Loop :: "u64 \<Rightarrow> bytes \<Rightarrow> bytes" where
  "base128Loop v buf =
     (if v > 0 then base128Loop (drop_bit 7 v) ((ucast (v AND 0x7f) OR 0x80) # buf) else buf)"
  by pat_completeness auto
termination
proof (relation "measure (\<lambda>(v, _). unat v)", simp)
  fix v :: u64 and buf :: bytes
  assume "0 < v"
  then have "v \<noteq> 0" by auto
  then show "((drop_bit 7 v, (ucast (v AND 0x7f) OR 0x80) # buf), v, buf) \<in> measure (\<lambda>(v, _). unat v)"
    unfolding in_measure prod.case by (rule u64_shift_7_less)
qed

declare base128Loop.simps [simp del]

definition appendBase128 :: "bytes \<Rightarrow> u64 \<Rightarrow> bytes" where
  "appendBase128 dst v = dst @ base128Loop (drop_bit 7 v) [ucast (v AND 0x7f)]"

fun binaryLoop :: "bytes \<Rightarrow> string list \<Rightarrow> bytes result" where
  "binaryLoop out [] = Inr out"
| "binaryLoop out (part # parts) =
     (if part = [] then Inl (Errorf ''cert: trust anchor ID has empty arc'')
      else rbind (rwrap ''cert: trust anchor ID arc is not a non-negative integer'' (ParseUint part))
        (\<lambda>v. binaryLoop (appendBase128 out v) parts))"

definition Binary :: "TrustAnchorID \<Rightarrow> bytes result" where
  "Binary ID =
     (if ID = [] then Inl (Errorf ''cert: empty trust anchor ID'')
      else binaryLoop [] (split_on (CHR ''.'') ID))"

fun fromBinaryLoop :: "bytes \<Rightarrow> bool \<Rightarrow> nat \<Rightarrow> u64 \<Rightarrow> string list \<Rightarrow> TrustAnchorID result" where
  "fromBinaryLoop [] started bits v arcs =
     (if started then Inl (Errorf ''cert: truncated base-128 encoding in trust anchor ID'')
      else Inr (join_with (CHR ''.'') arcs))"
| "fromBinaryLoop (c # b) started bits v arcs =
     (if \<not> started \<and> c = 0x80 then
        Inl (Errorf ''cert: non-minimal base-128 encoding in trust anchor ID'')
      else if bits + 7 > 64 then Inl (Errorf ''cert: trust anchor ID arc overflows uint64'')
      else let v' = push_bit 7 v OR ucast (c AND 0x7f) in
        if c AND 0x80 = 0 then fromBinaryLoop b False 0 0 (arcs @ [FormatUint v'])
        else fromBinaryLoop b True (bits + 7) v' arcs)"

definition TrustAnchorIDFromBinary :: "bytes \<Rightarrow> TrustAnchorID result" where
  "TrustAnchorIDFromBinary b =
     (if b = [] then Inl (Errorf ''cert: empty binary trust anchor ID'')
      else fromBinaryLoop b False 0 0 [])"

definition maxUint48 :: u64 where
  "maxUint48 = 2 ^ 48 - 1"

definition MaxLogNumber :: nat where
  "MaxLogNumber = 2 ^ 16 - 1"

definition LogID :: "TrustAnchorID \<Rightarrow> u16 \<Rightarrow> TrustAnchorID result" where
  "LogID caID logNumber =
     (if logNumber = 0 then Inl (Errorf ''cert: log number must be >= 1'')
      else Inr (caID @ ''.0.'' @ decimal (unat logNumber)))"

definition LandmarkID :: "TrustAnchorID \<Rightarrow> u16 \<Rightarrow> u64 \<Rightarrow> TrustAnchorID" where
  "LandmarkID caID logNumber landmarkNumber =
     caID @ ''.1.'' @ decimal (unat logNumber) @ ''.'' @ decimal (unat landmarkNumber)"

definition LandmarkGroupID :: "TrustAnchorID \<Rightarrow> u16 \<Rightarrow> u64 \<Rightarrow> TrustAnchorID" where
  "LandmarkGroupID caID logNumber landmarkNumber =
     caID @ ''.2.'' @ decimal (unat logNumber) @ ''.'' @ decimal (unat landmarkNumber)"

definition serialIndexBits :: nat where
  "serialIndexBits = 48"

definition ComposeSerial :: "u16 \<Rightarrow> u64 \<Rightarrow> u64 result" where
  "ComposeSerial logNumber index =
     (if index > maxUint48 then Inl (Errorf ''cert: entry index exceeds 2^48-1'')
      else Inr (push_bit serialIndexBits (ucast logNumber) OR index))"

definition SplitSerial :: "u64 \<Rightarrow> (u16 \<times> u64) result" where
  "SplitSerial serial =
     (let logNumber = ucast (drop_bit serialIndexBits serial) :: u16; index = serial AND maxUint48
      in if logNumber = 0 then Inl (Errorf ''cert: serial has zero log number'')
         else Inr (logNumber, index))"

section \<open>Base-128 arcs\<close>

lemma mask7: "(0x7f :: byte) = mask 7" "(0x7f :: u64) = mask 7"
  by (simp_all add: mask_eq_exp_minus_1)

lemma bit_0x80: "bit (0x80 :: byte) n \<longleftrightarrow> n = 7" "bit (0x80 :: int) n \<longleftrightarrow> n = 7"
proof -
  have b: "(0x80 :: byte) = 2 ^ 7" by simp
  show "bit (0x80 :: byte) n \<longleftrightarrow> n = 7" unfolding b bit_exp_iff by auto
  have i: "(0x80 :: int) = 2 ^ 7" by simp
  show "bit (0x80 :: int) n \<longleftrightarrow> n = 7" unfolding i bit_exp_iff by auto
qed

lemma byte_and_high: "(c :: byte) AND 0x80 = 0 \<longleftrightarrow> \<not> bit c 7"
proof
  assume "c AND 0x80 = 0"
  then have "\<not> bit (c AND 0x80) 7" by simp
  then show "\<not> bit c 7" by (simp only: bit_and_iff bit_0x80) simp
next
  assume "\<not> bit c 7"
  then show "c AND 0x80 = 0" by (intro bit_word_eqI) (auto simp: bit_and_iff bit_0x80)
qed

text \<open>The septet of a continuation octet and of a final octet.\<close>

lemma septet_cont: "ucast ((ucast (v AND 0x7f) OR 0x80 :: byte) AND 0x7f) = (v :: u64) AND 0x7f"
  unfolding mask7 by (rule bit_word_eqI) (auto simp: bit_simps bit_0x80)

lemma septet_last: "ucast ((ucast (v AND 0x7f) :: byte) AND 0x7f) = (v :: u64) AND 0x7f"
  unfolding mask7 by (rule bit_word_eqI) (auto simp: bit_simps)

lemma cont_high: "(ucast ((v :: u64) AND 0x7f) OR 0x80 :: byte) AND 0x80 \<noteq> 0"
  unfolding byte_and_high by (simp add: bit_or_iff bit_0x80)

lemma last_high: "(ucast ((v :: u64) AND 0x7f) :: byte) AND 0x80 = 0"
  unfolding byte_and_high unfolding mask7 by (simp add: bit_simps)

lemma shift_septet: "push_bit 7 (drop_bit 7 v) OR (v AND 0x7f) = (v :: u64)"
  unfolding mask7 by (rule bit_word_eqI) (auto simp: bit_simps)

lemma cont_zero: "(ucast ((v :: u64) AND 0x7f) OR 0x80 :: byte) = 0x80 \<longleftrightarrow> v AND 0x7f = 0"
proof
  assume "(ucast (v AND 0x7f) OR 0x80 :: byte) = 0x80"
  then have "ucast ((0x80 :: byte) AND 0x7f) = v AND 0x7f" using septet_cont [of v] by simp
  then show "v AND 0x7f = 0" by simp
qed simp

text \<open>The continuation octets of an arc.\<close>

definition hi128 :: "u64 \<Rightarrow> bytes" where
  "hi128 v = base128Loop v []"

lemma base128Loop_rest: "base128Loop v (buf @ rest) = base128Loop v buf @ rest"
  by (induction v buf rule: base128Loop.induct) (subst (1 2) base128Loop.simps, simp)

lemma base128Loop_append: "base128Loop v buf = hi128 v @ buf"
  using base128Loop_rest [of v "[]" buf] by (simp add: hi128_def)

lemma hi128_0 [simp]: "hi128 0 = []"
  by (simp add: hi128_def base128Loop.simps)

lemma hi128_step:
  assumes "v \<noteq> 0"
  shows "hi128 v = hi128 (drop_bit 7 v) @ [ucast (v AND 0x7f) OR 0x80]"
proof -
  have "hi128 v = base128Loop (drop_bit 7 v) [ucast (v AND 0x7f) OR 0x80]"
    unfolding hi128_def using assms by (subst base128Loop.simps) (simp add: word_gt_0)
  then show ?thesis by (simp add: base128Loop_append)
qed

definition arc128 :: "u64 \<Rightarrow> bytes" where
  "arc128 v = hi128 (drop_bit 7 v) @ [ucast (v AND 0x7f)]"

lemma appendBase128_arc: "appendBase128 dst v = dst @ arc128 v"
  by (simp add: appendBase128_def arc128_def base128Loop_append)

lemma arc128_not_Nil [simp]: "arc128 v \<noteq> []"
  by (simp add: arc128_def)

lemma length_hi128: "unat v < 2 ^ (7 * k) \<Longrightarrow> length (hi128 v) \<le> k"
proof (induction k arbitrary: v)
  case 0
  then have "v = 0" by (simp add: u64_eq_iff)
  then show ?case by simp
next
  case (Suc k)
  show ?case
  proof (cases "v = 0")
    case False
    have "unat v < 2 ^ (7 * k) * 2 ^ 7" using Suc.prems by (simp add: power_add mult.commute)
    then have "unat (drop_bit 7 v) < 2 ^ (7 * k)"
      unfolding unat_drop_u64 by (simp add: less_mult_imp_div_less)
    with Suc.IH False show ?thesis by (simp add: hi128_step)
  qed simp
qed

text \<open>The buffer of \<open>appendBase128\<close> has room for every arc.\<close>

lemma arc128_fits: "length (arc128 v) \<le> 10"
proof -
  have "unat (drop_bit 7 v) < 2 ^ (7 * 9)"
    unfolding unat_drop_u64 using unat_less_u64 [of v] by simp
  from length_hi128 [OF this] show ?thesis by (simp add: arc128_def)
qed

section \<open>Decoding what was encoded\<close>

lemma fromBinaryLoop_hi:
  assumes "unat v < 2 ^ (7 * k)" "k \<le> 9"
  shows "fromBinaryLoop (hi128 v @ b) False 0 0 arcs
    = fromBinaryLoop b (v \<noteq> 0) (7 * length (hi128 v)) v arcs"
  using assms
proof (induction k arbitrary: v b)
  case 0
  then have "v = 0" by (simp add: u64_eq_iff)
  then show ?case by simp
next
  case (Suc k)
  show ?case
  proof (cases "v = 0")
    case False
    have "unat v < 2 ^ (7 * k) * 2 ^ 7" using Suc.prems(1) by (simp add: power_add mult.commute)
    then have lt: "unat (drop_bit 7 v) < 2 ^ (7 * k)"
      unfolding unat_drop_u64 by (simp add: less_mult_imp_div_less)
    have len: "length (hi128 (drop_bit 7 v)) \<le> k" by (rule length_hi128 [OF lt])
    have nz: "drop_bit 7 v = 0 \<Longrightarrow> v AND 0x7f \<noteq> 0" using shift_septet [of v] False by auto
    have "fromBinaryLoop (hi128 v @ b) False 0 0 arcs
        = fromBinaryLoop ((ucast (v AND 0x7f) OR 0x80) # b) (drop_bit 7 v \<noteq> 0)
            (7 * length (hi128 (drop_bit 7 v))) (drop_bit 7 v) arcs"
      using Suc.IH [OF lt] Suc.prems(2) by (simp add: hi128_step [OF False])
    also have "\<dots> = fromBinaryLoop b True (7 * length (hi128 (drop_bit 7 v)) + 7) v arcs"
      using len Suc.prems(2) nz
      by (simp only: fromBinaryLoop.simps cont_zero Let_def septet_cont shift_septet cont_high if_False) auto
    finally show ?thesis using False by (simp add: hi128_step [OF False] add.commute)
  qed simp
qed

lemma fromBinaryLoop_arc:
  assumes "unat v < 2 ^ 63"
  shows "fromBinaryLoop (arc128 v @ b) False 0 0 arcs = fromBinaryLoop b False 0 0 (arcs @ [FormatUint v])"
proof -
  have lt: "unat (drop_bit 7 v) < 2 ^ (7 * 8)" unfolding unat_drop_u64 using assms by simp
  have len: "length (hi128 (drop_bit 7 v)) \<le> 8" by (rule length_hi128 [OF lt])
  have "(ucast (v AND 0x7f) :: byte) \<noteq> 0x80" using last_high [of v] by auto
  then show ?thesis
    using fromBinaryLoop_hi [OF lt, of "[ucast (v AND 0x7f)] @ b" arcs] len
    by (simp add: arc128_def Let_def septet_last shift_septet last_high)
qed

lemma fromBinaryLoop_arcs:
  "(\<And>v. v \<in> set vs \<Longrightarrow> unat v < 2 ^ 63) \<Longrightarrow>
    fromBinaryLoop (concat (map arc128 vs)) False 0 0 arcs
      = Inr (join_with (CHR ''.'') (arcs @ map FormatUint vs))"
  by (induction vs arbitrary: arcs) (simp_all add: fromBinaryLoop_arc)

section \<open>Encoding what was decoded\<close>

lemma octet_cont: "(c :: byte) AND 0x80 \<noteq> 0 \<Longrightarrow> ucast (ucast (c AND 0x7f) :: u64) OR 0x80 = c"
  unfolding byte_and_high mask7 by (intro bit_word_eqI) (auto simp: bit_simps bit_0x80 less_Suc_eq numeral_eq_Suc)

lemma octet_last: "(c :: byte) AND 0x80 = 0 \<Longrightarrow> ucast (ucast (c AND 0x7f) :: u64) = c"
  unfolding byte_and_high mask7 by (intro bit_word_eqI) (auto simp: bit_simps less_Suc_eq numeral_eq_Suc)

lemma push_septet:
  fixes v :: u64 and c :: byte
  assumes "take_bit k v = v" "k + 7 \<le> 64"
  defines "v' \<equiv> push_bit 7 v OR ucast (c AND 0x7f)"
  shows "drop_bit 7 v' = v" "v' AND 0x7f = ucast (c AND 0x7f)" "take_bit (k + 7) v' = v'"
proof -
  have vb: "n < k" if "bit v n" for n using that assms(1) by (metis bit_take_bit_iff)
  show "drop_bit 7 v' = v"
    unfolding v'_def mask7 using vb assms(2) by (intro bit_word_eqI) (fastforce simp: bit_simps)
  show "v' AND 0x7f = ucast (c AND 0x7f)"
    unfolding v'_def mask7 by (intro bit_word_eqI) (auto simp: bit_simps)
  show "take_bit (k + 7) v' = v'"
    unfolding v'_def mask7 using vb by (intro bit_word_eqI) (fastforce simp: bit_simps)
qed

lemma fromBinaryLoop_decoded:
  assumes "fromBinaryLoop b started bits v arcs = Inr ID" "started \<longleftrightarrow> v \<noteq> 0" "take_bit bits v = v"
  shows "\<exists>vs. hi128 v @ b = concat (map arc128 vs) \<and> ID = join_with (CHR ''.'') (arcs @ map FormatUint vs)"
  using assms
proof (induction b arbitrary: started bits v arcs)
  case Nil
  then show ?case by (intro exI [of _ "[]"]) (auto split: if_splits)
next
  case (Cons c b)
  define v' where "v' = push_bit 7 v OR ucast (c AND 0x7f)"
  have ok: "\<not> (\<not> started \<and> c = 0x80)" "bits + 7 \<le> 64"
    and run: "(if c AND 0x80 = 0 then fromBinaryLoop b False 0 0 (arcs @ [FormatUint v'])
        else fromBinaryLoop b True (bits + 7) v' arcs) = Inr ID"
    using Cons.prems(1) by (auto simp: Let_def v'_def split: if_splits)
  note ps = push_septet [OF Cons.prems(3) ok(2), of c, folded v'_def]
  show ?case
  proof (cases "c AND 0x80 = 0")
    case True
    with run have "fromBinaryLoop b False 0 0 (arcs @ [FormatUint v']) = Inr ID" by simp
    then obtain vs where vs: "b = concat (map arc128 vs)"
      "ID = join_with (CHR ''.'') ((arcs @ [FormatUint v']) @ map FormatUint vs)"
      using Cons.IH [of False 0 0 "arcs @ [FormatUint v']"] by auto
    have "arc128 v' = hi128 v @ [c]" by (simp add: arc128_def ps octet_last [OF True])
    with vs show ?thesis by (intro exI [of _ "v' # vs"]) simp
  next
    case False
    have "v' \<noteq> 0"
    proof
      assume z: "v' = 0"
      then have "v = 0" using ps(1) by simp
      moreover have "ucast (c AND 0x7f) = (0 :: u64)" using ps(2) z by simp
      then have "c = 0x80" using octet_cont [OF False] by simp
      ultimately show False using ok(1) Cons.prems(2) by simp
    qed
    then have "hi128 v' = hi128 v @ [c]" by (simp add: hi128_step ps octet_cont [OF False])
    moreover from False run have "fromBinaryLoop b True (bits + 7) v' arcs = Inr ID" by simp
    ultimately show ?thesis using Cons.IH [of True "bits + 7" v' arcs] \<open>v' \<noteq> 0\<close> ps(3) by simp
  qed
qed

lemma decimal_no_dot: "CHR ''.'' \<notin> set (FormatUint v)"
  using decimal_digits [of "CHR ''.''" "unat v"] by (auto simp: FormatUint_def is_digit_def)

lemma FormatUint_not_Nil [simp]: "FormatUint v \<noteq> []"
  by (simp add: FormatUint_def)

lemma binaryLoop_arcs:
  "binaryLoop out (map FormatUint vs) = Inr (out @ concat (map arc128 vs))"
  by (induction vs arbitrary: out) (simp_all add: appendBase128_arc)

lemma Binary_arcs:
  assumes "vs \<noteq> []"
  shows "Binary (join_with (CHR ''.'') (map FormatUint vs)) = Inr (concat (map arc128 vs))"
proof -
  have sp: "split_on (CHR ''.'') (join_with (CHR ''.'') (map FormatUint vs)) = map FormatUint vs"
    using assms decimal_no_dot by (intro split_join) auto
  have "join_with (CHR ''.'') (map FormatUint vs) \<noteq> []"
  proof
    assume "join_with (CHR ''.'') (map FormatUint vs) = []"
    with sp have "map FormatUint vs = [[]]" by simp
    then show False using FormatUint_not_Nil by (metis list.set_intros(1) ex_map_conv)
  qed
  with sp show ?thesis by (simp add: Binary_def binaryLoop_arcs)
qed

lemma FromBinary_arcs:
  assumes "vs \<noteq> []" "\<And>v. v \<in> set vs \<Longrightarrow> unat v < 2 ^ 63"
  shows "TrustAnchorIDFromBinary (concat (map arc128 vs)) = Inr (join_with (CHR ''.'') (map FormatUint vs))"
proof -
  have "concat (map arc128 vs) \<noteq> []" using assms(1) by (cases vs) simp_all
  then show ?thesis
    using fromBinaryLoop_arcs [of vs "[]"] assms(2) by (simp add: TrustAnchorIDFromBinary_def)
qed

lemma FromBinary_decoded:
  assumes "TrustAnchorIDFromBinary b = Inr ID"
  shows "\<exists>vs. vs \<noteq> [] \<and> b = concat (map arc128 vs) \<and> ID = join_with (CHR ''.'') (map FormatUint vs)"
proof -
  have b: "b \<noteq> []" and run: "fromBinaryLoop b False 0 0 [] = Inr ID"
    using assms by (auto simp: TrustAnchorIDFromBinary_def split: if_splits)
  then obtain vs where "b = concat (map arc128 vs)" "ID = join_with (CHR ''.'') (map FormatUint vs)"
    using fromBinaryLoop_decoded [OF run] by auto
  with b show ?thesis by auto
qed

lemma Binary_FromBinary: "TrustAnchorIDFromBinary b = Inr ID \<Longrightarrow> Binary ID = Inr b"
  using FromBinary_decoded [of b ID] Binary_arcs by auto

section \<open>Serial numbers\<close>

lemma maxUint48_mask: "maxUint48 = mask 48"
  by (simp add: maxUint48_def mask_eq_exp_minus_1)

lemma le_maxUint48_iff: "x \<le> maxUint48 \<longleftrightarrow> x AND maxUint48 = x"
proof
  assume "x \<le> maxUint48"
  then have "unat x < 2 ^ 48" by (simp add: maxUint48_def u64_le_iff)
  then show "x AND maxUint48 = x"
    by (simp add: u64_eq_iff maxUint48_mask unsigned_take_bit_eq take_bit_nat_eq_self flip: take_bit_eq_mask)
next
  assume "x AND maxUint48 = x"
  then show "x \<le> maxUint48" by (metis word_and_le1)
qed

section \<open>Properties\<close>

text \<open>
  the binary form of a trust anchor ID in canonical dotted-decimal form, each arc below
  \<open>2^63\<close>, decodes to the same ID.
\<close>

theorem trust_anchor_roundtrip:
  assumes "vs \<noteq> []" "\<forall>v\<in>set vs. unat v < 2 ^ 63" "ID = join_with (CHR ''.'') (map FormatUint vs)"
  shows "rbind (Binary ID) TrustAnchorIDFromBinary = Inr ID"
  using Binary_arcs [OF assms(1)] FromBinary_arcs [OF assms(1)] assms(2,3) by simp

theorem trust_anchor_roundtrip_witness:
  "rbind (Binary ''32473.1'') TrustAnchorIDFromBinary = Inr ''32473.1''"
proof -
  have "''32473.1'' = join_with (CHR ''.'') (map FormatUint [32473, 1])" by code_simp
  from trust_anchor_roundtrip [OF _ _ this] show ?thesis by simp
qed

text \<open>
  decoding accepts canonical encodings only. Whatever binary form is accepted, the ID it decodes
  to encodes to the same octets.
\<close>

theorem trust_anchor_decode_encode:
  assumes "TrustAnchorIDFromBinary b = Inr ID"
  shows "Binary ID = Inr b"
  using assms by (rule Binary_FromBinary)

theorem trust_anchor_decode_encode_witness:
  "TrustAnchorIDFromBinary [0x81, 0xfd, 0x59, 0x01] = Inr ''32473.1'' \<and>
   Binary ''32473.1'' = Inr [0x81, 0xfd, 0x59, 0x01]"
proof -
  have "TrustAnchorIDFromBinary [0x81, 0xfd, 0x59, 0x01] = Inr ''32473.1''" by code_simp
  with trust_anchor_decode_encode [OF this] show ?thesis by simp
qed

text \<open>
  an arc of \<open>2^63\<close> or more is encoded by \<open>Binary\<close> but refused by the decoder, which counts its ten
  octets as 70 bits.
\<close>

theorem trust_anchor_large_arc_refused:
  "\<exists>b. Binary ''9223372036854775808'' = Inr b \<and>
     TrustAnchorIDFromBinary b = Inl (Errorf ''cert: trust anchor ID arc overflows uint64'')"
proof (intro exI conjI)
  show "Binary ''9223372036854775808'' = Inr [0x81, 0x80, 0x80, 0x80, 0x80, 0x80, 0x80, 0x80, 0x80, 0x00]"
    by code_simp
  show "TrustAnchorIDFromBinary [0x81, 0x80, 0x80, 0x80, 0x80, 0x80, 0x80, 0x80, 0x80, 0x00]
      = Inl (Errorf ''cert: trust anchor ID arc overflows uint64'')"
    by code_simp
qed

text \<open>
  serial numbers split into the log number and the index they were composed from, and an index
  that needs more than 48 bits is refused.
\<close>

theorem serial_roundtrip:
  "rbind (ComposeSerial logNumber index) SplitSerial =
     (if index > maxUint48 then Inl (Errorf ''cert: entry index exceeds 2^48-1'')
      else if logNumber = 0 then Inl (Errorf ''cert: serial has zero log number'')
      else Inr (logNumber, index))"
proof (cases "index > maxUint48")
  case True
  then show ?thesis by (simp add: ComposeSerial_def)
next
  case False
  then have i: "index AND maxUint48 = index" by (simp add: le_maxUint48_iff not_less)
  then have ib: "\<not> bit index n" if "48 \<le> n" for n
    using that by (metis bit_and_iff bit_mask_iff maxUint48_mask not_less)
  have "ucast (drop_bit 48 (push_bit 48 (ucast logNumber) OR index)) = logNumber"
    by (rule bit_word_eqI) (auto simp: bit_simps ib)
  moreover have "(push_bit 48 (ucast logNumber) OR index) AND maxUint48 = index"
    by (subst (2) i [symmetric], rule bit_word_eqI) (auto simp: bit_simps maxUint48_mask)
  ultimately show ?thesis
    using False by (simp add: ComposeSerial_def SplitSerial_def serialIndexBits_def Let_def)
qed

end
