(* ===== verification/Merkle.thy ===== *)
theory Merkle
  imports Prelude
begin

text \<open>
  Reference definitions over unbounded indices: the Merkle tree hash of a range of
  leaves (RFC 9162 section 2.1.1, draft section 4.2), the top-down audit path of a
  leaf, and the bottom-up evaluation of such a path. The loops of tlogx work on 64-bit
  words; the component theories show that they compute these functions.
  \<open>node\<close> stands for the interior-node hash and is arbitrary here.
\<close>

section \<open>Merkle tree hash of a range\<close>

text \<open>\<open>mth node d lo n\<close> is MTH of the \<open>n\<close> leaf hashes \<open>d lo, \<dots>, d (lo + n - 1)\<close>.\<close>

function mth :: "('h \<Rightarrow> 'h \<Rightarrow> 'h) \<Rightarrow> (nat \<Rightarrow> 'h) \<Rightarrow> nat \<Rightarrow> nat \<Rightarrow> 'h" where
  "mth node d lo n =
     (if n \<le> 1 then d lo
      else node (mth node d lo (lp2 n)) (mth node d (lo + lp2 n) (n - lp2 n)))"
  by pat_completeness auto
termination
  by (relation "measure (\<lambda>(node, d, lo, n). n)") (auto simp: lp2_less)

declare mth.simps [simp del]

lemma mth_1 [simp]: "mth node d lo (Suc 0) = d lo"
  by (simp add: mth.simps)

lemma mth_split:
  "1 < n \<Longrightarrow> mth node d lo n = node (mth node d lo (lp2 n)) (mth node d (lo + lp2 n) (n - lp2 n))"
  by (subst mth.simps) simp

lemma mth_power_Suc:
  "mth node d lo (2 ^ Suc m) = node (mth node d lo (2 ^ m)) (mth node d (lo + 2 ^ m) (2 ^ m))"
proof -
  have "(1::nat) < 2 ^ Suc m"
    by (rule one_less_power) simp_all
  then have "mth node d lo (2 ^ Suc m) =
      node (mth node d lo (lp2 (2 ^ Suc m)))
        (mth node d (lo + lp2 (2 ^ Suc m)) (2 ^ Suc m - lp2 (2 ^ Suc m)))"
    by (rule mth_split)
  then show ?thesis by (simp only: lp2_power_Suc) simp
qed

lemma mth_cong:
  assumes "\<And>i. lo \<le> i \<Longrightarrow> i < lo + n \<Longrightarrow> d i = d' i" and "0 < n"
  shows "mth node d lo n = mth node d' lo n"
  using assms
proof (induction node d lo n rule: mth.induct)
  case (1 node d lo n)
  show ?case
  proof (cases "n \<le> 1")
    case True
    with 1(4) have "n = Suc 0" by simp
    with 1(3) show ?thesis by simp
  next
    case False
    then have n: "1 < n" by simp
    note k = lp2_less [OF n]
    have "mth node d lo (lp2 n) = mth node d' lo (lp2 n)"
      using 1(1) [OF False] 1(3) k by simp
    moreover have "mth node d (lo + lp2 n) (n - lp2 n) = mth node d' (lo + lp2 n) (n - lp2 n)"
      using 1(2) [OF False] 1(3) k by simp
    ultimately show ?thesis by (simp add: mth_split [OF n])
  qed
qed

section \<open>Audit paths\<close>

text \<open>The siblings on the way from leaf \<open>lo + i\<close> up to the root of the range, leaf first.\<close>

function audit :: "('h \<Rightarrow> 'h \<Rightarrow> 'h) \<Rightarrow> (nat \<Rightarrow> 'h) \<Rightarrow> nat \<Rightarrow> nat \<Rightarrow> nat \<Rightarrow> 'h list" where
  "audit node d lo n i =
     (if n \<le> 1 then []
      else if i < lp2 n
      then audit node d lo (lp2 n) i @ [mth node d (lo + lp2 n) (n - lp2 n)]
      else audit node d (lo + lp2 n) (n - lp2 n) (i - lp2 n) @ [mth node d lo (lp2 n)])"
  by pat_completeness auto
termination
  by (relation "measure (\<lambda>(node, d, lo, n, i). n)") (auto simp: lp2_less)

declare audit.simps [simp del]

lemma audit_1 [simp]: "n \<le> 1 \<Longrightarrow> audit node d lo n i = []"
  by (subst audit.simps) simp

lemma audit_left:
  "1 < n \<Longrightarrow> i < lp2 n \<Longrightarrow>
    audit node d lo n i = audit node d lo (lp2 n) i @ [mth node d (lo + lp2 n) (n - lp2 n)]"
  by (subst audit.simps) simp

lemma audit_right:
  "1 < n \<Longrightarrow> lp2 n \<le> i \<Longrightarrow>
    audit node d lo n i =
      audit node d (lo + lp2 n) (n - lp2 n) (i - lp2 n) @ [mth node d lo (lp2 n)]"
  by (subst audit.simps) simp

section \<open>Bottom-up evaluation\<close>

text \<open>
  The state of the RFC 9162 loop is the pair \<open>(fn, sn)\<close>: the index of the current
  node in its level and the index of the last node of that level. \<open>strip\<close> moves up
  while the node is a left child with no right sibling.
\<close>

function strip :: "nat \<Rightarrow> nat \<Rightarrow> nat \<times> nat" where
  "strip fn sn = (if even fn \<and> sn \<noteq> 0 then strip (fn div 2) (sn div 2) else (fn, sn))"
  by pat_completeness auto
termination
  by (relation "measure (\<lambda>(fn, sn). sn)") auto

declare strip.simps [simp del]

fun eval_path :: "('h \<Rightarrow> 'h \<Rightarrow> 'h) \<Rightarrow> nat \<Rightarrow> nat \<Rightarrow> 'h \<Rightarrow> 'h list \<Rightarrow> 'h option" where
  "eval_path node fn sn r [] = (if sn = 0 then Some r else None)"
| "eval_path node fn sn r (p # ps) =
     (if sn = 0 then None
      else if odd fn \<or> fn = sn
      then eval_path node (fst (strip fn sn) div 2) (snd (strip fn sn) div 2) (node p r) ps
      else eval_path node (fn div 2) (sn div 2) (node r p) ps)"

lemma strip_odd [simp]: "odd fn \<Longrightarrow> strip fn sn = (fn, sn)"
  by (subst strip.simps) simp

lemma strip_power: "odd q \<Longrightarrow> strip (q * 2 ^ e) (q * 2 ^ e) = (q, q)"
proof (induction e)
  case 0
  then show ?case by simp
next
  case (Suc e)
  then have "q \<noteq> 0" by (metis even_zero)
  then have "strip (q * 2 ^ Suc e) (q * 2 ^ Suc e) = strip (q * 2 ^ e) (q * 2 ^ e)"
    by (subst strip.simps) simp
  with Suc show ?case by simp
qed

text \<open>One step that leaves a strictly smaller node: its sibling's side is the parity of \<open>fn\<close>.\<close>

lemma eval_path_less:
  assumes "fn < sn"
  shows "eval_path node fn sn r (p # ps) =
    eval_path node (fn div 2) (sn div 2) (if odd fn then node p r else node r p) ps"
  using assms by auto

text \<open>One step at the right edge of its level.\<close>

lemma eval_path_edge:
  assumes "odd q"
  shows "eval_path node (q * 2 ^ e) (q * 2 ^ e) r (p # ps) =
    eval_path node (q div 2) (q div 2) (node p r) ps"
proof -
  from assms have "q \<noteq> 0" by (metis even_zero)
  then show ?thesis by (simp add: strip_power [OF assms])
qed

lemma eval_path_complete_tree:
  assumes "q < p" "i < 2 ^ m" "s < 2 ^ m"
  shows "eval_path node (q * 2 ^ m + i) (p * 2 ^ m + s) (d (lo + i)) (audit node d lo (2 ^ m) i @ qs)
    = eval_path node q p (mth node d lo (2 ^ m)) qs"
  using assms
proof (induction m arbitrary: q p i s lo qs)
  case 0
  then show ?case by simp
next
  case (Suc m)
  have big: "(1::nat) < 2 ^ Suc m" by (rule one_less_power) simp_all
  have halves: "(2::nat) ^ Suc m - 2 ^ m = 2 ^ m" by simp
  define p' s' where "p' = 2 * p + s div 2 ^ m" and "s' = s mod 2 ^ m"
  have S: "p * 2 ^ Suc m + s = p' * 2 ^ m + s'"
    by (simp add: p'_def s'_def algebra_simps)
  have s': "s' < 2 ^ m" by (simp add: s'_def)
  have "s div 2 ^ m < 2" using Suc.prems(3) by (simp add: less_mult_imp_div_less)
  then have p2: "p' div 2 = p" by (simp add: p'_def)
  show ?case
  proof (cases "i < 2 ^ m")
    case True
    have I: "q * 2 ^ Suc m + i = (2 * q) * 2 ^ m + i" by simp
    have lt: "2 * q < p'" using Suc.prems(1) by (simp add: p'_def)
    have "eval_path node (q * 2 ^ Suc m + i) (p * 2 ^ Suc m + s) (d (lo + i))
            (audit node d lo (2 ^ Suc m) i @ qs)
        = eval_path node ((2 * q) * 2 ^ m + i) (p' * 2 ^ m + s') (d (lo + i))
            (audit node d lo (2 ^ m) i @ (mth node d (lo + 2 ^ m) (2 ^ m) # qs))"
      using audit_left [OF big, of i node d lo] True
      unfolding S I lp2_power_Suc halves by simp
    also have "\<dots> = eval_path node (2 * q) p' (mth node d lo (2 ^ m))
        (mth node d (lo + 2 ^ m) (2 ^ m) # qs)"
      by (rule Suc.IH [OF lt True s'])
    also have "\<dots> = eval_path node q p
        (node (mth node d lo (2 ^ m)) (mth node d (lo + 2 ^ m) (2 ^ m))) qs"
      by (subst eval_path_less [OF lt]) (simp add: p2)
    finally show ?thesis by (simp only: mth_power_Suc)
  next
    case False
    then have i': "i - 2 ^ m < 2 ^ m" using Suc.prems(2) by simp
    have I: "q * 2 ^ Suc m + i = (2 * q + 1) * 2 ^ m + (i - 2 ^ m)"
      using False by (simp add: algebra_simps)
    have lt: "2 * q + 1 < p'" using Suc.prems(1) by (simp add: p'_def)
    have leaf: "d (lo + i) = d (lo + 2 ^ m + (i - 2 ^ m))" using False by simp
    have "eval_path node (q * 2 ^ Suc m + i) (p * 2 ^ Suc m + s) (d (lo + i))
            (audit node d lo (2 ^ Suc m) i @ qs)
        = eval_path node ((2 * q + 1) * 2 ^ m + (i - 2 ^ m)) (p' * 2 ^ m + s')
            (d (lo + 2 ^ m + (i - 2 ^ m)))
            (audit node d (lo + 2 ^ m) (2 ^ m) (i - 2 ^ m) @ (mth node d lo (2 ^ m) # qs))"
      using audit_right [OF big, of i node d lo] False
      unfolding S I lp2_power_Suc halves leaf by simp
    also have "\<dots> = eval_path node (2 * q + 1) p' (mth node d (lo + 2 ^ m) (2 ^ m))
        (mth node d lo (2 ^ m) # qs)"
      by (rule Suc.IH [OF lt i' s'])
    also have "\<dots> = eval_path node q p
        (node (mth node d lo (2 ^ m)) (mth node d (lo + 2 ^ m) (2 ^ m))) qs"
      by (subst eval_path_less [OF lt]) (simp add: p2)
    finally show ?thesis by (simp only: mth_power_Suc)
  qed
qed

text \<open>
  The general case: \<open>n \<le> 2 ^ m\<close> leaves under a prefix \<open>q\<close>. Evaluation consumes
  exactly the audit path and stops \<open>m - t\<close> levels below the prefix, at the right edge.
\<close>

lemma eval_path_audit_prefix:
  assumes "0 < n" "n \<le> 2 ^ m" "i < n"
  shows "\<exists>t\<le>m. eval_path node (q * 2 ^ m + i) (q * 2 ^ m + (n - 1)) (d (lo + i))
      (audit node d lo n i @ qs)
    = eval_path node (q * 2 ^ (m - t)) (q * 2 ^ (m - t)) (mth node d lo n) qs"
  using assms
proof (induction n arbitrary: lo i q m qs rule: less_induct)
  case (less n)
  show ?case
  proof (cases "n = 1")
    case True
    with less.prems show ?thesis by (intro exI [of _ 0]) simp
  next
    case False
    with less.prems have n: "1 < n" by simp
    obtain j where j: "lp2 n = 2 ^ j" using lp2_power by blast
    have jn: "2 ^ j < n" and nj: "n \<le> 2 * 2 ^ j"
      using lp2_less [OF n] lp2_double [OF n] j by simp_all
    from jn less.prems(2) have "(2::nat) ^ j < 2 ^ m" by (rule less_le_trans)
    then have jm: "j < m" by (rule power_less_imp_less_exp [rotated]) simp
    define Q where "Q = q * 2 ^ (m - Suc j)"
    have pow: "(2::nat) ^ m = 2 ^ (m - Suc j) * 2 * 2 ^ j"
    proof -
      have "m = (m - Suc j) + Suc j" using jm by simp
      then have "(2::nat) ^ m = 2 ^ (m - Suc j) * 2 ^ Suc j" by (metis power_add)
      then show ?thesis by simp
    qed
    have q: "q * 2 ^ m = (2 * Q) * 2 ^ j"
      by (simp add: Q_def pow)
    have stop: "Q = q * 2 ^ (m - Suc j)" by (rule Q_def)
    show ?thesis
    proof (cases "i < 2 ^ j")
      case True
      have S: "q * 2 ^ m + (n - 1) = (2 * Q + 1) * 2 ^ j + (n - 1 - 2 ^ j)"
        using jn by (simp add: q)
      have s: "n - 1 - 2 ^ j < 2 ^ j" using nj jn by linarith
      have A: "audit node d lo n i @ qs =
          audit node d lo (2 ^ j) i @ (mth node d (lo + 2 ^ j) (n - 2 ^ j) # qs)"
        using audit_left [OF n, of i node d lo] True unfolding j by simp
      have "eval_path node (q * 2 ^ m + i) (q * 2 ^ m + (n - 1)) (d (lo + i))
              (audit node d lo n i @ qs)
          = eval_path node ((2 * Q) * 2 ^ j + i) ((2 * Q + 1) * 2 ^ j + (n - 1 - 2 ^ j)) (d (lo + i))
              (audit node d lo (2 ^ j) i @ (mth node d (lo + 2 ^ j) (n - 2 ^ j) # qs))"
        by (simp only: S A) (simp only: q)
      also have "\<dots> = eval_path node (2 * Q) (2 * Q + 1) (mth node d lo (2 ^ j))
          (mth node d (lo + 2 ^ j) (n - 2 ^ j) # qs)"
        by (rule eval_path_complete_tree [OF _ True s]) simp
      also have "\<dots> = eval_path node Q Q (mth node d lo n) qs"
        by (subst eval_path_less) (simp_all add: mth_split [OF n] j)
      finally show ?thesis using jm stop by (intro exI [of _ "Suc j"]) simp
    next
      case False
      define n' i' where "n' = n - 2 ^ j" and "i' = i - 2 ^ j"
      have n': "0 < n'" "n' \<le> 2 ^ j" "n' < n" "i' < n'"
        using jn nj False less.prems(3) by (auto simp: n'_def i'_def)
      have I: "q * 2 ^ m + i = (2 * Q + 1) * 2 ^ j + i'"
        and S: "q * 2 ^ m + (n - 1) = (2 * Q + 1) * 2 ^ j + (n' - 1)"
        using False jn by (simp_all add: q n'_def i'_def)
      have leaf: "lo + i = lo + 2 ^ j + i'" using False by (simp add: i'_def)
      obtain t where t: "t \<le> j" and ev:
        "eval_path node ((2 * Q + 1) * 2 ^ j + i') ((2 * Q + 1) * 2 ^ j + (n' - 1))
           (d (lo + 2 ^ j + i')) (audit node d (lo + 2 ^ j) n' i' @ (mth node d lo (2 ^ j) # qs))
         = eval_path node ((2 * Q + 1) * 2 ^ (j - t)) ((2 * Q + 1) * 2 ^ (j - t))
             (mth node d (lo + 2 ^ j) n') (mth node d lo (2 ^ j) # qs)"
        using less.IH [OF n'(3) n'(1,2,4)] by blast
      have "eval_path node (q * 2 ^ m + i) (q * 2 ^ m + (n - 1)) (d (lo + i))
              (audit node d lo n i @ qs)
          = eval_path node ((2 * Q + 1) * 2 ^ j + i') ((2 * Q + 1) * 2 ^ j + (n' - 1))
              (d (lo + 2 ^ j + i')) (audit node d (lo + 2 ^ j) n' i' @ (mth node d lo (2 ^ j) # qs))"
        using audit_right [OF n, of i node d lo] False unfolding I S leaf j
        by (simp add: n'_def i'_def)
      also note ev
      also have "eval_path node ((2 * Q + 1) * 2 ^ (j - t)) ((2 * Q + 1) * 2 ^ (j - t))
             (mth node d (lo + 2 ^ j) n') (mth node d lo (2 ^ j) # qs)
          = eval_path node Q Q (mth node d lo n) qs"
        by (subst eval_path_edge) (simp_all add: mth_split [OF n] j n'_def)
      finally show ?thesis using jm stop by (intro exI [of _ "Suc j"]) simp
    qed
  qed
qed

theorem eval_path_audit:
  assumes "i < n"
  shows "eval_path node i (n - 1) (d (lo + i)) (audit node d lo n i) = Some (mth node d lo n)"
proof -
  have "0 < n" "n \<le> 2 ^ n" using assms by (simp_all add: less_imp_le)
  from eval_path_audit_prefix [OF this assms, of node 0 d lo "[]"]
  show ?thesis by auto
qed

text \<open>
  Binding: two successful evaluations from the same position with the same result used the
  same leaf and the same path, or two of the nodes that they computed collide. \<open>path_nodes\<close> lists
  the children of the nodes that an evaluation computes.
\<close>

fun path_nodes :: "('h \<Rightarrow> 'h \<Rightarrow> 'h) \<Rightarrow> nat \<Rightarrow> nat \<Rightarrow> 'h \<Rightarrow> 'h list \<Rightarrow> ('h \<times> 'h) list" where
  "path_nodes node fn sn r [] = []"
| "path_nodes node fn sn r (p # ps) =
     (if sn = 0 then []
      else if odd fn \<or> fn = sn
      then (p, r) # path_nodes node (fst (strip fn sn) div 2) (snd (strip fn sn) div 2) (node p r) ps
      else (r, p) # path_nodes node (fn div 2) (sn div 2) (node r p) ps)"

text \<open>A member of one list and a member of the other are different and have the same image.\<close>

definition colliding :: "('a \<Rightarrow> 'b) \<Rightarrow> 'a list \<Rightarrow> 'a list \<Rightarrow> bool" where
  "colliding f xs ys \<longleftrightarrow> (\<exists>x\<in>set xs. \<exists>y\<in>set ys. x \<noteq> y \<and> f x = f y)"

lemma colliding_Nil [simp]: "\<not> colliding f [] ys" "\<not> colliding f xs []"
  by (simp_all add: colliding_def)

lemma colliding_mono: "colliding f xs ys \<Longrightarrow> set xs \<subseteq> set xs' \<Longrightarrow> set ys \<subseteq> set ys' \<Longrightarrow> colliding f xs' ys'"
  unfolding colliding_def by blast

lemma colliding_Cons: "colliding f xs ys \<Longrightarrow> colliding f (x # xs) (y # ys)"
  by (erule colliding_mono) auto

lemma colliding_head: "f x = f y \<Longrightarrow> x \<noteq> y \<Longrightarrow> colliding f (x # xs) (y # ys)"
  unfolding colliding_def by auto

lemma colliding_map:
  assumes "colliding f xs ys" "inj g" "\<And>x. h (g x) = f x"
  shows "colliding h (map g xs) (map g ys)"
  using assms unfolding colliding_def by (auto simp: inj_eq)

lemma eval_path_NilD: "eval_path node fn sn r [] = Some h \<Longrightarrow> sn = 0 \<and> r = h"
  by (simp split: if_splits)

lemma eval_path_ConsD: "eval_path node fn sn r (p # ps) = Some h \<Longrightarrow> sn \<noteq> 0"
  by (rule notI) simp

lemma eval_path_binding:
  "eval_path node fn sn r ps = Some h \<Longrightarrow> eval_path node fn sn r' ps' = Some h \<Longrightarrow>
    r = r' \<and> ps = ps' \<or> colliding (\<lambda>(x, y). node x y) (path_nodes node fn sn r ps) (path_nodes node fn sn r' ps')"
proof (induction ps arbitrary: fn sn r r' ps')
  case Nil
  then have "ps' = []" by (metis eval_path_NilD eval_path_ConsD list.exhaust)
  with Nil show ?case by (metis eval_path_NilD)
next
  case (Cons p ps)
  from Cons.prems(1) have sn: "sn \<noteq> 0" by (rule eval_path_ConsD)
  with Cons.prems(2) obtain p' qs where ps': "ps' = p' # qs"
    by (metis eval_path_NilD list.exhaust)
  define fn' sn' ch where "fn' = (if odd fn \<or> fn = sn then fst (strip fn sn) div 2 else fn div 2)"
    and "sn' = (if odd fn \<or> fn = sn then snd (strip fn sn) div 2 else sn div 2)"
    and "ch = (\<lambda>r p. if odd fn \<or> fn = sn then (p :: 'a, r) else (r, p))"
  let ?node = "\<lambda>(x, y). node x y"
  have ev: "eval_path node fn sn x (q # xs) = eval_path node fn' sn' (?node (ch x q)) xs"
    and nd: "path_nodes node fn sn x (q # xs) = ch x q # path_nodes node fn' sn' (?node (ch x q)) xs" for x q xs
    using sn by (simp_all add: fn'_def sn'_def ch_def del: strip_odd)
  have inj: "ch x q = ch x' q' \<longleftrightarrow> x = x' \<and> q = q'" for x q x' q' by (auto simp: ch_def)
  have "?node (ch r p) = ?node (ch r' p') \<and> ps = qs \<or>
      colliding ?node (path_nodes node fn' sn' (?node (ch r p)) ps) (path_nodes node fn' sn' (?node (ch r' p')) qs)"
    using Cons.prems unfolding ps' ev by (rule Cons.IH)
  then show ?case
  proof
    assume eq: "?node (ch r p) = ?node (ch r' p') \<and> ps = qs"
    show ?thesis
    proof (cases "ch r p = ch r' p'")
      case True
      with eq inj ps' show ?thesis by simp
    next
      case False
      from colliding_head [of ?node, OF conjunct1 [OF eq] this] show ?thesis unfolding ps' nd ..
    qed
  next
    assume "colliding ?node (path_nodes node fn' sn' (?node (ch r p)) ps) (path_nodes node fn' sn' (?node (ch r' p')) qs)"
    from colliding_Cons [OF this, of "ch r p" "ch r' p'"] show ?thesis unfolding ps' nd ..
  qed
qed

section \<open>The length of an accepted path\<close>

text \<open>Appendix B.2 of the draft: the number of steps depends on \<open>(fn, sn)\<close> only.\<close>

definition path_len :: "nat \<Rightarrow> nat \<Rightarrow> nat" where
  "path_len fn sn = bit_len (fn XOR sn) + ones (fn div 2 ^ bit_len (fn XOR sn))"

lemma ones_double [simp]: "ones (2 * n) = ones n"
  by (cases "n = 0") (simp_all add: ones.simps [of "2 * n"])

lemma ones_odd: "odd n \<Longrightarrow> ones n = Suc (ones (n div 2))"
  by (subst ones.simps) (auto simp: odd_iff_mod_2_eq_one)

lemma ones_even: "even n \<Longrightarrow> ones n = ones (n div 2)"
  by (auto elim!: evenE)

lemma ones_eq_0: "ones n = 0 \<longleftrightarrow> n = 0"
proof (induction n rule: ones.induct)
  case (1 n)
  show ?case
  proof (cases "n = 0")
    case False
    with 1 have "ones n = 0 \<longleftrightarrow> n mod 2 = 0 \<and> n div 2 = 0" by (subst ones.simps) simp
    also have "\<dots> \<longleftrightarrow> n = 0" by presburger
    finally show ?thesis .
  qed simp
qed

lemma strip_ones: "0 < fn \<Longrightarrow> \<exists>g. strip fn fn = (g, g) \<and> odd g \<and> ones g = ones fn"
proof (induction fn rule: ones.induct)
  case (1 n)
  show ?case
  proof (cases "even n")
    case True
    with 1(2) have half: "0 < n div 2" "n \<noteq> 0" by (auto elim!: evenE)
    then have "strip n n = strip (n div 2) (n div 2)"
      using True by (subst strip.simps) simp
    with 1(1) [OF half(2,1)] ones_even [OF True] show ?thesis by simp
  next
    case False
    then show ?thesis by simp
  qed
qed

lemma path_len_step:
  assumes "fn < sn"
  shows "path_len fn sn = Suc (path_len (fn div 2) (sn div 2))"
proof -
  have ne: "0 < fn XOR sn" using assms xor_nat_eq_0_iff [of fn sn] by simp
  have x: "(fn XOR sn) div 2 = (fn div 2) XOR (sn div 2)"
    using drop_bit_xor [of 1 fn sn] by (simp add: drop_bit_eq_div)
  have "bit_len (fn XOR sn) = Suc (bit_len ((fn div 2) XOR (sn div 2)))"
    using bit_len_pos [OF ne] x by simp
  then show ?thesis by (simp add: path_len_def div_mult2_eq)
qed

lemma eval_path_length:
  assumes "fn \<le> sn" "eval_path node fn sn r ps = Some h"
  shows "length ps = path_len fn sn"
  using assms
proof (induction ps arbitrary: fn sn r)
  case Nil
  then show ?case by (auto simp: path_len_def split: if_splits)
next
  case (Cons p ps)
  from Cons.prems(2) have sn: "sn \<noteq> 0" by (auto split: if_splits)
  show ?case
  proof (cases "fn = sn")
    case True
    with sn obtain g where g: "strip fn fn = (g, g)" "odd g" "ones g = ones fn"
      using strip_ones [of fn] by auto
    with Cons.prems(2) True sn have "length ps = path_len (g div 2) (g div 2)"
      by (intro Cons.IH) auto
    with g True show ?thesis by (simp add: path_len_def ones_odd)
  next
    case False
    with Cons.prems(1) have lt: "fn < sn" by simp
    have "eval_path node (fn div 2) (sn div 2) (if odd fn then node p r else node r p) ps = Some h"
      using Cons.prems(2) unfolding eval_path_less [OF lt] .
    then have "length ps = path_len (fn div 2) (sn div 2)"
      using lt by (intro Cons.IH) auto
    with path_len_step [OF lt] show ?thesis by simp
  qed
qed

lemma eval_path_total:
  assumes "fn \<le> sn" "length ps = path_len fn sn"
  shows "\<exists>h. eval_path node fn sn r ps = Some h"
  using assms
proof (induction ps arbitrary: fn sn r)
  case Nil
  then have "sn = 0" by (cases "fn = sn") (auto simp: path_len_def xor_nat_eq_0_iff ones_eq_0)
  then show ?case by simp
next
  case (Cons p ps)
  then have sn: "sn \<noteq> 0" by (cases "sn = 0") (auto simp: path_len_def)
  show ?case
  proof (cases "fn = sn")
    case True
    with sn obtain g where g: "strip fn fn = (g, g)" "odd g" "ones g = ones fn"
      using strip_ones [of fn] by auto
    have "length ps = path_len (g div 2) (g div 2)"
      using Cons.prems(2) True g by (simp add: path_len_def ones_odd)
    with Cons.IH [of "g div 2" "g div 2" "node p r"] True sn g show ?thesis by simp
  next
    case False
    with Cons.prems(1) have lt: "fn < sn" by simp
    have "length ps = path_len (fn div 2) (sn div 2)"
      using Cons.prems(2) path_len_step [OF lt] by simp
    moreover have "fn div 2 \<le> sn div 2" using lt by simp
    ultimately show ?thesis unfolding eval_path_less [OF lt] by (rule Cons.IH [rotated])
  qed
qed

section \<open>Aligned ranges\<close>

text \<open>Section 4.1 of the draft, over natural numbers.\<close>

definition valid_range :: "nat \<Rightarrow> nat \<Rightarrow> bool" where
  "valid_range s e \<longleftrightarrow> s < e \<and> 2 ^ bit_len (e - s - 1) dvd s"

lemma valid_rangeI:
  assumes "s < e" "e - s \<le> 2 ^ k" "2 ^ k dvd s"
  shows "valid_range s e"
proof -
  have "bit_len (e - s - 1) \<le> k" unfolding bit_len_le_iff using assms(1,2) by simp
  then have "(2::nat) ^ bit_len (e - s - 1) dvd 2 ^ k" by (rule le_imp_power_dvd)
  with assms show ?thesis by (auto simp: valid_range_def intro: dvd_trans)
qed

end
