(* ===== verification/Subtree.thy ===== *)
theory Subtree
  imports Merkle
begin

text \<open>
  The subtree primitives of tlogx/subtree.go: validity of an interval, the covering
  subtrees of a range, the leaf and node hashes, and the evaluation of a subtree
  inclusion proof. Interval ends are 64-bit words as in the code; the lemmas move
  to natural numbers and to the reference functions of theory \<open>Merkle\<close>.
\<close>

section \<open>The code\<close>

record Subtree =
  Start :: u64
  End :: u64
  SHash :: Hash

definition Size :: "Subtree \<Rightarrow> u64" where
  "Size s = End s - Start s"

definition Full :: "Subtree \<Rightarrow> bool" where
  "Full s = (let n = Size s in n \<noteq> 0 \<and> n AND (n - 1) = 0)"

definition bitCeil :: "u64 \<Rightarrow> u64" where
  "bitCeil n =
     (if n = 0 then 1
      else if n AND (n - 1) = 0 then n
      else push_bit (Len64 (n - 1)) 1)"

text \<open>\<open>start%cap\<close> panics when \<open>cap\<close> is zero, which \<open>bitCeil\<close> returns above \<open>2^63\<close>.\<close>

definition IsValid :: "u64 \<Rightarrow> u64 \<Rightarrow> bool result" where
  "IsValid start end =
     (if start \<ge> end then Inr False
      else let size = end - start; cap = bitCeil size
        in if cap = 0 then Inl (Panic ''integer divide by zero'')
           else Inr (start mod cap = 0))"

definition FindSubtrees :: "u64 \<Rightarrow> u64 \<Rightarrow> Subtree list result" where
  "FindSubtrees start end =
     (if start \<ge> end then Inl (Panic ''tlogx: FindSubtrees requires start<end'')
      else if end - start = 1 then Inr [\<lparr>Start = start, End = end, SHash = mk_Hash []\<rparr>]
      else
        let last = end - 1;
            split = Len64 (start XOR last) - 1;
            mask = push_bit split 1 - 1;
            mid = last AND NOT mask;
            leftSplit = Len64 (NOT start AND mask);
            leftStart = start AND NOT (push_bit leftSplit 1 - 1)
        in Inr [\<lparr>Start = leftStart, End = mid, SHash = mk_Hash []\<rparr>,
                \<lparr>Start = mid, End = end, SHash = mk_Hash []\<rparr>])"

definition HashLeaf :: "(bytes \<Rightarrow> Hash) \<Rightarrow> bytes \<Rightarrow> Hash" where
  "HashLeaf hash entry = hash (0 # entry)"

definition HashChildren :: "(bytes \<Rightarrow> Hash) \<Rightarrow> Hash \<Rightarrow> Hash \<Rightarrow> Hash" where
  "HashChildren hash left right = hash (1 # hash_bytes left @ hash_bytes right)"

text \<open>The inner loop of \<open>EvaluateInclusionProof\<close>: shift while \<open>fn\<close> is even and \<open>sn\<close> is not 0.\<close>

function shift_even :: "u64 \<Rightarrow> u64 \<Rightarrow> u64 \<times> u64" where
  "shift_even fn sn =
     (if fn AND 1 = 0 \<and> sn \<noteq> 0 then shift_even (drop_bit 1 fn) (drop_bit 1 sn) else (fn, sn))"
  by pat_completeness auto
termination
proof (relation "measure (\<lambda>(fn, sn). unat sn)", simp)
  fix fn sn :: u64
  assume "fn AND 1 = 0 \<and> sn \<noteq> 0"
  then have "0 < unat sn" by (simp add: unat_gt_0)
  then show "((drop_bit 1 fn, drop_bit 1 sn), fn, sn) \<in> measure (\<lambda>(fn, sn). unat sn)"
    unfolding in_measure prod.case unat_drop_u64 by simp
qed

fun evalLoop :: "(bytes \<Rightarrow> Hash) \<Rightarrow> u64 \<Rightarrow> u64 \<Rightarrow> Hash \<Rightarrow> Hash list \<Rightarrow> Hash result" where
  "evalLoop hash fn sn r [] =
     (if sn \<noteq> 0 then Inl (Errorf ''tlogx: proof too short'') else Inr r)"
| "evalLoop hash fn sn r (p # proof) =
     (if sn = 0 then Inl (Errorf ''tlogx: proof has extra elements'')
      else if fn AND 1 = 1 \<or> fn = sn then
        (let r' = HashChildren hash p r; (fn', sn') = shift_even fn sn
         in evalLoop hash (drop_bit 1 fn') (drop_bit 1 sn') r' proof)
      else evalLoop hash (drop_bit 1 fn) (drop_bit 1 sn) (HashChildren hash r p) proof)"

definition EvaluateInclusionProof ::
  "(bytes \<Rightarrow> Hash) \<Rightarrow> u64 \<Rightarrow> u64 \<Rightarrow> u64 \<Rightarrow> Hash \<Rightarrow> Hash list \<Rightarrow> Hash result" where
  "EvaluateInclusionProof hash start end index entryHash proof =
     rbind (IsValid start end) (\<lambda>ok.
       if \<not> ok then Inl (Errorf ''tlogx: invalid subtree'')
       else if index < start \<or> index \<ge> end then Inl (Errorf ''tlogx: index outside subtree'')
       else evalLoop hash (index - start) (end - start - 1) entryHash proof)"

definition ProofLen :: "u64 \<Rightarrow> u64 \<Rightarrow> u64 \<Rightarrow> nat" where
  "ProofLen start end index =
     (let fn = index - start; sn = end - start - 1;
          l1 = Len64 (fn XOR sn); l2 = OnesCount64 (drop_bit l1 fn)
      in l1 + l2)"

declare shift_even.simps [simp del]

section \<open>Validity\<close>

lemma bitCeil_small:
  assumes "n \<noteq> 0" "unat n \<le> 2 ^ 63"
  shows "unat (bitCeil n) = 2 ^ bit_len (unat n - 1)"
proof -
  have pos: "0 < unat n" using assms(1) by (simp add: unat_gt_0)
  then have m1: "unat (n - 1) = unat n - 1"
    by (subst unat_diff_u64) (simp_all add: u64_le_iff)
  show ?thesis
  proof (cases "n AND (n - 1) = 0")
    case True
    then obtain k where k: "unat n = 2 ^ k" using u64_pow2_test [OF assms(1)] by blast
    have "bit_len (2 ^ k - 1) = k"
    proof (cases k)
      case (Suc j)
      have "bit_len (2 ^ k - 1) = Suc j"
        by (rule bit_len_unique) (use Suc in \<open>simp_all\<close>)
      with Suc show ?thesis by simp
    qed simp
    with True k assms(1) show ?thesis by (simp add: bitCeil_def)
  next
    case False
    have "bit_len (unat n - 1) \<le> 63"
      unfolding bit_len_le_iff using assms(2) pos by simp
    with False assms(1) show ?thesis
      by (simp add: bitCeil_def Len64_def m1 unat_2pow)
  qed
qed

lemma bitCeil_big:
  assumes "2 ^ 63 < unat n"
  shows "bitCeil n = 0"
proof -
  have n0: "n \<noteq> 0" using assms by auto
  then have m1: "unat (n - 1) = unat n - 1"
    by (subst unat_diff_u64) (auto simp: u64_le_iff unat_gt_0 Suc_le_eq)
  have "\<not> bit_len (unat n - 1) \<le> 63"
    unfolding bit_len_le_iff using assms by simp
  moreover have "bit_len (unat n - 1) \<le> 64"
    unfolding bit_len_le_iff using unat_less_u64 [of n] by linarith
  ultimately have len: "Len64 (n - 1) = 64" by (simp add: Len64_def m1)
  have "n AND (n - 1) \<noteq> 0"
  proof
    assume "n AND (n - 1) = 0"
    then obtain k where k: "unat n = 2 ^ k" using u64_pow2_test [OF n0] by blast
    have "63 < k" using assms unfolding k by (rule power_less_imp_less_exp [rotated]) simp
    moreover have "k < 64" using unat_less_u64 [of n] unfolding k
      by (rule power_less_imp_less_exp [rotated]) simp
    ultimately show False by simp
  qed
  moreover have "push_bit 64 1 = (0::u64)" by simp
  ultimately show ?thesis using n0 len by (simp add: bitCeil_def)
qed

lemma IsValid_small:
  assumes "unat end - unat start \<le> 2 ^ 63"
  shows "IsValid start end = Inr (valid_range (unat start) (unat end))"
proof (cases "start < end")
  case False
  then show ?thesis by (simp add: IsValid_def valid_range_def not_less u64_le_iff)
next
  case True
  then have d: "unat (end - start) = unat end - unat start"
    by (simp add: unat_diff_u64)
  have nz: "end - start \<noteq> 0" using True by auto
  have c: "unat (bitCeil (end - start)) = 2 ^ bit_len (unat end - unat start - 1)"
    using bitCeil_small [OF nz] assms unfolding d by simp
  have "bitCeil (end - start) \<noteq> 0"
    using c by (metis power_not_zero unsigned_0 zero_neq_numeral)
  moreover have "start mod bitCeil (end - start) = 0 \<longleftrightarrow>
      2 ^ bit_len (unat end - unat start - 1) dvd unat start"
    by (simp only: u64_eq_iff unat_mod c unsigned_0 dvd_eq_mod_eq_0)
  ultimately show ?thesis
    using True by (simp add: IsValid_def Let_def valid_range_def u64_less_iff u64_le_iff)
qed

lemma IsValid_TrueD:
  assumes "IsValid start end = Inr True"
  shows "valid_range (unat start) (unat end)" and "unat end - unat start \<le> 2 ^ 63"
proof -
  have lt: "start < end" using assms by (auto simp: IsValid_def split: if_splits)
  show small: "unat end - unat start \<le> 2 ^ 63"
  proof (rule ccontr)
    assume "\<not> ?thesis"
    then have "bitCeil (end - start) = 0"
      using lt by (intro bitCeil_big) (simp add: unat_diff_u64)
    with assms lt show False by (simp add: IsValid_def Let_def split: if_splits)
  qed
  show "valid_range (unat start) (unat end)"
    using assms IsValid_small [OF small] by simp
qed

lemma valid_range_iff:
  "valid_range s e \<longleftrightarrow> s < e \<and>
     (\<exists>k. e - s \<le> 2 ^ k \<and> 2 ^ k < 2 * (e - s) \<and> 2 ^ k dvd s)"
proof (cases "s < e")
  case True
  define m where "m = e - s"
  have m: "0 < m" using True by (simp add: m_def)
  define b where "b = bit_len (m - 1)"
  have up: "m \<le> 2 ^ b" using less_bit_len [of "m - 1"] m by (simp add: b_def)
  have low: "2 ^ b < 2 * m"
  proof (cases "m = 1")
    case False
    then have "2 ^ (b - 1) \<le> m - 1" "0 < b"
      using m bit_len_lower [of "m - 1"] by (simp_all add: b_def bit_len_pos)
    moreover from \<open>0 < b\<close> have "(2::nat) ^ b = 2 * 2 ^ (b - 1)" by (simp flip: power_Suc)
    ultimately show ?thesis using m by linarith
  qed (simp add: b_def)
  have uniq: "k = b" if "m \<le> 2 ^ k" "2 ^ k < 2 * m" for k
    using that up low power2_between_unique [of k "2 * m" b] by simp
  have "valid_range s e \<longleftrightarrow> 2 ^ b dvd s" using True by (simp add: valid_range_def m_def b_def)
  also have "\<dots> \<longleftrightarrow> (\<exists>k. m \<le> 2 ^ k \<and> 2 ^ k < 2 * m \<and> 2 ^ k dvd s)"
    using up low uniq by blast
  finally show ?thesis using True by (simp add: m_def)
qed (simp add: valid_range_def)

section \<open>Covering subtrees\<close>

text \<open>
  Two different numbers \<open>a < b\<close>: at the highest bit \<open>j\<close> where they differ, \<open>a\<close> has 0 and
  \<open>b\<close> has 1, and they agree above.
\<close>

lemma half_eq_Suc:
  fixes x y :: nat
  assumes "x \<noteq> y" "x \<le> y" "x div 2 = y div 2"
  shows "y = Suc x \<and> even x"
  using assms by presburger

lemma xor_top_bit:
  fixes a b :: nat
  assumes "a < b"
  defines "j \<equiv> bit_len (a XOR b) - 1"
  shows "b div 2 ^ j = Suc (a div 2 ^ j)" and "even (a div 2 ^ j)"
proof -
  have eq: "a div 2 ^ k = b div 2 ^ k \<longleftrightarrow> bit_len (a XOR b) \<le> k" for k
  proof -
    have "bit_len (a XOR b) \<le> k \<longleftrightarrow> (a XOR b) div 2 ^ k = 0"
      by (simp add: bit_len_le_iff div_eq_0_iff)
    also have "(a XOR b) div 2 ^ k = (a div 2 ^ k) XOR (b div 2 ^ k)"
      using drop_bit_xor [of k a b] by (simp only: drop_bit_eq_div)
    finally show ?thesis by (simp add: xor_nat_eq_0_iff)
  qed
  have len: "0 < bit_len (a XOR b)"
    using assms(1) xor_nat_eq_0_iff [of a b] by (simp add: bit_len_pos)
  have ne: "a div 2 ^ j \<noteq> b div 2 ^ j" using eq [of j] len by (simp add: j_def)
  have le: "a div 2 ^ j \<le> b div 2 ^ j" using assms(1) by (simp add: div_le_mono)
  have "a div 2 ^ Suc j = b div 2 ^ Suc j" using eq [of "Suc j"] len by (simp add: j_def)
  then have "a div 2 ^ j div 2 = b div 2 ^ j div 2"
    by (simp only: power_Suc mult.commute [of 2] div_mult2_eq)
  with ne le have "b div 2 ^ j = Suc (a div 2 ^ j) \<and> even (a div 2 ^ j)" by (rule half_eq_Suc)
  then show "b div 2 ^ j = Suc (a div 2 ^ j)" and "even (a div 2 ^ j)" by blast+
qed

lemma low_ones_split:
  fixes a s :: nat
  assumes "a < 2 ^ s"
  defines "l \<equiv> bit_len (2 ^ s - 1 - a)"
  shows "l \<le> s" and "a div 2 ^ l * 2 ^ l = 2 ^ s - 2 ^ l" and "2 ^ l < 2 * (2 ^ s - a)"
proof -
  have pow: "(1::nat) \<le> 2 ^ s" by simp
  show ls: "l \<le> s" unfolding l_def bit_len_le_iff using pow by linarith
  have lt: "2 ^ s - 1 - a < 2 ^ l" unfolding l_def by (rule less_bit_len)
  have split: "(2::nat) ^ s = 2 ^ (s - l) * 2 ^ l" using ls by (simp flip: power_add)
  have ge: "2 ^ s - 2 ^ l \<le> a" using lt assms(1) by linarith
  have "a div 2 ^ l = 2 ^ (s - l) - 1"
  proof (rule div_nat_eqI)
    show "2 ^ l * (2 ^ (s - l) - 1) \<le> a"
      using ge split by (simp add: algebra_simps diff_mult_distrib2)
    show "a < 2 ^ l * Suc (2 ^ (s - l) - 1)"
      using assms(1) split by (simp add: mult.commute)
  qed
  then show "a div 2 ^ l * 2 ^ l = 2 ^ s - 2 ^ l"
    using split by (simp add: diff_mult_distrib)
  show "2 ^ l < 2 * (2 ^ s - a)"
  proof (cases "2 ^ s - 1 - a = 0")
    case True
    with assms(1) show ?thesis by (simp add: l_def)
  next
    case False
    then have "2 ^ (l - 1) \<le> 2 ^ s - 1 - a" unfolding l_def by (intro bit_len_lower) simp
    moreover have "0 < l" using False by (simp add: l_def bit_len_pos)
    then have "(2::nat) ^ l = 2 * 2 ^ (l - 1)" by (simp flip: power_Suc)
    ultimately show ?thesis using assms(1) by linarith
  qed
qed

text \<open>The two intervals of \<open>FindSubtrees\<close>, over natural numbers.\<close>

lemma FindSubtrees_two:
  assumes lt: "unat start + 1 < unat end"
  obtains s l t1 t2 where
    "FindSubtrees start end = Inr [t1, t2]"
    "unat (End t1) = unat (Start t2)" "unat (End t2) = unat end"
    "unat (Start t1) \<le> unat start" "unat start < unat (End t1)" "unat (Start t2) < unat end"
    "unat (End t1) = unat (Start t1) + 2 ^ l" "2 ^ l dvd unat (Start t1)"
    "2 ^ l < 2 * (unat (End t1) - unat start)"
    "2 ^ s dvd unat (Start t2)" "unat end - unat (Start t2) \<le> 2 ^ s" "s < 64" "l \<le> s"
proof -
  define a where "a = unat start"
  define b where "b = unat end - 1"
  have last: "unat (end - 1) = b"
    using lt by (subst unat_diff_u64) (simp_all add: u64_le_iff b_def)
  have ab: "a < b" using lt by (simp add: a_def b_def)
  define s where "s = bit_len (a XOR b) - 1"
  have len: "Len64 (start XOR (end - 1)) - 1 = s"
    by (simp add: Len64_def unsigned_xor_eq last a_def s_def)
  have s64: "s < 64"
    using Len64_le_64 [of "start XOR (end - 1)"] len ab xor_nat_eq_0_iff [of a b]
    by (simp add: s_def)
  note top = xor_top_bit [OF ab, folded s_def]
  define A where "A = a div 2 ^ s"
  define r where "r = a mod 2 ^ s"
  have a_split: "a = A * 2 ^ s + r" unfolding A_def r_def by (rule div_mult_mod_eq [symmetric])
  have r: "r < 2 ^ s" by (simp add: r_def)
  define l where "l = bit_len (2 ^ s - 1 - r)"
  note low = low_ones_split [OF r, folded l_def]
  define mid where "mid = (end - 1) AND NOT (push_bit s 1 - 1)"
  have umid: "unat mid = Suc A * 2 ^ s"
    unfolding mid_def u64_clear_low last top(1) A_def ..
  have left: "Len64 (NOT start AND (push_bit s 1 - 1)) = l"
    using s64 by (simp only: Len64_def u64_low_complement less_imp_le) (simp only: l_def r_def a_def)
  define ls where "ls = start AND NOT (push_bit l 1 - 1)"
  have pow: "(2::nat) ^ s = 2 ^ (s - l) * 2 ^ l" using low(1) by (simp flip: power_add)
  have uls: "unat ls = A * 2 ^ s + (2 ^ s - 2 ^ l)"
  proof -
    have "a div 2 ^ l = A * 2 ^ (s - l) + r div 2 ^ l"
      using a_split by (simp add: pow mult.assoc [symmetric])
    then have "a div 2 ^ l * 2 ^ l = A * 2 ^ s + r div 2 ^ l * 2 ^ l"
      by (simp add: pow algebra_simps)
    then show ?thesis unfolding ls_def u64_clear_low using low(2) by (simp add: a_def)
  qed
  have ll: "(2::nat) ^ l \<le> 2 ^ s" using low(1) by (intro power_increasing) simp_all
  let ?t1 = "\<lparr>Start = ls, End = mid, SHash = mk_Hash []\<rparr>"
  let ?t2 = "\<lparr>Start = mid, End = end, SHash = mk_Hash []\<rparr>"
  have "unat (end - start) = unat end - unat start"
    using lt by (subst unat_diff_u64) (simp_all add: u64_le_iff)
  then have "end - start \<noteq> 1" using lt by auto
  moreover have "\<not> start \<ge> end" using lt by (simp add: u64_le_iff)
  ultimately have F: "FindSubtrees start end = Inr [?t1, ?t2]"
    by (simp only: FindSubtrees_def if_False Let_def len left mid_def [symmetric] ls_def [symmetric])
  have bge: "Suc A * 2 ^ s \<le> b" using top(1) A_def by (metis div_times_less_eq_dividend)
  have blt: "b < Suc A * 2 ^ s + 2 ^ s"
  proof -
    have "b mod 2 ^ s < 2 ^ s" by simp
    with div_mult_mod_eq [of b "2 ^ s"] show ?thesis unfolding top(1) A_def by linarith
  qed
  have dvd1: "2 ^ l dvd A * 2 ^ s + (2 ^ s - 2 ^ l)"
    using low(1) by (intro dvd_add dvd_mult dvd_diff_nat) (auto intro: le_imp_power_dvd)
  show ?thesis
  proof (rule that [OF F])
    show "unat (End ?t1) = unat (Start ?t2)" "unat (End ?t2) = unat end" by simp_all
    show "unat (Start ?t1) \<le> unat start"
      using uls low(2) a_split div_times_less_eq_dividend [of r "2 ^ l"]
      by (simp add: a_def [symmetric])
    show "unat start < unat (End ?t1)" using a_split r umid by (simp add: a_def [symmetric])
    show "unat (Start ?t2) < unat end" using umid bge lt by (simp add: b_def)
    show "unat (End ?t1) = unat (Start ?t1) + 2 ^ l" using umid uls ll by (simp del: power_increasing_iff)
    show "2 ^ l dvd unat (Start ?t1)" using uls dvd1 by simp
    show "2 ^ l < 2 * (unat (End ?t1) - unat start)"
      using low(3) umid a_split by (simp add: a_def [symmetric])
    show "2 ^ s dvd unat (Start ?t2)" using umid by simp
    show "unat end - unat (Start ?t2) \<le> 2 ^ s" using umid blt by (simp add: b_def)
    show "s < 64" "l \<le> s" using s64 low(1) by simp_all
  qed
qed

lemma FindSubtrees_one:
  assumes "unat end = unat start + 1"
  shows "FindSubtrees start end = Inr [\<lparr>Start = start, End = end, SHash = mk_Hash []\<rparr>]"
proof -
  have "unat (end - start) = 1"
    using assms by (subst unat_diff_u64) (simp_all add: u64_le_iff)
  then have "end - start = 1" by (simp add: u64_eq_iff)
  moreover have "\<not> start \<ge> end" using assms by (simp add: u64_le_iff)
  ultimately show ?thesis by (simp add: FindSubtrees_def)
qed

text \<open>What \<open>FindSubtrees\<close> promises of its result (section 4.5 of the draft).\<close>

fun adjacent :: "Subtree list \<Rightarrow> bool" where
  "adjacent (s # t # ts) = (End s = Start t \<and> adjacent (t # ts))"
| "adjacent ts = True"

definition covering :: "Subtree list \<Rightarrow> u64 \<Rightarrow> u64 \<Rightarrow> bool" where
  "covering ts start end \<longleftrightarrow> ts \<noteq> [] \<and> length ts \<le> 2 \<and> adjacent ts \<and>
     (\<forall>t\<in>set ts. IsValid (Start t) (End t) = Inr True) \<and>
     Start (hd ts) \<le> start \<and> start < End (hd ts) \<and> End (last ts) = end \<and>
     (length ts = 2 \<longrightarrow> Full (hd ts)) \<and>
     unat (Size (hd ts)) < 2 * (unat (End (hd ts)) - unat start)"

lemma IsValid_rangeI:
  assumes "unat a < unat b" "unat b - unat a \<le> 2 ^ k" "2 ^ k dvd unat a" "k < 64"
  shows "IsValid a b = Inr True"
proof -
  have "(2::nat) ^ k \<le> 2 ^ 63" using assms(4) by (intro power_increasing) simp_all
  with assms(2) have "unat b - unat a \<le> 2 ^ 63" by (rule le_trans)
  then show ?thesis using valid_rangeI [OF assms(1-3)] by (simp add: IsValid_small)
qed

lemma FindSubtrees_covering:
  assumes "start < end"
  shows "\<exists>ts. FindSubtrees start end = Inr ts \<and> covering ts start end"
proof (cases "unat end = unat start + 1")
  case True
  have v: "IsValid start end = Inr True" using True by (intro IsValid_rangeI [where k = 0]) simp_all
  have "unat (Size \<lparr>Start = start, End = end, SHash = mk_Hash []\<rparr>) = 1"
    using True assms by (simp add: Size_def unat_diff_u64)
  with v assms True FindSubtrees_one [OF True] show ?thesis by (simp add: covering_def)
next
  case False
  with assms have "unat start + 1 < unat end" by (simp add: u64_less_iff)
  then obtain s l t1 t2 where F: "FindSubtrees start end = Inr [t1, t2]"
    and e: "unat (End t1) = unat (Start t2)" "unat (End t2) = unat end"
    and o: "unat (Start t1) \<le> unat start" "unat start < unat (End t1)" "unat (Start t2) < unat end"
    and t1: "unat (End t1) = unat (Start t1) + 2 ^ l" "2 ^ l dvd unat (Start t1)"
      "2 ^ l < 2 * (unat (End t1) - unat start)"
    and t2: "2 ^ s dvd unat (Start t2)" "unat end - unat (Start t2) \<le> 2 ^ s"
    and k: "s < 64" "l \<le> s"
    by (rule FindSubtrees_two)
  have v1: "IsValid (Start t1) (End t1) = Inr True"
    using o t1 k by (intro IsValid_rangeI [where k = l]) simp_all
  have v2: "IsValid (Start t2) (End t2) = Inr True"
    using o e t2 k by (intro IsValid_rangeI [where k = s]) simp_all
  have sz: "unat (Size t1) = 2 ^ l"
    using t1(1) o by (simp add: Size_def unat_diff_u64 u64_le_iff)
  then have "Size t1 \<noteq> 0" by (metis power_not_zero unsigned_0 zero_neq_numeral)
  with sz have "Full t1" by (auto simp: Full_def Let_def u64_pow2_test)
  moreover have "End t1 = Start t2" "End t2 = end" using e by (simp_all add: u64_eq_iff)
  ultimately show ?thesis
    using F v1 v2 sz o t1(3) by (simp add: covering_def u64_le_iff u64_less_iff)
qed

section \<open>Evaluating an inclusion proof\<close>

text \<open>The byte strings that are hashed: for an interior node, and on the way of an inclusion proof.\<close>

definition node_input :: "Hash \<times> Hash \<Rightarrow> bytes" where
  "node_input = (\<lambda>(left, right). 1 # hash_bytes left @ hash_bytes right)"

fun path_inputs :: "(bytes \<Rightarrow> Hash) \<Rightarrow> u64 \<Rightarrow> u64 \<Rightarrow> Hash \<Rightarrow> Hash list \<Rightarrow> bytes list" where
  "path_inputs hash fn sn r [] = []"
| "path_inputs hash fn sn r (p # ps) =
     (if sn = 0 then []
      else if fn AND 1 = 1 \<or> fn = sn then
        (let (fn', sn') = shift_even fn sn
         in node_input (p, r) # path_inputs hash (drop_bit 1 fn') (drop_bit 1 sn') (HashChildren hash p r) ps)
      else node_input (r, p) # path_inputs hash (drop_bit 1 fn) (drop_bit 1 sn) (HashChildren hash r p) ps)"

definition inclusion_inputs :: "(bytes \<Rightarrow> Hash) \<Rightarrow> u64 \<Rightarrow> u64 \<Rightarrow> u64 \<Rightarrow> Hash \<Rightarrow> Hash list \<Rightarrow> bytes list" where
  "inclusion_inputs hash start end index h proof = path_inputs hash (index - start) (end - start - 1) h proof"

lemma inj_node_input: "inj node_input"
  by (rule injI) (auto simp: node_input_def append_eq_append_conv split: prod.splits)

lemma hash_node_input: "hash (node_input x) = (\<lambda>(l, r). HashChildren hash l r) x"
  by (simp add: node_input_def HashChildren_def split: prod.splits)

lemma shift_even_strip:
  "map_prod unat unat (shift_even fn sn) = strip (unat fn) (unat sn)"
proof (induction fn sn rule: shift_even.induct)
  case (1 fn sn)
  have z: "sn \<noteq> 0 \<longleftrightarrow> unat sn \<noteq> 0" by (simp add: u64_eq_iff)
  show ?case
  proof (cases "fn AND 1 = 0 \<and> sn \<noteq> 0")
    case True
    then show ?thesis using 1 [OF True] z
      by (subst shift_even.simps, subst strip.simps)
        (simp add: u64_and_1_even unat_drop_u64 del: drop_bit_Suc)
  next
    case False
    have "shift_even fn sn = (fn, sn)" by (subst shift_even.simps) (simp only: False if_False)
    moreover have "strip (unat fn) (unat sn) = (unat fn, unat sn)"
      using False z by (subst strip.simps) (simp only: u64_and_1_even if_False)
    ultimately show ?thesis by simp
  qed
qed

lemma shift_even_unat:
  "unat (fst (shift_even fn sn)) = fst (strip (unat fn) (unat sn))"
  "unat (snd (shift_even fn sn)) = snd (strip (unat fn) (unat sn))"
  by (simp_all flip: shift_even_strip)

lemma evalLoop_eval_path:
  "evalLoop hash fn sn r ps = Inr h \<longleftrightarrow>
     eval_path (HashChildren hash) (unat fn) (unat sn) r ps = Some h"
proof (induction ps arbitrary: fn sn r)
  case Nil
  then show ?case by (simp add: unat_eq_zero)
next
  case (Cons p ps)
  have z: "sn = 0 \<longleftrightarrow> unat sn = 0" by (simp add: u64_eq_iff)
  show ?case
    by (simp only: evalLoop.simps eval_path.simps z u64_and_1_odd u64_eq_iff [of fn sn]
        Let_def case_prod_beta if_distrib [of "\<lambda>x. x = Inr h"] if_distrib [of "\<lambda>x. x = Some h"]
        Cons unat_drop_u64 shift_even_unat power_one_right) simp
qed

lemma path_inputs_nodes:
  "path_inputs hash fn sn r ps = map node_input (path_nodes (HashChildren hash) (unat fn) (unat sn) r ps)"
proof (induction ps arbitrary: fn sn r)
  case (Cons p ps)
  have z: "sn = 0 \<longleftrightarrow> unat sn = 0" by (simp add: u64_eq_iff)
  show ?case
    by (simp only: path_inputs.simps path_nodes.simps z u64_and_1_odd u64_eq_iff [of fn sn] Let_def case_prod_beta
        if_distrib [of "map node_input"] list.map Cons unat_drop_u64 shift_even_unat power_one_right)
qed simp

lemma path_inputs_binding:
  assumes "eval_path (HashChildren hash) (unat fn) (unat sn) r ps = Some h"
    "eval_path (HashChildren hash) (unat fn) (unat sn) r' ps' = Some h"
  shows "r = r' \<and> ps = ps' \<or> colliding hash (path_inputs hash fn sn r ps) (path_inputs hash fn sn r' ps')"
  using eval_path_binding [OF assms] unfolding path_inputs_nodes
  by (elim disjE) (auto intro: colliding_map [OF _ inj_node_input hash_node_input])

lemma EvaluateInclusionProof_eq_Inr:
  "EvaluateInclusionProof hash start end index h proof = Inr r \<longleftrightarrow>
     IsValid start end = Inr True \<and> start \<le> index \<and> index < end \<and>
     eval_path (HashChildren hash) (unat index - unat start) (unat end - unat start - 1) h proof
       = Some r"
proof (cases "IsValid start end = Inr True \<and> start \<le> index \<and> index < end")
  case True
  then have lt: "start < end" by (simp add: u64_less_iff u64_le_iff)
  have "1 \<le> end - start"
    using lt by (simp add: u64_le_iff u64_less_iff unat_diff_u64)
  then have "unat (end - start - 1) = unat end - unat start - 1"
    using lt by (simp add: unat_diff_u64)
  moreover have "unat (index - start) = unat index - unat start"
    using True by (simp add: unat_diff_u64)
  moreover have "\<not> index < start" "\<not> index \<ge> end" using True by (auto simp: not_le not_less)
  ultimately show ?thesis
    using True by (simp add: EvaluateInclusionProof_def evalLoop_eval_path)
next
  case False
  then show ?thesis
    by (auto simp: EvaluateInclusionProof_def rbind_eq_Inr if_Inl_eq_Inr not_less not_le)
qed

lemma ProofLen_path_len:
  assumes "start \<le> index" "index < end"
  shows "ProofLen start end index = path_len (unat index - unat start) (unat end - unat start - 1)"
proof -
  have lt: "start < end" using assms by simp
  have "1 \<le> end - start"
    using lt by (simp add: u64_le_iff u64_less_iff unat_diff_u64)
  then have "unat (end - start - 1) = unat end - unat start - 1"
    using lt by (simp add: unat_diff_u64)
  moreover have "unat (index - start) = unat index - unat start"
    using assms by (simp add: unat_diff_u64)
  ultimately show ?thesis
    by (simp add: ProofLen_def path_len_def Let_def Len64_def OnesCount64_def unat_drop_u64
        unsigned_xor_eq)
qed

lemma EvaluateInclusionProof_audit:
  assumes "IsValid start end = Inr True" "start \<le> index" "index < end"
  shows "EvaluateInclusionProof hash start end index (d (unat index))
      (audit (HashChildren hash) d (unat start) (unat end - unat start) (unat index - unat start))
    = Inr (mth (HashChildren hash) d (unat start) (unat end - unat start))"
proof -
  have "unat index - unat start < unat end - unat start"
    using assms(2,3) by (simp add: u64_le_iff u64_less_iff)
  from eval_path_audit [OF this, of "HashChildren hash" d "unat start"] assms
  show ?thesis by (simp add: EvaluateInclusionProof_eq_Inr u64_le_iff)
qed

lemma EvaluateInclusionProof_loop:
  "EvaluateInclusionProof hash start end index h proof = Inr r \<Longrightarrow> evalLoop hash (index - start) (end - start - 1) h proof = Inr r"
  by (auto simp: EvaluateInclusionProof_def rbind_eq_Inr if_Inl_eq_Inr)

lemma EvaluateInclusionProof_binding:
  assumes "EvaluateInclusionProof hash start end index h proof = Inr r"
    and "EvaluateInclusionProof hash start end index h' proof' = Inr r"
  shows "h = h' \<and> proof = proof' \<or>
    colliding hash (inclusion_inputs hash start end index h proof) (inclusion_inputs hash start end index h' proof')"
  using assms [THEN EvaluateInclusionProof_loop] unfolding evalLoop_eval_path inclusion_inputs_def by (rule path_inputs_binding)

section \<open>Properties\<close>

text \<open>
  C31: \<open>IsValid\<close> decides section 4.1 of the draft (start below end, start a multiple of the
  smallest power of two at least the size) for every interval of at most \<open>2^63\<close> entries, and on
  larger intervals \<open>bitCeil\<close> wraps to 0 and the remainder panics.
\<close>

theorem IsValid_spec:
  "IsValid start end =
     (if unat end - unat start \<le> 2 ^ 63
      then Inr (unat start < unat end \<and>
        (\<exists>k. unat end - unat start \<le> 2 ^ k \<and> 2 ^ k < 2 * (unat end - unat start) \<and> 2 ^ k dvd unat start))
      else Inl (Panic ''integer divide by zero''))"
proof (cases "unat end - unat start \<le> 2 ^ 63")
  case True
  then show ?thesis using IsValid_small [OF True] valid_range_iff [of "unat start" "unat end"] by simp
next
  case False
  then have "2 ^ 63 < unat (end - start)" by (simp add: unat_diff_u64 u64_le_iff)
  from bitCeil_big [OF this] False show ?thesis by (simp add: IsValid_def Let_def u64_le_iff)
qed

text \<open>
  C29: for every non-empty range, \<open>FindSubtrees\<close> returns one or two adjacent valid subtrees that end
  at \<open>end\<close>, the first containing \<open>start\<close> and less than twice as large as the part of the range it
  covers, and a power of two when there is a second.
\<close>

theorem FindSubtrees_correct:
  assumes "start < end"
  shows "\<exists>ts. FindSubtrees start end = Inr ts \<and> covering ts start end"
  using assms by (rule FindSubtrees_covering)

theorem FindSubtrees_correct_witness:
  "(5::u64) < 13 \<and> (\<exists>ts. FindSubtrees 5 13 = Inr ts \<and> covering ts 5 13)"
  using FindSubtrees_correct [of 5 13] by simp

text \<open>
  C28: an inclusion proof is accepted exactly when the subtree is valid, the index lies in it and the
  proof has the length that \<open>ProofLen\<close> computes.
\<close>

theorem EvaluateInclusionProof_accepts_iff:
  "(\<exists>r. EvaluateInclusionProof hash start end index h proof = Inr r) \<longleftrightarrow>
     IsValid start end = Inr True \<and> start \<le> index \<and> index < end \<and>
     length proof = ProofLen start end index"
proof (cases "start \<le> index \<and> index < end")
  case True
  then have "unat index - unat start \<le> unat end - unat start - 1"
    unfolding u64_le_iff u64_less_iff by linarith
  with eval_path_length eval_path_total ProofLen_path_len True show ?thesis
    unfolding EvaluateInclusionProof_eq_Inr by (metis (no_types, lifting))
qed (auto simp: EvaluateInclusionProof_eq_Inr)

text \<open>
  C9: inclusion proofs are binding. If two proofs for the same index and subtree give the same
  subtree hash, their leaf hashes and their paths are equal, or a collision can be read off the two
  evaluations: a string hashed in one differs from a string hashed in the other and has the same hash.
\<close>

theorem EvaluateInclusionProof_sound:
  assumes "EvaluateInclusionProof hash start end index h proof = Inr r"
    and "EvaluateInclusionProof hash start end index h' proof' = Inr r"
  shows "h = h' \<and> proof = proof' \<or>
    (\<exists>x\<in>set (inclusion_inputs hash start end index h proof). \<exists>y\<in>set (inclusion_inputs hash start end index h' proof').
       x \<noteq> y \<and> hash x = hash y)"
  using EvaluateInclusionProof_binding [OF assms] unfolding colliding_def .

theorem EvaluateInclusionProof_sound_witness:
  "EvaluateInclusionProof mk_Hash 4 6 5 (mk_Hash [7]) [mk_Hash [9]]
     = EvaluateInclusionProof mk_Hash 4 6 5 (mk_Hash [8]) [mk_Hash [9]] \<and>
   mk_Hash [7] \<noteq> mk_Hash [8] \<and>
   (\<exists>x\<in>set (inclusion_inputs mk_Hash 4 6 5 (mk_Hash [7]) [mk_Hash [9]]).
      \<exists>y\<in>set (inclusion_inputs mk_Hash 4 6 5 (mk_Hash [8]) [mk_Hash [9]]). x \<noteq> y \<and> mk_Hash x = mk_Hash y)"
proof -
  have a: "EvaluateInclusionProof mk_Hash 4 6 5 (mk_Hash [7]) [mk_Hash [9]]
      = Inr (HashChildren mk_Hash (mk_Hash [9]) (mk_Hash [7]))"
    by code_simp
  have b: "EvaluateInclusionProof mk_Hash 4 6 5 (mk_Hash [8]) [mk_Hash [9]]
      = Inr (HashChildren mk_Hash (mk_Hash [9]) (mk_Hash [7]))"
    by code_simp
  have ne: "mk_Hash [7] \<noteq> mk_Hash [8]" by code_simp
  from EvaluateInclusionProof_sound [OF a b] ne a b show ?thesis by simp
qed

end
