(* ===== verification/Entry.thy ===== *)
theory Entry
  imports TrustAnchor Subtree
begin

text \<open>
  Log entries (cert/entry.go): the entry-extension vector and its parser, the entry encodings and
  their leaf hashes, and the DER writer and header reader they rest on.
\<close>

section \<open>The code: entry extensions\<close>

record MerkleTreeCertEntryExtension =
  ExtType :: u16
  ExtData :: bytes

fun checkExtensions :: "MerkleTreeCertEntryExtension list \<Rightarrow> unit result" where
  "checkExtensions (a # b # exts) =
     (if ExtType b < ExtType a then Inl (Errorf ''cert: entry extensions not sorted'')
      else if ExtType b = ExtType a then Inl (Errorf ''cert: duplicate entry extension type'')
      else checkExtensions (b # exts))"
| "checkExtensions exts = Inr ()"

definition marshalExtension :: "MerkleTreeCertEntryExtension \<Rightarrow> bytes result" where
  "marshalExtension e =
     (if length (ExtData e) > 0xffff then Inl (Errorf ''cert: entry extension data > 65535 bytes'')
      else rbind (AddUint16LengthPrefixed (ExtData e)) (\<lambda>d. Inr (be 2 (unat (ExtType e)) @ d)))"

definition marshalEntryExtensions :: "MerkleTreeCertEntryExtension list \<Rightarrow> bytes result" where
  "marshalEntryExtensions exts =
     rbind (checkExtensions exts) (\<lambda>_.
     rbind (rmap marshalExtension exts) (\<lambda>raws. Inr (concat raws)))"

function parseExtensionsLoop ::
  "bytes \<Rightarrow> MerkleTreeCertEntryExtension list \<Rightarrow> MerkleTreeCertEntryExtension list result" where
  "parseExtensionsLoop body out =
     (if body = [] then Inr out
      else case ReadUint16 body of
        None \<Rightarrow> Inl (Errorf ''short entry extension type'')
      | Some (t, body1) \<Rightarrow>
          (case ReadUint16LengthPrefixed body1 of
            None \<Rightarrow> Inl (Errorf ''short entry extension data'')
          | Some (data, body2) \<Rightarrow>
              if out \<noteq> [] \<and> t < ExtType (last out) then Inl (Errorf ''entry extensions out of order'')
              else if out \<noteq> [] \<and> t = ExtType (last out) then Inl (Errorf ''duplicate entry extension type'')
              else parseExtensionsLoop body2 (out @ [\<lparr>ExtType = t, ExtData = data\<rparr>])))"
  by pat_completeness auto
termination
  by (relation "measure (\<lambda>(body, _). length body)")
    (auto dest!: read_shorter(3) read_shorter(2))

declare parseExtensionsLoop.simps [simp del]

definition parseEntryExtensions :: "bytes \<Rightarrow> MerkleTreeCertEntryExtension list result" where
  "parseEntryExtensions body = parseExtensionsLoop body []"

text \<open>The two length octets are \<open>byte(len(body) >> 8)\<close> and \<open>byte(len(body))\<close>: they wrap.\<close>

definition encodeEntryExtensionsVector :: "MerkleTreeCertEntryExtension list \<Rightarrow> bytes result" where
  "encodeEntryExtensionsVector exts =
     rbind (marshalEntryExtensions exts) (\<lambda>body.
       Inr ([of_nat (length body div 2 ^ 8), of_nat (length body)] @ body))"

section \<open>The code: entries and their hashes\<close>

definition EncodeNullEntry :: bytes where
  "EncodeNullEntry = [0, 0, 0, 0]"

definition EncodeTBSCertEntry :: "bytes \<Rightarrow> bytes" where
  "EncodeTBSCertEntry tbsContents = [0, 0, 0, 1] @ tbsContents"

definition EntryHashExt ::
  "(bytes \<Rightarrow> Hash) \<Rightarrow> MerkleTreeCertEntryExtension list \<Rightarrow> bytes \<Rightarrow> Hash result" where
  "EntryHashExt sha256 exts tbsContents =
     rbind (encodeEntryExtensionsVector exts) (\<lambda>extVec.
       Inr (sha256 ([0] @ extVec @ [0, 1] @ tbsContents)))"

text \<open>\<open>h, _ := EntryHashExt(nil, ...)\<close>: the error is dropped and the hash is zero then.\<close>

definition EntryHash :: "(bytes \<Rightarrow> Hash) \<Rightarrow> bytes \<Rightarrow> Hash" where
  "EntryHash sha256 tbsContents =
     (case EntryHashExt sha256 [] tbsContents of Inl _ \<Rightarrow> mk_Hash [] | Inr h \<Rightarrow> h)"

text \<open>\<open>SinglePassEntryHash\<close> with a hash of any output size.\<close>

definition SinglePassEntryHash :: "bytes \<Rightarrow> bytes \<Rightarrow> bytes \<Rightarrow> (bytes \<Rightarrow> bytes) \<Rightarrow> bytes result" where
  "SinglePassEntryHash preSPKI spkiDER postSPKI hashFn =
     (let spkiHash = hashFn spkiDER
      in if length spkiHash > 127 then Inl (Panic ''SinglePassEntryHash: HASH_SIZE > 127 not supported'')
         else Inr (hashFn ([0] @ [0, 0] @ [0, 1] @ preSPKI @ [4, of_nat (length spkiHash)] @ spkiHash @ postSPKI)))"

section \<open>The code: DER\<close>

definition appendDERLength :: "bytes \<Rightarrow> nat \<Rightarrow> bytes" where
  "appendDERLength b n =
     (if n < 0x80 then b @ [of_nat n]
      else if n \<le> 0xff then b @ [0x81, of_nat n]
      else if n \<le> 0xffff then b @ [0x82, of_nat (n div 2 ^ 8), of_nat n]
      else if n \<le> 0xffffff then b @ [0x83, of_nat (n div 2 ^ 16), of_nat (n div 2 ^ 8), of_nat n]
      else b @ [0x84, of_nat (n div 2 ^ 24), of_nat (n div 2 ^ 16), of_nat (n div 2 ^ 8), of_nat n])"

definition wrapSequence :: "bytes \<Rightarrow> bytes" where
  "wrapSequence b = appendDERLength [0x30] (length b) @ b"

definition WriteASN1OctetString :: "bytes \<Rightarrow> bytes \<Rightarrow> bytes" where
  "WriteASN1OctetString buf p = appendDERLength (buf @ [0x04]) (length p) @ p"

definition WriteImplicitBitString :: "bytes \<Rightarrow> nat \<Rightarrow> bytes \<Rightarrow> bytes" where
  "WriteImplicitBitString buf tagNumber body =
     appendDERLength (buf @ [0x80 OR of_nat tagNumber]) (length body) @ body"

definition WriteExplicit :: "bytes \<Rightarrow> nat \<Rightarrow> bytes \<Rightarrow> bytes" where
  "WriteExplicit buf tagNumber body =
     appendDERLength (buf @ [0xa0 OR of_nat tagNumber]) (length body) @ body"

text \<open>\<open>raw[i]\<close> for \<open>i < 8\<close>, then the leading octets that do not change the value are dropped.\<close>

fun stripIntBytes :: "bool \<Rightarrow> bytes \<Rightarrow> bytes" where
  "stripIntBytes neg (a # b # raw) =
     (if \<not> neg \<and> a = 0x00 \<and> b AND 0x80 = 0 then stripIntBytes neg (b # raw)
      else if neg \<and> a = 0xff \<and> b AND 0x80 \<noteq> 0 then stripIntBytes neg (b # raw)
      else a # b # raw)"
| "stripIntBytes neg raw = raw"

definition encodeIntegerBytes :: "64 word \<Rightarrow> bytes" where
  "encodeIntegerBytes v =
     (if v = 0 then [0]
      else stripIntBytes (sint v < 0) (map (\<lambda>i. ucast (signed_drop_bit (56 - i * 8) v)) [0..<8]))"

definition WriteASN1Int :: "bytes \<Rightarrow> 64 word \<Rightarrow> bytes" where
  "WriteASN1Int buf v =
     (let body = encodeIntegerBytes v in appendDERLength (buf @ [0x02]) (length body) @ body)"

text \<open>The result is the consumed length and the contents.\<close>

definition stripDERHeader :: "bytes \<Rightarrow> byte \<Rightarrow> (nat \<times> bytes) result" where
  "stripDERHeader b wantTag =
     (if length b < 2 then Inl (Errorf ''der: short input'')
      else if b ! 0 \<noteq> wantTag then Inl (Errorf ''der: unexpected tag'')
      else
        rbind
          (if b ! 1 AND 0x80 \<noteq> 0 then
             let nbytes = unat (b ! 1 AND 0x7f)
             in if nbytes = 0 \<or> nbytes > 4 then Inl (Errorf ''der: bad length octets'')
                else if length b < 2 + nbytes then Inl (Errorf ''der: truncated length'')
                else Inr (2 + nbytes, foldl (\<lambda>l x. l * 256 + unat x) 0 (take nbytes (drop 2 b)))
           else Inr (2, unat (b ! 1)))
          (\<lambda>(hdr, l). if length b < hdr + l then Inl (Errorf ''der: truncated value'')
             else Inr (hdr + l, take l (drop hdr b))))"

text \<open>A \<open>time.Time\<close> as its civil fields in UTC, which is all the encoder reads of it.\<close>

record UTCTime =
  Year :: int
  Month :: nat
  Day :: nat
  Hour :: nat
  Minute :: nat
  Second :: nat

definition pad2 :: "nat \<Rightarrow> string" where
  "pad2 n = (if n < 10 then ''0'' else []) @ decimal n"

definition pad4 :: "nat \<Rightarrow> string" where
  "pad4 n = replicate (4 - length (decimal n)) (CHR ''0'') @ decimal n"

definition encodeRFC5280Time :: "UTCTime \<Rightarrow> bytes result" where
  "encodeRFC5280Time t =
     (if Year t < 1950 \<or> Year t > 9999 then Inl (Errorf ''validity year out of range'')
      else if Year t < 2050 then
        let s = pad2 (nat (Year t mod 100)) @ pad2 (Month t) @ pad2 (Day t) @ pad2 (Hour t)
              @ pad2 (Minute t) @ pad2 (Second t) @ ''Z''
        in Inr (appendDERLength [0x17] (length s) @ bytes_of s)
      else
        let s = pad4 (nat (Year t)) @ pad2 (Month t) @ pad2 (Day t) @ pad2 (Hour t)
              @ pad2 (Minute t) @ pad2 (Second t) @ ''Z''
        in Inr (appendDERLength [0x18] (length s) @ bytes_of s))"

definition encodeValidity :: "UTCTime \<Rightarrow> UTCTime \<Rightarrow> bytes result" where
  "encodeValidity notBefore notAfter =
     rbind (encodeRFC5280Time notBefore) (\<lambda>nb.
     rbind (encodeRFC5280Time notAfter) (\<lambda>na. Inr (wrapSequence (nb @ na))))"

record TBSCertificateLogEntry =
  Version :: u64
  IssuerDN :: bytes
  NotBefore :: UTCTime
  NotAfter :: UTCTime
  SubjectDN :: bytes
  SubjectPublicKeyAlgorithm :: bytes
  SubjectPublicKeyInfoHash :: bytes
  IssuerUniqueID :: "bytes option"
  SubjectUniqueID :: "bytes option"
  Extensions :: "bytes option"

definition MarshalDER :: "TBSCertificateLogEntry \<Rightarrow> bytes result" where
  "MarshalDER e =
     (let b1 = (if Version e \<noteq> 0 then WriteExplicit [] 0 (WriteASN1Int [] (Version e)) else []);
          b2 = b1 @ IssuerDN e
      in rbind (encodeValidity (NotBefore e) (NotAfter e)) (\<lambda>validity.
           let b3 = b2 @ validity @ SubjectDN e @ SubjectPublicKeyAlgorithm e;
               b4 = WriteASN1OctetString b3 (SubjectPublicKeyInfoHash e);
               b5 = (case IssuerUniqueID e of None \<Rightarrow> b4 | Some u \<Rightarrow> WriteImplicitBitString b4 1 u);
               b6 = (case SubjectUniqueID e of None \<Rightarrow> b5 | Some u \<Rightarrow> WriteImplicitBitString b5 2 u);
               b7 = (case Extensions e of None \<Rightarrow> b6 | Some x \<Rightarrow> WriteExplicit b6 3 x)
           in Inr (wrapSequence b7)))"

definition MarshalContents :: "TBSCertificateLogEntry \<Rightarrow> bytes result" where
  "MarshalContents e =
     rbind (MarshalDER e) (\<lambda>full.
     rbind (rwrap ''strip outer SEQUENCE'' (stripDERHeader full 0x30)) (\<lambda>(_, contents). Inr contents))"

section \<open>Entry extensions round trip\<close>

definition ext_bytes :: "MerkleTreeCertEntryExtension \<Rightarrow> bytes" where
  "ext_bytes e = be 2 (unat (ExtType e)) @ be 2 (length (ExtData e)) @ ExtData e"

lemma marshalExtension_eq:
  "marshalExtension e = Inr r \<longleftrightarrow> length (ExtData e) \<le> 0xffff \<and> r = ext_bytes e"
  by (auto simp: marshalExtension_def ext_bytes_def prefixed_def)

lemma rmap_marshalExtension:
  "rmap marshalExtension exts = Inr raws \<longleftrightarrow>
     (\<forall>e\<in>set exts. length (ExtData e) \<le> 0xffff) \<and> raws = map ext_bytes exts"
  by (induction exts arbitrary: raws) (auto simp: rbind_eq_Inr marshalExtension_eq)

lemma marshalEntryExtensions_eq:
  "marshalEntryExtensions exts = Inr body \<longleftrightarrow>
     checkExtensions exts = Inr () \<and> (\<forall>e\<in>set exts. length (ExtData e) \<le> 0xffff) \<and>
     body = concat (map ext_bytes exts)"
  by (auto simp: marshalEntryExtensions_def rbind_eq_Inr rmap_marshalExtension)

lemma checkExtensions_snoc:
  "checkExtensions (exts @ [e]) = Inr () \<longleftrightarrow>
     checkExtensions exts = Inr () \<and> (exts \<noteq> [] \<longrightarrow> ExtType (last exts) < ExtType e)"
proof (induction exts rule: checkExtensions.induct)
  case (1 a b exts)
  then show ?case by auto
qed (auto simp: not_less le_less)

lemma checkExtensions_prefix:
  "checkExtensions (xs @ ys) = Inr () \<Longrightarrow> checkExtensions xs = Inr ()"
  by (induction ys rule: rev_induct) (auto simp: checkExtensions_snoc simp flip: append_assoc)

lemma ext_bytes_not_Nil [simp]: "ext_bytes e \<noteq> []"
proof
  assume "ext_bytes e = []"
  then have "length (ext_bytes e) = 0" by simp
  then show False by (simp add: ext_bytes_def)
qed

lemma parseExtensionsLoop_ext:
  assumes "length (ExtData e) \<le> 0xffff" "out \<noteq> [] \<longrightarrow> ExtType (last out) < ExtType e"
  shows "parseExtensionsLoop (ext_bytes e @ body) out = parseExtensionsLoop body (out @ [e])"
proof -
  have p: "prefixed 2 (ExtData e) = Inr (be 2 (length (ExtData e)) @ ExtData e)"
    using assms(1) by (intro prefixed_ok) simp
  have "ReadUint16 (ext_bytes e @ body) = Some (ExtType e, be 2 (length (ExtData e)) @ ExtData e @ body)"
    by (simp add: ext_bytes_def ReadUint16_be)
  moreover have "ReadUint16LengthPrefixed (be 2 (length (ExtData e)) @ ExtData e @ body) = Some (ExtData e, body)"
    using read_prefixed_prefixed [OF p] by simp
  ultimately have "parseExtensionsLoop (ext_bytes e @ body) out
      = parseExtensionsLoop body (out @ [\<lparr>ExtType = ExtType e, ExtData = ExtData e\<rparr>])"
    using assms(2) by (subst parseExtensionsLoop.simps) auto
  moreover have "\<lparr>ExtType = ExtType e, ExtData = ExtData e\<rparr> = e" by simp
  ultimately show ?thesis by (simp only:)
qed

lemma parseExtensionsLoop_exts:
  "checkExtensions (out @ exts) = Inr () \<Longrightarrow> (\<forall>e\<in>set exts. length (ExtData e) \<le> 0xffff) \<Longrightarrow>
    parseExtensionsLoop (concat (map ext_bytes exts)) out = Inr (out @ exts)"
proof (induction exts arbitrary: out)
  case Nil
  then show ?case by (simp add: parseExtensionsLoop.simps)
next
  case (Cons e exts)
  have "checkExtensions (out @ [e]) = Inr ()"
    using Cons.prems(1) checkExtensions_prefix [of "out @ [e]" exts] by simp
  then have "out \<noteq> [] \<longrightarrow> ExtType (last out) < ExtType e" by (simp add: checkExtensions_snoc)
  with Cons show ?case by (simp add: parseExtensionsLoop_ext)
qed

lemma parse_marshal_extensions:
  "marshalEntryExtensions exts = Inr body \<Longrightarrow> parseEntryExtensions body = Inr exts"
  using parseExtensionsLoop_exts [of "[]" exts]
  by (simp add: marshalEntryExtensions_eq parseEntryExtensions_def)

lemma ReadUint16_SomeD: "ReadUint16 s = Some (t, rest) \<Longrightarrow> s = be 2 (unat t) @ rest"
proof -
  assume "ReadUint16 s = Some (t, rest)"
  then obtain l where l: "read_bytes 2 s = Some (l, rest)" "t = of_nat (unbe l)"
    by (auto simp: ReadUint16_def split: option.splits)
  have s: "s = l @ rest" "length l = 2" using read_bytes_SomeD [OF l(1)] by auto
  have "unbe l < 2 ^ 16" using unbe_less [of l] s(2) by simp
  then have "unat t = unbe l" unfolding l(2) by (simp add: unsigned_of_nat take_bit_nat_eq_self)
  then show ?thesis using be_unbe [of l] s by simp
qed

lemma parseExtensionsLoop_decoded:
  assumes "parseExtensionsLoop body out = Inr exts" "checkExtensions out = Inr ()"
  shows "\<exists>new. exts = out @ new \<and> body = concat (map ext_bytes new) \<and> checkExtensions exts = Inr () \<and>
    (\<forall>e\<in>set new. length (ExtData e) \<le> 0xffff)"
  using assms
proof (induction body out rule: parseExtensionsLoop.induct)
  case (1 body out)
  show ?case
  proof (cases "body = []")
    case True
    with 1(2,3) show ?thesis by (simp add: parseExtensionsLoop.simps)
  next
    case False
    with 1(2) obtain t body1 data body2 where
      t: "ReadUint16 body = Some (t, body1)" and d: "ReadUint16LengthPrefixed body1 = Some (data, body2)"
      and o: "\<not> (out \<noteq> [] \<and> t < ExtType (last out))" "\<not> (out \<noteq> [] \<and> t = ExtType (last out))"
      and run: "parseExtensionsLoop body2 (out @ [\<lparr>ExtType = t, ExtData = data\<rparr>]) = Inr exts"
      by (subst (asm) parseExtensionsLoop.simps) (auto split: option.splits prod.splits if_splits)
    let ?e = "\<lparr>ExtType = t, ExtData = data\<rparr>"
    obtain pd where pd: "prefixed 2 data = Inr pd" "body1 = pd @ body2"
      using read_prefixed_SomeD [OF d] by blast
    have len: "length data \<le> 0xffff" and pd': "pd = be 2 (length data) @ data"
      using pd(1) by (auto simp: prefixed_def split: if_splits)
    have body: "body = ext_bytes ?e @ body2"
      using ReadUint16_SomeD [OF t] pd(2) pd' by (simp add: ext_bytes_def)
    have "checkExtensions (out @ [?e]) = Inr ()"
      using 1(3) o by (auto simp: checkExtensions_snoc)
    from 1(1) [OF False t refl d refl o run this] obtain new where
      "exts = (out @ [?e]) @ new" "body2 = concat (map ext_bytes new)" "checkExtensions exts = Inr ()"
      "\<forall>e\<in>set new. length (ExtData e) \<le> 0xffff" by blast
    with body len show ?thesis by (intro exI [of _ "?e # new"]) simp
  qed
qed

lemma marshal_parse_extensions:
  "parseEntryExtensions body = Inr exts \<Longrightarrow> marshalEntryExtensions exts = Inr body"
  using parseExtensionsLoop_decoded [of body "[]" exts]
  by (auto simp: parseEntryExtensions_def marshalEntryExtensions_eq)

section \<open>DER headers\<close>

text \<open>The length octets as a big-endian number of minimal width.\<close>

lemma appendDERLength_append: "appendDERLength b n = b @ appendDERLength [] n"
  by (simp add: appendDERLength_def)

lemma wrapSequence_hdr: "wrapSequence b = 0x30 # appendDERLength [] (length b) @ b"
  unfolding wrapSequence_def by (subst appendDERLength_append) simp

lemma der_length_short: "n < 0x80 \<Longrightarrow> appendDERLength [] n = [of_nat n]"
  by (simp add: appendDERLength_def)

lemma der_length_long:
  assumes "0x80 \<le> n" "n < 2 ^ 32"
  obtains k where "1 \<le> k" "k \<le> 4" "appendDERLength [] n = (0x80 + of_nat k) # be k n" "n < 256 ^ k"
proof -
  consider "n \<le> 0xff" | "0xff < n" "n \<le> 0xffff" | "0xffff < n" "n \<le> 0xffffff" | "0xffffff < n"
    by linarith
  then show thesis
  proof cases
    case 1
    with assms that [of 1] show thesis by (simp add: appendDERLength_def be_unfold)
  next
    case 2
    with assms that [of 2] show thesis by (simp add: appendDERLength_def be_unfold)
  next
    case 3
    with assms that [of 3] show thesis by (simp add: appendDERLength_def be_unfold)
  next
    case 4
    with assms that [of 4] show thesis by (simp add: appendDERLength_def be_unfold)
  qed
qed

lemma byte_bit_7: "bit (x :: byte) 7 \<longleftrightarrow> 128 \<le> unat x"
proof -
  have "unat x < 256" using unsigned_less [of x, where ?'a = nat] by simp
  moreover have "bit x 7 \<longleftrightarrow> odd (unat x div 128)"
    using bit_unsigned_iff [of x 7, where ?'a = nat] by (simp add: bit_iff_odd)
  ultimately show ?thesis by (auto simp: div_if)
qed

lemma stripDERHeader_tlv:
  assumes "length b < 2 ^ 32"
  shows "stripDERHeader (tag # appendDERLength [] (length b) @ b @ rest) tag
    = Inr (1 + length (appendDERLength [] (length b)) + length b, b)"
proof (cases "length b < 0x80")
  case True
  have "(of_nat (length b) :: byte) AND 0x80 = 0"
    unfolding byte_and_high byte_bit_7 unat_of_nat_byte using True by simp
  moreover have "unat (of_nat (length b) :: byte) = length b"
    using True by (simp add: unat_of_nat_byte)
  ultimately show ?thesis
    using True by (simp add: stripDERHeader_def der_length_short)
next
  case False
  then obtain k where k: "1 \<le> k" "k \<le> 4" and h: "appendDERLength [] (length b) = (0x80 + of_nat k) # be k (length b)"
    and lt: "length b < 256 ^ k"
    using der_length_long [of "length b"] assms by auto
  have "k = 1 \<or> k = 2 \<or> k = 3 \<or> k = 4" using k by linarith
  then have hi: "(0x80 + of_nat k :: byte) AND 0x80 \<noteq> 0" "unat ((0x80 + of_nat k :: byte) AND 0x7f) = k"
    by auto
  have "foldl (\<lambda>l x. l * 256 + unat x) 0 (be k (length b)) = length b"
    using unbe_be [OF lt] by (simp add: unbe_def)
  then show ?thesis
    using k hi by (simp add: stripDERHeader_def h Let_def)
qed

lemma stripDERHeader_wrapSequence:
  assumes "length b < 2 ^ 32"
  shows "stripDERHeader (wrapSequence b) 0x30 = Inr (length (wrapSequence b), b)"
  using stripDERHeader_tlv [OF assms, where tag = "0x30" and rest = "[]"] by (simp add: wrapSequence_hdr)

section \<open>Leaf hashes\<close>

lemma marshalEntryExtensions_Nil [simp]: "marshalEntryExtensions [] = Inr []"
  by (simp add: marshalEntryExtensions_def)

lemma EntryHash_leaf: "EntryHash sha256 contents = HashLeaf sha256 (EncodeTBSCertEntry contents)"
  by (simp add: EntryHash_def EntryHashExt_def encodeEntryExtensionsVector_def HashLeaf_def
      EncodeTBSCertEntry_def)

lemma encodeRFC5280Time_ok: "Year t \<in> {1950..9999} \<Longrightarrow> \<exists>b. encodeRFC5280Time t = Inr b"
  by (auto simp: encodeRFC5280Time_def Let_def)

section \<open>Properties\<close>

text \<open>
  the leaf hash of an issued entry is the Merkle leaf hash of its log encoding, and the
  single-pass hash of a certificate's contents is that of the entry in which the key is replaced by
  the OCTET STRING of its hash.
\<close>

theorem entry_hash_is_leaf_hash:
  "EntryHash sha256 contents = HashLeaf sha256 (EncodeTBSCertEntry contents) \<and>
   SinglePassEntryHash pre spki post (\<lambda>b. hash_bytes (sha256 b)) =
     Inr (hash_bytes (EntryHash sha256
       (pre @ WriteASN1OctetString [] (hash_bytes (sha256 spki)) @ post)))"
  by (simp add: EntryHash_leaf SinglePassEntryHash_def Let_def EncodeTBSCertEntry_def HashLeaf_def
      WriteASN1OctetString_def appendDERLength_def)

text \<open>
  entry extensions round trip. Every list that \<open>marshalEntryExtensions\<close> accepts is parsed back
  unchanged, and every body the parser accepts is the marshalled form of its result.
\<close>

theorem entry_extensions_roundtrip:
  "marshalEntryExtensions exts = Inr body \<longleftrightarrow> parseEntryExtensions body = Inr exts"
  using parse_marshal_extensions marshal_parse_extensions by blast

text \<open>
  \<open>encodeEntryExtensionsVector\<close> writes the extensions body behind a length prefix that equals the
  body's length exactly when the body has at most 65535 bytes; beyond that the prefix wraps.
\<close>

theorem extensions_vector_prefix:
  assumes "marshalEntryExtensions exts = Inr body"
  shows "\<exists>hi lo. encodeEntryExtensionsVector exts = Inr (hi # lo # body) \<and>
    (unbe [hi, lo] = length body \<longleftrightarrow> length body \<le> 0xffff)"
proof -
  have "unbe [of_nat (length body div 2 ^ 8), of_nat (length body)] = length body mod 2 ^ 16"
    using mod_mult2_eq [of "length body" 256 256] by (simp add: unbe_def unat_of_nat_byte)
  moreover have "length body mod 2 ^ 16 = length body \<longleftrightarrow> length body \<le> 0xffff"
    using mod_less_divisor [of "2 ^ 16" "length body"] by (auto simp del: mod_less_divisor)
  ultimately show ?thesis
    using assms by (auto simp: encodeEntryExtensionsVector_def)
qed

theorem extensions_vector_prefix_witness:
  "\<exists>hi lo. encodeEntryExtensionsVector [\<lparr>ExtType = 7, ExtData = [1, 2]\<rparr>] = Inr (hi # lo # [0, 7, 0, 2, 1, 2]) \<and>
    (unbe [hi, lo] = length [0, 7, 0, 2, 1, 2 :: byte] \<longleftrightarrow> length [0, 7, 0, 2, 1, 2 :: byte] \<le> 0xffff)"
proof -
  have "marshalEntryExtensions [\<lparr>ExtType = 7, ExtData = [1, 2]\<rparr>] = Inr [0, 7, 0, 2, 1, 2]" by code_simp
  from extensions_vector_prefix [OF this] show ?thesis .
qed

text \<open>
  \<open>MarshalContents\<close> and \<open>MarshalDER\<close> agree: whenever the DER is made and its contents have less
  than \<open>2^32\<close> bytes, the contents are returned and the DER is the SEQUENCE around them; the only error
  is a validity date outside the years 1950 to 9999.
\<close>

theorem MarshalContents_correct:
  "(case MarshalDER e of
      Inl err \<Rightarrow> MarshalContents e = Inl err \<and> err = Errorf ''validity year out of range'' \<and>
        \<not> (Year (NotBefore e) \<in> {1950..9999} \<and> Year (NotAfter e) \<in> {1950..9999})
    | Inr full \<Rightarrow> Year (NotBefore e) \<in> {1950..9999} \<and> Year (NotAfter e) \<in> {1950..9999} \<and>
        (\<exists>contents. full = wrapSequence contents \<and>
          (length contents < 2 ^ 32 \<longrightarrow> MarshalContents e = Inr contents)))"
proof (cases "Year (NotBefore e) \<in> {1950..9999} \<and> Year (NotAfter e) \<in> {1950..9999}")
  case True
  then obtain nb na where nb: "encodeRFC5280Time (NotBefore e) = Inr nb" "encodeRFC5280Time (NotAfter e) = Inr na"
    using encodeRFC5280Time_ok by blast
  then obtain contents where "MarshalDER e = Inr (wrapSequence contents)"
    by (simp add: MarshalDER_def encodeValidity_def Let_def)
  with True show ?thesis by (auto simp: MarshalContents_def stripDERHeader_wrapSequence)
next
  case False
  then have "MarshalDER e = Inl (Errorf ''validity year out of range'')"
    by (auto simp: MarshalDER_def encodeValidity_def encodeRFC5280Time_def Let_def)
  with False show ?thesis by (simp add: MarshalContents_def)
qed

theorem MarshalContents_correct_witness:
  "\<exists>contents. MarshalContents \<lparr>Version = 2, IssuerDN = [0x30, 0],
      NotBefore = \<lparr>Year = 2026, Month = 1, Day = 2, Hour = 3, Minute = 4, Second = 5\<rparr>,
      NotAfter = \<lparr>Year = 2050, Month = 1, Day = 2, Hour = 3, Minute = 4, Second = 5\<rparr>,
      SubjectDN = [0x30, 0], SubjectPublicKeyAlgorithm = [0x30, 0], SubjectPublicKeyInfoHash = [9],
      IssuerUniqueID = None, SubjectUniqueID = None, Extensions = Some [0x30, 0]\<rparr> = Inr contents"
  (is "\<exists>contents. MarshalContents ?e = Inr contents")
proof -
  have "case MarshalDER ?e of Inl _ \<Rightarrow> False | Inr full \<Rightarrow> length full < 1000" by code_simp
  then obtain full where full: "MarshalDER ?e = Inr full" "length full < 1000"
    by (cases "MarshalDER ?e") simp_all
  with MarshalContents_correct [of ?e] obtain contents where
    c: "full = wrapSequence contents" "length contents < 2 ^ 32 \<longrightarrow> MarshalContents ?e = Inr contents"
    by auto
  have "length contents \<le> length full" unfolding c(1) wrapSequence_def by simp
  with full c show ?thesis by auto
qed

text \<open>
  the DER header of an outer SEQUENCE of less than \<open>2^32\<close> bytes is read back: \<open>stripDERHeader\<close>
  returns the wrapped contents and consumes the whole encoding.
\<close>

theorem der_sequence_roundtrip:
  assumes "length b < 2 ^ 32"
  shows "stripDERHeader (wrapSequence b) 0x30 = Inr (length (wrapSequence b), b)"
  using assms by (rule stripDERHeader_wrapSequence)

theorem der_sequence_roundtrip_witness:
  "stripDERHeader (wrapSequence (replicate 300 7)) 0x30 = Inr (304, replicate 300 7)"
proof -
  have "length (wrapSequence (replicate 300 7)) = 304" by (simp add: wrapSequence_def appendDERLength_def)
  with der_sequence_roundtrip [of "replicate 300 7"] show ?thesis by simp
qed

end
