(* ===== verification/GoTime.thy ===== *)
theory GoTime
  imports Entry
begin

text \<open>
  What the code uses of the standard library's clock and floating-point arithmetic: instants and
  their saturating difference (\<open>time.Time.Sub\<close>), the RFC 3339 text that \<open>encoding/json\<close> writes for
  an instant in UTC and reads back, and the IEEE 754 quotient that \<open>landmark.Config.MaxActive\<close>
  rounds up.
\<close>

section \<open>Instants\<close>

record Time = UTCTime +
  Nanosecond :: nat

definition is_leap :: "int \<Rightarrow> bool" where
  "is_leap y = (4 dvd y \<and> (\<not> 100 dvd y \<or> 400 dvd y))"

definition days_in_month :: "int \<Rightarrow> nat \<Rightarrow> nat" where
  "days_in_month y m =
     (if m = 2 then (if is_leap y then 29 else 28) else if m \<in> {4, 6, 9, 11} then 30 else 31)"

text \<open>The fields of every \<open>time.Time\<close> are in range; years are those JSON can carry.\<close>

definition time_ok :: "Time \<Rightarrow> bool" where
  "time_ok t \<longleftrightarrow> 0 \<le> Year t \<and> Year t \<le> 9999 \<and> 1 \<le> Month t \<and> Month t \<le> 12 \<and>
     1 \<le> Day t \<and> Day t \<le> days_in_month (Year t) (Month t) \<and>
     Hour t < 24 \<and> Minute t < 60 \<and> Second t < 60 \<and> Nanosecond t < 10 ^ 9"

definition day_number :: "int \<Rightarrow> nat \<Rightarrow> nat \<Rightarrow> int" where
  "day_number y m d =
     365 * y + (y - 1) div 4 - (y - 1) div 100 + (y - 1) div 400
       + int (\<Sum>k\<leftarrow>[1..<m]. days_in_month y k) + int d"

definition instant :: "Time \<Rightarrow> int" where
  "instant t =
     (((day_number (Year t) (Month t) (Day t) * 24 + int (Hour t)) * 60 + int (Minute t)) * 60
        + int (Second t)) * 10 ^ 9 + int (Nanosecond t)"

definition minDuration :: int where
  "minDuration = - (2 ^ 63)"

definition maxDuration :: int where
  "maxDuration = 2 ^ 63 - 1"

text \<open>\<open>t.Sub(u)\<close>: the difference in nanoseconds, saturated at the bounds of \<open>time.Duration\<close>.\<close>

definition Sub :: "Time \<Rightarrow> Time \<Rightarrow> int" where
  "Sub t u = max minDuration (min maxDuration (instant t - instant u))"

text \<open>64-bit two's complement wrap-around of an integer result.\<close>

definition wrap64 :: "int \<Rightarrow> int" where
  "wrap64 i = (i + 2 ^ 63) mod 2 ^ 64 - 2 ^ 63"

lemma wrap64_id: "minDuration \<le> i \<Longrightarrow> i \<le> maxDuration \<Longrightarrow> wrap64 i = i"
  by (simp add: wrap64_def minDuration_def maxDuration_def)

section \<open>RFC 3339 text\<close>

definition pad :: "nat \<Rightarrow> nat \<Rightarrow> string" where
  "pad k n = replicate (k - length (decimal n)) (CHR ''0'') @ decimal n"

definition fracText :: "nat \<Rightarrow> string" where
  "fracText ns = (if ns = 0 then [] else CHR ''.'' # rev (dropWhile (\<lambda>c. c = CHR ''0'') (rev (pad 9 ns))))"

text \<open>\<open>Time.MarshalJSON\<close> of a time in UTC, without the quotes.\<close>

definition timeText :: "Time \<Rightarrow> string" where
  "timeText t =
     pad 4 (nat (Year t)) @ ''-'' @ pad 2 (Month t) @ ''-'' @ pad 2 (Day t) @ ''T'' @ pad 2 (Hour t) @ '':''
     @ pad 2 (Minute t) @ '':'' @ pad 2 (Second t) @ fracText (Nanosecond t) @ ''Z''"

definition lit :: "string \<Rightarrow> string \<Rightarrow> string option" where
  "lit p s = (if take (length p) s = p then Some (drop (length p) s) else None)"

definition number :: "string \<Rightarrow> (nat \<times> string) option" where
  "number s =
     (let ds = takeWhile is_digit s
      in if ds = [] then None
         else case parse_digits 0 ds of Inl _ \<Rightarrow> None | Inr n \<Rightarrow> Some (n, drop (length ds) s))"

definition fraction :: "string \<Rightarrow> (nat \<times> string) option" where
  "fraction s =
     (case lit ''.'' s of
        None \<Rightarrow> Some (0, s)
      | Some r \<Rightarrow>
          let ds = takeWhile is_digit r
          in case parse_digits 0 (ds @ replicate (9 - length ds) (CHR ''0'')) of
               Inl _ \<Rightarrow> None | Inr n \<Rightarrow> Some (n, drop (length ds) r))"

definition lit_number :: "string \<Rightarrow> string \<Rightarrow> (nat \<times> string) option" where
  "lit_number p s = Option.bind (lit p s) number"

definition scanTime :: "string \<Rightarrow> (Time \<times> string) option" where
  "scanTime s =
     Option.bind (number s) (\<lambda>(y, s).
     Option.bind (lit_number ''-'' s) (\<lambda>(mo, s).
     Option.bind (lit_number ''-'' s) (\<lambda>(d, s).
     Option.bind (lit_number ''T'' s) (\<lambda>(h, s).
     Option.bind (lit_number '':'' s) (\<lambda>(mi, s).
     Option.bind (lit_number '':'' s) (\<lambda>(se, s).
     Option.bind (fraction s) (\<lambda>(ns, s).
     Option.bind (lit ''Z'' s) (\<lambda>s.
       Some (\<lparr>Year = int y, Month = mo, Day = d, Hour = h, Minute = mi, Second = se, Nanosecond = ns\<rparr>,
             s)))))))))"

lemma lit_append [simp]: "lit p (p @ s) = Some s"
  by (simp add: lit_def)

lemma is_digit_zero [simp]: "is_digit (CHR ''0'')"
  by (simp add: is_digit_def)

lemma parse_zeros: "parse_digits 0 (replicate k (CHR ''0'') @ s) = parse_digits 0 s"
  by (induction k) (simp_all add: is_digit_def digit_val_def)

lemma pad_digits: "\<forall>c\<in>set (pad k n). is_digit c"
  by (auto simp: pad_def dest: decimal_digits)

lemma pad_not_Nil [simp]: "pad k n \<noteq> []"
  by (simp add: pad_def)

lemma parse_pad: "n < 2 ^ 64 \<Longrightarrow> parse_digits 0 (pad k n) = Inr n"
  by (simp add: pad_def parse_zeros parse_decimal)

lemma length_decimal: "n < 10 ^ k \<Longrightarrow> 0 < k \<Longrightarrow> length (decimal n) \<le> k"
proof (induction k arbitrary: n)
  case (Suc k)
  show ?case
  proof (cases "n < 10")
    case True
    then show ?thesis by (subst decimal.simps) simp
  next
    case False
    have "n div 10 < 10 ^ k" using Suc.prems(1) by (simp add: div_less_iff_less_mult mult.commute)
    moreover have "0 < k" using False Suc.prems by (cases k) auto
    ultimately have "length (decimal (n div 10)) \<le> k" by (rule Suc.IH)
    with False show ?thesis by (subst decimal.simps) simp
  qed
qed simp

lemma length_pad: "n < 10 ^ k \<Longrightarrow> 0 < k \<Longrightarrow> length (pad k n) = k"
  using length_decimal [of n k] by (simp add: pad_def)

lemma takeWhile_digits:
  "\<forall>c\<in>set ds. is_digit c \<Longrightarrow> \<not> is_digit c \<Longrightarrow> takeWhile is_digit (ds @ c # s) = ds"
  by (induction ds) auto

lemma number_digits:
  assumes "\<forall>c\<in>set ds. is_digit c" "ds \<noteq> []" "parse_digits 0 ds = Inr n" "\<not> is_digit c"
  shows "number (ds @ c # s) = Some (n, c # s)"
  using assms by (simp add: number_def takeWhile_digits)

lemma number_pad: "n < 2 ^ 64 \<Longrightarrow> \<not> is_digit c \<Longrightarrow> number (pad k n @ c # s) = Some (n, c # s)"
  by (rule number_digits) (simp_all add: pad_digits parse_pad)

lemma lit_number_pad:
  "n < 2 ^ 64 \<Longrightarrow> \<not> is_digit c \<Longrightarrow> lit_number [p] (p # pad k n @ c # s) = Some (n, c # s)"
  using lit_append [of "[p]" "pad k n @ c # s"] by (simp add: lit_number_def number_pad)

lemma trim_zeros:
  fixes s :: string
  defines "t \<equiv> rev (dropWhile (\<lambda>c. c = CHR ''0'') (rev s))"
  shows "t @ replicate (length s - length t) (CHR ''0'') = s"
proof -
  have w: "takeWhile (\<lambda>c. c = CHR ''0'') (rev s) = replicate (length (takeWhile (\<lambda>c. c = CHR ''0'') (rev s))) (CHR ''0'')"
    by (rule replicate_eqI [symmetric, THEN sym]) (auto dest: set_takeWhileD)
  have l: "length (takeWhile (\<lambda>c. c = CHR ''0'') (rev s)) = length s - length t"
    using arg_cong [OF takeWhile_dropWhile_id [of "\<lambda>c. c = CHR ''0''" "rev s"], of length]
    unfolding t_def length_append length_rev by linarith
  have "s = rev (takeWhile (\<lambda>c. c = CHR ''0'') (rev s) @ dropWhile (\<lambda>c. c = CHR ''0'') (rev s))"
    by (simp only: takeWhile_dropWhile_id rev_rev_ident)
  also have "\<dots> = t @ rev (replicate (length s - length t) (CHR ''0''))"
    unfolding rev_append t_def using w l by (simp add: t_def)
  finally show ?thesis by simp
qed

lemma fraction_fracText:
  assumes "ns < 10 ^ 9"
  shows "fraction (fracText ns @ CHR ''Z'' # s) = Some (ns, CHR ''Z'' # s)"
proof (cases "ns = 0")
  case True
  then show ?thesis by (simp add: fracText_def fraction_def lit_def)
next
  case False
  define t where "t = rev (dropWhile (\<lambda>c. c = CHR ''0'') (rev (pad 9 ns)))"
  have len: "length (pad 9 ns) = 9" using assms by (intro length_pad) auto
  have t: "t @ replicate (9 - length t) (CHR ''0'') = pad 9 ns"
    using trim_zeros [of "pad 9 ns"] unfolding len t_def .
  have ds: "\<forall>c\<in>set t. is_digit c"
    using pad_digits [of 9 ns] unfolding t_def by (auto dest: set_dropWhileD)
  have tw: "takeWhile is_digit (t @ CHR ''Z'' # s) = t"
    using ds by (intro takeWhile_digits) (simp_all add: is_digit_def)
  have "ns < 2 ^ 64" using assms by (rule less_trans) simp
  then have "parse_digits 0 (t @ replicate (9 - length t) (CHR ''0'')) = Inr ns"
    unfolding t by (rule parse_pad)
  with False tw lit_append [of "''.''" "t @ CHR ''Z'' # s"] show ?thesis
    by (simp add: fracText_def fraction_def Let_def flip: t_def)
qed

lemma scanTime_timeText:
  assumes "time_ok t"
  shows "scanTime (timeText t @ s) = Some (t, s)"
proof -
  have le31: "days_in_month y m \<le> 31" for y m by (simp add: days_in_month_def)
  have b: "nat (Year t) < 2 ^ 64" "Month t < 2 ^ 64" "Day t < 2 ^ 64" "Hour t < 2 ^ 64" "Minute t < 2 ^ 64"
      "Second t < 2 ^ 64"
    using assms le31 [of "Year t" "Month t"] unfolding time_ok_def by auto
  have nd: "\<not> is_digit (CHR ''-'')" "\<not> is_digit (CHR ''T'')" "\<not> is_digit (CHR '':'')"
      "\<not> is_digit (CHR ''.'')" "\<not> is_digit (CHR ''Z'')"
    by (simp_all add: is_digit_def)
  obtain c r where fz: "fracText (Nanosecond t) @ CHR ''Z'' # s = c # r" "\<not> is_digit c"
    using nd by (cases "Nanosecond t = 0") (auto simp: fracText_def)
  have f: "fraction (c # r) = Some (Nanosecond t, CHR ''Z'' # s)"
    using assms fraction_fracText [of "Nanosecond t" s] unfolding fz(1) time_ok_def by simp
  have z: "lit ''Z'' (CHR ''Z'' # s) = Some s" using lit_append [of "''Z''" s] by simp
  show ?thesis
    unfolding scanTime_def timeText_def
    using assms unfolding time_ok_def
    by (simp add: fz f z number_pad [OF b(1) nd(1)] lit_number_pad [OF b(2) nd(1)] lit_number_pad [OF b(3) nd(2)]
        lit_number_pad [OF b(4) nd(3)] lit_number_pad [OF b(5) nd(3)] lit_number_pad [OF b(6) fz(2)])
qed

section \<open>Floating-point quotients\<close>

text \<open>
  \<open>float64(a) / float64(b)\<close> for positive integers: conversion and division round to the nearest
  number with a 53-bit significand, ties to even. The quotient is kept as the fraction
  \<open>m * 2 ^ t / 2 ^ s\<close>.
\<close>

definition round_half_even :: "nat \<Rightarrow> nat \<Rightarrow> nat" where
  "round_half_even n d =
     (let q = n div d; r = n mod d
      in if 2 * r < d then q else if 2 * r > d then Suc q else if even q then q else Suc q)"

definition f64_of_nat :: "nat \<Rightarrow> nat" where
  "f64_of_nat n =
     (if n < 2 ^ 53 then n
      else let k = bit_len n - 53 in round_half_even n (2 ^ k) * 2 ^ k)"

definition f64_quot :: "nat \<Rightarrow> nat \<Rightarrow> nat \<times> nat \<times> nat" where
  "f64_quot a b =
     (let i = 53 + int (bit_len b) - int (bit_len a);
          j = (if a * 2 ^ nat i \<ge> 2 ^ 53 * (b * 2 ^ nat (- i)) then i - 1 else i)
      in (round_half_even (a * 2 ^ nat j) (b * 2 ^ nat (- j)), nat (- j), nat j))"

definition ceil_div :: "nat \<Rightarrow> nat \<Rightarrow> nat" where
  "ceil_div a b = (a + b - 1) div b"

text \<open>\<open>math.Ceil\<close> of the quotient of two integers, the divisor positive.\<close>

definition f64_ceil_quot :: "int \<Rightarrow> nat \<Rightarrow> int" where
  "f64_ceil_quot a b =
     (if a = 0 then 0
      else let (m, t, s) = f64_quot (f64_of_nat (nat \<bar>a\<bar>)) (f64_of_nat b)
           in if a > 0 then int (ceil_div (m * 2 ^ t) (2 ^ s)) else - int ((m * 2 ^ t) div 2 ^ s))"

text \<open>Conversion of an integral \<open>float64\<close> to \<open>int\<close> on amd64.\<close>

definition int_of_f64 :: "int \<Rightarrow> int" where
  "int_of_f64 i = (if minDuration \<le> i \<and> i \<le> maxDuration then i else minDuration)"

lemma ceil_div_bounds:
  assumes "0 < b" "0 < a"
  shows "a \<le> ceil_div a b * b" "(ceil_div a b - 1) * b < a"
proof -
  define k where "k = (a - 1) div b"
  have ab: "a + b - 1 = (a - 1) + b" using assms by simp
  have "ceil_div a b = Suc k" unfolding ceil_div_def ab k_def using assms(1) by (simp add: div_add_self2)
  moreover have "k * b \<le> a - 1" "a - 1 < k * b + b"
    using assms(1) div_mult_mod_eq [of "a - 1" b] mod_less_divisor [of b "a - 1"] unfolding k_def by linarith+
  ultimately show "a \<le> ceil_div a b * b" "(ceil_div a b - 1) * b < a" using assms(2) by auto
qed

lemma ceil_div_eqI:
  assumes "0 < b" "a \<le> k * b" "(k - 1) * b < a"
  shows "ceil_div a b = k"
proof -
  have a: "0 < a" using assms(3) by simp
  note c = ceil_div_bounds [OF assms(1) a]
  have k: "0 < k" "0 < ceil_div a b" using a assms(2) c(1) by (auto intro: gr0I)
  have "(k - 1) * b < ceil_div a b * b" "(ceil_div a b - 1) * b < k * b"
    using assms(2,3) c by linarith+
  then have "k - 1 < ceil_div a b" "ceil_div a b - 1 < k" by simp_all
  then show ?thesis using k by linarith
qed

lemma round_half_even_le: "0 < d \<Longrightarrow> n \<le> k * d \<Longrightarrow> round_half_even n d \<le> k"
proof -
  assume d: "0 < d" and n: "n \<le> k * d"
  show ?thesis
  proof (cases "n mod d = 0")
    case True
    then have "round_half_even n d = n div d" using d by (simp add: round_half_even_def Let_def)
    with n d show ?thesis by (metis div_le_mono nonzero_mult_div_cancel_right not_gr_zero)
  next
    case False
    have "n div d < k"
    proof (rule ccontr)
      assume "\<not> n div d < k"
      then have "k * d \<le> n div d * d" by simp
      with n False show False using div_mult_mod_eq [of n d] by linarith
    qed
    then show ?thesis by (simp add: round_half_even_def Let_def)
  qed
qed

lemma round_half_even_gt:
  assumes "0 < d" "2 * (k * d) + d < 2 * n"
  shows "k < round_half_even n d"
proof (cases "k < n div d")
  case False
  have n: "n = n div d * d + n mod d" by simp
  have "n mod d < d" using assms(1) by simp
  moreover have "k * d \<ge> n div d * d" using False by simp
  ultimately have "k * d = n div d * d \<or> k * d + d \<le> n div d * d \<or> n div d * d + d \<le> k * d"
    using assms(1) False by (metis Suc_leI add.commute linorder_not_less mult_Suc mult_le_mono1 nat_less_le)
  then have "n div d * d = k * d" using assms(2) n \<open>n mod d < d\<close> \<open>k * d \<ge> n div d * d\<close> by linarith
  then have "n div d = k" "d < 2 * (n mod d)" using assms n by (simp, linarith)
  then show ?thesis by (simp add: round_half_even_def Let_def)
next
  case True
  then show ?thesis by (simp add: round_half_even_def Let_def)
qed

lemma f64_ceil_quot_exact:
  assumes a: "0 < a" "a < 2 ^ 53" and b: "0 < b" "b < 2 ^ 53"
  shows "f64_ceil_quot (int a) b = int (ceil_div a b)"
proof -
  define i where "i = 53 + int (bit_len b) - int (bit_len a)"
  define s where "s = (if a * 2 ^ nat i \<ge> 2 ^ 53 * b then nat i - 1 else nat i)"
  have la: "bit_len a \<le> 53" "0 < bit_len b" using a b bit_len_le_iff [of a 53] bit_len_le_iff [of b 0]
    by (auto intro: gr0I)
  then have i: "0 < i" "nat i = 53 + bit_len b - bit_len a" by (simp_all add: i_def)
  have a2: "2 ^ (bit_len a - 1) \<le> a" using a(1) bit_len_le_iff [of a "bit_len a - 1"] bit_len_le_iff [of a 0] by force
  have b2: "b < 2 ^ bit_len b" using bit_len_le_iff [of b "bit_len b"] by simp
  have la0: "0 < bit_len a" using a(1) bit_len_le_iff [of a 0] by (auto intro: gr0I)
  have lower: "2 ^ 52 * b < a * 2 ^ nat i"
  proof -
    have "2 ^ 52 * b < (2::nat) ^ 52 * 2 ^ bit_len b" using b2 by simp
    also have "\<dots> = 2 ^ (bit_len a - 1 + nat i)"
      unfolding power_add [symmetric] using la la0 unfolding i(2) by (intro arg_cong [of _ _ "power 2"]) linarith
    also have "\<dots> = 2 ^ (bit_len a - 1) * 2 ^ nat i" by (rule power_add)
    also have "\<dots> \<le> a * 2 ^ nat i" using a2 by simp
    finally show ?thesis .
  qed
  have half: "b < 2 * 2 ^ s"
  proof -
    have "2 ^ 52 * b \<le> a * 2 ^ s"
    proof (cases "a * 2 ^ nat i \<ge> 2 ^ 53 * b")
      case True
      then have "2 * (2 ^ 52 * b) \<le> 2 * (a * 2 ^ (nat i - 1))" using i(1) by (cases "nat i") auto
      then show ?thesis using True by (simp add: s_def)
    next
      case False
      then show ?thesis using lower by (simp add: s_def)
    qed
    also have "\<dots> < 2 ^ 53 * 2 ^ s" using a(2) by simp
    finally show ?thesis by simp
  qed
  define m where "m = round_half_even (a * 2 ^ s) b"
  have quot: "f64_quot a b = (m, 0, s)"
    using i by (simp add: f64_quot_def Let_def m_def s_def nat_diff_distrib flip: i_def)
  note c = ceil_div_bounds [OF b(1) a(1)]
  have "m \<le> ceil_div a b * 2 ^ s"
    unfolding m_def using b(1) c(1) by (intro round_half_even_le) simp_all
  moreover have "(ceil_div a b - 1) * 2 ^ s < m"
    unfolding m_def
  proof (rule round_half_even_gt [OF b(1)])
    have "(ceil_div a b - 1) * b + 1 \<le> a" using c(2) by linarith
    then have "((ceil_div a b - 1) * b + 1) * 2 ^ s \<le> a * 2 ^ s" by (rule mult_le_mono1)
    then show "2 * ((ceil_div a b - 1) * 2 ^ s * b) + b < 2 * (a * 2 ^ s)"
      using half by (simp add: algebra_simps)
  qed
  ultimately have "ceil_div (m * 2 ^ 0) (2 ^ s) = ceil_div a b" by (intro ceil_div_eqI) simp_all
  then show ?thesis using a b quot by (simp add: f64_ceil_quot_def f64_of_nat_def)
qed

end
