(* ===== verification/Landmark.thy ===== *)
theory Landmark
  imports Storage GoTime Subtree TrustAnchor
begin

text \<open>
  The landmark sequence (landmark/sequence.go, landmark/handler.go): allocation, persistence and
  replay of landmarks, the queries the ACME server makes, and the published landmark list; with the
  client's reader of that list (cmd/cactus-cli/cert.go). \<open>encoding/json\<close> enters through a codec for
  one line of the file, with the laws the code relies on; the text that \<open>json.Marshal\<close> writes is an
  instance of it. Times are in UTC. The mutex makes every operation one step.
\<close>

section \<open>Data\<close>

record Landmark =
  Number :: u64
  TreeSize :: u64
  AllocatedAt :: Time

definition Landmark_TrustAnchorID :: "Landmark \<Rightarrow> TrustAnchorID \<Rightarrow> u16 \<Rightarrow> TrustAnchorID" where
  "Landmark_TrustAnchorID l caID logNumber = LandmarkID caID logNumber (Number l)"

definition Landmark_GroupID :: "Landmark \<Rightarrow> TrustAnchorID \<Rightarrow> u16 \<Rightarrow> TrustAnchorID" where
  "Landmark_GroupID l caID logNumber = LandmarkGroupID caID logNumber (Number l)"

text \<open>Durations are nanoseconds in the range of \<open>time.Duration\<close>.\<close>

record LandmarkConfig =
  CAID :: TrustAnchorID
  LogNumber :: u16
  TimeBetweenLandmarks :: int
  MaxCertLifetime :: int

definition MaxActive :: "LandmarkConfig \<Rightarrow> int" where
  "MaxActive c =
     (if TimeBetweenLandmarks c \<le> 0 then 1
      else wrap64 (int_of_f64 (f64_ceil_quot (MaxCertLifetime c) (nat (TimeBetweenLandmarks c))) + 1))"

record Sequence =
  scfg :: LandmarkConfig
  sfs :: FS
  landmarks :: "Landmark list"

definition SequenceFile :: string where
  "SequenceFile = ''state/landmarks/sequence.jsonl''"

section \<open>Persistence\<close>

type_synonym marshaler = "Landmark \<Rightarrow> bytes result"
type_synonym unmarshaler = "bytes \<Rightarrow> Landmark result"

definition nl :: byte where
  "nl = 10"

definition persistLineLocked :: "marshaler \<Rightarrow> Sequence \<Rightarrow> unit result \<times> Sequence" where
  "persistLineLocked marshal s =
     (case rmap marshal (landmarks s) of
        Inl e \<Rightarrow> (Inl e, s)
      | Inr lines \<Rightarrow>
          let (r, fs') = Put (sfs s) SequenceFile (concat (map (\<lambda>line. line @ [nl]) lines)) False
          in (r, s\<lparr>sfs := fs'\<rparr>))"

text \<open>The loop of \<open>replay\<close> over the lines of the file, from the current offset.\<close>

function replayLoop :: "unmarshaler \<Rightarrow> bytes \<Rightarrow> Landmark list \<Rightarrow> Landmark list result" where
  "replayLoop unmarshal data acc =
     (if data = [] then Inr acc
      else
        let line = takeWhile (\<lambda>c. c \<noteq> nl) data; rest = drop (length line + 1) data
        in if line = [] then replayLoop unmarshal rest acc
           else case unmarshal line of
                  Inl e \<Rightarrow> Inl (wrapf ''landmark: decode'' e)
                | Inr l \<Rightarrow> replayLoop unmarshal rest (acc @ [l]))"
  by pat_completeness auto
termination
  by (relation "measure (\<lambda>(_, data, _). length data)") auto

declare replayLoop.simps [simp del]

definition contiguous :: "Landmark list \<Rightarrow> bool" where
  "contiguous ls = list_all (\<lambda>(i, l). Number l = of_nat i) (enumerate 0 ls)"

fun increasing :: "Landmark list \<Rightarrow> bool" where
  "increasing (a # b # ls) = (TreeSize a < TreeSize b \<and> increasing (b # ls))"
| "increasing _ = True"

definition validate :: "Landmark list \<Rightarrow> unit result" where
  "validate ls =
     (if \<not> contiguous ls then Inl (Errorf ''landmark: sequence not contiguous'')
      else if TreeSize (hd ls) \<noteq> 0 then Inl (Errorf ''landmark: landmark 0 must have tree_size 0'')
      else if \<not> increasing ls then Inl (Errorf ''landmark: tree sizes not strictly increasing'')
      else Inr ())"

definition seedSequence :: "marshaler \<Rightarrow> Time \<Rightarrow> Sequence \<Rightarrow> unit result \<times> Sequence" where
  "seedSequence marshal now s =
     persistLineLocked marshal (s\<lparr>landmarks := [\<lparr>Number = 0, TreeSize = 0, AllocatedAt = now\<rparr>]\<rparr>)"

definition replay :: "marshaler \<Rightarrow> unmarshaler \<Rightarrow> Time \<Rightarrow> Sequence \<Rightarrow> unit result \<times> Sequence" where
  "replay marshal unmarshal now s =
     (case Get (sfs s) SequenceFile of
        Inl e \<Rightarrow>
          if errors_Is e ''file does not exist'' then seedSequence marshal now s
          else (Inl (wrapf ''landmark: read sequence'' e), s)
      | Inr data \<Rightarrow>
          (case replayLoop unmarshal data (landmarks s) of
             Inl e \<Rightarrow> (Inl e, s)
           | Inr ls \<Rightarrow>
               let s' = s\<lparr>landmarks := ls\<rparr>
               in if ls = [] then seedSequence marshal now s' else (validate ls, s')))"

definition NewSequence ::
    "marshaler \<Rightarrow> unmarshaler \<Rightarrow> LandmarkConfig \<Rightarrow> FS \<Rightarrow> Time \<Rightarrow> Sequence result \<times> FS" where
  "NewSequence marshal unmarshal cfg fs now =
     (if TimeBetweenLandmarks cfg \<le> 0 then
        (Inl (Errorf ''landmark: TimeBetweenLandmarks must be > 0''), fs)
      else
        let (r, s) = replay marshal unmarshal now \<lparr>scfg = cfg, sfs = fs, landmarks = []\<rparr>
        in (rbind r (\<lambda>_. Inr s), sfs s))"

section \<open>Allocation\<close>

text \<open>\<open>Inr (Some l)\<close>: a landmark was appended; \<open>Inr None\<close>: the conditions were not met.\<close>

definition AppendLandmark :: "marshaler \<Rightarrow> u64 \<Rightarrow> Time \<Rightarrow> Sequence \<Rightarrow> Landmark option result \<times> Sequence" where
  "AppendLandmark marshal treeSize now s =
     (if landmarks s = [] then (Inl (Panic ''index out of range''), s)
      else
        let lst = last (landmarks s)
        in if treeSize \<le> TreeSize lst then (Inr None, s)
           else if Sub now (AllocatedAt lst) < TimeBetweenLandmarks (scfg s) then (Inr None, s)
           else
             let new = \<lparr>Number = Number lst + 1, TreeSize = treeSize, AllocatedAt = now\<rparr>;
                 (r, s') = persistLineLocked marshal (s\<lparr>landmarks := landmarks s @ [new]\<rparr>)
             in case r of
                  Inl e \<Rightarrow> (Inl e, s'\<lparr>landmarks := butlast (landmarks s')\<rparr>)
                | Inr _ \<Rightarrow> (Inr (Some new), s'))"

section \<open>Queries\<close>

definition Active :: "Sequence \<Rightarrow> Landmark list" where
  "Active s =
     (let maxN = MaxActive (scfg s); n = int (length (landmarks s))
      in if maxN \<le> 0 then []
         else rev (drop (if n > maxN then nat (n - maxN) else 0) (landmarks s)))"

definition ContainingIndex :: "Sequence \<Rightarrow> u64 \<Rightarrow> Landmark option" where
  "ContainingIndex s index = find (\<lambda>l. TreeSize l > index) (landmarks s)"

definition LandmarkSubtrees :: "Sequence \<Rightarrow> Landmark \<Rightarrow> Subtree list result" where
  "LandmarkSubtrees s l =
     (if Number l = 0 then Inr []
      else if sint (Number l) \<ge> int (length (landmarks s)) then Inr []
      else if sint (Number l) < 0 then Inl (Panic ''index out of range'')
      else if landmarks s ! unat (Number l) \<noteq> l then Inr []
      else
        let prev = TreeSize (landmarks s ! unat (Number l - 1))
        in if prev \<ge> TreeSize l then Inr [] else FindSubtrees prev (TreeSize l))"

definition NextNumber :: "Sequence \<Rightarrow> u64" where
  "NextNumber s = of_nat (length (landmarks s))"

definition TimeUntilNextLandmark :: "Sequence \<Rightarrow> Time \<Rightarrow> int result" where
  "TimeUntilNextLandmark s now =
     (if landmarks s = [] then Inl (Panic ''index out of range'')
      else Inr (max 0 (wrap64 (TimeBetweenLandmarks (scfg s) - Sub now (AllocatedAt (last (landmarks s)))))))"

definition LatestTreeSize :: "Sequence \<Rightarrow> u64 result" where
  "LatestTreeSize s =
     (if landmarks s = [] then Inl (Panic ''index out of range'') else Inr (TreeSize (last (landmarks s))))"

section \<open>The published list\<close>

definition sizeLine :: "Sequence \<Rightarrow> u64 \<Rightarrow> string result" where
  "sizeLine s n =
     (if unat n < length (landmarks s) then Inr (FormatUint (TreeSize (landmarks s ! unat n)) @ [CHR 0x0A])
      else Inl (Panic ''index out of range''))"

definition encode :: "Sequence \<Rightarrow> string result" where
  "encode s =
     (if landmarks s = [] then Inl (Panic ''index out of range'')
      else
        let maxActive = max 0 (MaxActive (scfg s));
            lst = Number (last (landmarks s));
            numActive = min (of_int maxActive) lst
        in rbind (rmap (\<lambda>i. sizeLine s (lst - of_nat i)) [0..<Suc (unat numActive)]) (\<lambda>sizes.
             Inr (FormatUint lst @ '' '' @ FormatUint numActive @ [CHR 0x0A] @ concat sizes)))"

record HTTPResponse =
  status :: nat
  headers :: "(string \<times> string) list"
  respBody :: string

definition serveLandmarks :: "Sequence \<Rightarrow> string \<Rightarrow> HTTPResponse result" where
  "serveLandmarks s meth =
     (if meth \<noteq> ''GET'' \<and> meth \<noteq> ''HEAD'' then
        Inr \<lparr>status = 405, headers = [(''Allow'', ''GET, HEAD'')], respBody = ''method not allowed'' @ [CHR 0x0A]\<rparr>
      else
        rbind (encode s) (\<lambda>b.
          Inr \<lparr>status = 200,
               headers = [(''Content-Type'', ''text/plain; charset=utf-8''), (''Cache-Control'', ''no-cache''),
                          (''Content-Length'', decimal (length b))],
               respBody = (if meth = ''HEAD'' then [] else b)\<rparr>))"

text \<open>
  The client's reader. White space is that of ASCII text. For a header with \<open>num_active = 2 ^ 64 - 1\<close> the
  number of expected lines wraps to 0, and the loop then indexes an empty slice.
\<close>

type_synonym landmarkEntry = "u64 \<times> u64"

definition parseLandmarks :: "string \<Rightarrow> landmarkEntry list result" where
  "parseLandmarks body =
     (let lines = split_on (CHR 0x0A) (TrimRight (CHR 0x0A) body)
      in if lines = [] \<or> hd lines = [] then Inl (Errorf ''empty landmark list'')
         else case Fields (hd lines) of
           [h0, h1] \<Rightarrow>
             rbind (rwrap ''bad last'' (ParseUint h0)) (\<lambda>lst.
             rbind (rwrap ''bad num_active'' (ParseUint h1)) (\<lambda>numActive.
               if numActive > lst then Inl (Errorf ''num_active > last'')
               else if of_nat (length (tl lines)) \<noteq> numActive + 1 then Inl (Errorf ''wrong number of size lines'')
               else if tl lines = [] then Inl (Panic ''index out of range'')
               else rmap (\<lambda>(i, line). rbind (rwrap ''bad tree size'' (ParseUint (TrimSpace line)))
                      (\<lambda>ts. Inr (lst - of_nat i, ts))) (enumerate 0 (tl lines))))
         | _ \<Rightarrow> Inl (Errorf ''bad header''))"

text \<open>The loop walks the list from its end, the oldest entry.\<close>

fun coveringLoop :: "landmarkEntry list \<Rightarrow> nat \<Rightarrow> u64 \<Rightarrow> (u64 \<times> u64 \<times> u64) option" where
  "coveringLoop desc 0 index = None"
| "coveringLoop desc (Suc i) index =
     (if snd (desc ! i) > index then
        (if i = length desc - 1 then None
         else Some (fst (desc ! i), snd (desc ! i), snd (desc ! (i + 1))))
      else coveringLoop desc i index)"

definition coveringLandmark :: "landmarkEntry list \<Rightarrow> u64 \<Rightarrow> (u64 \<times> u64 \<times> u64) option" where
  "coveringLandmark desc index = coveringLoop desc (length desc) index"


section \<open>The line codec\<close>

text \<open>What the sequence relies on: a line is not empty, has no newline, and decodes to its landmark.\<close>

locale landmark_codec =
  fixes marshal :: marshaler and unmarshal :: unmarshaler
  assumes codec_roundtrip: "marshal l = Inr b \<Longrightarrow> time_ok (AllocatedAt l) \<Longrightarrow> unmarshal b = Inr l"
    and codec_line: "marshal l = Inr b \<Longrightarrow> b \<noteq> [] \<and> nl \<notin> set b"
begin

abbreviation file_of :: "bytes list \<Rightarrow> bytes" where
  "file_of lines \<equiv> concat (map (\<lambda>line. line @ [nl]) lines)"

lemma replayLoop_line:
  assumes "marshal l = Inr b" "time_ok (AllocatedAt l)"
  shows "replayLoop unmarshal (b @ nl # rest) acc = replayLoop unmarshal rest (acc @ [l])"
proof -
  have b: "b \<noteq> []" "nl \<notin> set b" using codec_line [OF assms(1)] by auto
  have "takeWhile (\<lambda>c. c \<noteq> nl) (b @ nl # rest) = b" using b(2) by (induction b) auto
  then show ?thesis using b codec_roundtrip [OF assms] by (subst replayLoop.simps) (simp add: Let_def)
qed

lemma replayLoop_file:
  assumes "rmap marshal ls = Inr lines" "\<forall>l\<in>set ls. time_ok (AllocatedAt l)"
  shows "replayLoop unmarshal (file_of lines) acc = Inr (acc @ ls)"
  using assms
proof (induction ls arbitrary: lines acc)
  case Nil
  then show ?case by (simp add: replayLoop.simps)
next
  case (Cons l ls)
  then obtain b ms where b: "marshal l = Inr b" "rmap marshal ls = Inr ms" "lines = b # ms"
    by (auto simp: rbind_eq_Inr)
  have "replayLoop unmarshal (file_of ms) (acc @ [l]) = Inr ((acc @ [l]) @ ls)"
    using b(2) Cons.prems(2) by (intro Cons.IH) auto
  then show ?case using replayLoop_line [OF b(1), of "file_of ms" acc] Cons.prems(2) b(3) by simp
qed

end

text \<open>The line that \<open>json.Marshal\<close> writes, and its inverse on such lines.\<close>

definition marshalLandmark :: marshaler where
  "marshalLandmark l =
     (if Year (AllocatedAt l) < 0 \<or> Year (AllocatedAt l) > 9999 then
        Inl (Errorf ''Time.MarshalJSON: year outside of range [0,9999]'')
      else Inr (bytes_of (''{\"number\":'' @ FormatUint (Number l) @ '',\"tree_size\":'' @ FormatUint (TreeSize l)
             @ '',\"allocated_at\":\"'' @ timeText (AllocatedAt l) @ ''\"}'')))"

definition scanLandmark :: "string \<Rightarrow> Landmark option" where
  "scanLandmark s =
     Option.bind (lit_number ''{\"number\":'' s) (\<lambda>(n, s).
     Option.bind (lit_number '',\"tree_size\":'' s) (\<lambda>(ts, s).
     Option.bind (lit '',\"allocated_at\":\"'' s) (\<lambda>s.
     Option.bind (scanTime s) (\<lambda>(t, s).
       if s = ''\"}'' then Some \<lparr>Number = of_nat n, TreeSize = of_nat ts, AllocatedAt = t\<rparr> else None))))"

definition unmarshalLandmark :: unmarshaler where
  "unmarshalLandmark b =
     (case scanLandmark (string_of b) of
        Some l \<Rightarrow> if marshalLandmark l = Inr b then Inr l else Inl (Errorf ''not a canonical line'')
      | None \<Rightarrow> Inl (Errorf ''invalid character''))"

lemma lit_number_uint:
  assumes "\<not> is_digit c"
  shows "lit_number p (p @ FormatUint v @ c # s) = Some (unat v, c # s)"
  using number_digits [OF _ decimal_not_Nil parse_decimal [OF unat_less_u64 [of v]] assms, of s] decimal_digits
  by (simp add: lit_number_def FormatUint_def)

lemma not_digit_comma: "\<not> is_digit (CHR '','')"
  by (simp add: is_digit_def)

lemma scanLandmark_marshal:
  assumes "marshalLandmark l = Inr b" "time_ok (AllocatedAt l)"
  shows "scanLandmark (string_of b) = Some l"
proof -
  define tail where "tail = timeText (AllocatedAt l) @ ''\"}''"
  define mid where "mid = FormatUint (TreeSize l) @ CHR '','' # (''\"allocated_at\":\"'' @ tail)"
  have b: "string_of b = ''{\"number\":'' @ FormatUint (Number l) @ CHR '','' # (''\"tree_size\":'' @ mid)"
    using assms(1) by (auto simp: marshalLandmark_def tail_def mid_def split: if_splits)
  have "lit_number '',\"tree_size\":'' (CHR '','' # (''\"tree_size\":'' @ mid))
      = Some (unat (TreeSize l), CHR '','' # (''\"allocated_at\":\"'' @ tail))"
    using lit_number_uint [OF not_digit_comma, of "'',\"tree_size\":''" "TreeSize l"] by (simp add: mid_def)
  moreover have "lit '',\"allocated_at\":\"'' (CHR '','' # (''\"allocated_at\":\"'' @ tail)) = Some tail"
    using lit_append [of "'',\"allocated_at\":\"''" tail] by simp
  moreover have "scanTime tail = Some (AllocatedAt l, ''\"}'')"
    unfolding tail_def by (rule scanTime_timeText [OF assms(2)])
  ultimately show ?thesis
    unfolding scanLandmark_def b lit_number_uint [OF not_digit_comma] by simp
qed

lemma nl_bytes_of: "nl \<in> set (bytes_of s) \<longleftrightarrow> CHR 0x0A \<in> set s"
proof -
  have n: "nl = of_char (CHR 0x0A)" by (simp add: nl_def)
  have inj: "(of_char c :: byte) = of_char d \<longleftrightarrow> c = d" for c d
    using bytes_of_inject [of "[c]" "[d]"] by (simp add: bytes_of_def)
  have "nl \<in> set (bytes_of s) \<longleftrightarrow> (\<exists>c\<in>set s. (of_char (CHR 0x0A) :: byte) = of_char c)"
    unfolding n bytes_of_def by (auto simp del: of_char_Char)
  then show ?thesis unfolding inj by auto
qed

lemma no_nl_digits [simp]: "CHR 0x0A \<notin> set (decimal n)" "CHR 0x0A \<notin> set (pad k n)"
    "CHR 0x0A \<notin> set (fracText k)" "CHR 0x0A \<notin> set (FormatUint v)"
proof -
  have nd: "\<not> is_digit (CHR 0x0A)" by (simp add: is_digit_def)
  then show "CHR 0x0A \<notin> set (decimal n)" for n using decimal_digits by blast
  then show "CHR 0x0A \<notin> set (FormatUint v)" by (simp add: FormatUint_def)
  show p: "CHR 0x0A \<notin> set (pad k n)" for k n using nd pad_digits by blast
  have "CHR 0x0A \<notin> set (dropWhile (\<lambda>c. c = CHR ''0'') (rev (pad 9 k)))"
    using p [of 9 k] by (auto dest: set_dropWhileD)
  then show "CHR 0x0A \<notin> set (fracText k)" by (simp add: fracText_def)
qed

lemma no_newline:
  assumes "marshalLandmark l = Inr b"
  shows "b \<noteq> [] \<and> nl \<notin> set b"
  using assms by (auto simp: marshalLandmark_def nl_bytes_of timeText_def simp del: bytes_of_append split: if_splits)

interpretation json: landmark_codec marshalLandmark unmarshalLandmark
proof
  fix l b
  assume m: "marshalLandmark l = Inr b"
  show "b \<noteq> [] \<and> nl \<notin> set b" using m by (rule no_newline)
  assume "time_ok (AllocatedAt l)"
  from scanLandmark_marshal [OF m this] m show "unmarshalLandmark b = Inr l"
    by (simp add: unmarshalLandmark_def)
qed


section \<open>The invariant\<close>

fun spaced :: "int \<Rightarrow> Landmark list \<Rightarrow> bool" where
  "spaced d (a # b # ls) = (d \<le> Sub (AllocatedAt b) (AllocatedAt a) \<and> spaced d (b # ls))"
| "spaced d _ = True"

text \<open>Numbers are the positions, the first tree size is 0, tree sizes increase strictly.\<close>

definition seq_ok :: "Landmark list \<Rightarrow> bool" where
  "seq_ok ls \<longleftrightarrow> ls \<noteq> [] \<and> contiguous ls \<and> TreeSize (hd ls) = 0 \<and> increasing ls"

definition on_disk :: "marshaler \<Rightarrow> Sequence \<Rightarrow> bool" where
  "on_disk marshal s \<longleftrightarrow>
     (\<exists>lines. rmap marshal (landmarks s) = Inr lines \<and>
       files (sfs s) SequenceFile = Some (concat (map (\<lambda>line. line @ [nl]) lines)))"

definition seq_inv :: "marshaler \<Rightarrow> Sequence \<Rightarrow> bool" where
  "seq_inv marshal s \<longleftrightarrow>
     seq_ok (landmarks s) \<and> (\<forall>l\<in>set (landmarks s). time_ok (AllocatedAt l)) \<and>
     spaced (TimeBetweenLandmarks (scfg s)) (landmarks s) \<and> on_disk marshal s"

text \<open>
  The life of a sequence: created on a store without the file, appended to, restarted on the store
  as it is, with the faults of the store changing at any time.
\<close>

inductive seq_reach :: "marshaler \<Rightarrow> unmarshaler \<Rightarrow> LandmarkConfig \<Rightarrow> Sequence \<Rightarrow> bool"
  for marshal unmarshal cfg where
  seq_create: "files fs SequenceFile = None \<Longrightarrow> time_ok now \<Longrightarrow>
    NewSequence marshal unmarshal cfg fs now = (Inr s, fs') \<Longrightarrow> seq_reach marshal unmarshal cfg s"
| seq_append: "seq_reach marshal unmarshal cfg s \<Longrightarrow> time_ok now \<Longrightarrow>
    AppendLandmark marshal n now s = (r, s') \<Longrightarrow> seq_reach marshal unmarshal cfg s'"
| seq_restart: "seq_reach marshal unmarshal cfg s \<Longrightarrow> time_ok now \<Longrightarrow>
    NewSequence marshal unmarshal cfg (sfs s) now = (Inr s', fs') \<Longrightarrow> seq_reach marshal unmarshal cfg s'"
| seq_faults: "seq_reach marshal unmarshal cfg s \<Longrightarrow>
    seq_reach marshal unmarshal cfg (s\<lparr>sfs := (sfs s)\<lparr>put_faults := pf, get_faults := gf\<rparr>\<rparr>)"

lemma contiguous_iff: "contiguous ls \<longleftrightarrow> (\<forall>i<length ls. Number (ls ! i) = of_nat i)"
  by (auto simp: contiguous_def list_all_length nth_enumerate_eq)

lemma increasing_iff: "increasing ls \<longleftrightarrow> (\<forall>i. Suc i < length ls \<longrightarrow> TreeSize (ls ! i) < TreeSize (ls ! Suc i))"
proof (induction ls rule: increasing.induct)
  case (1 a b ls)
  then show ?case by (auto simp: nth_Cons split: nat.splits)
qed auto

lemma increasing_snoc:
  "increasing (ls @ [x]) \<longleftrightarrow> increasing ls \<and> (ls \<noteq> [] \<longrightarrow> TreeSize (last ls) < TreeSize x)"
  by (induction ls rule: increasing.induct) auto

lemma spaced_snoc:
  "spaced d (ls @ [x]) \<longleftrightarrow> spaced d ls \<and> (ls \<noteq> [] \<longrightarrow> d \<le> Sub (AllocatedAt x) (AllocatedAt (last ls)))"
  by (induction d ls rule: spaced.induct) auto

lemma increasing_mono:
  assumes "increasing ls" "i < j" "j < length ls"
  shows "TreeSize (ls ! i) < TreeSize (ls ! j)"
  using assms(2,3)
proof (induction j)
  case (Suc j)
  have "TreeSize (ls ! j) < TreeSize (ls ! Suc j)" using assms(1) Suc.prems by (simp add: increasing_iff)
  with Suc show ?case by (cases "i = j") (auto intro: less_trans)
qed simp

lemma increasing_bound:
  assumes "increasing ls" "i < length ls"
  shows "i \<le> unat (TreeSize (ls ! i))"
  using assms(2)
proof (induction i)
  case (Suc i)
  have "TreeSize (ls ! i) < TreeSize (ls ! Suc i)" using assms(1) Suc.prems by (simp add: increasing_iff)
  then show ?case using Suc by (simp add: word_less_nat_alt)
qed simp

lemma seq_length: "seq_ok ls \<Longrightarrow> length ls \<le> 2 ^ 64"
proof -
  assume s: "seq_ok ls"
  then have "length ls - 1 \<le> unat (TreeSize (ls ! (length ls - 1)))"
    by (intro increasing_bound) (auto simp: seq_ok_def)
  also have "\<dots> < 2 ^ 64" by (rule unat_less_u64)
  finally show ?thesis by simp
qed

lemma validate_iff: "ls \<noteq> [] \<Longrightarrow> validate ls = Inr () \<longleftrightarrow> seq_ok ls"
  by (auto simp: validate_def seq_ok_def)

lemma seq_ok_snoc:
  assumes "seq_ok ls" "TreeSize (last ls) < n"
  shows "seq_ok (ls @ [\<lparr>Number = Number (last ls) + 1, TreeSize = n, AllocatedAt = now\<rparr>])"
proof -
  have "Number (last ls) + 1 = of_nat (length ls)"
    using assms(1) by (cases ls rule: rev_cases) (auto simp: seq_ok_def contiguous_iff add.commute)
  with assms show ?thesis
    by (auto simp: seq_ok_def contiguous_iff increasing_snoc nth_append less_Suc_eq)
qed


lemma persist_cases:
  assumes "persistLineLocked marshal s = (r, s')"
  shows "scfg s' = scfg s" "landmarks s' = landmarks s"
    "r = Inr () \<Longrightarrow> on_disk marshal s'"
    "r \<noteq> Inr () \<Longrightarrow> files (sfs s') = files (sfs s)"
proof -
  show "scfg s' = scfg s" "landmarks s' = landmarks s"
    using assms by (auto simp: persistLineLocked_def Let_def split: sum.splits prod.splits)
  show "r = Inr () \<Longrightarrow> on_disk marshal s'"
    using assms fs.lookup_put_same [OF TrueI TrueI]
    by (fastforce simp: persistLineLocked_def on_disk_def Let_def split: sum.splits prod.splits)
  show "r \<noteq> Inr () \<Longrightarrow> files (sfs s') = files (sfs s)"
    using assms by (cases r) (auto simp: persistLineLocked_def Let_def split: sum.splits prod.splits
        intro!: ext fs.put_error [OF TrueI TrueI TrueI])
qed

lemma seed_inv:
  assumes "seedSequence marshal now s = (Inr u, s')" "time_ok now"
  shows "seq_inv marshal s' \<and> scfg s' = scfg s"
  using persist_cases [OF assms(1) [unfolded seedSequence_def]] assms(2)
  by (simp add: seq_inv_def seq_ok_def contiguous_def)

text \<open>An append either extends the list by one landmark, on disk too, or changes nothing.\<close>

lemma append_cases:
  assumes "AppendLandmark marshal n now s = (r, s')" "landmarks s \<noteq> []"
  defines "new \<equiv> \<lparr>Number = Number (last (landmarks s)) + 1, TreeSize = n, AllocatedAt = now\<rparr>"
  shows "scfg s' = scfg s"
    "r = Inr (Some l) \<Longrightarrow> l = new \<and> landmarks s' = landmarks s @ [new] \<and> on_disk marshal s' \<and>
       TreeSize (last (landmarks s)) < n \<and>
       TimeBetweenLandmarks (scfg s) \<le> Sub now (AllocatedAt (last (landmarks s)))"
    "\<nexists>l. r = Inr (Some l) \<Longrightarrow> landmarks s' = landmarks s \<and> files (sfs s') = files (sfs s)"
proof -
  obtain q t where q: "persistLineLocked marshal (s\<lparr>landmarks := landmarks s @ [new]\<rparr>) = (q, t)"
    by (cases "persistLineLocked marshal (s\<lparr>landmarks := landmarks s @ [new]\<rparr>)")
  note p = persist_cases [OF q]
  note a = assms(1) [unfolded AppendLandmark_def Let_def, folded new_def]
  show "scfg s' = scfg s"
    using a p(1) q by (auto split: if_splits sum.splits)
  show "r = Inr (Some l) \<Longrightarrow> l = new \<and> landmarks s' = landmarks s @ [new] \<and> on_disk marshal s' \<and>
       TreeSize (last (landmarks s)) < n \<and>
       TimeBetweenLandmarks (scfg s) \<le> Sub now (AllocatedAt (last (landmarks s)))"
    using a p(2,3) q by (auto split: if_splits sum.splits)
  show "\<nexists>l. r = Inr (Some l) \<Longrightarrow> landmarks s' = landmarks s \<and> files (sfs s') = files (sfs s)"
    using a p(2,4) q by (auto split: if_splits sum.splits)
qed

lemma append_inv:
  assumes "seq_inv marshal s" "AppendLandmark marshal n now s = (r, s')" "time_ok now"
  shows "seq_inv marshal s'"
proof -
  have ne: "landmarks s \<noteq> []" using assms(1) by (simp add: seq_inv_def seq_ok_def)
  note a = append_cases [OF assms(2) ne]
  show ?thesis
  proof (cases "\<exists>l. r = Inr (Some l)")
    case True
    with a(2) show ?thesis
      using assms(1,3) a(1) seq_ok_snoc [of "landmarks s" n now]
      by (auto simp: seq_inv_def spaced_snoc)
  next
    case False
    with a(1,3) assms(1) show ?thesis by (auto simp: seq_inv_def on_disk_def)
  qed
qed

lemma SequenceFile_sentinel [simp]: "errors_Is ErrNotExist ''file does not exist''"
  by (simp add: ErrNotExist_def)

context landmark_codec
begin

lemma restart_same:
  assumes "seq_inv marshal s" "0 < TimeBetweenLandmarks (scfg s)" "\<not> get_faults (sfs s) SequenceFile"
  shows "NewSequence marshal unmarshal (scfg s) (sfs s) now = (Inr s, sfs s)"
proof -
  obtain lines where l: "rmap marshal (landmarks s) = Inr lines"
      "files (sfs s) SequenceFile = Some (file_of lines)"
    using assms(1) by (auto simp: seq_inv_def on_disk_def)
  have v: "validate (landmarks s) = Inr ()" "landmarks s \<noteq> []"
    using assms(1) validate_iff by (auto simp: seq_inv_def seq_ok_def)
  have "replayLoop unmarshal (file_of lines) [] = Inr (landmarks s)"
    using replayLoop_file [OF l(1), of "[]"] assms(1) by (simp add: seq_inv_def)
  then show ?thesis
    using assms(2,3) l(2) v by (simp add: NewSequence_def replay_def Get_def)
qed

lemma restart_inv:
  assumes "seq_inv marshal s" "scfg s = cfg" "NewSequence marshal unmarshal cfg (sfs s) now = (Inr s', fs')"
  shows "s' = s"
proof -
  have tb: "0 < TimeBetweenLandmarks (scfg s)" using assms(2,3) by (auto simp: NewSequence_def split: if_splits)
  show ?thesis
  proof (cases "get_faults (sfs s) SequenceFile")
    case True
    then show ?thesis using assms(3) by (auto simp: NewSequence_def replay_def Get_def split: if_splits)
  next
    case False
    from restart_same [OF assms(1) tb False, of now] assms(2,3) show ?thesis by simp
  qed
qed

lemma create_inv:
  assumes "files fs SequenceFile = None" "time_ok now" "NewSequence marshal unmarshal cfg fs now = (Inr s, fs')"
  shows "seq_inv marshal s \<and> scfg s = cfg \<and> 0 < TimeBetweenLandmarks cfg"
proof -
  obtain u t where t: "replay marshal unmarshal now \<lparr>scfg = cfg, sfs = fs, landmarks = []\<rparr> = (u, t)"
    by (cases "replay marshal unmarshal now \<lparr>scfg = cfg, sfs = fs, landmarks = []\<rparr>")
  then have u: "u = Inr ()" "s = t" "0 < TimeBetweenLandmarks cfg"
    using assms(3) by (auto simp: NewSequence_def rbind_eq_Inr split: if_splits)
  then have "seedSequence marshal now \<lparr>scfg = cfg, sfs = fs, landmarks = []\<rparr> = (Inr (), t)"
    using t assms(1) by (auto simp: replay_def Get_def split: if_splits)
  from seed_inv [OF this assms(2)] u show ?thesis by simp
qed

lemma reach_inv:
  "seq_reach marshal unmarshal cfg s \<Longrightarrow> seq_inv marshal s \<and> scfg s = cfg \<and> 0 < TimeBetweenLandmarks cfg"
proof (induction rule: seq_reach.induct)
  case (seq_create fs now s fs')
  then show ?case by (rule create_inv)
next
  case (seq_append s now n r s')
  then have "landmarks s \<noteq> []" by (simp add: seq_inv_def seq_ok_def)
  from append_cases(1) [OF seq_append.hyps(3) this] append_inv seq_append show ?case by metis
next
  case (seq_restart s now s' fs')
  then show ?case using restart_inv by metis
next
  case (seq_faults s pf gf)
  then show ?case by (auto simp: seq_inv_def on_disk_def)
qed

end


section \<open>Queries on a valid sequence\<close>

lemma seq_first: "seq_ok ls \<Longrightarrow> TreeSize (ls ! 0) = 0"
  by (auto simp: seq_ok_def hd_conv_nth)

lemma seq_number: "seq_ok ls \<Longrightarrow> i < length ls \<Longrightarrow> Number (ls ! i) = of_nat i \<and> unat (Number (ls ! i)) = i"
  using seq_length [of ls] by (auto simp: seq_ok_def contiguous_iff unat_of_nat64 intro: less_le_trans)

lemma ContainingIndex_cases:
  assumes "seq_ok (landmarks s)"
  obtains (None) "ContainingIndex s index = None" "\<forall>i<length (landmarks s). TreeSize (landmarks s ! i) \<le> index"
  | (Some) p where "ContainingIndex s index = Some (landmarks s ! p)" "0 < p" "p < length (landmarks s)"
      "index < TreeSize (landmarks s ! p)" "TreeSize (landmarks s ! (p - 1)) \<le> index"
      "\<forall>i<length (landmarks s). index < TreeSize (landmarks s ! i) \<longleftrightarrow> p \<le> i"
proof (cases "ContainingIndex s index")
  case None
  then have "\<forall>i<length (landmarks s). TreeSize (landmarks s ! i) \<le> index"
    by (metis ContainingIndex_def find_None_iff nth_mem not_less)
  with None that(1) show thesis by blast
next
  case (Some l)
  then obtain p where p: "p < length (landmarks s)" "index < TreeSize (landmarks s ! p)" "l = landmarks s ! p"
      "\<forall>j<p. \<not> index < TreeSize (landmarks s ! j)"
    by (auto simp: ContainingIndex_def find_Some_iff)
  have p0: "0 < p" using p(2) seq_first [OF assms] by (intro gr0I) auto
  have "index < TreeSize (landmarks s ! i)" if "p \<le> i" "i < length (landmarks s)" for i
    using p(2) increasing_mono [of "landmarks s" p i] assms that
    by (cases "p = i") (auto simp: seq_ok_def intro: less_trans)
  then have "\<forall>i<length (landmarks s). index < TreeSize (landmarks s ! i) \<longleftrightarrow> p \<le> i"
    using p(4) by (auto simp: not_less [symmetric])
  moreover have "TreeSize (landmarks s ! (p - 1)) \<le> index" using p(4) p0 by (simp add: not_less)
  ultimately show thesis using that(2) Some p p0 by blast
qed

section \<open>The published list is read back\<close>

definition num_active :: "Sequence \<Rightarrow> nat" where
  "num_active s = min (nat (MaxActive (scfg s))) (length (landmarks s) - 1)"

definition published :: "Sequence \<Rightarrow> landmarkEntry list" where
  "published s = map (\<lambda>l. (Number l, TreeSize l)) (take (Suc (num_active s)) (rev (landmarks s)))"

lemma MaxActive_range: "minDuration \<le> MaxActive c" "MaxActive c \<le> maxDuration"
proof -
  have "minDuration \<le> wrap64 i \<and> wrap64 i \<le> maxDuration" for i
    using pos_mod_bound [of "2 ^ 64" "i + 2 ^ 63"] pos_mod_sign [of "2 ^ 64" "i + 2 ^ 63"]
    unfolding wrap64_def minDuration_def maxDuration_def by simp
  then show "minDuration \<le> MaxActive c" "MaxActive c \<le> maxDuration"
    by (auto simp: MaxActive_def minDuration_def maxDuration_def)
qed

lemma num_active_word:
  assumes "seq_ok (landmarks s)"
  shows "min (of_int (max 0 (MaxActive (scfg s)))) (Number (last (landmarks s))) = (of_nat (num_active s) :: u64)"
    "num_active s < 2 ^ 64" "num_active s < length (landmarks s)"
proof -
  let ?L = "length (landmarks s) - 1" and ?m = "nat (MaxActive (scfg s))"
  have ne: "landmarks s \<noteq> []" using assms by (simp add: seq_ok_def)
  have L: "?L < 2 ^ 64" using seq_length [OF assms] ne by (cases "landmarks s") auto
  have m: "?m < 2 ^ 64" using MaxActive_range(2) [of "scfg s"] by (simp add: maxDuration_def)
  have lst: "Number (last (landmarks s)) = of_nat ?L"
    using seq_number [OF assms, of ?L] ne by (simp add: last_conv_nth)
  have "(of_int (max 0 (MaxActive (scfg s))) :: u64) = of_nat ?m"
    by (simp add: max_def)
  then show "min (of_int (max 0 (MaxActive (scfg s)))) (Number (last (landmarks s))) = (of_nat (num_active s) :: u64)"
    unfolding lst num_active_def using L m
    by (simp add: min_def word_le_nat_alt unat_of_nat64)
  show "num_active s < 2 ^ 64" "num_active s < length (landmarks s)"
    using L ne by (auto simp: num_active_def min_less_iff_disj)
qed


lemma TrimSpace_uint: "TrimSpace (FormatUint v) = FormatUint v"
  using uint_not_space [of v] by (simp add: TrimSpace_def dropWhile_space_word)

lemma published_nth:
  assumes "seq_ok (landmarks s)" "i \<le> num_active s"
  shows "published s ! i = (of_nat (length (landmarks s) - 1 - i), TreeSize (landmarks s ! (length (landmarks s) - 1 - i)))"
proof -
  have n: "num_active s < length (landmarks s)" using num_active_word(3) [OF assms(1)] .
  with assms(2) have "published s ! i = (\<lambda>l. (Number l, TreeSize l)) (landmarks s ! (length (landmarks s) - 1 - i))"
    by (simp add: published_def rev_nth)
  then show ?thesis using seq_number [OF assms(1), of "length (landmarks s) - 1 - i"] n by simp
qed

lemma length_published:
  assumes "seq_ok (landmarks s)" shows "length (published s) = Suc (num_active s)"
  using num_active_word(3) [OF assms] by (simp add: published_def)

lemma encode_eq:
  assumes "seq_ok (landmarks s)"
  shows "encode s = Inr (concat (map (\<lambda>x. x @ [CHR 0x0A])
     ((FormatUint (Number (last (landmarks s))) @ '' '' @ FormatUint (of_nat (num_active s)))
       # map (FormatUint \<circ> snd) (published s))))"
proof -
  let ?L = "length (landmarks s) - 1"
  have ne: "landmarks s \<noteq> []" using assms by (simp add: seq_ok_def)
  have lst: "Number (last (landmarks s)) = of_nat ?L"
    using seq_number [OF assms, of ?L] ne by (simp add: last_conv_nth)
  have L: "?L < 2 ^ 64" using seq_length [OF assms] ne by (cases "landmarks s") auto
  note n = num_active_word [OF assms]
  have "sizeLine s (of_nat ?L - of_nat i) = Inr (FormatUint (snd (published s ! i)) @ [CHR 0x0A])"
    if i: "i \<in> set [0..<Suc (num_active s)]" for i
  proof -
    have i': "i \<le> num_active s" "i \<le> ?L" using i n(3) by auto
    have "(of_nat ?L - of_nat i :: u64) = of_nat (?L - i)" using i'(2) by (rule of_nat_diff [symmetric])
    moreover have "unat (of_nat (?L - i) :: u64) = ?L - i" using L by (intro unat_of_nat64) simp
    ultimately show ?thesis using published_nth [OF assms i'(1)] ne by (simp add: sizeLine_def)
  qed
  then have "rmap (\<lambda>i. sizeLine s (of_nat ?L - of_nat i)) [0..<Suc (num_active s)]
      = Inr (map (\<lambda>i. FormatUint (snd (published s ! i)) @ [CHR 0x0A]) [0..<Suc (num_active s)])"
    by (rule rmap_Inr_map)
  moreover have "map (\<lambda>i. FormatUint (snd (published s ! i)) @ [CHR 0x0A]) [0..<Suc (num_active s)]
      = map (\<lambda>x. FormatUint (snd x) @ [CHR 0x0A]) (published s)"
    unfolding length_published [OF assms, symmetric] by (rule nth_equalityI) (simp_all add: nth_append)
  ultimately show ?thesis
    using ne n(1) unat_of_nat64 [OF n(2)]
    by (simp add: encode_def Let_def lst comp_def del: upt_Suc)
qed

lemma parse_published:
  assumes "seq_ok (landmarks s)"
  shows "parseLandmarks (concat (map (\<lambda>x. x @ [CHR 0x0A])
     ((FormatUint (Number (last (landmarks s))) @ '' '' @ FormatUint (of_nat (num_active s)))
       # map (FormatUint \<circ> snd) (published s)))) = Inr (published s)"
proof -
  let ?L = "length (landmarks s) - 1"
  define hdr where "hdr = FormatUint (Number (last (landmarks s))) @ '' '' @ FormatUint (of_nat (num_active s))"
  have ne: "landmarks s \<noteq> []" using assms by (simp add: seq_ok_def)
  have lst: "Number (last (landmarks s)) = of_nat ?L"
    using seq_number [OF assms, of ?L] ne by (simp add: last_conv_nth)
  have L: "?L < 2 ^ 64" using seq_length [OF assms] ne by (cases "landmarks s") auto
  note n = num_active_word [OF assms]
  have split: "split_on (CHR 0x0A) (TrimRight (CHR 0x0A) (concat (map (\<lambda>x. x @ [CHR 0x0A])
      (hdr # map (FormatUint \<circ> snd) (published s))))) = hdr # map (FormatUint \<circ> snd) (published s)"
    by (rule split_lines) (auto simp: hdr_def)
  have fields: "Fields hdr = [FormatUint (Number (last (landmarks s))), FormatUint (of_nat (num_active s))]"
    unfolding hdr_def using Fields_two [OF _ uint_not_space _ uint_not_space] by simp
  have rm: "rmap (\<lambda>(i, line). rbind (rwrap ''bad tree size'' (ParseUint (TrimSpace line)))
      (\<lambda>ts. Inr (of_nat ?L - of_nat i, ts))) (enumerate 0 (map (FormatUint \<circ> snd) (published s)))
    = Inr (map (\<lambda>(i, line). published s ! i) (enumerate 0 (map (FormatUint \<circ> snd) (published s))))"
  proof (rule rmap_Inr_map)
    fix x assume "x \<in> set (enumerate 0 (map (FormatUint \<circ> snd) (published s)))"
    then obtain i where i: "i < length (published s)" "x = (i, FormatUint (snd (published s ! i)))"
      by (auto simp: in_set_conv_nth nth_enumerate_eq)
    then have i': "i \<le> num_active s" "i \<le> ?L" using n(3) length_published [OF assms] by auto
    have "(of_nat ?L - of_nat i :: u64) = of_nat (?L - i)" using i'(2) by (rule of_nat_diff [symmetric])
    then show "(case x of (i, line) \<Rightarrow> rbind (rwrap ''bad tree size'' (ParseUint (TrimSpace line)))
        (\<lambda>ts. Inr (of_nat ?L - of_nat i, ts))) = Inr (case x of (i, line) \<Rightarrow> published s ! i)"
      using i(2) published_nth [OF assms i'(1)] by (simp add: TrimSpace_uint)
  qed
  have rd: "map (\<lambda>(i, line). published s ! i) (enumerate 0 (map (FormatUint \<circ> snd) (published s))) = published s"
    by (rule nth_equalityI) (simp_all add: nth_enumerate_eq)
  have "\<not> of_nat ?L < (of_nat (num_active s) :: u64)"
    unfolding word_less_nat_alt unat_of_nat64 [OF L] unat_of_nat64 [OF n(2)] using n(3) by linarith
  moreover have "hdr \<noteq> []" by (simp add: hdr_def)
  moreover have "published s \<noteq> []" using length_published [OF assms] by auto
  ultimately show ?thesis
    unfolding parseLandmarks_def hdr_def [symmetric] split Let_def
    using rm rd fields length_published [OF assms] by (simp add: lst)
qed


lemma coveringLoop_last:
  assumes "j < m" "index < snd (desc ! j)" "\<forall>i. j < i \<and> i < m \<longrightarrow> \<not> index < snd (desc ! i)"
  shows "coveringLoop desc m index =
    (if j = length desc - 1 then None else Some (fst (desc ! j), snd (desc ! j), snd (desc ! (j + 1))))"
  using assms
proof (induction m)
  case (Suc m)
  then show ?case by (cases "m = j") auto
qed simp

lemma coveringLoop_none: "\<forall>i<m. \<not> index < snd (desc ! i) \<Longrightarrow> coveringLoop desc m index = None"
  by (induction m) auto

text \<open>The client picks the landmark that the server picks, when it is in the published window.\<close>

lemma coveringLandmark_published:
  assumes ok: "seq_ok (landmarks s)"
  shows "coveringLandmark (published s) index =
    (case ContainingIndex s index of
       None \<Rightarrow> None
     | Some l \<Rightarrow>
         if length (landmarks s) - 1 - num_active s < unat (Number l)
         then Some (Number l, TreeSize l, TreeSize (landmarks s ! (unat (Number l) - 1))) else None)"
proof -
  let ?ls = "landmarks s" and ?L = "length (landmarks s) - 1" and ?k = "num_active s" and ?d = "published s"
  note len = length_published [OF ok]
  have k: "?k \<le> ?L" using num_active_word(3) [OF ok] by simp
  have snd: "snd (?d ! i) = TreeSize (?ls ! (?L - i))" if "i \<le> ?k" for i
    using published_nth [OF ok that] by simp
  show ?thesis
  proof (cases rule: ContainingIndex_cases [OF ok, of index])
    case 1
    then have "\<forall>i<length ?d. \<not> index < snd (?d ! i)" using snd len ok by (simp add: seq_ok_def not_less)
    then show ?thesis using 1 by (simp add: coveringLandmark_def coveringLoop_none)
  next
    case (2 p)
    have num: "unat (Number (?ls ! p)) = p" "Number (?ls ! p) = of_nat p" using seq_number [OF ok 2(3)] by auto
    have gt: "index < snd (?d ! i) \<longleftrightarrow> p \<le> ?L - i" if "i \<le> ?k" for i
      using 2(3,6) snd [OF that] ok by (simp add: seq_ok_def)
    define j where "j = (if ?L - ?k < p then ?L - p else ?k)"
    have j: "j \<le> ?k" using 2(3) k by (auto simp: j_def)
    have "coveringLoop ?d (length ?d) index =
        (if j = length ?d - 1 then None else Some (fst (?d ! j), snd (?d ! j), snd (?d ! (j + 1))))"
      using j gt len 2(3) k by (intro coveringLoop_last) (auto simp: j_def)
    moreover have "j = ?k \<longleftrightarrow> \<not> ?L - ?k < p" using 2(3) k by (auto simp: j_def)
    moreover have "?d ! j = (of_nat p, TreeSize (?ls ! p))" "snd (?d ! (j + 1)) = TreeSize (?ls ! (p - 1))"
      if "?L - ?k < p"
    proof -
      have "?L - (?L - p) = p" "?L - (?L - p + 1) = p - 1" "?L - p + 1 \<le> ?k" using 2(3) that k by auto
      then show "?d ! j = (of_nat p, TreeSize (?ls ! p))" "snd (?d ! (j + 1)) = TreeSize (?ls ! (p - 1))"
        using that published_nth [OF ok, of "?L - p"] snd [of "?L - p + 1"] by (simp_all add: j_def)
    qed
    ultimately show ?thesis using 2(1) len num by (simp add: coveringLandmark_def)
  qed
qed

section \<open>Properties\<close>

definition sample_time :: "nat \<Rightarrow> Time" where
  "sample_time h = \<lparr>Year = 2026, Month = 3, Day = 1, Hour = h, Minute = 0, Second = 0, Nanosecond = 5\<rparr>"

definition sample_fs :: FS where
  "sample_fs = \<lparr>files = (\<lambda>_. None), put_faults = [], get_faults = (\<lambda>_. False)\<rparr>"

definition sample_cfg :: LandmarkConfig where
  "sample_cfg = \<lparr>CAID = ''32473.1'', LogNumber = 0, TimeBetweenLandmarks = 3600000000000,
     MaxCertLifetime = 7200000000000\<rparr>"

definition sample_new :: "Sequence result \<times> FS" where
  "sample_new = NewSequence marshalLandmark unmarshalLandmark sample_cfg sample_fs (sample_time 1)"

definition sample_seq :: "nat \<Rightarrow> Sequence" where
  "sample_seq k = foldl (\<lambda>s i. snd (AppendLandmark marshalLandmark (of_nat (10 * i)) (sample_time (2 * i)) s))
     (projr (fst sample_new)) [1..<Suc k]"

definition plain_seq :: Sequence where
  "plain_seq = \<lparr>scfg = sample_cfg, sfs = sample_fs, landmarks =
     map (\<lambda>i. \<lparr>Number = of_nat i, TreeSize = of_nat (10 * i), AllocatedAt = sample_time (2 * i)\<rparr>) [0..<4]\<rparr>"

lemma sample_time_ok: "h < 24 \<Longrightarrow> time_ok (sample_time h)"
  by (simp add: sample_time_def time_ok_def days_in_month_def)

lemma sample_reach: "k < 12 \<Longrightarrow> seq_reach marshalLandmark unmarshalLandmark sample_cfg (sample_seq k)"
proof (induction k)
  case 0
  have "isl (fst sample_new) = False" by code_simp
  then obtain s where s: "fst sample_new = Inr s" by (cases "fst sample_new") auto
  have "files sample_fs SequenceFile = None" by (simp add: sample_fs_def)
  moreover have "NewSequence marshalLandmark unmarshalLandmark sample_cfg sample_fs (sample_time 1) = (Inr s, snd sample_new)"
    using s by (simp add: sample_new_def prod_eq_iff)
  ultimately have "seq_reach marshalLandmark unmarshalLandmark sample_cfg s"
    using sample_time_ok [of 1] by (intro seq_create) auto
  then show ?case using s by (simp add: sample_seq_def)
next
  case (Suc k)
  then have "seq_reach marshalLandmark unmarshalLandmark sample_cfg (sample_seq k)" by simp
  moreover have "sample_seq (Suc k) =
      snd (AppendLandmark marshalLandmark (of_nat (10 * Suc k)) (sample_time (2 * Suc k)) (sample_seq k))"
    by (simp add: sample_seq_def)
  moreover have "time_ok (sample_time (2 * Suc k))" using Suc.prems by (intro sample_time_ok) simp
  ultimately show ?case by (metis seq_append prod.collapse)
qed

text \<open>
  C10: in every reachable state of a landmark sequence, through appends, failed writes and restarts,
  the numbers are 0, 1, 2, \<dots>, the first tree size is 0, tree sizes increase strictly, two landmarks
  are at least one interval apart, and the file on disk is the encoding of the sequence in memory.
\<close>

theorem landmark_invariant:
  assumes "landmark_codec marshal unmarshal" "seq_reach marshal unmarshal cfg s"
  shows "seq_ok (landmarks s) \<and> spaced (TimeBetweenLandmarks cfg) (landmarks s) \<and> on_disk marshal s"
  using landmark_codec.reach_inv [OF assms] by (auto simp: seq_inv_def)

theorem landmark_invariant_witness:
  "length (landmarks (sample_seq 1)) = 2 \<and> seq_ok (landmarks (sample_seq 1)) \<and>
   spaced (TimeBetweenLandmarks sample_cfg) (landmarks (sample_seq 1)) \<and> on_disk marshalLandmark (sample_seq 1)"
proof -
  have "length (landmarks (sample_seq 1)) = 2" by code_simp
  with landmark_invariant [OF json.landmark_codec_axioms sample_reach [of 1]] show ?thesis by simp
qed

text \<open>
  C34: restarting is the identity: on a reachable state whose file can be read, \<open>New\<close> rebuilds exactly
  the sequence in memory and leaves the store as it is.
\<close>

theorem landmark_restart:
  assumes "landmark_codec marshal unmarshal" "seq_reach marshal unmarshal cfg s"
    "\<not> get_faults (sfs s) SequenceFile"
  shows "NewSequence marshal unmarshal cfg (sfs s) now = (Inr s, sfs s)"
proof -
  have i: "seq_inv marshal s" "scfg s = cfg" "0 < TimeBetweenLandmarks (scfg s)"
    using landmark_codec.reach_inv [OF assms(1,2)] by auto
  show ?thesis using landmark_codec.restart_same [OF assms(1) i(1,3) assms(3)] i(2) by simp
qed

theorem landmark_restart_witness:
  "landmarks (sample_seq 1) \<noteq> [] \<and>
   NewSequence marshalLandmark unmarshalLandmark sample_cfg (sfs (sample_seq 1)) (sample_time 20)
     = (Inr (sample_seq 1), sfs (sample_seq 1))"
proof -
  have "\<not> get_faults (sfs (sample_seq 1)) SequenceFile" "landmarks (sample_seq 1) \<noteq> []" by code_simp+
  with landmark_restart [OF json.landmark_codec_axioms sample_reach [of 1]] show ?thesis by simp
qed

text \<open>
  C32: an append takes effect in full or not at all. It succeeds only when the tree grew and the
  interval has passed, with the next number, and then the file holds the new sequence; otherwise, on
  a refused condition or a failed write, the landmarks and every file are as before.
\<close>

theorem append_landmark_atomic:
  assumes "seq_ok (landmarks s)" "AppendLandmark marshal n now s = (r, s')"
  shows "(\<exists>l. r = Inr (Some l) \<and> landmarks s' = landmarks s @ [l] \<and> on_disk marshal s' \<and>
       l = \<lparr>Number = NextNumber s, TreeSize = n, AllocatedAt = now\<rparr> \<and> TreeSize (last (landmarks s)) < n \<and>
       TimeBetweenLandmarks (scfg s) \<le> Sub now (AllocatedAt (last (landmarks s))))
    \<or> ((\<nexists>l. r = Inr (Some l)) \<and> landmarks s' = landmarks s \<and> files (sfs s') = files (sfs s))"
proof -
  have ne: "landmarks s \<noteq> []" using assms(1) by (simp add: seq_ok_def)
  have "Number (last (landmarks s)) + 1 = NextNumber s"
    using assms(1) ne unfolding NextNumber_def
    by (cases "landmarks s" rule: rev_cases) (auto simp: seq_ok_def contiguous_iff add.commute)
  then show ?thesis using append_cases [OF assms(2) ne] by (cases "\<exists>l. r = Inr (Some l)") auto
qed

theorem append_landmark_atomic_witness:
  "\<exists>r s'. AppendLandmark marshalLandmark 77 (sample_time 20) (plain_seq) = (r, s') \<and>
     ((\<exists>l. r = Inr (Some l) \<and> landmarks s' = landmarks (plain_seq) @ [l]) \<or> landmarks s' = landmarks (plain_seq))"
proof -
  obtain r s' where r: "AppendLandmark marshalLandmark 77 (sample_time 20) (plain_seq) = (r, s')"
    by (cases "AppendLandmark marshalLandmark 77 (sample_time 20) (plain_seq)")
  have "seq_ok (landmarks (plain_seq))" by code_simp
  from append_landmark_atomic [OF this r] r show ?thesis by blast
qed

text \<open>
  C33: \<open>ContainingIndex\<close> finds the first landmark past an entry: every entry below the last landmark has
  one, its predecessor does not contain the entry, and its subtrees are a covering of the entries
  between the two, so one of them holds the entry.
\<close>

theorem containing_landmark:
  assumes "seq_ok (landmarks s)" "length (landmarks s) < 2 ^ 63"
  shows "case ContainingIndex s index of
      None \<Rightarrow> TreeSize (last (landmarks s)) \<le> index
    | Some l \<Rightarrow> \<exists>p ts. 0 < p \<and> p < length (landmarks s) \<and> l = landmarks s ! p \<and> Number l = of_nat p \<and>
        TreeSize (landmarks s ! (p - 1)) \<le> index \<and> index < TreeSize l \<and>
        LandmarkSubtrees s l = Inr ts \<and> covering ts (TreeSize (landmarks s ! (p - 1))) (TreeSize l)"
proof (cases rule: ContainingIndex_cases [OF assms(1), of index])
  case 1
  then show ?thesis using assms(1) by (simp add: seq_ok_def last_conv_nth)
next
  case (2 p)
  have n: "Number (landmarks s ! p) = of_nat p" "unat (Number (landmarks s ! p)) = p"
    using seq_number [OF assms(1) 2(3)] by auto
  have p: "p < 2 ^ 63" using 2(3) assms(2) by simp
  have lt: "TreeSize (landmarks s ! (p - 1)) < TreeSize (landmarks s ! p)" using 2(4,5) by simp
  obtain ts where ts: "FindSubtrees (TreeSize (landmarks s ! (p - 1))) (TreeSize (landmarks s ! p)) = Inr ts"
      "covering ts (TreeSize (landmarks s ! (p - 1))) (TreeSize (landmarks s ! p))"
    using FindSubtrees_covering [OF lt] by blast
  have sp: "sint (Number (landmarks s ! p)) = int p"
    unfolding n(1) using p by (simp add: signed_of_nat signed_take_bit_int_eq_self)
  have "Number (landmarks s ! p) \<noteq> 0" using n(2) 2(2) by auto
  moreover have "unat (Number (landmarks s ! p) - 1) = p - 1"
    using n(2) 2(2) \<open>Number (landmarks s ! p) \<noteq> 0\<close> by (simp add: unat_minus_one)
  ultimately have "LandmarkSubtrees s (landmarks s ! p) = Inr ts"
    using sp 2(3) n(2) lt ts(1) by (auto simp: LandmarkSubtrees_def Let_def)
  with 2 n ts(2) show ?thesis by auto
qed

theorem containing_landmark_witness:
  "\<exists>l ts. ContainingIndex plain_seq 13 = Some l \<and> Number l = 2 \<and>
     LandmarkSubtrees plain_seq l = Inr ts \<and> covering ts 10 (TreeSize l)"
proof -
  have a: "seq_ok (landmarks plain_seq)" "length (landmarks plain_seq) = 4"
    "map_option Number (ContainingIndex plain_seq 13) = Some 2"
    "TreeSize (landmarks plain_seq ! 1) = 10"
    by code_simp+
  then obtain l where l: "ContainingIndex plain_seq 13 = Some l" "Number l = 2" by auto
  from containing_landmark [OF a(1), of 13] a(2) l(1) obtain p ts where p: "p < 4" "Number l = of_nat p"
      "LandmarkSubtrees plain_seq l = Inr ts" "covering ts (TreeSize (landmarks plain_seq ! (p - 1))) (TreeSize l)"
    by auto
  have "p = 2" using p(1,2) l(2) of_nat64_inject [of p 2] by simp
  with p a(4) l show ?thesis by auto
qed

text \<open>
  C35: the published landmark list. For a valid sequence \<open>encode\<close> does not fail, the client's parser
  reads back the newest landmarks with their numbers and sizes, and the landmark that the client
  chooses for an entry is the one the server chooses, whenever it is inside the published window.
\<close>

theorem landmark_list_roundtrip:
  assumes "seq_ok (landmarks s)"
  shows "\<exists>b. encode s = Inr b \<and> parseLandmarks b = Inr (published s) \<and>
    coveringLandmark (published s) index =
      (case ContainingIndex s index of
         None \<Rightarrow> None
       | Some l \<Rightarrow>
           if length (landmarks s) - 1 - num_active s < unat (Number l)
           then Some (Number l, TreeSize l, TreeSize (landmarks s ! (unat (Number l) - 1))) else None)"
  using encode_eq [OF assms] parse_published [OF assms] coveringLandmark_published [OF assms, of index]
  by blast

theorem landmark_list_roundtrip_witness:
  "\<exists>b. encode plain_seq = Inr b \<and> parseLandmarks b = Inr (published plain_seq) \<and>
     coveringLandmark (published plain_seq) 13 = Some (2, 20, 10)"
proof -
  have a: "seq_ok (landmarks plain_seq)" "coveringLandmark (published plain_seq) 13 = Some (2, 20, 10)"
    by code_simp+
  with landmark_list_roundtrip [OF a(1), of 13] show ?thesis by blast
qed

text \<open>
  \<open>MaxActive\<close> computes in floating point; for lifetimes below 2^53 nanoseconds (104 days) and positive
  intervals below that it is exactly the ceiling of the quotient plus one.
\<close>

theorem MaxActive_exact:
  assumes "0 < TimeBetweenLandmarks c" "TimeBetweenLandmarks c < 2 ^ 53"
    "0 < MaxCertLifetime c" "MaxCertLifetime c < 2 ^ 53"
  shows "MaxActive c = (MaxCertLifetime c + TimeBetweenLandmarks c - 1) div TimeBetweenLandmarks c + 1"
proof -
  let ?a = "nat (MaxCertLifetime c)" and ?b = "nat (TimeBetweenLandmarks c)"
  have ab: "0 < ?a" "?a < 2 ^ 53" "0 < ?b" "?b < 2 ^ 53" "int ?a = MaxCertLifetime c"
    using assms by (simp_all add: nat_less_iff)
  have q: "f64_ceil_quot (MaxCertLifetime c) ?b = int (ceil_div ?a ?b)"
    using f64_ceil_quot_exact [OF ab(1-4)] unfolding ab(5) .
  have "ceil_div ?a ?b \<le> ?a"
    using ab(1,3) ceil_div_bounds(2) [OF ab(3,1)] by (cases "ceil_div ?a ?b") (auto simp: Suc_le_eq intro: le_less_trans [rotated])
  then have c: "int (ceil_div ?a ?b) < 2 ^ 53" using ab(2,5) assms(4) by linarith
  have "int (ceil_div ?a ?b) = (MaxCertLifetime c + TimeBetweenLandmarks c - 1) div TimeBetweenLandmarks c"
    using assms by (simp add: ceil_div_def zdiv_int of_nat_diff)
  moreover have "MaxActive c = int (ceil_div ?a ?b) + 1"
    using c assms(1) by (simp add: MaxActive_def q int_of_f64_def wrap64_id minDuration_def maxDuration_def)
  ultimately show ?thesis by simp
qed

theorem MaxActive_exact_witness: "MaxActive sample_cfg = 3"
  using MaxActive_exact [of sample_cfg] by (simp add: sample_cfg_def)

end
