(* ===== verification/Proof.thy ===== *)
theory Proof
  imports Entry
begin

text \<open>
  The signature value of a Merkle Tree certificate (cert/proof.go): the message a cosigner signs and
  the wire form of \<open>MTCProof\<close>, written with sorted and distinct cosigner IDs and parsed strictly.
\<close>

section \<open>The code\<close>

record MTCSubtree =
  SubLogID :: TrustAnchorID
  SubStart :: u64
  SubEnd :: u64
  SubHash :: Hash

definition SubtreeSignatureLabel :: bytes where
  "SubtreeSignatureLabel = bytes_of ''subtree/v1'' @ [0x0a, 0x00]"

text \<open>A builder holds the bytes so far or its first error, and ignores writes after that.\<close>

definition badd :: "bytes result \<Rightarrow> bytes result \<Rightarrow> bytes result" where
  "badd b x = rbind b (\<lambda>u. rbind x (\<lambda>v. Inr (u @ v)))"

definition MarshalSignatureInput :: "TrustAnchorID \<Rightarrow> MTCSubtree \<Rightarrow> bytes result" where
  "MarshalSignatureInput cosignerID subtree =
     (if length SubtreeSignatureLabel \<noteq> 12 then Inl (Errorf ''internal: SubtreeSignatureLabel'')
      else
        let cosignerName = bytes_of (OIDName cosignerID); logOrigin = bytes_of (OIDName (SubLogID subtree))
        in if length cosignerName < 1 \<or> length cosignerName > 0xff then
             Inl (Errorf ''cert: cosigner_name length out of range'')
           else if length logOrigin < 1 \<or> length logOrigin > 0xff then
             Inl (Errorf ''cert: log_origin length out of range'')
           else
             badd (badd (badd (badd (badd (badd (Inr SubtreeSignatureLabel)
               (AddUint8LengthPrefixed cosignerName))
               (Inr (be 8 0)))
               (AddUint8LengthPrefixed logOrigin))
               (Inr (be 8 (unat (SubStart subtree)))))
               (Inr (be 8 (unat (SubEnd subtree)))))
               (Inr (hash_bytes (SubHash subtree))))"

record MTCSignature =
  CosignerID :: TrustAnchorID
  Signature :: bytes

record MTCProof =
  PExtensions :: "MerkleTreeCertEntryExtension list"
  PStart :: u64
  PEnd :: u64
  InclusionProof :: "Hash list"
  Signatures :: "MTCSignature list"

definition addUint48 :: "u64 \<Rightarrow> bytes" where
  "addUint48 v = [ucast (drop_bit 40 v), ucast (drop_bit 32 v), ucast (drop_bit 24 v),
     ucast (drop_bit 16 v), ucast (drop_bit 8 v), ucast v]"

definition readUint48 :: "bytes \<Rightarrow> (u64 \<times> bytes) option" where
  "readUint48 s =
     (case read_bytes 6 s of None \<Rightarrow> None
      | Some (buf, rest) \<Rightarrow>
          Some (push_bit 40 (ucast (buf ! 0)) OR push_bit 32 (ucast (buf ! 1)) OR push_bit 24 (ucast (buf ! 2))
            OR push_bit 16 (ucast (buf ! 3)) OR push_bit 8 (ucast (buf ! 4)) OR ucast (buf ! 5), rest))"

fun lexLess :: "bytes \<Rightarrow> bytes \<Rightarrow> bool" where
  "lexLess [] [] = False"
| "lexLess [] (b # bs) = True"
| "lexLess (a # as) [] = False"
| "lexLess (a # as) (b # bs) = (a < b \<or> a = b \<and> lexLess as bs)"

definition cosignerIDLess :: "bytes \<Rightarrow> bytes \<Rightarrow> bool" where
  "cosignerIDLess a b = (if length a \<noteq> length b then length a < length b else lexLess a b)"

type_synonym wireSig = "bytes \<times> bytes"

definition toWire :: "MTCSignature \<Rightarrow> wireSig result" where
  "toWire s =
     rbind (rwrap ''MTCProof: cosigner_id'' (Binary (CosignerID s))) (\<lambda>bin.
       if length bin < 1 \<or> length bin > 0xff then Inl (Errorf ''MTCProof: cosigner_id binary length out of range [1,255]'')
       else if length (Signature s) > 0xffff then Inl (Errorf ''MTCProof: signature > 65535 bytes'')
       else Inr (bin, Signature s))"

fun noDuplicateIDs :: "wireSig list \<Rightarrow> bool" where
  "noDuplicateIDs (a # b # ws) = (fst b \<noteq> fst a \<and> noDuplicateIDs (b # ws))"
| "noDuplicateIDs ws = True"

definition wireBytes :: "wireSig \<Rightarrow> bytes result" where
  "wireBytes w = badd (AddUint8LengthPrefixed (fst w)) (AddUint16LengthPrefixed (snd w))"

definition MarshalTLS :: "MTCProof \<Rightarrow> bytes result" where
  "MarshalTLS p =
     (if PStart p > maxUint48 \<or> PEnd p > maxUint48 then Inl (Errorf ''MTCProof: start/end exceed uint48'')
      else rbind (marshalEntryExtensions (PExtensions p)) (\<lambda>extBytes.
        let b1 = AddUint16LengthPrefixed extBytes;
            b2 = badd b1 (Inr (addUint48 (PStart p) @ addUint48 (PEnd p)));
            tooLong = (\<not> isl b2 \<and> length (InclusionProof p) * HashSize > 0xffff)
        in if tooLong then Inl (Errorf ''inclusion_proof too long'')
           else
             let b3 = badd b2 (AddUint16LengthPrefixed (concat (map hash_bytes (InclusionProof p))))
             in rbind (rmap toWire (Signatures p)) (\<lambda>wsigs.
                  let sorted = stable_sort (\<lambda>a b. cosignerIDLess (fst a) (fst b)) wsigs
                  in if \<not> noDuplicateIDs sorted then Inl (Errorf ''MTCProof: duplicate cosigner_id'')
                     else badd b3 (rbind (rmap wireBytes sorted) (\<lambda>ss. AddUint16LengthPrefixed (concat ss))))))"

function parseHashes :: "bytes \<Rightarrow> Hash list \<Rightarrow> Hash list result" where
  "parseHashes ipBytes acc =
     (if length ipBytes > 0 then
        (case read_bytes HashSize ipBytes of
           None \<Rightarrow> Inl (Errorf ''MTCProof: inclusion_proof copy failed'')
         | Some (h, rest) \<Rightarrow> parseHashes rest (acc @ [mk_Hash h]))
      else Inr acc)"
  by pat_completeness auto
termination
  by (relation "measure (\<lambda>(b, _). length b)") (auto simp: read_bytes_def HashSize_def split: if_splits)

function parseSignatures :: "bytes \<Rightarrow> bytes option \<Rightarrow> MTCSignature list \<Rightarrow> MTCSignature list result" where
  "parseSignatures sigBytes prevBin acc =
     (if length sigBytes > 0 then
        (case ReadUint8LengthPrefixed sigBytes of
           None \<Rightarrow> Inl (Errorf ''MTCProof: short read cosigner_id'')
         | Some (idBytes, rest1) \<Rightarrow>
             if length idBytes = 0 then Inl (Errorf ''MTCProof: empty cosigner_id'')
             else if prevBin = Some idBytes then Inl (Errorf ''MTCProof: duplicate cosigner_id'')
             else if prevBin \<noteq> None \<and> cosignerIDLess idBytes (the prevBin) then
               Inl (Errorf ''MTCProof: signatures not sorted by cosigner_id'')
             else rbind (rwrap ''MTCProof'' (TrustAnchorIDFromBinary idBytes)) (\<lambda>ID.
               case ReadUint16LengthPrefixed rest1 of
                 None \<Rightarrow> Inl (Errorf ''MTCProof: short read signature'')
               | Some (sigData, rest2) \<Rightarrow>
                   parseSignatures rest2 (Some idBytes) (acc @ [\<lparr>CosignerID = ID, Signature = sigData\<rparr>])))
      else Inr acc)"
  by pat_completeness auto
termination
  by (relation "measure (\<lambda>(b, _, _). length b)")
    (auto dest!: read8_shorter read16_le)

declare parseHashes.simps [simp del]
declare parseSignatures.simps [simp del]

definition ParseMTCProof :: "bytes \<Rightarrow> MTCProof result" where
  "ParseMTCProof data =
     (case ReadUint16LengthPrefixed data of
        None \<Rightarrow> Inl (Errorf ''MTCProof: short read extensions'')
      | Some (extBytes, s1) \<Rightarrow>
          rbind (rwrap ''MTCProof'' (parseEntryExtensions extBytes)) (\<lambda>exts.
          case readUint48 s1 of
            None \<Rightarrow> Inl (Errorf ''MTCProof: short read start'')
          | Some (start, s2) \<Rightarrow>
          (case readUint48 s2 of
            None \<Rightarrow> Inl (Errorf ''MTCProof: short read end'')
          | Some (end, s3) \<Rightarrow>
          (case ReadUint16LengthPrefixed s3 of
            None \<Rightarrow> Inl (Errorf ''MTCProof: short read inclusion_proof length'')
          | Some (ipBytes, s4) \<Rightarrow>
              if length ipBytes mod HashSize \<noteq> 0 then Inl (Errorf ''MTCProof: inclusion_proof length not multiple'')
              else rbind (parseHashes ipBytes []) (\<lambda>proof.
              case ReadUint16LengthPrefixed s4 of
                None \<Rightarrow> Inl (Errorf ''MTCProof: short read signatures'')
              | Some (sigBytes, s5) \<Rightarrow>
                  rbind (parseSignatures sigBytes None []) (\<lambda>sigs.
                    if s5 \<noteq> [] then Inl (Errorf ''MTCProof: trailing bytes'')
                    else Inr \<lparr>PExtensions = exts, PStart = start, PEnd = end, InclusionProof = proof,
                      Signatures = sigs\<rparr>))))))"

section \<open>48-bit integers\<close>

lemma addUint48_be: "addUint48 v = be 6 (unat v)"
proof -
  have "(ucast (drop_bit k v) :: byte) = of_nat (unat v div 2 ^ k)" for k
    by (simp add: word_unat_eq_iff unsigned_ucast_eq unsigned_of_nat flip: unat_drop_u64)
  from this [of 0] this show ?thesis
    by (simp add: addUint48_def be_step div_mult2_eq [symmetric])
qed

lemma or6_unbe:
  "unat (push_bit 40 (ucast a) OR push_bit 32 (ucast b) OR push_bit 24 (ucast c)
      OR push_bit 16 (ucast d) OR push_bit 8 (ucast e) OR ucast f :: u64) = unbe [a, b, c, d, e, f]"
  for a b c d e f :: byte
proof -
  let ?h = "\<lambda>x y. push_bit 8 x OR ucast (y :: byte) :: u64"
  have eq: "push_bit 40 (ucast a) OR push_bit 32 (ucast b) OR push_bit 24 (ucast c)
      OR push_bit 16 (ucast d) OR push_bit 8 (ucast e) OR ucast f = ?h (?h (?h (?h (?h (ucast a) b) c) d) e) f"
    by (simp add: push_bit_or or.assoc)
  have lt: "unat x < 256" for x :: byte using unsigned_less [of x, where ?'a = nat] by simp
  have a: "unat (ucast a :: u64) = unat a"
    using lt [of a] by (simp add: unsigned_ucast_eq take_bit_nat_eq_self)
  have b: "unat (?h (ucast a) b) = unat a * 256 + unat b"
    using lt [of a] a by (subst or_byte) simp_all
  have c: "unat (?h (?h (ucast a) b) c) = (unat a * 256 + unat b) * 256 + unat c"
    using lt [of a] lt [of b] b by (subst or_byte) simp_all
  have d: "unat (?h (?h (?h (ucast a) b) c) d) = ((unat a * 256 + unat b) * 256 + unat c) * 256 + unat d"
    using lt [of a] lt [of b] lt [of c] c by (subst or_byte) simp_all
  have e: "unat (?h (?h (?h (?h (ucast a) b) c) d) e)
      = (((unat a * 256 + unat b) * 256 + unat c) * 256 + unat d) * 256 + unat e"
    using lt [of a] lt [of b] lt [of c] lt [of d] d by (subst or_byte) simp_all
  show ?thesis
    unfolding eq using lt [of a] lt [of b] lt [of c] lt [of d] lt [of e] e
    by (subst or_byte) (simp_all add: unbe_def)
qed

lemma readUint48_eq:
  "readUint48 s = Some (v, rest) \<longleftrightarrow> v \<le> maxUint48 \<and> s = addUint48 v @ rest"
proof
  assume "readUint48 s = Some (v, rest)"
  then obtain buf where buf: "read_bytes 6 s = Some (buf, rest)"
    and v: "v = push_bit 40 (ucast (buf ! 0)) OR push_bit 32 (ucast (buf ! 1)) OR push_bit 24 (ucast (buf ! 2))
            OR push_bit 16 (ucast (buf ! 3)) OR push_bit 8 (ucast (buf ! 4)) OR ucast (buf ! 5)"
    by (auto simp: readUint48_def split: option.splits)
  have s: "s = buf @ rest" "length buf = 6" using read_bytes_SomeD [OF buf] by auto
  then have b: "buf = [buf ! 0, buf ! 1, buf ! 2, buf ! 3, buf ! 4, buf ! 5]"
    by (intro nth_equalityI) (auto simp: less_Suc_eq numeral_eq_Suc)
  have u: "unat v = unbe buf" unfolding v or6_unbe using b by simp
  have "unbe buf < 2 ^ 48" using unbe_less [of buf] s(2) by simp
  then have "v \<le> maxUint48" by (simp add: u64_le_iff maxUint48_def u)
  moreover have "addUint48 v = buf" using be_unbe [of buf] s(2) by (simp add: addUint48_be u)
  ultimately show "v \<le> maxUint48 \<and> s = addUint48 v @ rest" using s(1) by simp
next
  assume "v \<le> maxUint48 \<and> s = addUint48 v @ rest"
  then have s: "s = addUint48 v @ rest" and "unat v < 2 ^ 48" by (simp_all add: u64_le_iff maxUint48_def)
  then have u: "unbe (addUint48 v) = unat v" unfolding addUint48_be by (intro unbe_be) simp
  obtain a b c d e f where buf: "addUint48 v = [a, b, c, d, e, f]" by (simp add: addUint48_def)
  have "read_bytes 6 s = Some (addUint48 v, rest)" unfolding s by (intro read_bytes_append) (simp add: addUint48_def)
  moreover have "push_bit 40 (ucast a) OR push_bit 32 (ucast b) OR push_bit 24 (ucast c)
      OR push_bit 16 (ucast d) OR push_bit 8 (ucast e) OR ucast f = v"
    unfolding u64_eq_iff or6_unbe using u buf by simp
  ultimately show "readUint48 s = Some (v, rest)" by (simp add: readUint48_def buf)
qed

section \<open>Cosigner IDs\<close>

lemma lexLess_asym: "lexLess a b \<Longrightarrow> \<not> lexLess b a"
  by (induction a b rule: lexLess.induct) auto

lemma cosignerIDLess_asym: "cosignerIDLess a b \<Longrightarrow> \<not> cosignerIDLess b a"
  using lexLess_asym by (auto simp: cosignerIDLess_def split: if_splits)

text \<open>The order the parser checks, from the previous ID on.\<close>

fun ordered :: "bytes option \<Rightarrow> wireSig list \<Rightarrow> bool" where
  "ordered prev [] = True"
| "ordered prev (w # ws) =
     (prev \<noteq> Some (fst w) \<and> \<not> (prev \<noteq> None \<and> cosignerIDLess (fst w) (the prev)) \<and> ordered (Some (fst w)) ws)"

lemma ordered_Cons_iff:
  "ordered (Some (fst w)) ws \<longleftrightarrow>
     noDuplicateIDs (w # ws) \<and> no_descent (\<lambda>a b. cosignerIDLess (fst a) (fst b)) (w # ws)"
  by (induction ws arbitrary: w) auto

lemma ordered_iff:
  "ordered None ws \<longleftrightarrow> noDuplicateIDs ws \<and> no_descent (\<lambda>a b. cosignerIDLess (fst a) (fst b)) ws"
  by (cases ws) (simp_all add: ordered_Cons_iff)

section \<open>The signatures vector\<close>

definition sig_bytes :: "wireSig \<Rightarrow> bytes" where
  "sig_bytes w = be 1 (length (fst w)) @ fst w @ be 2 (length (snd w)) @ snd w"

definition sig_ok :: "wireSig \<Rightarrow> bool" where
  "sig_ok w \<longleftrightarrow> 0 < length (fst w) \<and> length (fst w) \<le> 0xff \<and> length (snd w) \<le> 0xffff"

lemma toWire_eq: "toWire s = Inr w \<longleftrightarrow> Binary (CosignerID s) = Inr (fst w) \<and> snd w = Signature s \<and> sig_ok w"
  by (cases w) (auto simp: toWire_def rbind_eq_Inr sig_ok_def)

lemma wireBytes_ok: "sig_ok w \<Longrightarrow> wireBytes w = Inr (sig_bytes w)"
  by (simp add: wireBytes_def badd_def prefixed_def sig_ok_def sig_bytes_def)

lemma rmap_wireBytes: "(\<And>w. w \<in> set ws \<Longrightarrow> sig_ok w) \<Longrightarrow> rmap wireBytes ws = Inr (map sig_bytes ws)"
  by (intro rmap_Inr_map wireBytes_ok)

lemma sig_bytes_not_Nil: "0 < length (sig_bytes w @ b)"
  by (simp add: sig_bytes_def)

lemma read_sig:
  assumes "sig_ok w"
  shows "ReadUint8LengthPrefixed (sig_bytes w @ b) = Some (fst w, be 2 (length (snd w)) @ snd w @ b)"
    and "ReadUint16LengthPrefixed (be 2 (length (snd w)) @ snd w @ b) = Some (snd w, b)"
proof -
  have "prefixed 1 (fst w) = Inr (be 1 (length (fst w)) @ fst w)"
    "prefixed 2 (snd w) = Inr (be 2 (length (snd w)) @ snd w)"
    using assms by (simp_all add: prefixed_def sig_ok_def)
  from this [THEN read_prefixed_prefixed] show
    "ReadUint8LengthPrefixed (sig_bytes w @ b) = Some (fst w, be 2 (length (snd w)) @ snd w @ b)"
    "ReadUint16LengthPrefixed (be 2 (length (snd w)) @ snd w @ b) = Some (snd w, b)"
    by (simp_all add: sig_bytes_def)
qed

lemma parseSignatures_wire:
  assumes "\<And>w. w \<in> set ws \<Longrightarrow> sig_ok w \<and> TrustAnchorIDFromBinary (fst w) = Inr (f w)" "ordered prev ws"
  shows "parseSignatures (concat (map sig_bytes ws)) prev acc
    = Inr (acc @ map (\<lambda>w. \<lparr>CosignerID = f w, Signature = snd w\<rparr>) ws)"
  using assms
proof (induction ws arbitrary: prev acc)
  case Nil
  then show ?case by (simp add: parseSignatures.simps)
next
  case (Cons w ws)
  have ok: "sig_ok w" and dec: "TrustAnchorIDFromBinary (fst w) = Inr (f w)" using Cons.prems(1) by simp_all
  have pos: "0 < length (sig_bytes w @ concat (map sig_bytes ws))" by (rule sig_bytes_not_Nil)
  have ne: "length (fst w) \<noteq> 0" using ok by (simp add: sig_ok_def)
  have "parseSignatures (sig_bytes w @ concat (map sig_bytes ws)) prev acc
      = parseSignatures (concat (map sig_bytes ws)) (Some (fst w)) (acc @ [\<lparr>CosignerID = f w, Signature = snd w\<rparr>])"
    using Cons.prems(2) ne
    by (subst parseSignatures.simps)
      (simp only: pos if_True read_sig [OF ok] option.case prod.case if_False ordered.simps dec rwrap_simps
        rbind_simps simp_thms)
  with Cons show ?case by simp
qed

lemma parseSignatures_decoded:
  assumes "parseSignatures b prev acc = Inr sigs"
  shows "\<exists>ws new. sigs = acc @ new \<and> b = concat (map sig_bytes ws) \<and> ordered prev ws \<and>
    list_all2 (\<lambda>s w. toWire s = Inr w) new ws"
  using assms
proof (induction b prev acc rule: parseSignatures.induct)
  case (1 b prev acc)
  show ?case
  proof (cases "length b > 0")
    case False
    with 1(2) show ?thesis
      by (intro exI [of _ "[]"]) (simp add: parseSignatures.simps)
  next
    case True
    with 1(2) obtain i r1 ID d r2 where
      i: "ReadUint8LengthPrefixed b = Some (i, r1)" and ne: "length i \<noteq> 0"
      and o: "prev \<noteq> Some i" "\<not> (prev \<noteq> None \<and> cosignerIDLess i (the prev))"
      and dec: "TrustAnchorIDFromBinary i = Inr ID"
      and d: "ReadUint16LengthPrefixed r1 = Some (d, r2)"
      and run: "parseSignatures r2 (Some i) (acc @ [\<lparr>CosignerID = ID, Signature = d\<rparr>]) = Inr sigs"
      by (subst (asm) parseSignatures.simps)
        (auto simp: rbind_eq_Inr split: option.splits prod.splits if_splits)
    have ih: "\<exists>ws new. sigs = (acc @ [\<lparr>CosignerID = ID, Signature = d\<rparr>]) @ new \<and>
        r2 = concat (map sig_bytes ws) \<and> ordered (Some i) ws \<and> list_all2 (\<lambda>s w. toWire s = Inr w) new ws"
      by (rule 1(1) [OF True i refl ne o _ d refl run]) (simp add: dec)
    then obtain ws new where ws: "sigs = (acc @ [\<lparr>CosignerID = ID, Signature = d\<rparr>]) @ new"
      "r2 = concat (map sig_bytes ws)" "ordered (Some i) ws" "list_all2 (\<lambda>s w. toWire s = Inr w) new ws"
      by blast
    obtain pi pd where p: "prefixed 1 i = Inr pi" "b = pi @ r1" "prefixed 2 d = Inr pd" "r1 = pd @ r2"
      using read_prefixed_SomeD [OF i] read_prefixed_SomeD [OF d] by blast
    have sz: "length i \<le> 0xff" "length d \<le> 0xffff" and pp: "pi = be 1 (length i) @ i" "pd = be 2 (length d) @ d"
      using p(1,3) by (auto simp: prefixed_def split: if_splits)
    have "b = sig_bytes (i, d) @ concat (map sig_bytes ws)" using p pp ws(2) by (simp add: sig_bytes_def)
    moreover have "toWire \<lparr>CosignerID = ID, Signature = d\<rparr> = Inr (i, d)"
      using Binary_FromBinary [OF dec] ne sz by (simp add: toWire_eq sig_ok_def)
    moreover have "ordered prev ((i, d) # ws)" using o ws(3) by simp
    ultimately show ?thesis
      using ws(1,4) by (intro exI [of _ "(i, d) # ws"] exI [of _ "\<lparr>CosignerID = ID, Signature = d\<rparr> # new"]) simp
  qed
qed

section \<open>The whole proof\<close>

lemma length_concat_hashes: "length (concat (map hash_bytes hs)) = length hs * 32"
  by (induction hs) simp_all

lemma parseHashes_concat: "parseHashes (concat (map hash_bytes hs)) acc = Inr (acc @ hs)"
proof (induction hs arbitrary: acc)
  case Nil
  then show ?case by (simp add: parseHashes.simps)
next
  case (Cons h hs)
  have pos: "0 < length (hash_bytes h @ concat (map hash_bytes hs))" by simp
  have "read_bytes HashSize (hash_bytes h @ concat (map hash_bytes hs))
      = Some (hash_bytes h, concat (map hash_bytes hs))"
    by (simp add: HashSize_def)
  then have "parseHashes (hash_bytes h @ concat (map hash_bytes hs)) acc
      = parseHashes (concat (map hash_bytes hs)) (acc @ [h])"
    by (subst parseHashes.simps) (simp only: pos if_True option.case prod.case mk_Hash_hash_bytes)
  with Cons show ?case by simp
qed

lemma parseHashes_decoded:
  "parseHashes b acc = Inr hs \<Longrightarrow> \<exists>new. hs = acc @ new \<and> b = concat (map hash_bytes new)"
proof (induction b acc rule: parseHashes.induct)
  case (1 b acc)
  show ?case
  proof (cases "length b > 0")
    case False
    with 1(2) show ?thesis by (simp add: parseHashes.simps)
  next
    case True
    with 1(2) obtain h r where h: "read_bytes HashSize b = Some (h, r)"
      and run: "parseHashes r (acc @ [mk_Hash h]) = Inr hs"
      by (subst (asm) parseHashes.simps) (auto split: option.splits prod.splits)
    from 1(1) [OF True h refl run] obtain new where
      new: "hs = (acc @ [mk_Hash h]) @ new" "r = concat (map hash_bytes new)" by blast
    have "b = h @ r" "length h = 32" using read_bytes_SomeD [OF h] by (auto simp: HashSize_def)
    with new show ?thesis by (intro exI [of _ "mk_Hash h # new"]) (simp add: hash_bytes_mk_Hash)
  qed
qed

definition proof_bytes :: "bytes \<Rightarrow> u64 \<Rightarrow> u64 \<Rightarrow> Hash list \<Rightarrow> wireSig list \<Rightarrow> bytes" where
  "proof_bytes ext s e hs ws =
     be 2 (length ext) @ ext @ addUint48 s @ addUint48 e
     @ be 2 (length (concat (map hash_bytes hs))) @ concat (map hash_bytes hs)
     @ be 2 (length (concat (map sig_bytes ws))) @ concat (map sig_bytes ws)"

definition proof_ok :: "bytes \<Rightarrow> u64 \<Rightarrow> u64 \<Rightarrow> Hash list \<Rightarrow> wireSig list \<Rightarrow> bool" where
  "proof_ok ext s e hs ws \<longleftrightarrow> length ext \<le> 0xffff \<and> s \<le> maxUint48 \<and> e \<le> maxUint48 \<and>
     length hs * 32 \<le> 0xffff \<and> noDuplicateIDs ws \<and> length (concat (map sig_bytes ws)) \<le> 0xffff"

abbreviation sort_wire :: "wireSig list \<Rightarrow> wireSig list" where
  "sort_wire \<equiv> stable_sort (\<lambda>a b. cosignerIDLess (fst a) (fst b))"

lemma rmap_toWire_ok: "rmap toWire sigs = Inr ws \<Longrightarrow> w \<in> set ws \<Longrightarrow> sig_ok w"
  by (induction sigs arbitrary: ws) (auto simp: rbind_eq_Inr toWire_eq)

lemma MarshalTLS_eq:
  "MarshalTLS p = Inr b \<longleftrightarrow> (\<exists>ext ws. marshalEntryExtensions (PExtensions p) = Inr ext \<and>
     rmap toWire (Signatures p) = Inr ws \<and>
     proof_ok ext (PStart p) (PEnd p) (InclusionProof p) (sort_wire ws) \<and>
     b = proof_bytes ext (PStart p) (PEnd p) (InclusionProof p) (sort_wire ws))"
proof -
  have sw: "rmap wireBytes (sort_wire ws) = Inr (map sig_bytes (sort_wire ws))"
    if "rmap toWire (Signatures p) = Inr ws" for ws
    using rmap_toWire_ok [OF that] by (intro rmap_wireBytes) simp
  note defs = MarshalTLS_def Let_def badd_def proof_ok_def proof_bytes_def length_concat_hashes HashSize_def
  show ?thesis
  proof
    assume "MarshalTLS p = Inr b"
    then show "\<exists>ext ws. marshalEntryExtensions (PExtensions p) = Inr ext \<and> rmap toWire (Signatures p) = Inr ws \<and>
        proof_ok ext (PStart p) (PEnd p) (InclusionProof p) (sort_wire ws) \<and>
        b = proof_bytes ext (PStart p) (PEnd p) (InclusionProof p) (sort_wire ws)"
      by (auto simp: defs rbind_eq_Inr prefixed_def not_less sw split: if_splits)
  next
    assume "\<exists>ext ws. marshalEntryExtensions (PExtensions p) = Inr ext \<and> rmap toWire (Signatures p) = Inr ws \<and>
        proof_ok ext (PStart p) (PEnd p) (InclusionProof p) (sort_wire ws) \<and>
        b = proof_bytes ext (PStart p) (PEnd p) (InclusionProof p) (sort_wire ws)"
    then show "MarshalTLS p = Inr b"
      by (auto simp: defs prefixed_ok not_less sw)
  qed
qed

lemma ParseMTCProof_bytes:
  assumes ext: "parseEntryExtensions ext = Inr exts" and ok: "proof_ok ext s e hs ws"
    and sigs: "parseSignatures (concat (map sig_bytes ws)) None [] = Inr sigs"
  shows "ParseMTCProof (proof_bytes ext s e hs ws)
    = Inr \<lparr>PExtensions = exts, PStart = s, PEnd = e, InclusionProof = hs, Signatures = sigs\<rparr>"
proof -
  let ?ip = "concat (map hash_bytes hs)" and ?sg = "concat (map sig_bytes ws)"
  have p: "prefixed 2 ext = Inr (be 2 (length ext) @ ext)" "prefixed 2 ?ip = Inr (be 2 (length ?ip) @ ?ip)"
    "prefixed 2 ?sg = Inr (be 2 (length ?sg) @ ?sg)"
    using ok by (simp_all add: prefixed_def proof_ok_def length_concat_hashes)
  note r = p [THEN read_prefixed_prefixed]
  have u: "readUint48 (addUint48 s @ x) = Some (s, x)" "readUint48 (addUint48 e @ x) = Some (e, x)" for x
    using ok by (simp_all add: proof_ok_def readUint48_eq)
  have m: "length ?ip mod HashSize = 0" by (simp add: length_concat_hashes HashSize_def)
  show ?thesis
    using r(1) [of "addUint48 s @ addUint48 e @ be 2 (length ?ip) @ ?ip @ be 2 (length ?sg) @ ?sg"]
      r(2) [of "be 2 (length ?sg) @ ?sg"] r(3) [of "[]"] m
    by (simp add: ParseMTCProof_def proof_bytes_def ext u parseHashes_concat sigs)
qed

definition wireID :: "MTCSignature \<Rightarrow> bytes" where
  "wireID s = (case Binary (CosignerID s) of Inl _ \<Rightarrow> [] | Inr b \<Rightarrow> b)"

abbreviation sort_sigs :: "MTCSignature list \<Rightarrow> MTCSignature list" where
  "sort_sigs \<equiv> stable_sort (\<lambda>s t. cosignerIDLess (wireID s) (wireID t))"

lemma rmap_toWire_map:
  "rmap toWire sigs = Inr ws \<Longrightarrow> ws = map (\<lambda>s. (wireID s, Signature s)) sigs"
  by (induction sigs arbitrary: ws) (auto simp: rbind_eq_Inr toWire_eq wireID_def prod_eq_iff)

lemma parse_marshal_proof:
  assumes m: "MarshalTLS p = Inr b"
    and canon: "\<And>s. s \<in> set (Signatures p) \<Longrightarrow> rbind (Binary (CosignerID s)) TrustAnchorIDFromBinary = Inr (CosignerID s)"
  shows "ParseMTCProof b = Inr (p\<lparr>Signatures := sort_sigs (Signatures p)\<rparr>)"
proof -
  obtain ext ws where e: "marshalEntryExtensions (PExtensions p) = Inr ext"
    and ws: "rmap toWire (Signatures p) = Inr ws"
    and ok: "proof_ok ext (PStart p) (PEnd p) (InclusionProof p) (sort_wire ws)"
    and b: "b = proof_bytes ext (PStart p) (PEnd p) (InclusionProof p) (sort_wire ws)"
    using m unfolding MarshalTLS_eq by blast
  have wsm: "ws = map (\<lambda>s. (wireID s, Signature s)) (Signatures p)" using ws by (rule rmap_toWire_map)
  have sorted: "sort_wire ws = map (\<lambda>s. (wireID s, Signature s)) (sort_sigs (Signatures p))"
    unfolding wsm by (intro map_stable_sort [symmetric]) simp
  have sok: "sig_ok w" if "w \<in> set (sort_wire ws)" for w using rmap_toWire_ok [OF ws] that by simp
  define dec where "dec w = (case TrustAnchorIDFromBinary (fst w) of Inl _ \<Rightarrow> [] | Inr x \<Rightarrow> x)" for w :: wireSig
  have d: "TrustAnchorIDFromBinary (wireID s) = Inr (CosignerID s)" if "s \<in> set (Signatures p)" for s
    using canon [OF that] by (auto simp: wireID_def rbind_eq_Inr)
  have ord: "ordered None (sort_wire ws)"
    using ok stable_sort_no_descent [of "\<lambda>a b. cosignerIDLess (fst a) (fst b)" ws] cosignerIDLess_asym
    by (simp add: ordered_iff proof_ok_def)
  have dd: "TrustAnchorIDFromBinary (fst w) = Inr (dec w)" if "w \<in> set (sort_wire ws)" for w
    using that d unfolding sorted by (auto simp: dec_def)
  have "parseSignatures (concat (map sig_bytes (sort_wire ws))) None []
      = Inr ([] @ map (\<lambda>w. \<lparr>CosignerID = dec w, Signature = snd w\<rparr>) (sort_wire ws))"
    using sok dd ord by (intro parseSignatures_wire) auto
  also have "[] @ map (\<lambda>w. \<lparr>CosignerID = dec w, Signature = snd w\<rparr>) (sort_wire ws) = sort_sigs (Signatures p)"
    unfolding sorted append_Nil map_map using d by (intro map_idI) (auto simp: dec_def)
  finally have "ParseMTCProof b = Inr \<lparr>PExtensions = PExtensions p, PStart = PStart p, PEnd = PEnd p,
      InclusionProof = InclusionProof p, Signatures = sort_sigs (Signatures p)\<rparr>"
    unfolding b by (intro ParseMTCProof_bytes ok parse_marshal_extensions e)
  then show ?thesis by simp
qed

lemma marshal_parse_proof:
  assumes "ParseMTCProof b = Inr p"
  shows "MarshalTLS p = Inr b"
proof -
  obtain ext s1 exts st s2 en s3 ip s4 hs sg sigs where
    ext: "ReadUint16LengthPrefixed b = Some (ext, s1)" "parseEntryExtensions ext = Inr exts"
    and st: "readUint48 s1 = Some (st, s2)" and en: "readUint48 s2 = Some (en, s3)"
    and ip: "ReadUint16LengthPrefixed s3 = Some (ip, s4)" "parseHashes ip [] = Inr hs"
    and sg: "ReadUint16LengthPrefixed s4 = Some (sg, [])" "parseSignatures sg None [] = Inr sigs"
    and p: "p = \<lparr>PExtensions = exts, PStart = st, PEnd = en, InclusionProof = hs, Signatures = sigs\<rparr>"
    using assms by (auto simp: ParseMTCProof_def rbind_eq_Inr opt_case_eq_Inr if_Inl_eq_Inr)
  obtain ws where ws: "sg = concat (map sig_bytes ws)" "ordered None ws"
    "list_all2 (\<lambda>s w. toWire s = Inr w) sigs ws"
    using parseSignatures_decoded [OF sg(2)] by auto
  have wm: "rmap toWire sigs = Inr ws" using ws(3) by (simp add: rmap_eq_Inr)
  have srt: "sort_wire ws = ws" using ws(2) by (intro stable_sort_sorted) (simp add: ordered_iff)
  have iph: "ip = concat (map hash_bytes hs)" using parseHashes_decoded [OF ip(2)] by simp
  obtain pe pi ps where pre: "prefixed 2 ext = Inr pe" "b = pe @ s1" "prefixed 2 ip = Inr pi" "s3 = pi @ s4"
    "prefixed 2 sg = Inr ps" "s4 = ps"
    using read_prefixed_SomeD [OF ext(1)] read_prefixed_SomeD [OF ip(1)] read_prefixed_SomeD [OF sg(1)] by auto
  have u: "st \<le> maxUint48" "s1 = addUint48 st @ s2" "en \<le> maxUint48" "s2 = addUint48 en @ s3"
    using st en by (simp_all add: readUint48_eq)
  have sz: "length ext \<le> 0xffff" "length ip \<le> 0xffff" "length sg \<le> 0xffff"
    and pp: "pe = be 2 (length ext) @ ext" "pi = be 2 (length ip) @ ip" "ps = be 2 (length sg) @ sg"
    using pre(1,3,5) by (auto simp: prefixed_def split: if_splits)
  have "b = proof_bytes ext st en hs ws"
    using pre pp u iph ws(1) by (simp add: proof_bytes_def)
  moreover have "proof_ok ext st en hs ws"
    using sz u iph ws(1,2) by (simp add: proof_ok_def length_concat_hashes ordered_iff)
  ultimately show ?thesis
    unfolding MarshalTLS_eq p using marshal_parse_extensions [OF ext(2)] wm srt by auto
qed

section \<open>The signed message\<close>

lemma MarshalSignatureInput_eq:
  "MarshalSignatureInput c t = Inr b \<longleftrightarrow>
     length (OIDName c) \<le> 0xff \<and> length (OIDName (SubLogID t)) \<le> 0xff \<and>
     b = SubtreeSignatureLabel @ be 1 (length (OIDName c)) @ bytes_of (OIDName c) @ be 8 0
       @ be 1 (length (OIDName (SubLogID t))) @ bytes_of (OIDName (SubLogID t))
       @ be 8 (unat (SubStart t)) @ be 8 (unat (SubEnd t)) @ hash_bytes (SubHash t)"
proof -
  have "length SubtreeSignatureLabel = 12" by (simp add: SubtreeSignatureLabel_def)
  moreover have "0 < length (OIDName x)" for x by (simp add: OIDName_def OIDNamePrefix_def)
  ultimately show ?thesis
    by (auto simp: MarshalSignatureInput_def Let_def badd_def prefixed_def rbind_eq_Inr not_less Suc_le_eq
        split: if_splits)
qed

lemma prefixed_inject:
  assumes "length a \<le> 0xff" "length b \<le> 0xff" "be 1 (length a) @ a @ r = be 1 (length b) @ b @ s"
  shows "a = b \<and> r = s"
proof -
  have "be 1 (length a) = be 1 (length b)" "a @ r = b @ s" using assms(3) by (simp_all add: append_eq_append_conv)
  then have "length a = length b" using be_inject [of "length a" 1 "length b"] assms(1,2) by simp
  with \<open>a @ r = b @ s\<close> show ?thesis by simp
qed

lemma OIDName_inject: "OIDName a = OIDName b \<longleftrightarrow> a = b"
  by (simp add: OIDName_def)

section \<open>Properties\<close>

text \<open>
  C22: a cosigner's signature input determines the cosigner, the log, the range and the hash: two
  equal messages come from equal arguments.
\<close>

theorem signature_input_injective:
  assumes "MarshalSignatureInput c t = Inr b" "MarshalSignatureInput c' t' = Inr b"
  shows "c = c' \<and> t = t'"
proof -
  let ?n = "\<lambda>x. bytes_of (OIDName x)"
  let ?tail = "\<lambda>t. be 8 (unat (SubStart t)) @ be 8 (unat (SubEnd t)) @ hash_bytes (SubHash t)"
  have sz: "length (?n c) \<le> 0xff" "length (?n c') \<le> 0xff" "length (?n (SubLogID t)) \<le> 0xff"
    "length (?n (SubLogID t')) \<le> 0xff"
    and eq: "be 1 (length (?n c)) @ ?n c @ be 8 0 @ be 1 (length (?n (SubLogID t))) @ ?n (SubLogID t) @ ?tail t
      = be 1 (length (?n c')) @ ?n c' @ be 8 0 @ be 1 (length (?n (SubLogID t'))) @ ?n (SubLogID t') @ ?tail t'"
    using assms by (simp_all add: MarshalSignatureInput_eq)
  from prefixed_inject [OF sz(1,2) eq] have c: "?n c = ?n c'"
    and eq2: "be 1 (length (?n (SubLogID t))) @ ?n (SubLogID t) @ ?tail t
      = be 1 (length (?n (SubLogID t'))) @ ?n (SubLogID t') @ ?tail t'" by simp_all
  from prefixed_inject [OF sz(3,4) eq2] have l: "?n (SubLogID t) = ?n (SubLogID t')"
    and tl: "?tail t = ?tail t'" by simp_all
  have u: "unat (x :: u64) < 256 ^ 8" for x using unat_less_u64 [of x] by simp
  have "SubStart t = SubStart t'" "SubEnd t = SubEnd t'" "SubHash t = SubHash t'"
    using tl u by (simp_all add: append_eq_append_conv be_inject u64_eq_iff)
  with c l show ?thesis by (simp add: OIDName_inject)
qed

theorem signature_input_injective_witness:
  "(case MarshalSignatureInput ''1.2'' \<lparr>SubLogID = ''9'', SubStart = 0, SubEnd = 4, SubHash = mk_Hash [5]\<rparr> of
      Inl _ \<Rightarrow> False
    | Inr b \<Rightarrow> MarshalSignatureInput ''1.3'' \<lparr>SubLogID = ''9'', SubStart = 0, SubEnd = 4, SubHash = mk_Hash [5]\<rparr> \<noteq> Inr b)"
proof -
  let ?t = "\<lparr>SubLogID = ''9'', SubStart = 0, SubEnd = 4, SubHash = mk_Hash [5]\<rparr>"
  obtain b where b: "MarshalSignatureInput ''1.2'' ?t = Inr b"
    by (simp add: MarshalSignatureInput_eq OIDName_def OIDNamePrefix_def TrustAnchorOIDBase_def)
  with signature_input_injective [OF b, of "''1.3''" ?t] show ?thesis by auto
qed

text \<open>
  C20: encoding then decoding a proof returns it with its signatures in the canonical order, provided
  the cosigner IDs are canonical.
\<close>

theorem mtc_proof_roundtrip:
  assumes "MarshalTLS p = Inr b"
    and "\<forall>s\<in>set (Signatures p). rbind (Binary (CosignerID s)) TrustAnchorIDFromBinary = Inr (CosignerID s)"
  shows "ParseMTCProof b = Inr (p\<lparr>Signatures := stable_sort (\<lambda>s t. cosignerIDLess (wireID s) (wireID t)) (Signatures p)\<rparr>)"
  using assms by (intro parse_marshal_proof) simp_all

theorem mtc_proof_roundtrip_witness:
  "ParseMTCProof (proof_bytes [] 4 8 [mk_Hash [1], mk_Hash [2]] [([1], [7]), ([1, 2], [8])])
     = Inr \<lparr>PExtensions = [], PStart = 4, PEnd = 8, InclusionProof = [mk_Hash [1], mk_Hash [2]],
         Signatures = [\<lparr>CosignerID = ''1'', Signature = [7]\<rparr>, \<lparr>CosignerID = ''1.2'', Signature = [8]\<rparr>]\<rparr>"
proof -
  let ?p = "\<lparr>PExtensions = [], PStart = 4, PEnd = 8, InclusionProof = [mk_Hash [1], mk_Hash [2]],
         Signatures = [\<lparr>CosignerID = ''1.2'', Signature = [8]\<rparr>, \<lparr>CosignerID = ''1'', Signature = [7]\<rparr>]\<rparr>"
  have m: "MarshalTLS ?p = Inr (proof_bytes [] 4 8 [mk_Hash [1], mk_Hash [2]] [([1], [7]), ([1, 2], [8])])"
    by code_simp
  have c: "\<forall>s\<in>set (Signatures ?p). rbind (Binary (CosignerID s)) TrustAnchorIDFromBinary = Inr (CosignerID s)"
    by code_simp
  have "stable_sort (\<lambda>s t. cosignerIDLess (wireID s) (wireID t)) (Signatures ?p)
      = [\<lparr>CosignerID = ''1'', Signature = [7]\<rparr>, \<lparr>CosignerID = ''1.2'', Signature = [8]\<rparr>]"
    by code_simp
  with mtc_proof_roundtrip [OF m c] show ?thesis by simp
qed

text \<open>
  C21: the parser accepts canonical encodings only: whatever bytes it accepts are exactly the encoding
  of the proof it returns, so no two byte strings denote the same proof.
\<close>

theorem mtc_proof_canonical:
  assumes "ParseMTCProof b = Inr p"
  shows "MarshalTLS p = Inr b"
  using assms by (rule marshal_parse_proof)

theorem mtc_proof_canonical_witness:
  "MarshalTLS \<lparr>PExtensions = [], PStart = 0, PEnd = 1, InclusionProof = [], Signatures = []\<rparr>
     = Inr [0, 0, 0, 0, 0, 0, 0, 0, 0, 0, 0, 0, 0, 1, 0, 0, 0, 0]"
proof -
  have "ParseMTCProof [0, 0, 0, 0, 0, 0, 0, 0, 0, 0, 0, 0, 0, 1, 0, 0, 0, 0]
      = Inr \<lparr>PExtensions = [], PStart = 0, PEnd = 1, InclusionProof = [], Signatures = []\<rparr>"
    using ParseMTCProof_bytes [of "[]" "[]" 0 1 "[]" "[]" "[]"]
    by (simp add: proof_bytes_def proof_ok_def addUint48_def maxUint48_def be_unfold parseEntryExtensions_def
        parseExtensionsLoop.simps parseSignatures.simps)
  then show ?thesis by (rule mtc_proof_canonical)
qed

end
