(* ===== verification/CertProperties.thy ===== *)
theory CertProperties
  imports Proof
begin

text \<open>
  Certificate property lists (cert/properties.go) and the timestamped signatures and key IDs of signed
  notes (cert/keyid.go).
\<close>

section \<open>The code: property lists\<close>

type_synonym CertificatePropertyType = u16

definition PropertyTrustAnchorID :: CertificatePropertyType where
  "PropertyTrustAnchorID = 0"

record CertificateProperty =
  PropType :: CertificatePropertyType
  PropTrustAnchorID :: TrustAnchorID

definition encodeProperty :: "CertificateProperty \<Rightarrow> bytes result" where
  "encodeProperty p =
     (if PropType p = PropertyTrustAnchorID then
        (if length (PropTrustAnchorID p) = 0 then Inl (Errorf ''cert: trust_anchor_id property has empty value'')
         else rbind (rwrap ''cert: trust_anchor_id property'' (Binary (PropTrustAnchorID p))) (\<lambda>bin.
           if length bin > 0xff then Inl (Errorf ''cert: trust_anchor_id > 255 bytes'') else Inr bin))
      else Inl (Errorf ''cert: unknown property type''))"

fun noDuplicateTypes :: "CertificateProperty list \<Rightarrow> bool" where
  "noDuplicateTypes (a # b # ps) = (PropType b \<noteq> PropType a \<and> noDuplicateTypes (b # ps))"
| "noDuplicateTypes ps = True"

definition propertyBytes :: "CertificateProperty \<Rightarrow> bytes result" where
  "propertyBytes p =
     rbind (encodeProperty p) (\<lambda>body.
       badd (Inr (be 2 (unat (PropType p)))) (AddUint16LengthPrefixed body))"

definition BuildPropertyList :: "CertificateProperty list \<Rightarrow> bytes result" where
  "BuildPropertyList props =
     (if length props = 0 then Inl (Errorf ''cert: empty property list'')
      else
        let sorted = stable_sort (\<lambda>a b. PropType a < PropType b) props
        in if \<not> noDuplicateTypes sorted then Inl (Errorf ''cert: duplicate property type'')
           else rbind (rmap propertyBytes sorted) (\<lambda>raws. AddUint16LengthPrefixed (concat raws)))"

function parsePropertiesLoop ::
  "bytes \<Rightarrow> CertificatePropertyType option \<Rightarrow> CertificateProperty list \<Rightarrow> CertificateProperty list result" where
  "parsePropertiesLoop listBytes prevType props =
     (if listBytes = [] then Inr props
      else case ReadUint16 listBytes of
        None \<Rightarrow> Inl (Errorf ''cert: short property type'')
      | Some (t, l1) \<Rightarrow>
          if prevType \<noteq> None \<and> t < the prevType then Inl (Errorf ''cert: property type out of order'')
          else if prevType = Some t then Inl (Errorf ''cert: duplicate property type'')
          else (case ReadUint16LengthPrefixed l1 of
            None \<Rightarrow> Inl (Errorf ''cert: short property body'')
          | Some (body, l2) \<Rightarrow>
              if t = PropertyTrustAnchorID then
                rbind (rwrap ''cert: trust_anchor_id property'' (TrustAnchorIDFromBinary body)) (\<lambda>ID.
                  parsePropertiesLoop l2 (Some t) (props @ [\<lparr>PropType = t, PropTrustAnchorID = ID\<rparr>]))
              else parsePropertiesLoop l2 (Some t) (props @ [\<lparr>PropType = t, PropTrustAnchorID = []\<rparr>])))"
  by pat_completeness auto
termination
  by (relation "measure (\<lambda>(l, _, _). length l)") (auto dest!: read_shorter(3) read16_le)

declare parsePropertiesLoop.simps [simp del]

definition ParsePropertyList :: "bytes \<Rightarrow> CertificateProperty list result" where
  "ParsePropertyList data =
     (case ReadUint16LengthPrefixed data of
        None \<Rightarrow> Inl (Errorf ''cert: short property list'')
      | Some (listBytes, s) \<Rightarrow>
          if s \<noteq> [] then Inl (Errorf ''cert: trailing bytes after property list'')
          else parsePropertiesLoop listBytes None [])"

section \<open>The code: signed-note keys\<close>

datatype SignatureAlgorithm = AlgMLDSA44 | AlgMLDSA65 | AlgMLDSA87 | AlgOther u16

definition sigTypeMLDSA44 :: byte where
  "sigTypeMLDSA44 = 0x06"

definition sigTypeUnassigned :: byte where
  "sigTypeUnassigned = 0xff"

fun expectedPubKeyLen :: "SignatureAlgorithm \<Rightarrow> nat option" where
  "expectedPubKeyLen AlgMLDSA44 = Some 1312"
| "expectedPubKeyLen AlgMLDSA65 = Some 1952"
| "expectedPubKeyLen AlgMLDSA87 = Some 2592"
| "expectedPubKeyLen (AlgOther _) = None"

definition timestampedSigTimestampLen :: nat where
  "timestampedSigTimestampLen = 8"

definition MarshalTimestampedSignature :: "u64 \<Rightarrow> bytes \<Rightarrow> bytes" where
  "MarshalTimestampedSignature timestamp sig = be timestampedSigTimestampLen (unat timestamp) @ sig"

definition ParseTimestampedSignature :: "bytes \<Rightarrow> (u64 \<times> bytes) result" where
  "ParseTimestampedSignature b =
     (if length b < timestampedSigTimestampLen then
        Inl (Errorf ''cert: timestamped_signature too short for timestamp'')
      else Inr (of_nat (unbe (take timestampedSigTimestampLen b)), drop timestampedSigTimestampLen b))"

definition CosignatureKeyID ::
  "(bytes \<Rightarrow> Hash) \<Rightarrow> string \<Rightarrow> SignatureAlgorithm \<Rightarrow> bytes \<Rightarrow> bytes result" where
  "CosignatureKeyID sha256 name alg pub =
     (if expectedPubKeyLen alg \<noteq> None \<and> length pub \<noteq> the (expectedPubKeyLen alg)
      then Inl (Errorf ''cert: public key size'')
      else case alg of
        AlgMLDSA44 \<Rightarrow> Inr (take 4 (hash_bytes (sha256 (bytes_of name @ [0x0a, sigTypeMLDSA44] @ pub))))
      | AlgMLDSA65 \<Rightarrow> Inr (take 4 (hash_bytes (sha256
          (bytes_of name @ [0x0a, sigTypeUnassigned] @ bytes_of ''ml-dsa-65'' @ pub))))
      | AlgMLDSA87 \<Rightarrow> Inr (take 4 (hash_bytes (sha256
          (bytes_of name @ [0x0a, sigTypeUnassigned] @ bytes_of ''ml-dsa-87'' @ pub))))
      | AlgOther _ \<Rightarrow> Inl (Errorf ''cert: no c2sp signed-note key ID for algorithm''))"

section \<open>Property lists\<close>

text \<open>Only one type is known, so an accepted list has exactly one property.\<close>

lemma propertyBytes_eq:
  "propertyBytes p = Inr r \<longleftrightarrow> PropType p = 0 \<and> PropTrustAnchorID p \<noteq> [] \<and>
     (\<exists>bin. Binary (PropTrustAnchorID p) = Inr bin \<and> length bin \<le> 0xff \<and>
       r = be 2 0 @ be 2 (length bin) @ bin)"
  (is "?l \<longleftrightarrow> ?r")
proof
  assume ?l
  then show ?r
    by (auto simp: propertyBytes_def encodeProperty_def PropertyTrustAnchorID_def rbind_eq_Inr badd_def
        prefixed_def split: if_splits)
next
  assume ?r
  then show ?l
    by (auto simp: propertyBytes_def encodeProperty_def PropertyTrustAnchorID_def badd_def prefixed_ok)
qed

lemma BuildPropertyList_single:
  assumes "BuildPropertyList props = Inr b"
  shows "\<exists>p r. props = [p] \<and> propertyBytes p = Inr r \<and> prefixed 2 r = Inr b"
proof -
  let ?s = "stable_sort (\<lambda>a b. PropType a < PropType b) props"
  obtain raws where ne: "props \<noteq> []" and nd: "noDuplicateTypes ?s"
    and raws: "rmap propertyBytes ?s = Inr raws" "prefixed 2 (concat raws) = Inr b"
    using assms by (auto simp: BuildPropertyList_def Let_def rbind_eq_Inr split: if_splits)
  have t: "PropType p = 0" if "p \<in> set ?s" for p
    using rmap_InrD [OF raws(1) that] by (auto simp: propertyBytes_eq)
  obtain p ps where Cons: "?s = p # ps" using ne by (metis length_stable_sort length_0_conv list.exhaust)
  have "ps = []"
  proof (rule ccontr)
    assume "ps \<noteq> []"
    then obtain q qs where s: "?s = p # q # qs" using Cons by (cases ps) auto
    have "p \<in> set ?s" "q \<in> set ?s" unfolding s by simp_all
    then have "PropType p = 0" "PropType q = 0" using t by blast+
    with nd show False unfolding s by simp
  qed
  with Cons have p: "?s = [p]" by simp
  then have "length props = 1" by (metis length_stable_sort length_Cons list.size(3) One_nat_def)
  then obtain q where q: "props = [q]" by (cases props) auto
  with p have "p = q" by (simp add: stable_sort_def)
  with p q raws show ?thesis by (auto simp: rbind_eq_Inr)
qed

section \<open>Properties\<close>

text \<open>
  a property list that was built is parsed back to the same properties, provided its trust anchor
  ID is canonical. (As one property type is known, an accepted list holds exactly one property.)
\<close>

theorem property_list_roundtrip:
  assumes "BuildPropertyList props = Inr b"
    and "\<forall>p\<in>set props. rbind (Binary (PropTrustAnchorID p)) TrustAnchorIDFromBinary = Inr (PropTrustAnchorID p)"
  shows "ParsePropertyList b = Inr props"
proof -
  obtain p r where p: "props = [p]" "propertyBytes p = Inr r" "prefixed 2 r = Inr b"
    using BuildPropertyList_single [OF assms(1)] by blast
  then obtain bin where t: "PropType p = 0" and bin: "Binary (PropTrustAnchorID p) = Inr bin"
    and len: "length bin \<le> 0xff" and r: "r = be 2 0 @ be 2 (length bin) @ bin"
    by (auto simp: propertyBytes_eq)
  have dec: "TrustAnchorIDFromBinary bin = Inr (PropTrustAnchorID p)" using assms(2) p(1) bin by simp
  have "prefixed 2 bin = Inr (be 2 (length bin) @ bin)" using len by (simp add: prefixed_def)
  from read_prefixed_prefixed [OF this, of "[]"]
  have rd: "ReadUint16LengthPrefixed (be 2 (length bin) @ bin) = Some (bin, [])" by simp
  have ty: "ReadUint16 r = Some (0, be 2 (length bin) @ bin)"
    using ReadUint16_be [of 0 "be 2 (length bin) @ bin"] by (simp add: r)
  have "length r \<noteq> 0" by (simp add: r)
  then have "r \<noteq> []" by auto
  then have "parsePropertiesLoop r None [] = Inr [\<lparr>PropType = 0, PropTrustAnchorID = PropTrustAnchorID p\<rparr>]"
    using ty rd dec
    by (subst parsePropertiesLoop.simps) (simp add: PropertyTrustAnchorID_def, simp add: parsePropertiesLoop.simps)
  moreover have "ReadUint16LengthPrefixed b = Some (r, [])" using read_prefixed_prefixed [OF p(3), of "[]"] by simp
  moreover have "\<lparr>PropType = 0, PropTrustAnchorID = PropTrustAnchorID p\<rparr> = p" using t by simp
  ultimately show ?thesis using p(1) by (simp only: ParsePropertyList_def option.case prod.case simp_thms if_False)
qed

theorem property_list_roundtrip_witness:
  "ParsePropertyList [0, 8, 0, 0, 0, 4, 0x81, 0xfd, 0x59, 0x01]
     = Inr [\<lparr>PropType = 0, PropTrustAnchorID = ''32473.1''\<rparr>]"
proof -
  have b: "BuildPropertyList [\<lparr>PropType = 0, PropTrustAnchorID = ''32473.1''\<rparr>]
      = Inr [0, 8, 0, 0, 0, 4, 0x81, 0xfd, 0x59, 0x01]" by code_simp
  have c: "\<forall>p\<in>set [\<lparr>PropType = 0, PropTrustAnchorID = ''32473.1''\<rparr>].
      rbind (Binary (PropTrustAnchorID p)) TrustAnchorIDFromBinary = Inr (PropTrustAnchorID p)" by code_simp
  from property_list_roundtrip [OF b c] show ?thesis .
qed

text \<open>
  a timestamped signature splits back into its timestamp and signature, and exactly the inputs of
  at least eight bytes are accepted.
\<close>

theorem timestamped_signature_roundtrip:
  "ParseTimestampedSignature (MarshalTimestampedSignature t sig) = Inr (t, sig) \<and>
   (ParseTimestampedSignature b = Inr (t', sig') \<longleftrightarrow> b = MarshalTimestampedSignature t' sig')"
proof -
  have u: "unat (x :: u64) < 256 ^ 8" for x using unat_less_u64 [of x] by simp
  have rt: "ParseTimestampedSignature (MarshalTimestampedSignature x y) = Inr (x, y)" for x y
    by (simp add: ParseTimestampedSignature_def MarshalTimestampedSignature_def timestampedSigTimestampLen_def
        unbe_be [OF u])
  have "b = MarshalTimestampedSignature t' sig'" if "ParseTimestampedSignature b = Inr (t', sig')"
  proof -
    have len: "8 \<le> length b" and t': "t' = of_nat (unbe (take 8 b))" and s': "sig' = drop 8 b"
      using that by (auto simp: ParseTimestampedSignature_def timestampedSigTimestampLen_def split: if_splits)
    have "unbe (take 8 b) < 2 ^ 64" using unbe_less [of "take 8 b"] len by simp
    then have "unat t' = unbe (take 8 b)" by (simp add: t' unsigned_of_nat take_bit_nat_eq_self)
    then show ?thesis
      using be_unbe [of "take 8 b"] len s'
      by (simp add: MarshalTimestampedSignature_def timestampedSigTimestampLen_def min_absorb2)
  qed
  with rt show ?thesis by blast
qed

end
