(* ===== verification/Note.thy ===== *)
theory Note
  imports GoStrings CertProperties
begin

text \<open>
  Signed notes: the checkpoint writer and parser of the log (log/note.go), the checkpoint parser of
  the mirror (mirror/note.go) and the line reader of the mirror's request parser
  (mirror/note_parse.go). A reader is the text still unread.
\<close>

section \<open>The log's notes\<close>

definition emDash :: string where
  "emDash = [CHR 0xE2, CHR 0x80, CHR 0x94]"

definition newline :: char where
  "newline = CHR 0x0A"

definition sigLine :: "string \<Rightarrow> bytes \<Rightarrow> string" where
  "sigLine name blob = emDash @ '' '' @ name @ '' '' @ EncodeToString blob"

definition buildSignedNote ::
    "(bytes \<Rightarrow> Hash) \<Rightarrow> TrustAnchorID \<Rightarrow> TrustAnchorID \<Rightarrow> u64 \<Rightarrow> Hash \<Rightarrow> SignatureAlgorithm \<Rightarrow> bytes \<Rightarrow> bytes
       \<Rightarrow> string result" where
  "buildSignedNote sha256 logID cosignerID sz root alg pub sig =
     (if logID = [] then Inl (Errorf ''buildSignedNote: empty logID'')
      else
        let origin = OIDName logID; cosigner = OIDName cosignerID;
            body = origin @ [newline] @ FormatUint sz @ [newline] @ EncodeToString (hash_bytes root) @ [newline]
        in rbind (rwrap ''buildSignedNote'' (CosignatureKeyID sha256 cosigner alg pub)) (\<lambda>keyID.
             let sigWithID = keyID @ MarshalTimestampedSignature 0 sig
             in Inr (body @ [newline] @ sigLine cosigner sigWithID @ [newline])))"

record parsedNoteSig =
  keyName :: string
  keyID :: bytes
  nsig :: bytes

definition parseSigLine :: "string \<Rightarrow> parsedNoteSig result" where
  "parseSigLine line =
     (if \<not> HasPrefix line (emDash @ '' '') then Inl (Errorf ''parseSignedNote: non-signature line'')
      else case split2 '' '' (drop (length (emDash @ '' '')) line) of
        None \<Rightarrow> Inl (Errorf ''parseSignedNote: malformed sig line'')
      | Some (name, b64) \<Rightarrow>
          rbind (rwrap ''parseSignedNote: sig b64'' (DecodeString b64)) (\<lambda>raw.
            if length raw < 4 then Inl (Errorf ''parseSignedNote: sig too short for keyID'')
            else rbind (rwrap ''parseSignedNote'' (ParseTimestampedSignature (drop 4 raw))) (\<lambda>(_, bareSig).
              Inr \<lparr>keyName = name, keyID = take 4 raw, nsig = bareSig\<rparr>)))"

definition decodeHash :: "string \<Rightarrow> Hash result" where
  "decodeHash s =
     rbind (rwrap ''b64'' (DecodeString s)) (\<lambda>b.
       if length b \<noteq> HashSize then Inl (Errorf ''hash length'') else Inr (mk_Hash b))"

definition dropTrailingEmpty :: "string list \<Rightarrow> string list" where
  "dropTrailingEmpty lines = rev (dropWhile (\<lambda>l. l = []) (rev lines))"

definition parseSignedNoteFull :: "string \<Rightarrow> TrustAnchorID \<Rightarrow> (u64 \<times> Hash \<times> parsedNoteSig list) result" where
  "parseSignedNoteFull data logID =
     (let (part0, part1) = (case split2 [newline, newline] data of None \<Rightarrow> (data, None) | Some (a, b) \<Rightarrow> (a, Some b))
      in case dropTrailingEmpty (split_on newline part0) of
           [l0, l1, l2] \<Rightarrow>
             if l0 \<noteq> OIDName logID then Inl (Errorf ''parseSignedNote: origin'')
             else
               rbind (rwrap ''parseSignedNote: bad size'' (ParseUint l1)) (\<lambda>sz.
               rbind (rwrap ''parseSignedNote: bad root'' (decodeHash l2)) (\<lambda>root.
               rbind (case part1 of
                        None \<Rightarrow> Inr []
                      | Some p \<Rightarrow> rmap parseSigLine [line \<leftarrow> split_on newline p. line \<noteq> []]) (\<lambda>sigs.
                 Inr (sz, root, sigs))))
         | _ \<Rightarrow> Inl (Errorf ''parseSignedNote: body lines, want 3''))"

definition parseSignedNote :: "string \<Rightarrow> TrustAnchorID \<Rightarrow> (u64 \<times> Hash) result" where
  "parseSignedNote data logID = rbind (parseSignedNoteFull data logID) (\<lambda>(sz, root, _). Inr (sz, root))"

section \<open>The mirror's checkpoint parser\<close>

definition parseCanonicalDecimal :: "string \<Rightarrow> u64 result" where
  "parseCanonicalDecimal s =
     (if length s > 1 \<and> hd s = CHR ''0'' then Inl (Errorf ''non-canonical decimal (leading zero)'') else ParseUint s)"

fun findSigLoop :: "string \<Rightarrow> string list \<Rightarrow> bytes result" where
  "findSigLoop pref [] = Inl (Errorf ''mirror: no signature line'')"
| "findSigLoop pref (line # ls) =
     (if \<not> HasPrefix line pref then findSigLoop pref ls
      else
        rbind (rwrap ''mirror: sig b64'' (DecodeString (TrimPrefix line pref))) (\<lambda>raw.
          if length raw < 5 then Inl (Errorf ''mirror: sig too short'')
          else rbind (rwrap ''mirror'' (ParseTimestampedSignature (drop 4 raw))) (\<lambda>(_, sig). Inr sig)))"

definition mirror_parseSignedNote :: "string \<Rightarrow> string \<Rightarrow> (u64 \<times> Hash \<times> bytes) result" where
  "mirror_parseSignedNote data expectKey =
     (case split2 [newline, newline] data of
        None \<Rightarrow> Inl (Errorf ''mirror: signed note missing body separator'')
      | Some (part0, part1) \<Rightarrow>
          (case split_on newline (TrimRight newline part0) of
             [_, l1, l2] \<Rightarrow>
               rbind (rwrap ''mirror: bad size'' (parseCanonicalDecimal l1)) (\<lambda>sz.
               rbind (rwrap ''mirror: bad root'' (decodeHash l2)) (\<lambda>root.
               rbind (findSigLoop (emDash @ '' '' @ expectKey @ '' '') (split_on newline (TrimRight newline part1))) (\<lambda>sig.
                 Inr (sz, root, sig))))
           | _ \<Rightarrow> Inl (Errorf ''mirror: body lines, want 3'')))"

section \<open>The mirror's line reader\<close>

record noteSignature =
  nkeyName :: string
  sigBytes :: bytes

record signedNote =
  nbody :: "string list"
  nsigs :: "noteSignature list"

definition ioEOF :: goerror where
  "ioEOF = Sentinel ''EOF''"

definition readLine :: "string \<Rightarrow> (string \<times> string) option" where
  "readLine r =
     (if r = [] then None
      else let line = takeWhile (\<lambda>c. c \<noteq> newline) r in Some (line, drop (length line + 1) r))"

definition parseNoteSignatureLine :: "string \<Rightarrow> noteSignature result" where
  "parseNoteSignatureLine line =
     (if \<not> HasPrefix line (emDash @ '' '') then Inl (Errorf ''mirror: not a signature line'')
      else case split2 '' '' (drop (length (emDash @ '' '')) line) of
        None \<Rightarrow> Inl (Errorf ''mirror: malformed sig line'')
      | Some (name, b64) \<Rightarrow>
          rbind (rwrap ''mirror: sig b64'' (DecodeString b64)) (\<lambda>raw. Inr \<lparr>nkeyName = name, sigBytes = raw\<rparr>))"

lemma readLine_shorter: "readLine r = Some (line, rest) \<Longrightarrow> length rest < length r"
  by (auto simp: readLine_def Let_def split: if_splits)

function readBody :: "string \<Rightarrow> string list \<Rightarrow> (string list \<times> string) result" where
  "readBody r body =
     (case readLine r of
        None \<Rightarrow> if body = [] then Inl ioEOF else Inl (Errorf ''mirror: signed note ended before blank-line separator'')
      | Some (line, rest) \<Rightarrow> if line = [] then Inr (body, rest) else readBody rest (body @ [line]))"
  by pat_completeness auto
termination
  by (relation "measure (\<lambda>(r, _). length r)") (auto dest: readLine_shorter)

function readSigs :: "string \<Rightarrow> noteSignature list \<Rightarrow> (noteSignature list \<times> string) result" where
  "readSigs r sigs =
     (case readLine r of
        None \<Rightarrow> Inr (sigs, r)
      | Some (line, rest) \<Rightarrow>
          if \<not> HasPrefix line (emDash @ '' '') then
            if line = [] then Inr (sigs, rest) else Inl (Errorf ''mirror: unexpected non-signature line in note'')
          else rbind (parseNoteSignatureLine line) (\<lambda>ns. readSigs rest (sigs @ [ns])))"
  by pat_completeness auto
termination
  by (relation "measure (\<lambda>(r, _). length r)") (auto dest: readLine_shorter)

declare readBody.simps [simp del]
declare readSigs.simps [simp del]

definition readSignedNote :: "string \<Rightarrow> (signedNote \<times> string) result" where
  "readSignedNote r =
     rbind (readBody r []) (\<lambda>(body, r1).
       if body = [] then Inl (Errorf ''mirror: signed note has empty body'')
       else rbind (readSigs r1 []) (\<lambda>(sigs, r2). Inr (\<lparr>nbody = body, nsigs = sigs\<rparr>, r2)))"

section \<open>Reading lines back\<close>

abbreviation plain :: "string \<Rightarrow> bool" where
  "plain s \<equiv> \<forall>c\<in>set s. plain_char c"

lemma plain_not_in:
  assumes "plain s"
  shows "newline \<notin> set s" "CHR '' '' \<notin> set s"
  using assms by (auto simp: plain_char_def newline_def)

lemma plain_digit: "is_digit c \<Longrightarrow> plain_char c"
  by (auto simp: is_digit_def plain_char_def)

lemma plain_uint: "plain (FormatUint v)"
  by (auto simp: FormatUint_def dest: decimal_digits plain_digit)

lemma plain_OIDName: "plain ID \<Longrightarrow> plain (OIDName ID)"
  by (auto simp: OIDName_def OIDNamePrefix_def TrustAnchorOIDBase_def plain_char_def)

lemma OIDName_not_Nil [simp]: "OIDName ID \<noteq> []"
  by (simp add: OIDName_def OIDNamePrefix_def)

lemma readLine_line: "newline \<notin> set x \<Longrightarrow> readLine (x @ newline # r) = Some (x, r)"
  by (induction x) (auto simp: readLine_def Let_def)

lemma newline_not_emDash: "newline \<notin> set emDash"
  by (simp add: newline_def emDash_def)

lemma sigLine_props:
  assumes "plain name"
  shows "newline \<notin> set (sigLine name blob)" "sigLine name blob \<noteq> []"
    "HasPrefix (sigLine name blob) (emDash @ '' '')"
    "split2 '' '' (drop (length (emDash @ '' '')) (sigLine name blob)) = Some (name, EncodeToString blob)"
    "HasPrefix (sigLine name blob) (emDash @ '' '' @ name @ '' '')"
    "TrimPrefix (sigLine name blob) (emDash @ '' '' @ name @ '' '') = EncodeToString blob"
proof -
  have "newline \<noteq> CHR '' ''" by (simp add: newline_def)
  then show "newline \<notin> set (sigLine name blob)"
    using plain_not_in(1) [OF assms] plain_not_in(1) [OF EncodeToString_plain] newline_not_emDash
    by (simp add: sigLine_def)
  show "sigLine name blob \<noteq> []" by (simp add: sigLine_def)
  show "HasPrefix (sigLine name blob) (emDash @ '' '')"
    using HasPrefix_append [of "emDash @ '' ''" "name @ '' '' @ EncodeToString blob"] by (simp add: sigLine_def)
  show "split2 '' '' (drop (length (emDash @ '' '')) (sigLine name blob)) = Some (name, EncodeToString blob)"
    using split2_char [OF plain_not_in(2) [OF assms]] by (simp add: sigLine_def)
  show "HasPrefix (sigLine name blob) (emDash @ '' '' @ name @ '' '')"
    using HasPrefix_append [of "emDash @ '' '' @ name @ '' ''" "EncodeToString blob"] by (simp add: sigLine_def)
  show "TrimPrefix (sigLine name blob) (emDash @ '' '' @ name @ '' '') = EncodeToString blob"
    using TrimPrefix_append [of "emDash @ '' '' @ name @ '' ''" "EncodeToString blob"] by (simp add: sigLine_def)
qed

lemma parse_timestamped: "ParseTimestampedSignature (MarshalTimestampedSignature t s) = Inr (t, s)"
  using unat_less_u64 [of t]
  by (simp add: ParseTimestampedSignature_def MarshalTimestampedSignature_def timestampedSigTimestampLen_def unbe_be)

lemma MarshalTimestampedSignature_not_Nil [simp]: "MarshalTimestampedSignature t s \<noteq> []"
proof -
  have "length (MarshalTimestampedSignature t s) \<noteq> 0"
    by (simp add: MarshalTimestampedSignature_def timestampedSigTimestampLen_def)
  then show ?thesis by auto
qed

lemma parseSigLine_sigLine:
  assumes "plain name" "length k = 4"
  shows "parseSigLine (sigLine name (k @ MarshalTimestampedSignature t s)) = Inr \<lparr>keyName = name, keyID = k, nsig = s\<rparr>"
  using sigLine_props [OF assms(1)] assms(2) by (simp add: parseSigLine_def parse_timestamped)

lemma parseNoteSignatureLine_sigLine:
  "plain name \<Longrightarrow> parseNoteSignatureLine (sigLine name blob) = Inr \<lparr>nkeyName = name, sigBytes = blob\<rparr>"
  using sigLine_props [of name] by (simp add: parseNoteSignatureLine_def)

lemma decodeHash_encode [simp]: "decodeHash (EncodeToString (hash_bytes h)) = Inr h"
  by (simp add: decodeHash_def HashSize_def)

lemma decimal_leading: "0 < n \<Longrightarrow> hd (decimal n) \<noteq> CHR ''0''"
proof (induction n rule: decimal.induct)
  case (1 n)
  show ?case
  proof (cases "n < 10")
    case True
    then have "digit_val (digit_char n) \<noteq> digit_val (CHR ''0'')"
      using 1(2) by (simp only: digit_char_props) (simp add: digit_val_def)
    then show ?thesis using True by (subst decimal.simps) auto
  next
    case False
    then show ?thesis using 1(1) by (subst decimal.simps) (simp add: hd_append)
  qed
qed

lemma parseCanonicalDecimal_uint [simp]: "parseCanonicalDecimal (FormatUint v) = Inr v"
proof (cases "unat v = 0")
  case True
  then have "length (FormatUint v) = 1" by (simp add: FormatUint_def decimal.simps [of 0])
  then show ?thesis by (simp add: parseCanonicalDecimal_def)
next
  case False
  then have "hd (FormatUint v) \<noteq> CHR ''0''" by (simp add: FormatUint_def decimal_leading)
  then show ?thesis by (simp add: parseCanonicalDecimal_def)
qed

lemma readBody_lines:
  "\<forall>x\<in>set xs. x \<noteq> [] \<and> newline \<notin> set x \<Longrightarrow>
     readBody (concat (map (\<lambda>x. x @ [newline]) xs) @ newline # r) acc = Inr (acc @ xs, r)"
proof (induction xs arbitrary: acc)
  case Nil
  then show ?case by (subst readBody.simps) (simp add: readLine_line [of "[]", simplified])
next
  case (Cons x xs)
  then show ?case
    by (subst readBody.simps) (simp add: readLine_line)
qed

lemma readSigs_end [simp]: "readSigs [] sigs = Inr (sigs, [])"
  by (subst readSigs.simps) (simp add: readLine_def)

lemma readSigs_line:
  assumes "plain name"
  shows "readSigs (sigLine name blob @ newline # r) sigs = readSigs r (sigs @ [\<lparr>nkeyName = name, sigBytes = blob\<rparr>])"
  using sigLine_props [OF assms] parseNoteSignatureLine_sigLine [OF assms]
  by (subst readSigs.simps) (simp add: readLine_line)

lemma CosignatureKeyID_length: "CosignatureKeyID sha256 name alg pub = Inr k \<Longrightarrow> length k = 4"
  by (auto simp: CosignatureKeyID_def split: if_splits SignatureAlgorithm.splits)

lemma buildSignedNote_eq_Inr:
  "buildSignedNote sha256 logID cosignerID sz root alg pub sig = Inr nt \<longleftrightarrow>
     logID \<noteq> [] \<and> (\<exists>k. CosignatureKeyID sha256 (OIDName cosignerID) alg pub = Inr k \<and>
       nt = concat (map (\<lambda>x. x @ [newline]) [OIDName logID, FormatUint sz, EncodeToString (hash_bytes root)]) @
         newline # sigLine (OIDName cosignerID) (k @ MarshalTimestampedSignature 0 sig) @ [newline])"
  by (auto simp: buildSignedNote_def Let_def rbind_eq_Inr rwrap_eq_Inr)

section \<open>Properties\<close>

lemma split2_note:
  assumes "xs \<noteq> []" "\<forall>x\<in>set xs. x \<noteq> [] \<and> newline \<notin> set x"
  shows "split2 [newline, newline] (concat (map (\<lambda>x. x @ [newline]) xs) @ newline # r) = Some (join_with newline xs, r)"
  using split2_blank_line [OF assms] assms(1) by (simp add: concat_lines)

text \<open>How the two parts of such a note fall apart into lines.\<close>

lemma dropTrailing_lines: "\<forall>x\<in>set xs. x \<noteq> [] \<Longrightarrow> dropTrailingEmpty xs = xs"
  unfolding dropTrailingEmpty_def by (cases xs rule: rev_cases) auto

lemma last_not_newline: "newline \<notin> set x \<Longrightarrow> x \<noteq> [] \<Longrightarrow> last x \<noteq> newline"
  using last_in_set [of x] by metis

lemma hash_bytes_not_Nil [simp]: "hash_bytes h \<noteq> []"
  by (metis length_hash_bytes list.size(3) zero_neq_numeral)

lemma note_split:
  assumes "\<forall>x\<in>set [a, b, c]. x \<noteq> [] \<and> newline \<notin> set x"
  shows "split2 [newline, newline] (concat (map (\<lambda>x. x @ [newline]) [a, b, c]) @ newline # r) =
    Some (join_with newline [a, b, c], r)"
  by (rule split2_note [OF _ assms]) simp

lemma body_lines:
  assumes "\<forall>x\<in>set [a, b, c]. x \<noteq> [] \<and> newline \<notin> set x"
  shows "split_on newline (join_with newline [a, b, c]) = [a, b, c]"
    "dropTrailingEmpty [a, b, c] = [a, b, c]"
    "TrimRight newline (join_with newline [a, b, c]) = join_with newline [a, b, c]"
proof -
  show "split_on newline (join_with newline [a, b, c]) = [a, b, c]"
    using assms by (intro split_join) auto
  show "dropTrailingEmpty [a, b, c] = [a, b, c]" using assms by (intro dropTrailing_lines) simp
  have "last c \<noteq> newline" by (rule last_not_newline) (use assms in simp_all)
  then show "TrimRight newline (join_with newline [a, b, c]) = join_with newline [a, b, c]"
    using assms by (cases c rule: rev_cases) (simp_all add: TrimRight_def)
qed

lemma sig_lines:
  assumes "newline \<notin> set x" "x \<noteq> []"
  shows "[l \<leftarrow> split_on newline (x @ [newline]). l \<noteq> []] = [x]"
    "split_on newline (TrimRight newline (x @ [newline])) = [x]"
proof -
  show "[l \<leftarrow> split_on newline (x @ [newline]). l \<noteq> []] = [x]"
    using assms split_on_append [of newline x "[]"] by simp
  show "split_on newline (TrimRight newline (x @ [newline])) = [x]"
    using assms last_not_newline [OF assms] TrimRight_line [of x newline] split_on_no_sep [of newline x] by simp
qed

lemma note_lines:
  assumes "plain logID"
  shows "\<forall>x\<in>set [OIDName logID, FormatUint sz, EncodeToString (hash_bytes root)]. x \<noteq> [] \<and> newline \<notin> set x"
  using plain_not_in(1) [OF plain_OIDName [OF assms]] plain_not_in(1) [OF plain_uint]
    plain_not_in(1) [OF EncodeToString_plain] by simp

lemma readSignedNote_built:
  assumes "CosignatureKeyID sha256 (OIDName cosignerID) alg pub = Inr k"
    "buildSignedNote sha256 logID cosignerID sz root alg pub sig = Inr nt" "plain logID" "plain cosignerID"
  shows "readSignedNote nt = Inr (\<lparr>nbody = [OIDName logID, FormatUint sz, EncodeToString (hash_bytes root)],
      nsigs = [\<lparr>nkeyName = OIDName cosignerID, sigBytes = k @ MarshalTimestampedSignature 0 sig\<rparr>]\<rparr>, [])"
proof -
  let ?sl = "sigLine (OIDName cosignerID) (k @ MarshalTimestampedSignature 0 sig)"
  have nt: "nt = concat (map (\<lambda>x. x @ [newline]) [OIDName logID, FormatUint sz, EncodeToString (hash_bytes root)]) @
      newline # ?sl @ [newline]"
    using assms(1,2) by (auto simp: buildSignedNote_eq_Inr)
  show ?thesis
    using readBody_lines [OF note_lines [OF assms(3)], of sz root "?sl @ [newline]" "[]"]
      readSigs_line [OF plain_OIDName [OF assms(4)], of _ "[]" "[]"]
    unfolding nt by (simp add: readSignedNote_def)
qed

lemma parseSignedNoteFull_built:
  assumes "CosignatureKeyID sha256 (OIDName cosignerID) alg pub = Inr k"
    and "buildSignedNote sha256 logID cosignerID sz root alg pub sig = Inr nt" "plain logID" "plain cosignerID"
  shows "parseSignedNoteFull nt logID = Inr (sz, root, [\<lparr>keyName = OIDName cosignerID, keyID = k, nsig = sig\<rparr>])"
proof -
  let ?c = "OIDName cosignerID" and ?xs = "[OIDName logID, FormatUint sz, EncodeToString (hash_bytes root)]"
  let ?sl = "sigLine ?c (k @ MarshalTimestampedSignature 0 sig)"
  have nt: "nt = concat (map (\<lambda>x. x @ [newline]) ?xs) @ newline # ?sl @ [newline]"
    using assms(1,2) by (auto simp: buildSignedNote_eq_Inr)
  note sl = sigLine_props [OF plain_OIDName [OF assms(4)], of "k @ MarshalTimestampedSignature 0 sig"]
  note xs = note_lines [OF assms(3), of sz root]
  have "split2 [newline, newline] nt = Some (join_with newline ?xs, ?sl @ [newline])"
    unfolding nt by (rule note_split [OF xs])
  then show ?thesis
    using body_lines [OF xs] sig_lines [OF sl(1,2)]
      parseSigLine_sigLine [OF plain_OIDName [OF assms(4)] CosignatureKeyID_length [OF assms(1)]]
    by (simp add: parseSignedNoteFull_def del: join_with.simps)
qed

text \<open>
  C36: the checkpoint notes the log writes are read back without loss by every parser of the system. A
  note built by \<open>buildSignedNote\<close> for names without spaces or control characters gives the log's own
  parser the size, the root and the one signature with its key name and key ID; gives the mirror's
  checkpoint parser the size, the root and the signature; and gives the mirror's request reader the
  three body lines and the signature blob, with nothing left unread.
\<close>

theorem signed_note_roundtrip:
  assumes "buildSignedNote sha256 logID cosignerID sz root alg pub sig = Inr nt"
    and "plain logID" "plain cosignerID"
  shows "\<exists>k. CosignatureKeyID sha256 (OIDName cosignerID) alg pub = Inr k \<and>
    parseSignedNoteFull nt logID = Inr (sz, root, [\<lparr>keyName = OIDName cosignerID, keyID = k, nsig = sig\<rparr>]) \<and>
    parseSignedNote nt logID = Inr (sz, root) \<and>
    mirror_parseSignedNote nt (OIDName cosignerID) = Inr (sz, root, sig) \<and>
    readSignedNote nt = Inr (\<lparr>nbody = [OIDName logID, FormatUint sz, EncodeToString (hash_bytes root)],
      nsigs = [\<lparr>nkeyName = OIDName cosignerID, sigBytes = k @ MarshalTimestampedSignature 0 sig\<rparr>]\<rparr>, [])"
proof -
  let ?c = "OIDName cosignerID" and ?xs = "[OIDName logID, FormatUint sz, EncodeToString (hash_bytes root)]"
  obtain k where k: "CosignatureKeyID sha256 ?c alg pub = Inr k"
    and nt: "nt = concat (map (\<lambda>x. x @ [newline]) ?xs) @ newline # sigLine ?c (k @ MarshalTimestampedSignature 0 sig) @ [newline]"
    using assms(1) by (auto simp: buildSignedNote_eq_Inr)
  let ?sl = "sigLine ?c (k @ MarshalTimestampedSignature 0 sig)"
  note sl = sigLine_props [OF plain_OIDName [OF assms(3)], of "k @ MarshalTimestampedSignature 0 sig"]
  note xs = note_lines [OF assms(2), of sz root]
  have sp: "split2 [newline, newline] nt = Some (join_with newline ?xs, ?sl @ [newline])"
    unfolding nt by (rule note_split [OF xs])
  note lines = sp body_lines [OF xs]
  have full: "parseSignedNoteFull nt logID = Inr (sz, root, [\<lparr>keyName = ?c, keyID = k, nsig = sig\<rparr>])"
    by (rule parseSignedNoteFull_built [OF k assms])
  have "mirror_parseSignedNote nt ?c = Inr (sz, root, sig)"
    using lines sig_lines [OF sl(1,2)] sl(5,6) CosignatureKeyID_length [OF k]
    by (simp add: mirror_parseSignedNote_def parse_timestamped del: join_with.simps)
  moreover have "readSignedNote nt = Inr (\<lparr>nbody = ?xs,
      nsigs = [\<lparr>nkeyName = ?c, sigBytes = k @ MarshalTimestampedSignature 0 sig\<rparr>]\<rparr>, [])"
    by (rule readSignedNote_built [OF k assms])
  ultimately show ?thesis using k full by (simp add: parseSignedNote_def)
qed

theorem signed_note_roundtrip_witness:
  "(let sha = (\<lambda>_. mk_Hash [7]); pub = replicate 1312 0 in
    case buildSignedNote sha ''32473.1'' ''32473.2'' 5 (mk_Hash [1]) AlgMLDSA44 pub [9, 8] of
      Inl _ \<Rightarrow> False
    | Inr nt \<Rightarrow> parseSignedNote nt ''32473.1'' = Inr (5, mk_Hash [1]) \<and>
        mirror_parseSignedNote nt (OIDName ''32473.2'') = Inr (5, mk_Hash [1], [9, 8]))"
proof -
  let ?b = "buildSignedNote (\<lambda>_. mk_Hash [7]) ''32473.1'' ''32473.2'' 5 (mk_Hash [1]) AlgMLDSA44 (replicate 1312 0) [9, 8]"
  have "\<not> isl ?b" by (simp add: buildSignedNote_def CosignatureKeyID_def Let_def)
  then obtain nt where nt: "?b = Inr nt" by (cases ?b) auto
  have "plain ''32473.1''" "plain ''32473.2''" by (simp_all add: plain_char_def)
  from signed_note_roundtrip [OF nt this] show ?thesis unfolding Let_def nt by auto
qed

end
