(* ===== verification/Cosign.thy ===== *)
theory Cosign
  imports Note
begin

text \<open>
  Cosignatures: their verification (cert/sigverify.go) and their collection from the mirrors
  (cert/cosigner_request.go). ML-DSA is a parameter, as is the HTTP transport. The concurrent collection
  is a step relation over the requests still running, the channel of results and the deadline.
\<close>

section \<open>Verification\<close>

datatype MLDSAParams = MLDSA44 | MLDSA65 | MLDSA87

text \<open>Package crypto/mldsa, for some type of parsed public keys.\<close>

record 'pk mldsa =
  NewPublicKey :: "MLDSAParams \<Rightarrow> bytes \<Rightarrow> 'pk result"
  mldsaVerify :: "'pk \<Rightarrow> bytes \<Rightarrow> bytes \<Rightarrow> unit result"

record CosignerKey =
  CKID :: TrustAnchorID
  CKAlgorithm :: SignatureAlgorithm
  CKPublicKey :: bytes

text \<open>The interface \<open>signer.Signer\<close>.\<close>

record signer =
  SignerAlgorithm :: SignatureAlgorithm
  SignerPublicKey :: bytes
  Sign :: "bytes \<Rightarrow> bytes result"

definition verifyMLDSA :: "'pk mldsa \<Rightarrow> SignatureAlgorithm \<Rightarrow> bytes \<Rightarrow> bytes \<Rightarrow> bytes \<Rightarrow> unit result" where
  "verifyMLDSA lib alg pub msg sig =
     (let params = (case alg of AlgMLDSA44 \<Rightarrow> Some MLDSA44 | AlgMLDSA65 \<Rightarrow> Some MLDSA65 | AlgMLDSA87 \<Rightarrow> Some MLDSA87
                    | AlgOther _ \<Rightarrow> None)
      in case params of
           None \<Rightarrow> Inl (Errorf ''cert: verifyMLDSA called with non-ML-DSA algorithm'')
         | Some p \<Rightarrow>
             rbind (rwrap ''cert: parse key'' (NewPublicKey lib p pub)) (\<lambda>pk.
               rwrap ''cert: signature did not verify'' (mldsaVerify lib pk msg sig)))"

definition VerifyMTCSignature :: "'pk mldsa \<Rightarrow> CosignerKey \<Rightarrow> MTCSignature \<Rightarrow> bytes \<Rightarrow> unit result" where
  "VerifyMTCSignature lib key sig signedMessage =
     (if CosignerID sig \<noteq> CKID key then Inl (Errorf ''cert: cosigner ID mismatch'')
      else case CKAlgorithm key of
        AlgOther _ \<Rightarrow> Inl (Errorf ''cert: algorithm not recognised'')
      | _ \<Rightarrow> verifyMLDSA lib (CKAlgorithm key) (CKPublicKey key) signedMessage (Signature sig))"

section \<open>The request to one mirror\<close>

record MirrorEndpoint =
  MURL :: string
  MKey :: CosignerKey

text \<open>Pointers that may be nil are options.\<close>

record SubtreeRequest =
  ReqSubtree :: "MTCSubtree option"
  CACheckpointBody :: string
  ConsistencyProof :: "Hash list"
  CASignature :: "MTCSignature option"
  CACosignerID :: TrustAnchorID
  CACosignerKey :: bytes

definition cosigLine :: "(bytes \<Rightarrow> Hash) \<Rightarrow> TrustAnchorID \<Rightarrow> bytes \<Rightarrow> bytes \<Rightarrow> string result" where
  "cosigLine sha256 caID caPub sig =
     (let caKey = OIDName caID
      in rbind (rwrap ''cert: CA subtree cosignature key ID'' (CosignatureKeyID sha256 caKey AlgMLDSA44 caPub)) (\<lambda>keyID.
           Inr (sigLine caKey (keyID @ MarshalTimestampedSignature 0 sig) @ [newline])))"

definition buildSignSubtreeBody :: "(bytes \<Rightarrow> Hash) \<Rightarrow> SubtreeRequest option \<Rightarrow> string result" where
  "buildSignSubtreeBody sha256 req =
     (case req of None \<Rightarrow> Inl (Errorf ''nil request'')
      | Some r \<Rightarrow>
     (case ReqSubtree r of None \<Rightarrow> Inl (Errorf ''nil request'')
      | Some st \<Rightarrow>
          if CACheckpointBody r = [] then Inl (Errorf ''empty CACheckpointBody'')
          else if length (ConsistencyProof r) > 63 then Inl (Errorf ''cert: consistency proof too long'')
          else
            let head = ''subtree '' @ FormatUint (SubStart st) @ '' '' @ FormatUint (SubEnd st) @ [newline]
                  @ EncodeToString (hash_bytes (SubHash st)) @ [newline]
            in rbind (case CASignature r of None \<Rightarrow> Inr []
                      | Some s \<Rightarrow> cosigLine sha256 (CACosignerID r) (CACosignerKey r) (Signature s)) (\<lambda>cosig.
                 Inr (head @ cosig
                   @ concat (map (\<lambda>h. EncodeToString (hash_bytes h) @ [newline]) (ConsistencyProof r))
                   @ [newline] @ CACheckpointBody r
                   @ (if last (CACheckpointBody r) = newline then [] else [newline])))))"

text \<open>The lines of the response: the first one with the key name and the key ID decides.\<close>

fun responseLoop :: "'pk mldsa \<Rightarrow> CosignerKey \<Rightarrow> bytes \<Rightarrow> MTCSubtree \<Rightarrow> string \<Rightarrow> string list \<Rightarrow> MTCSignature result" where
  "responseLoop lib key wantKeyID subtree pref [] = Inl (Errorf ''no matching signature line in response'')"
| "responseLoop lib key wantKeyID subtree pref (line # ls) =
     (if \<not> HasPrefix line pref then responseLoop lib key wantKeyID subtree pref ls
      else
        rbind (rwrap ''decode sig'' (DecodeString (TrimPrefix line pref))) (\<lambda>raw.
          if length raw < 4 then Inl (Errorf ''sig too short for key ID'')
          else if take 4 raw \<noteq> wantKeyID then responseLoop lib key wantKeyID subtree pref ls
          else
            rbind (ParseTimestampedSignature (drop 4 raw)) (\<lambda>(ts, rawSig).
              if ts \<noteq> 0 then Inl (Errorf ''cert: mirror cosignature has non-zero timestamp'')
              else
                rbind (MarshalSignatureInput (CKID key) subtree) (\<lambda>msg.
                  let sig = \<lparr>CosignerID = CKID key, Signature = rawSig\<rparr>
                  in rbind (rwrap ''verify'' (VerifyMTCSignature lib key sig msg)) (\<lambda>_. Inr sig)))))"

text \<open>\<open>http\<close> is the POST of the body to a URL: the status code and the body of the response.\<close>

definition maxResponse :: nat where
  "maxResponse = 16 * 1024"

definition requestOne ::
    "'pk mldsa \<Rightarrow> (bytes \<Rightarrow> Hash) \<Rightarrow> (string \<Rightarrow> string \<Rightarrow> (nat \<times> string) result) \<Rightarrow> MirrorEndpoint \<Rightarrow> string \<Rightarrow> MTCSubtree
       \<Rightarrow> MTCSignature result" where
  "requestOne lib sha256 http m body subtree =
     (if CKAlgorithm (MKey m) \<noteq> AlgMLDSA44 then Inl (Errorf ''cert: mirror must be ML-DSA-44'')
      else
        let wantKey = OIDName (CKID (MKey m))
        in rbind (CosignatureKeyID sha256 wantKey (CKAlgorithm (MKey m)) (CKPublicKey (MKey m))) (\<lambda>wantKeyID.
           rbind (http (MURL m) body) (\<lambda>(code, full).
             let resp = take maxResponse full
             in if code \<noteq> 200 then Inl (Errorf ''HTTP status'')
                else responseLoop lib (MKey m) wantKeyID subtree (emDash @ '' '' @ wantKey @ '' '')
                       (split_on newline (TrimRight newline resp)))))"

section \<open>The collection\<close>

text \<open>
  A request that is still running is the position of its mirror. It ends with an answer, or is aborted
  when the deadline cancels its context, or hangs: nothing is assumed of the transport, which may even
  ignore the cancellation. The channel has room for every mirror, so that a send never blocks; when the
  deadline has passed the send may be given up. The receiver chooses freely among its channels that are
  ready.
\<close>

datatype 'a reply = Replies 'a | Aborts | Hangs

record collection =
  crunning :: "nat list"
  cresults :: "MTCSignature list"
  ccollected :: "MTCSignature list"
  cexpired :: bool

datatype outcome = Waiting collection | Returned "MTCSignature list" "goerror option"

definition quorum_result :: "nat \<Rightarrow> string \<Rightarrow> MTCSignature list \<Rightarrow> outcome" where
  "quorum_result quorum what sigs =
     Returned sigs (if quorum \<le> length sigs then None else Some (Errorf what))"

inductive collect_step :: "(nat \<Rightarrow> MTCSignature result reply) \<Rightarrow> nat \<Rightarrow> bool \<Rightarrow> collection \<Rightarrow> outcome \<Rightarrow> bool"
  for answer quorum bestEffort where
  fail: "i \<in> set (crunning c) \<Longrightarrow> answer i = Replies (Inl e) \<Longrightarrow>
    collect_step answer quorum bestEffort c (Waiting (c\<lparr>crunning := remove1 i (crunning c)\<rparr>))"
| send: "i \<in> set (crunning c) \<Longrightarrow> answer i = Replies (Inr sig) \<Longrightarrow>
    collect_step answer quorum bestEffort c
      (Waiting (c\<lparr>crunning := remove1 i (crunning c), cresults := cresults c @ [sig]\<rparr>))"
| drop: "i \<in> set (crunning c) \<Longrightarrow> answer i \<noteq> Hangs \<Longrightarrow> cexpired c \<Longrightarrow>
    collect_step answer quorum bestEffort c (Waiting (c\<lparr>crunning := remove1 i (crunning c)\<rparr>))"
| expire: "\<not> cexpired c \<Longrightarrow> collect_step answer quorum bestEffort c (Waiting (c\<lparr>cexpired := True\<rparr>))"
| receive: "cresults c = sig # rest \<Longrightarrow> \<not> (quorum \<le> length (ccollected c @ [sig]) \<and> \<not> bestEffort) \<Longrightarrow>
    collect_step answer quorum bestEffort c (Waiting (c\<lparr>cresults := rest, ccollected := ccollected c @ [sig]\<rparr>))"
| reached: "cresults c = sig # rest \<Longrightarrow> quorum \<le> length (ccollected c @ [sig]) \<Longrightarrow> \<not> bestEffort \<Longrightarrow>
    collect_step answer quorum bestEffort c (Returned (ccollected c @ [sig]) None)"
| finished: "crunning c = [] \<Longrightarrow>
    collect_step answer quorum bestEffort c (quorum_result quorum ''cert: quorum not met'' (ccollected c))"
| deadline: "cexpired c \<Longrightarrow>
    collect_step answer quorum bestEffort c (quorum_result quorum ''cert: quorum not met by deadline'' (ccollected c))"

inductive collect_run :: "(nat \<Rightarrow> MTCSignature result reply) \<Rightarrow> nat \<Rightarrow> bool \<Rightarrow> collection \<Rightarrow> nat \<Rightarrow> outcome \<Rightarrow> bool"
  for answer quorum bestEffort c0 where
  start: "collect_run answer quorum bestEffort c0 0 (Waiting c0)"
| step: "collect_run answer quorum bestEffort c0 n (Waiting c) \<Longrightarrow> collect_step answer quorum bestEffort c y \<Longrightarrow>
    collect_run answer quorum bestEffort c0 (Suc n) y"

text \<open>What happens before the first receive: an early return, or the body and a goroutine per mirror.\<close>

definition collect_enter ::
    "(bytes \<Rightarrow> Hash) \<Rightarrow> SubtreeRequest option \<Rightarrow> MirrorEndpoint list \<Rightarrow> int \<Rightarrow> outcome \<times> string" where
  "collect_enter sha256 req mirrors quorum =
     (if quorum < 0 then (Returned [] (Some (Errorf ''cert: negative quorum'')), [])
      else if int (length mirrors) < quorum then (Returned [] (Some (Errorf ''cert: fewer mirrors than the quorum'')), [])
      else if quorum = 0 then (Returned [] None, [])
      else case buildSignSubtreeBody sha256 req of
        Inl e \<Rightarrow> (Returned [] (Some (wrapf ''cert: build request body'' e)), [])
      | Inr body \<Rightarrow>
          (Waiting \<lparr>crunning = [0..<length mirrors], cresults = [], ccollected = [], cexpired = False\<rparr>, body))"

text \<open>
  \<open>http i\<close> is how the \<open>i\<close>-th mirror answers. A mirror whose key cannot be used is never asked.
\<close>

definition sends_request :: "(bytes \<Rightarrow> Hash) \<Rightarrow> MirrorEndpoint \<Rightarrow> bool" where
  "sends_request sha256 m \<longleftrightarrow> CKAlgorithm (MKey m) = AlgMLDSA44 \<and>
     (case CosignatureKeyID sha256 (OIDName (CKID (MKey m))) (CKAlgorithm (MKey m)) (CKPublicKey (MKey m)) of
        Inl _ \<Rightarrow> False | Inr _ \<Rightarrow> True)"

definition mirror_answer ::
    "'pk mldsa \<Rightarrow> (bytes \<Rightarrow> Hash) \<Rightarrow> (nat \<Rightarrow> string \<Rightarrow> string \<Rightarrow> (nat \<times> string) result reply) \<Rightarrow> MirrorEndpoint list \<Rightarrow> string
       \<Rightarrow> MTCSubtree \<Rightarrow> nat \<Rightarrow> MTCSignature result reply" where
  "mirror_answer lib sha256 http mirrors body st i =
     (let m = mirrors ! i; one = (\<lambda>r. requestOne lib sha256 (\<lambda>_ _. r) m body st)
      in if sends_request sha256 m then map_reply one (http i (MURL m) body) else Replies (one (Inl (Errorf []))))"

inductive RequestCosignatures ::
    "'pk mldsa \<Rightarrow> (bytes \<Rightarrow> Hash) \<Rightarrow> (nat \<Rightarrow> string \<Rightarrow> string \<Rightarrow> (nat \<times> string) result reply) \<Rightarrow> SubtreeRequest \<Rightarrow> MirrorEndpoint list
       \<Rightarrow> int \<Rightarrow> bool \<Rightarrow> MTCSignature list \<Rightarrow> goerror option \<Rightarrow> bool"
  for lib sha256 http req mirrors quorum bestEffort where
  early: "collect_enter sha256 (Some req) mirrors quorum = (Returned sigs err, body) \<Longrightarrow>
    RequestCosignatures lib sha256 http req mirrors quorum bestEffort sigs err"
| collect: "collect_enter sha256 (Some req) mirrors quorum = (Waiting c, body) \<Longrightarrow> ReqSubtree req = Some st \<Longrightarrow>
    collect_run (mirror_answer lib sha256 http mirrors body st) (nat quorum) bestEffort c n (Returned sigs err) \<Longrightarrow>
    RequestCosignatures lib sha256 http req mirrors quorum bestEffort sigs err"

section \<open>What is collected\<close>

inductive_cases collect_stepE: "collect_step answer quorum bestEffort c y"

text \<open>The signatures in the channel and collected are answers of distinct mirrors that are done.\<close>

definition collect_inv :: "(nat \<Rightarrow> MTCSignature result reply) \<Rightarrow> nat \<Rightarrow> collection \<Rightarrow> bool" where
  "collect_inv answer n c \<longleftrightarrow>
     (\<exists>js. map answer js = map (\<lambda>sig. Replies (Inr sig)) (ccollected c @ cresults c) \<and> distinct (crunning c @ js) \<and>
        set (crunning c @ js) \<subseteq> {..<n})"

definition answers_of :: "(nat \<Rightarrow> MTCSignature result reply) \<Rightarrow> nat \<Rightarrow> MTCSignature list \<Rightarrow> bool" where
  "answers_of answer n sigs \<longleftrightarrow> (\<exists>js. map answer js = map (\<lambda>sig. Replies (Inr sig)) sigs \<and> distinct js \<and> set js \<subseteq> {..<n})"

lemma collect_inv_done:
  assumes "collect_inv answer n c" "i \<in> set (crunning c)"
  shows "collect_inv answer n (c\<lparr>crunning := remove1 i (crunning c)\<rparr>)"
    "answer i = Replies (Inr sig) \<Longrightarrow> collect_inv answer n (c\<lparr>crunning := remove1 i (crunning c), cresults := cresults c @ [sig]\<rparr>)"
proof -
  obtain js where js: "map answer js = map (\<lambda>sig. Replies (Inr sig)) (ccollected c @ cresults c)" "distinct (crunning c @ js)"
      "set (crunning c @ js) \<subseteq> {..<n}"
    using assms(1) by (auto simp: collect_inv_def)
  have r: "set (remove1 i (crunning c)) = set (crunning c) - {i}" using js(2) by (simp add: set_remove1_eq)
  show "collect_inv answer n (c\<lparr>crunning := remove1 i (crunning c)\<rparr>)"
    unfolding collect_inv_def using js r by (intro exI [of _ js]) (auto simp: distinct_remove1)
  assume "answer i = Replies (Inr sig)"
  then show "collect_inv answer n (c\<lparr>crunning := remove1 i (crunning c), cresults := cresults c @ [sig]\<rparr>)"
    unfolding collect_inv_def using js r assms(2) by (intro exI [of _ "js @ [i]"]) (auto simp: distinct_remove1)
qed

lemma collect_inv_answers: 
  assumes "collect_inv answer n c"
  shows "answers_of answer n (ccollected c)"
proof -
  obtain js where js: "map answer js = map (\<lambda>sig. Replies (Inr sig)) (ccollected c @ cresults c)" "distinct (crunning c @ js)"
      "set (crunning c @ js) \<subseteq> {..<n}"
    using assms by (auto simp: collect_inv_def)
  have "map answer (take (length (ccollected c)) js) = map (\<lambda>sig. Replies (Inr sig)) (ccollected c)"
    using js(1) by (simp flip: take_map)
  then show ?thesis
    unfolding answers_of_def using js(2,3) set_take_subset [of "length (ccollected c)" js]
    by (intro exI [of _ "take (length (ccollected c)) js"]) auto
qed

lemma collect_inv_move:
  assumes "collect_inv answer n c" "cresults c = sig # rest"
  shows "collect_inv answer n (c\<lparr>cresults := rest, ccollected := ccollected c @ [sig]\<rparr>)"
  using assms by (simp add: collect_inv_def)

lemma collect_inv_step:
  assumes "collect_step answer quorum bestEffort c y" "collect_inv answer n c"
  shows "case y of Waiting c' \<Rightarrow> collect_inv answer n c'
    | Returned sigs err \<Rightarrow> answers_of answer n sigs \<and> (err = None \<longleftrightarrow> quorum \<le> length sigs)"
  using assms(1)
proof cases
  case (reached sig rest)
  then show ?thesis using collect_inv_answers [OF collect_inv_move [OF assms(2) reached(2)]] by simp
qed (use assms(2) collect_inv_done collect_inv_answers collect_inv_move in \<open>auto simp: quorum_result_def collect_inv_def\<close>)

definition collect_steps :: "collection \<Rightarrow> nat" where
  "collect_steps c = 2 * length (crunning c) + length (cresults c) + (if cexpired c then 0 else 1)"

lemma collect_steps_less:
  "collect_step answer quorum bestEffort c (Waiting c') \<Longrightarrow> collect_steps c' < collect_steps c"
proof (erule collect_stepE)
  fix i sig
  assume "Waiting c' = Waiting (c\<lparr>crunning := remove1 i (crunning c), cresults := cresults c @ [sig]\<rparr>)"
    and i: "i \<in> set (crunning c)"
  moreover have "length (remove1 i (crunning c)) = length (crunning c) - 1" using i by (simp add: length_remove1)
  moreover obtain k where "length (crunning c) = Suc k" using i by (cases "crunning c") auto
  ultimately show ?thesis by (simp add: collect_steps_def)
qed (auto simp: collect_steps_def quorum_result_def length_remove1 dest: length_pos_if_in_set)

text \<open>
  Before the deadline the timer can fire; after it the collection can return at once, with what it has.
\<close>

lemma collect_returns:
  "cexpired c \<Longrightarrow> collect_step answer quorum bestEffort c (quorum_result quorum ''cert: quorum not met by deadline'' (ccollected c))"
  by (rule collect_step.deadline)

lemma collect_progress:
  "\<exists>y. collect_step answer quorum bestEffort c y"
  using collect_step.expire [of c answer quorum bestEffort] collect_returns [of c answer quorum bestEffort] by blast

lemma collect_run_inv:
  assumes "collect_run answer quorum bestEffort c0 k y" "collect_inv answer n c0"
  shows "case y of Waiting c \<Rightarrow> collect_inv answer n c \<and> k + collect_steps c \<le> collect_steps c0
    | Returned sigs err \<Rightarrow> answers_of answer n sigs \<and> (err = None \<longleftrightarrow> quorum \<le> length sigs) \<and> k \<le> Suc (collect_steps c0)"
  using assms
proof (induction rule: collect_run.induct)
  case (step k c y)
  then show ?case using collect_inv_step [OF step(2), of n] collect_steps_less
    by (cases y) (fastforce simp: Suc_le_eq)+
qed simp

lemma collect_enter_Waiting:
  assumes "collect_enter sha256 req mirrors quorum = (Waiting c, body)"
  shows "0 < quorum" "quorum \<le> int (length mirrors)" "buildSignSubtreeBody sha256 req = Inr body"
    "collect_inv answer (length mirrors) c" "collect_steps c = 2 * length mirrors + 1"
  using assms by (auto simp: collect_enter_def collect_inv_def collect_steps_def split: if_splits sum.splits)

lemma responseLoop_verified:
  "responseLoop lib key kid st pref ls = Inr sig \<Longrightarrow>
     CosignerID sig = CKID key \<and> (\<exists>msg. MarshalSignatureInput (CKID key) st = Inr msg \<and> VerifyMTCSignature lib key sig msg = Inr ())"
  by (induction lib key kid st pref ls rule: responseLoop.induct)
    (auto simp: rbind_eq_Inr rwrap_eq_Inr Let_def split: if_splits)

lemma requestOne_verified:
  assumes "requestOne lib sha256 http m body st = Inr sig"
  shows "CosignerID sig = CKID (MKey m)"
    "\<exists>msg. MarshalSignatureInput (CKID (MKey m)) st = Inr msg \<and> VerifyMTCSignature lib (MKey m) sig msg = Inr ()"
  using assms by (auto simp: requestOne_def rbind_eq_Inr Let_def split: if_splits dest!: responseLoop_verified)

lemma answer_verified:
  assumes "mirror_answer lib sha256 http mirrors body st i = Replies (Inr sig)"
  shows "CosignerID sig = CKID (MKey (mirrors ! i))"
    "\<exists>msg. MarshalSignatureInput (CKID (MKey (mirrors ! i))) st = Inr msg \<and> VerifyMTCSignature lib (MKey (mirrors ! i)) sig msg = Inr ()"
proof -
  obtain r where "requestOne lib sha256 (\<lambda>_ _. r) (mirrors ! i) body st = Inr sig"
    using assms by (cases "http i (MURL (mirrors ! i)) body") (auto simp: mirror_answer_def Let_def split: if_splits)
  from requestOne_verified [OF this] show "CosignerID sig = CKID (MKey (mirrors ! i))"
    "\<exists>msg. MarshalSignatureInput (CKID (MKey (mirrors ! i))) st = Inr msg \<and> VerifyMTCSignature lib (MKey (mirrors ! i)) sig msg = Inr ()"
    by simp_all
qed

text \<open>What a mirror answers reaches the collection.\<close>

lemma mirror_answer_replies:
  assumes "http i (MURL (mirrors ! i)) body = Replies r" "requestOne lib sha256 (\<lambda>_ _. r) (mirrors ! i) body st = Inr sig"
  shows "mirror_answer lib sha256 http mirrors body st i = Replies (Inr sig)"
proof -
  have "sends_request sha256 (mirrors ! i)"
    using assms(2) by (auto simp: requestOne_def sends_request_def rbind_eq_Inr Let_def split: if_splits)
  then show ?thesis using assms by (simp add: mirror_answer_def)
qed

text \<open>A response of one signature line by the configured key is accepted.\<close>

lemma requestOne_accepts:
  assumes "CKAlgorithm (MKey m) = AlgMLDSA44" "plain (CKID (MKey m))"
    and k: "CosignatureKeyID sha256 (OIDName (CKID (MKey m))) AlgMLDSA44 (CKPublicKey (MKey m)) = Inr k"
    and "http (MURL m) body = Inr (200, sigLine (OIDName (CKID (MKey m))) (k @ MarshalTimestampedSignature 0 sig) @ [newline])"
    and "length (sigLine (OIDName (CKID (MKey m))) (k @ MarshalTimestampedSignature 0 sig)) < maxResponse"
    and "MarshalSignatureInput (CKID (MKey m)) st = Inr msg"
    and "VerifyMTCSignature lib (MKey m) \<lparr>CosignerID = CKID (MKey m), Signature = sig\<rparr> msg = Inr ()"
  shows "requestOne lib sha256 http m body st = Inr \<lparr>CosignerID = CKID (MKey m), Signature = sig\<rparr>"
proof -
  let ?n = "OIDName (CKID (MKey m))" and ?blob = "k @ MarshalTimestampedSignature 0 sig"
  note sl = sigLine_props [OF plain_OIDName [OF assms(2)], of ?blob]
  have t: "take maxResponse (sigLine ?n ?blob @ [newline]) = sigLine ?n ?blob @ [newline]" using assms(5) by simp
  have b: "take 4 ?blob = k" "drop 4 ?blob = MarshalTimestampedSignature 0 sig" using CosignatureKeyID_length [OF k] by simp_all
  show ?thesis
    using assms sl(5,6) sig_lines(2) [OF sl(1,2)] CosignatureKeyID_length [OF k]
    by (simp add: requestOne_def Let_def t parse_timestamped b del: take_append drop_append)
qed

text \<open>
  C7: a successful collection has at least the quorum of signatures, and they come from as many distinct
  configured mirrors: each one names its mirror as the cosigner and verifies under that mirror's key over
  the signature input for the requested subtree. An error is reported exactly when fewer than the quorum
  were collected.
\<close>

theorem quorum_sound:
  assumes "RequestCosignatures lib sha256 http req mirrors quorum bestEffort sigs err" "0 < quorum"
    and "ReqSubtree req = Some st"
  shows "(err = None \<longleftrightarrow> quorum \<le> int (length sigs)) \<and>
    (\<exists>js. distinct js \<and> set js \<subseteq> {..<length mirrors} \<and> length js = length sigs \<and>
      (\<forall>k<length sigs. CosignerID (sigs ! k) = CKID (MKey (mirrors ! (js ! k))) \<and>
        (\<exists>msg. MarshalSignatureInput (CKID (MKey (mirrors ! (js ! k)))) st = Inr msg \<and>
          VerifyMTCSignature lib (MKey (mirrors ! (js ! k))) (sigs ! k) msg = Inr ())))"
  using assms(1)
proof cases
  case (early body)
  then have "sigs = [] \<and> err \<noteq> None" using assms(2) by (auto simp: collect_enter_def split: if_splits sum.splits)
  then show ?thesis using assms(2) by auto
next
  case (collect c body st' n)
  let ?a = "mirror_answer lib sha256 http mirrors body st"
  have st': "st' = st" using collect(2) assms(3) by simp
  have inv: "answers_of ?a (length mirrors) sigs \<and> (err = None \<longleftrightarrow> nat quorum \<le> length sigs)"
    using collect_run_inv [OF collect(3) collect_enter_Waiting(4) [OF collect(1)]] st' by simp
  then obtain js where js: "map ?a js = map (\<lambda>sig. Replies (Inr sig)) sigs" "distinct js" "set js \<subseteq> {..<length mirrors}"
    by (auto simp: answers_of_def)
  have len: "length js = length sigs" using js(1) map_eq_imp_length_eq by blast
  have v: "CosignerID (sigs ! k) = CKID (MKey (mirrors ! (js ! k)))"
      "\<exists>msg. MarshalSignatureInput (CKID (MKey (mirrors ! (js ! k)))) st = Inr msg \<and>
        VerifyMTCSignature lib (MKey (mirrors ! (js ! k))) (sigs ! k) msg = Inr ()" if k: "k < length sigs" for k
  proof -
    have "?a (js ! k) = Replies (Inr (sigs ! k))" using arg_cong [OF js(1), of "\<lambda>xs. xs ! k"] k len by simp
    from answer_verified [OF this] show "CosignerID (sigs ! k) = CKID (MKey (mirrors ! (js ! k)))"
      "\<exists>msg. MarshalSignatureInput (CKID (MKey (mirrors ! (js ! k)))) st = Inr msg \<and>
        VerifyMTCSignature lib (MKey (mirrors ! (js ! k))) (sigs ! k) msg = Inr ()" by simp_all
  qed
  then show ?thesis using inv js(2,3) len assms(2) by (intro conjI exI [of _ js]) auto
qed

text \<open>A mirror of one key, whose valid signature is the byte 9.\<close>

definition sample_mldsa :: "unit mldsa" where
  "sample_mldsa = \<lparr>NewPublicKey = (\<lambda>_ _. Inr ()),
     mldsaVerify = (\<lambda>_ _ sig. if sig = [9] then Inr () else Inl (Errorf ''bad signature''))\<rparr>"

definition sample_mirror :: MirrorEndpoint where
  "sample_mirror = \<lparr>MURL = ''https://m/'', MKey = \<lparr>CKID = ''32473.2'', CKAlgorithm = AlgMLDSA44, CKPublicKey = replicate 1312 0\<rparr>\<rparr>"

definition sample_req :: SubtreeRequest where
  "sample_req = \<lparr>ReqSubtree = Some \<lparr>SubLogID = ''32473.1'', SubStart = 0, SubEnd = 4, SubHash = mk_Hash [1]\<rparr>,
     CACheckpointBody = ''x'', ConsistencyProof = [], CASignature = None, CACosignerID = [], CACosignerKey = []\<rparr>"

definition sample_http :: "string \<Rightarrow> string \<Rightarrow> (nat \<times> string) result" where
  "sample_http _ _ = Inr (200, sigLine (OIDName ''32473.2'') ([7, 0, 0, 0] @ MarshalTimestampedSignature 0 [9]) @ [newline])"

lemma sample_answer:
  "requestOne sample_mldsa (\<lambda>_. mk_Hash [7]) sample_http sample_mirror body (the (ReqSubtree sample_req)) =
     Inr \<lparr>CosignerID = ''32473.2'', Signature = [9]\<rparr>"
proof -
  have m: "\<exists>msg. MarshalSignatureInput ''32473.2'' (the (ReqSubtree sample_req)) = Inr msg"
    by (simp add: MarshalSignatureInput_eq sample_req_def OIDName_def OIDNamePrefix_def TrustAnchorOIDBase_def)
  then obtain msg where msg: "MarshalSignatureInput ''32473.2'' (the (ReqSubtree sample_req)) = Inr msg" ..
  have k: "CosignatureKeyID (\<lambda>_. mk_Hash [7]) (OIDName ''32473.2'') AlgMLDSA44 (replicate 1312 0) = Inr [7, 0, 0, 0]"
    by (simp add: CosignatureKeyID_def hash_bytes_mk_Hash_raw eval_nat_numeral)
  have l: "length (sigLine (OIDName ''32473.2'') ([7, 0, 0, 0] @ MarshalTimestampedSignature 0 [9])) < maxResponse"
    by code_simp
  have s: "CKID (MKey sample_mirror) = ''32473.2''" "CKAlgorithm (MKey sample_mirror) = AlgMLDSA44"
    "CKPublicKey (MKey sample_mirror) = replicate 1312 0" by (simp_all add: sample_mirror_def)
  have v: "VerifyMTCSignature sample_mldsa (MKey sample_mirror) \<lparr>CosignerID = ''32473.2'', Signature = [9]\<rparr> msg = Inr ()"
    using s by (simp add: VerifyMTCSignature_def verifyMLDSA_def sample_mldsa_def)
  show ?thesis
    by (rule requestOne_accepts [of sample_mirror "\<lambda>_. mk_Hash [7]" "[7, 0, 0, 0]" sample_http body "[9]"
          "the (ReqSubtree sample_req)" msg sample_mldsa, unfolded s, OF refl _ k _ l msg v])
      (simp_all add: plain_char_def sample_http_def)
qed

definition sample_text :: string where
  "sample_text = ''subtree '' @ FormatUint 0 @ '' '' @ FormatUint 4 @ [newline]
     @ EncodeToString (hash_bytes (mk_Hash [1])) @ [newline, newline] @ ''x'' @ [newline]"

lemma sample_body: "buildSignSubtreeBody (\<lambda>_. mk_Hash [7]) (Some sample_req) = Inr sample_text"
  by (simp add: buildSignSubtreeBody_def sample_req_def sample_text_def newline_def)

lemma sample_subtree: "ReqSubtree sample_req = Some (the (ReqSubtree sample_req))"
  by (simp add: sample_req_def)

lemma sample_replies:
  "mirror_answer sample_mldsa (\<lambda>_. mk_Hash [7]) (\<lambda>_ u b. Replies (sample_http u b)) [sample_mirror] body (the (ReqSubtree sample_req)) 0
     = Replies (Inr \<lparr>CosignerID = ''32473.2'', Signature = [9]\<rparr>)"
  using sample_answer [of body] by (intro mirror_answer_replies [OF refl]) (simp add: requestOne_def)

lemma sample_collection:
  "RequestCosignatures sample_mldsa (\<lambda>_. mk_Hash [7]) (\<lambda>_ u b. Replies (sample_http u b)) sample_req [sample_mirror] 1 False
     [\<lparr>CosignerID = ''32473.2'', Signature = [9]\<rparr>] None"
proof (rule RequestCosignatures.collect [OF _ sample_subtree])
  let ?c = "\<lparr>crunning = [0], cresults = [], ccollected = [], cexpired = False\<rparr>"
  let ?s = "\<lparr>CosignerID = ''32473.2'', Signature = [9]\<rparr>"
  let ?a = "mirror_answer sample_mldsa (\<lambda>_. mk_Hash [7]) (\<lambda>_ u b. Replies (sample_http u b)) [sample_mirror] sample_text (the (ReqSubtree sample_req))"
  show "collect_enter (\<lambda>_. mk_Hash [7]) (Some sample_req) [sample_mirror] 1 = (Waiting ?c, sample_text)"
    by (simp add: collect_enter_def sample_body)
  have "collect_step ?a 1 False ?c (Waiting (?c\<lparr>crunning := [], cresults := [?s]\<rparr>))"
    using collect_step.send [of 0 ?c ?a ?s] sample_replies by simp
  note collect_run.step [OF collect_run.start this]
  from collect_run.step [OF this collect_step.reached]
  show "collect_run ?a (nat 1) False ?c (Suc (Suc 0)) (Returned [?s] None)" by simp
qed

theorem quorum_sound_witness:
  "\<exists>msg. MarshalSignatureInput ''32473.2'' (the (ReqSubtree sample_req)) = Inr msg \<and>
    VerifyMTCSignature sample_mldsa (MKey sample_mirror) \<lparr>CosignerID = ''32473.2'', Signature = [9]\<rparr> msg = Inr ()"
proof -
  let ?s = "[\<lparr>CosignerID = ''32473.2'', Signature = [9]\<rparr>]"
  obtain js where js: "set js \<subseteq> {..<1}" "length js = 1" and
    v: "\<forall>k<length ?s. CosignerID (?s ! k) = CKID (MKey ([sample_mirror] ! (js ! k))) \<and>
        (\<exists>msg. MarshalSignatureInput (CKID (MKey ([sample_mirror] ! (js ! k)))) (the (ReqSubtree sample_req)) = Inr msg \<and>
          VerifyMTCSignature sample_mldsa (MKey ([sample_mirror] ! (js ! k))) (?s ! k) msg = Inr ())"
    using quorum_sound [OF sample_collection _ sample_subtree] by auto
  have "js ! 0 = 0" using js by (cases js) auto
  with v [rule_format, of 0] show ?thesis by (simp add: sample_mirror_def)
qed

text \<open>
  C27: a collection always ends. However the goroutines are scheduled, and whichever mirrors answer, are
  aborted at the deadline or hang forever, every run takes at most two steps per mirror plus two, and a
  collection that has not returned can take a step. Once the deadline has passed it can return at
  once with the signatures it has, even when requests still run, and without an error exactly when these
  reach the quorum.
\<close>

theorem collection_terminates:
  assumes "collect_enter sha256 req mirrors quorum = (Waiting c0, body)" "collect_run answer q bestEffort c0 n y"
  shows "n \<le> 2 * length mirrors + 2 \<and>
    (case y of
       Waiting c \<Rightarrow> (\<exists>z. collect_run answer q bestEffort c0 (Suc n) z) \<and>
         (cexpired c \<longrightarrow> (\<exists>err. collect_run answer q bestEffort c0 (Suc n) (Returned (ccollected c) err) \<and>
            (err = None \<longleftrightarrow> q \<le> length (ccollected c))))
     | Returned sigs err \<Rightarrow> err = None \<longleftrightarrow> q \<le> length sigs)"
proof (cases y)
  case (Waiting c)
  note run = assms(2) [unfolded Waiting]
  have "n \<le> 2 * length mirrors + 2"
    using collect_run_inv [OF run collect_enter_Waiting(4) [OF assms(1)]] collect_enter_Waiting(5) [OF assms(1)] by simp
  moreover have "\<exists>err. collect_run answer q bestEffort c0 (Suc n) (Returned (ccollected c) err) \<and> (err = None \<longleftrightarrow> q \<le> length (ccollected c))"
    if "cexpired c"
    by (rule exI, rule conjI [OF collect_run.step [OF run collect_returns [OF that], unfolded quorum_result_def]]) simp
  moreover have "\<exists>z. collect_run answer q bestEffort c0 (Suc n) z"
    using collect_progress [of answer q bestEffort c] collect_run.step [OF run] by blast
  ultimately show ?thesis using Waiting by simp
next
  case (Returned sigs err)
  then show ?thesis
    using collect_run_inv [OF assms(2) collect_enter_Waiting(4) [OF assms(1)]] collect_enter_Waiting(5) [OF assms(1)] by simp
qed

text \<open>One mirror that hangs: the deadline passes, and the collection returns an error.\<close>

theorem collection_terminates_witness:
  "\<exists>c0 body err. collect_enter (\<lambda>_. mk_Hash [7]) (Some sample_req) [sample_mirror] 1 = (Waiting c0, body) \<and>
     collect_run (\<lambda>_. Hangs) 1 False c0 2 (Returned [] err) \<and> err \<noteq> None"
proof -
  let ?c = "\<lparr>crunning = [0], cresults = [], ccollected = [], cexpired = False\<rparr>"
  have c: "collect_enter (\<lambda>_. mk_Hash [7]) (Some sample_req) [sample_mirror] 1 = (Waiting ?c, sample_text)"
    by (simp add: collect_enter_def sample_body)
  have "collect_step (\<lambda>_. Hangs) 1 False ?c (Waiting (?c\<lparr>cexpired := True\<rparr>))" by (rule collect_step.expire) simp
  note collect_run.step [OF collect_run.start this]
  from collection_terminates [OF c this] c show ?thesis by (auto simp: numeral_2_eq_2)
qed

text \<open>
  the quorum check races with the results channel. With one mirror, a quorum of one and an answer
  that verifies, the collection can still report that the quorum was not met: once the goroutine is done
  both the result and the end of all requests are ready, and the receiver may choose the latter.
\<close>

theorem quorum_race:
  assumes "buildSignSubtreeBody sha256 (Some req) = Inr body" "ReqSubtree req = Some st"
    and "http 0 (MURL m) body = Replies r" "requestOne lib sha256 (\<lambda>_ _. r) m body st = Inr sig"
  shows "RequestCosignatures lib sha256 http req [m] 1 bestEffort [] (Some (Errorf ''cert: quorum not met''))"
proof (rule RequestCosignatures.collect [OF _ assms(2)])
  let ?c = "\<lparr>crunning = [0], cresults = [], ccollected = [], cexpired = False\<rparr>"
  let ?a = "mirror_answer lib sha256 http [m] body st"
  show "collect_enter sha256 (Some req) [m] 1 = (Waiting ?c, body)" by (simp add: collect_enter_def assms(1))
  have "collect_step ?a 1 bestEffort ?c (Waiting (?c\<lparr>crunning := [], cresults := [sig]\<rparr>))"
    using collect_step.send [of 0 ?c ?a sig] mirror_answer_replies [of http 0 "[m]" body r lib sha256 st sig] assms(3,4) by simp
  note collect_run.step [OF collect_run.start this]
  from collect_run.step [OF this collect_step.finished]
  show "collect_run ?a (nat 1) bestEffort ?c (Suc (Suc 0)) (Returned [] (Some (Errorf ''cert: quorum not met'')))"
    by (simp add: quorum_result_def)
qed

theorem quorum_race_witness:
  "requestOne sample_mldsa (\<lambda>_. mk_Hash [7]) sample_http sample_mirror [] (the (ReqSubtree sample_req)) =
     Inr \<lparr>CosignerID = ''32473.2'', Signature = [9]\<rparr> \<and>
   RequestCosignatures sample_mldsa (\<lambda>_. mk_Hash [7]) (\<lambda>_ u b. Replies (sample_http u b)) sample_req [sample_mirror] 1 False []
     (Some (Errorf ''cert: quorum not met''))"
proof -
  have "requestOne sample_mldsa (\<lambda>_. mk_Hash [7]) (\<lambda>_ _. sample_http (MURL sample_mirror) sample_text) sample_mirror sample_text
      (the (ReqSubtree sample_req)) = Inr \<lparr>CosignerID = ''32473.2'', Signature = [9]\<rparr>"
    using sample_answer [of sample_text] by (simp add: requestOne_def)
  from quorum_race [OF sample_body sample_subtree _ this, where http = "\<lambda>_ u b. Replies (sample_http u b)" and bestEffort = False] sample_answer
  show ?thesis by simp
qed

end
