(* ===== verification/Inclusion.thy ===== *)
theory Inclusion
  imports Subtree
begin

text \<open>
  Generation of subtree hashes and subtree inclusion proofs from stored hashes
  (tlogx/inclusion.go). The package golang.org/x/mod/sumdb/tlog is a parameter: its function
  \<open>StoredHashIndex\<close> and the \<open>HashReader\<close> a caller passes. What the code relies on is
  \<open>reader_serves\<close>: reading the index of the complete node \<open>n\<close> at level \<open>l\<close> gives the hash of the
  leaves \<open>n * 2^l, ..., (n + 1) * 2^l - 1\<close>.
\<close>

section \<open>The code\<close>

type_synonym stored_hash_index = "nat \<Rightarrow> int \<Rightarrow> int"
type_synonym hash_reader = "int list \<Rightarrow> Hash list result"

definition largestPowerOfTwoLT :: "u64 \<Rightarrow> u64" where
  "largestPowerOfTwoLT n = (if n \<le> 1 then 0 else push_bit (Len64 (n - 1) - 1) 1)"

text \<open>\<open>hs[0]\<close> of a slice.\<close>

definition first_hash :: "Hash list \<Rightarrow> Hash result" where
  "first_hash hs = (case hs of [] \<Rightarrow> Inl (Panic ''index out of range'') | h # _ \<Rightarrow> Inr h)"

text \<open>Splitting an interval of width above 1 gives two smaller non-empty ones.\<close>

lemma largestPowerOfTwoLT_lp2:
  assumes "1 < unat n"
  shows "unat (largestPowerOfTwoLT n) = lp2 (unat n)"
proof -
  have m1: "unat (n - 1) = unat n - 1"
    using assms by (subst unat_diff_u64) (simp_all add: u64_le_iff)
  have "Len64 (n - 1) - 1 < 64"
    using Len64_le_64 [of "n - 1"] by linarith
  with assms show ?thesis
    by (simp add: largestPowerOfTwoLT_def u64_le_iff unat_2pow lp2_def Len64_def m1)
qed

lemma split_widths:
  fixes start "end" :: u64
  assumes "start < end" "1 < unat end - unat start"
  defines "k \<equiv> largestPowerOfTwoLT (end - start)"
  shows "unat (start + k) = unat start + lp2 (unat end - unat start)"
    and "unat start < unat (start + k)" and "unat (start + k) < unat end"
    and "unat (start + k) - unat start < unat end - unat start"
    and "unat end - unat (start + k) < unat end - unat start"
proof -
  have w: "unat (end - start) = unat end - unat start"
    using assms(1) by (simp add: unat_diff_u64)
  then have k: "unat k = lp2 (unat end - unat start)"
    using assms(2) by (simp add: k_def largestPowerOfTwoLT_lp2)
  have lt: "lp2 (unat end - unat start) < unat end - unat start"
    using assms(2) by (rule lp2_less)
  show eq: "unat (start + k) = unat start + lp2 (unat end - unat start)"
    using lt unat_less_u64 [of "end"] unfolding k [symmetric] by (intro unat_add_u64) linarith
  show "unat start < unat (start + k)" "unat (start + k) < unat end"
    "unat (start + k) - unat start < unat end - unat start"
    "unat end - unat (start + k) < unat end - unat start"
    using eq lt lp2_pos [of "unat end - unat start"] by linarith+
qed

lemma width_not_pow2:
  fixes start "end" :: u64
  assumes "start < end" "\<not> ((end - start) AND (end - start - 1) = 0 \<and> start mod (end - start) = 0)"
  shows "1 < unat end - unat start"
proof (rule ccontr)
  assume "\<not> ?thesis"
  moreover have "unat start < unat end" using assms(1) by (simp add: u64_less_iff)
  moreover have "unat (end - start) = unat end - unat start"
    using assms(1) by (simp add: unat_diff_u64)
  ultimately have "unat (end - start) = 1" by linarith
  then have "end - start = 1" by (simp add: u64_eq_iff)
  with assms(2) show False by simp
qed

function subtreeHashFromHR ::
  "(bytes \<Rightarrow> Hash) \<Rightarrow> stored_hash_index \<Rightarrow> hash_reader \<Rightarrow> u64 \<Rightarrow> u64 \<Rightarrow> Hash result" where
  "subtreeHashFromHR sha256 shi hr start end =
     (if start \<ge> end then Inl (Errorf ''empty subtree'')
      else
        let width = end - start in
        if width AND (width - 1) = 0 \<and> start mod width = 0 then
          let level = Len64 width - 1; n = start div width; idx = shi level (sint n)
          in rbind (hr [idx]) first_hash
        else
          let k = largestPowerOfTwoLT width; mid = start + k
          in rbind (subtreeHashFromHR sha256 shi hr start mid) (\<lambda>left.
             rbind (subtreeHashFromHR sha256 shi hr mid end) (\<lambda>right.
               Inr (HashChildren sha256 left right))))"
  by pat_completeness auto
termination
proof (relation "measure (\<lambda>(_, _, _, s, e). unat e - unat s)", goal_cases)
  case (2 sha256 shi hr s e w k mid)
  then have "s < e" "1 < unat e - unat s" using width_not_pow2 [of s e] by (simp_all add: not_le)
  from split_widths [OF this] 2 show ?case by simp
next
  case (3 sha256 shi hr s e w k mid x)
  then have "s < e" "1 < unat e - unat s" using width_not_pow2 [of s e] by (simp_all add: not_le)
  from split_widths [OF this] 3 show ?case by (simp add: diff_less_mono2)
qed simp

declare subtreeHashFromHR.simps [simp del]

definition SubtreeHash ::
  "(bytes \<Rightarrow> Hash) \<Rightarrow> stored_hash_index \<Rightarrow> u64 \<Rightarrow> u64 \<Rightarrow> hash_reader \<Rightarrow> Hash result" where
  "SubtreeHash sha256 shi start end hr = subtreeHashFromHR sha256 shi hr start end"

text \<open>The root-down loop of \<open>GenerateInclusionProof\<close>.\<close>

function genLoop ::
  "(bytes \<Rightarrow> Hash) \<Rightarrow> stored_hash_index \<Rightarrow> hash_reader \<Rightarrow> u64 \<Rightarrow> u64 \<Rightarrow> u64 \<Rightarrow> Hash list \<Rightarrow> Hash list result"
where
  "genLoop sha256 shi hr start end index proof =
     (if end - start > 1 then
        let k = largestPowerOfTwoLT (end - start); mid = start + k
        in if index < mid then
             rbind (subtreeHashFromHR sha256 shi hr mid end) (\<lambda>sib.
               genLoop sha256 shi hr start mid index (proof @ [sib]))
           else
             rbind (subtreeHashFromHR sha256 shi hr start mid) (\<lambda>sib.
               genLoop sha256 shi hr mid end index (proof @ [sib]))
      else Inr proof)"
  by pat_completeness auto
termination
proof (relation "measure (\<lambda>(_, _, _, s, e, _, _). unat (e - s))", goal_cases)
  case (2 sha256 shi hr s e i p k mid x)
  then have w: "1 < unat (e - s)" by (simp add: u64_less_iff)
  have "unat (largestPowerOfTwoLT (e - s)) < unat (e - s)"
    using largestPowerOfTwoLT_lp2 [OF w] lp2_less [OF w] by simp
  with 2 show ?case by simp
next
  case (3 sha256 shi hr s e i p k mid x)
  then have w: "1 < unat (e - s)" by (simp add: u64_less_iff)
  define d where "d = e - s"
  have k: "unat (largestPowerOfTwoLT d) < unat d" "0 < unat (largestPowerOfTwoLT d)"
    using largestPowerOfTwoLT_lp2 [OF w] lp2_less [OF w] by (simp_all add: d_def)
  have "e - mid = d - largestPowerOfTwoLT d" using 3 by (simp add: d_def)
  then have "unat (e - mid) < unat (e - s)"
    using k by (simp add: unat_diff_u64 u64_le_iff flip: d_def)
  then show ?case by simp
qed simp

declare genLoop.simps [simp del]

definition GenerateInclusionProof ::
  "(bytes \<Rightarrow> Hash) \<Rightarrow> stored_hash_index \<Rightarrow> u64 \<Rightarrow> u64 \<Rightarrow> u64 \<Rightarrow> hash_reader \<Rightarrow> Hash list result" where
  "GenerateInclusionProof sha256 shi start end index hr =
     rbind (IsValid start end) (\<lambda>ok.
       if \<not> ok then Inl (Errorf ''tlogx: invalid subtree'')
       else if index < start \<or> index \<ge> end then Inl (Errorf ''tlogx: index outside'')
       else rbind (genLoop sha256 shi hr start end index []) (\<lambda>proof. Inr (rev proof)))"

section \<open>Correctness of the generated hashes and proofs\<close>

text \<open>What the code relies on of the hash reader and of \<open>tlog.StoredHashIndex\<close>.\<close>

definition reader_serves ::
  "stored_hash_index \<Rightarrow> hash_reader \<Rightarrow> (Hash \<Rightarrow> Hash \<Rightarrow> Hash) \<Rightarrow> (nat \<Rightarrow> Hash) \<Rightarrow> nat \<Rightarrow> bool" where
  "reader_serves shi hr node d N \<longleftrightarrow>
     (\<forall>l n. (n + 1) * 2 ^ l \<le> N \<longrightarrow> hr [shi l (int n)] = Inr [mth node d (n * 2 ^ l) (2 ^ l)])"

lemma sint_small:
  fixes n :: u64
  assumes "unat n < 2 ^ 63"
  shows "sint n = int (unat n)"
proof -
  have eq: "uint n = int (unat n)" by simp
  have "int (unat n) < 2 ^ 63" using assms by (metis of_nat_less_iff of_nat_numeral of_nat_power)
  then have "0 \<le> uint n" "uint n < 2 ^ 63" unfolding eq by simp_all
  then have "signed_take_bit 63 (uint n) = uint n" by (intro signed_take_bit_int_eq_self) linarith+
  then show ?thesis by (simp add: sint_uint)
qed

lemma aligned_read:
  fixes start "end" :: u64
  assumes serves: "reader_serves shi hr node d N" and N: "unat end \<le> N" "N \<le> 2 ^ 63"
    and lt: "start < end"
    and al: "(end - start) AND (end - start - 1) = 0" "start mod (end - start) = 0"
  shows "hr [shi (Len64 (end - start) - 1) (sint (start div (end - start)))]
    = Inr [mth node d (unat start) (unat end - unat start)]"
proof -
  define w where "w = unat end - unat start"
  have w: "unat (end - start) = w" using lt by (simp add: unat_diff_u64 w_def)
  have w0: "0 < w" using lt by (simp add: w_def u64_less_iff)
  then have "end - start \<noteq> 0" using w by (metis less_irrefl unsigned_0)
  with al(1) w obtain l where l: "w = 2 ^ l" using u64_pow2_test by metis
  have len: "Len64 (end - start) - 1 = l"
    unfolding Len64_def w l by (subst bit_len_unique [of l]) simp_all
  define n where "n = unat start div w"
  have "unat start mod w = 0" using al(2) w by (metis unat_mod unsigned_0)
  then have start: "unat start = n * 2 ^ l"
    unfolding n_def using l by (metis add.right_neutral div_mult_mod_eq)
  have un: "unat (start div (end - start)) = n" by (simp add: unat_div w n_def)
  have le: "(n + 1) * 2 ^ l \<le> N"
    using N(1) lt start l unfolding w_def by (simp add: u64_less_iff)
  have "n < n + 1" by simp
  also have "n + 1 \<le> (n + 1) * 2 ^ l" by (metis mult.right_neutral mult_le_mono2 one_le_numeral one_le_power)
  also have "\<dots> \<le> 2 ^ 63" using le N(2) by (rule le_trans)
  finally have "sint (start div (end - start)) = int n" using un by (simp add: sint_small)
  with serves le len start l show ?thesis
    unfolding reader_serves_def w_def by metis
qed

lemma subtreeHashFromHR_mth:
  assumes serves: "reader_serves shi hr (HashChildren sha256) d N" "N \<le> 2 ^ 63"
    and "start < end" "unat end \<le> N"
  shows "subtreeHashFromHR sha256 shi hr start end
      = Inr (mth (HashChildren sha256) d (unat start) (unat end - unat start))"
  using assms(3,4)
proof (induction "unat end - unat start" arbitrary: start "end" rule: less_induct)
  case less
  let ?M = "mth (HashChildren sha256) d"
  show ?case
  proof (cases "(end - start) AND (end - start - 1) = 0 \<and> start mod (end - start) = 0")
    case True
    then have "rbind (hr [shi (Len64 (end - start) - 1) (sint (start div (end - start)))]) first_hash
        = Inr (?M (unat start) (unat end - unat start))"
      using aligned_read [OF serves(1) less.prems(2) serves(2) less.prems(1)] by (simp add: first_hash_def)
    with True less.prems(1) show ?thesis
      by (subst subtreeHashFromHR.simps) (simp add: Let_def not_le)
  next
    case False
    define mid where "mid = start + largestPowerOfTwoLT (end - start)"
    have w: "1 < unat end - unat start" using width_not_pow2 [OF less.prems(1) False] .
    note sp = split_widths [OF less.prems(1) w, folded mid_def]
    have L: "subtreeHashFromHR sha256 shi hr start mid = Inr (?M (unat start) (unat mid - unat start))"
      using sp(2-5) less.prems(2) by (intro less.hyps) (simp_all add: u64_less_iff)
    have R: "subtreeHashFromHR sha256 shi hr mid end = Inr (?M (unat mid) (unat end - unat mid))"
      using sp(2-5) less.prems(2) by (intro less.hyps) (simp_all add: u64_less_iff)
    have "subtreeHashFromHR sha256 shi hr start end
        = Inr (HashChildren sha256 (?M (unat start) (unat mid - unat start)) (?M (unat mid) (unat end - unat mid)))"
      using less.prems(1) False
      by (subst subtreeHashFromHR.simps)
        (simp only: Let_def not_le if_not_P mid_def [symmetric] L R rbind_simps if_False)
    then show ?thesis using sp(1) by (simp add: mth_split [OF w] diff_diff_left)
  qed
qed

text \<open>The loop emits the audit path root-down.\<close>

lemma genLoop_audit:
  assumes serves: "reader_serves shi hr (HashChildren sha256) d N" "N \<le> 2 ^ 63"
    and "start \<le> index" "index < end" "unat end \<le> N"
  shows "genLoop sha256 shi hr start end index acc
      = Inr (acc @ rev (audit (HashChildren sha256) d (unat start) (unat end - unat start)
          (unat index - unat start)))"
  using assms(3-5)
proof (induction "unat end - unat start" arbitrary: start "end" acc rule: less_induct)
  case less
  let ?M = "mth (HashChildren sha256) d" and ?A = "audit (HashChildren sha256) d"
  have lt: "start < end" using less.prems(1,2) by (rule le_less_trans)
  have wd: "unat (end - start) = unat end - unat start" using lt by (simp add: unat_diff_u64)
  show ?case
  proof (cases "1 < unat end - unat start")
    case False
    then have "\<not> end - start > 1" using wd by (simp add: u64_less_iff)
    moreover have "?A (unat start) (unat end - unat start) i = []" for i
      using False by (simp add: audit.simps)
    ultimately show ?thesis by (simp add: genLoop.simps)
  next
    case True
    define mid where "mid = start + largestPowerOfTwoLT (end - start)"
    note sp = split_widths [OF lt True, folded mid_def]
    have g: "end - start > 1" using True wd by (simp add: u64_less_iff)
    have L: "subtreeHashFromHR sha256 shi hr start mid = Inr (?M (unat start) (unat mid - unat start))"
      using sp less.prems(3) by (intro subtreeHashFromHR_mth [OF serves]) (simp_all add: u64_less_iff)
    have R: "subtreeHashFromHR sha256 shi hr mid end = Inr (?M (unat mid) (unat end - unat mid))"
      using sp less.prems(3) by (intro subtreeHashFromHR_mth [OF serves]) (simp_all add: u64_less_iff)
    show ?thesis
    proof (cases "index < mid")
      case True
      have rel: "unat index - unat start < lp2 (unat end - unat start)"
        using True sp(1) less.prems(1) unfolding u64_less_iff u64_le_iff by linarith
      have "genLoop sha256 shi hr start end index acc
          = genLoop sha256 shi hr start mid index (acc @ [?M (unat mid) (unat end - unat mid)])"
        by (subst genLoop.simps) (simp only: g True if_True Let_def mid_def [symmetric] R rbind_simps)
      also have "\<dots> = Inr ((acc @ [?M (unat mid) (unat end - unat mid)])
          @ rev (?A (unat start) (unat mid - unat start) (unat index - unat start)))"
        using True sp(2-5) less.prems by (intro less.hyps) simp_all
      finally show ?thesis
        using sp(1) audit_left [OF \<open>1 < unat end - unat start\<close> rel, of "HashChildren sha256" d "unat start"] by (simp add: diff_diff_left)
    next
      case False
      have rel: "\<not> unat index - unat start < lp2 (unat end - unat start)"
        using False sp(1) less.prems(1) unfolding u64_less_iff u64_le_iff by linarith
      have "genLoop sha256 shi hr start end index acc
          = genLoop sha256 shi hr mid end index (acc @ [?M (unat start) (unat mid - unat start)])"
        by (subst genLoop.simps)
          (simp only: g False if_True if_False Let_def mid_def [symmetric] L rbind_simps)
      also have "\<dots> = Inr ((acc @ [?M (unat start) (unat mid - unat start)])
          @ rev (?A (unat mid) (unat end - unat mid) (unat index - unat mid)))"
        using False sp(2-5) less.prems by (intro less.hyps) (simp_all add: not_less)
      finally show ?thesis
        using sp(1) audit_right [OF \<open>1 < unat end - unat start\<close>, of "unat index - unat start"
          "HashChildren sha256" d "unat start"] rel
        by (simp add: diff_diff_left)
    qed
  qed
qed

lemma GenerateInclusionProof_audit:
  assumes "reader_serves shi hr (HashChildren sha256) d N" "N \<le> 2 ^ 63"
    and "IsValid start end = Inr True" "start \<le> index" "index < end" "unat end \<le> N"
  shows "GenerateInclusionProof sha256 shi start end index hr
      = Inr (audit (HashChildren sha256) d (unat start) (unat end - unat start)
          (unat index - unat start))"
proof -
  have "\<not> index < start" "\<not> index \<ge> end" using assms(4,5) by (auto simp: not_le not_less)
  then show ?thesis
    using genLoop_audit [OF assms(1,2,4,5,6), of "[]"] assms(3)
    by (simp add: GenerateInclusionProof_def)
qed

text \<open>
  A concrete reader for the concrete instances below: it numbers node \<open>n\<close> of level \<open>l\<close> as
  \<open>64 * n + l\<close> and computes every hash it is asked for.
\<close>

definition sample_index :: "nat \<Rightarrow> int \<Rightarrow> int" where
  "sample_index l n = 64 * n + int l"

definition sample_reader :: "(Hash \<Rightarrow> Hash \<Rightarrow> Hash) \<Rightarrow> (nat \<Rightarrow> Hash) \<Rightarrow> hash_reader" where
  "sample_reader node d is =
     Inr (map (\<lambda>i. let l = nat (i mod 64) in mth node d (nat (i div 64) * 2 ^ l) (2 ^ l)) is)"

lemma sample_reader_serves:
  assumes "N \<le> 2 ^ 63"
  shows "reader_serves sample_index (sample_reader node d) node d N"
  unfolding reader_serves_def
proof (intro allI impI)
  fix l n :: nat
  assume "(n + 1) * 2 ^ l \<le> N"
  moreover have "2 ^ l \<le> (n + 1) * 2 ^ l" by simp
  ultimately have "(2::nat) ^ l \<le> 2 ^ 63" using assms by linarith
  then have "l \<le> 63" by (rule power_le_imp_le_exp [rotated]) simp
  then have "nat ((64 * int n + int l) mod 64) = l" "nat ((64 * int n + int l) div 64) = n"
    by simp_all
  then show "sample_reader node d [sample_index l (int n)] = Inr [mth node d (n * 2 ^ l) (2 ^ l)]"
    by (simp add: sample_reader_def sample_index_def Let_def)
qed

section \<open>Properties\<close>

text \<open>
  \<open>SubtreeHash\<close> returns the Merkle tree hash of the leaves of any non-empty range, valid
  subtree or not, from a reader that serves the stored hashes of the tree.
\<close>

theorem SubtreeHash_correct:
  assumes "reader_serves shi hr (HashChildren sha256) d N" "N \<le> 2 ^ 63"
    and "start < end" "unat end \<le> N"
  shows "SubtreeHash sha256 shi start end hr
      = Inr (mth (HashChildren sha256) d (unat start) (unat end - unat start))"
  unfolding SubtreeHash_def using assms by (rule subtreeHashFromHR_mth)

theorem SubtreeHash_correct_witness:
  "SubtreeHash mk_Hash sample_index 3 7
      (sample_reader (HashChildren mk_Hash) (\<lambda>i. mk_Hash [of_nat i]))
    = Inr (mth (HashChildren mk_Hash) (\<lambda>i. mk_Hash [of_nat i]) 3 4)"
  using SubtreeHash_correct [OF sample_reader_serves, of 8 3 7 mk_Hash "\<lambda>i. mk_Hash [of_nat i]"]
  by simp

text \<open>
  C13: generation and evaluation are inverse. For every index of a valid subtree held by the reader,
  \<open>GenerateInclusionProof\<close> returns a proof from which \<open>EvaluateInclusionProof\<close>, started at the leaf
  hash, computes exactly the hash \<open>SubtreeHash\<close> returns for the subtree.
\<close>

theorem inclusion_proof_roundtrip:
  assumes "reader_serves shi hr (HashChildren sha256) d N" "N \<le> 2 ^ 63"
    and "IsValid start end = Inr True" "start \<le> index" "index < end" "unat end \<le> N"
  shows "\<exists>proof root. GenerateInclusionProof sha256 shi start end index hr = Inr proof \<and>
     SubtreeHash sha256 shi start end hr = Inr root \<and>
     EvaluateInclusionProof sha256 start end index (d (unat index)) proof = Inr root"
proof -
  have "start < end" using assms(4,5) by (rule le_less_trans)
  then show ?thesis
    using GenerateInclusionProof_audit [OF assms] EvaluateInclusionProof_audit [OF assms(3-5)]
      subtreeHashFromHR_mth [OF assms(1,2) _ assms(6)]
    by (simp add: SubtreeHash_def)
qed

theorem inclusion_proof_roundtrip_witness:
  "\<exists>proof root. GenerateInclusionProof mk_Hash sample_index 8 13 10
       (sample_reader (HashChildren mk_Hash) (\<lambda>i. mk_Hash [of_nat i])) = Inr proof \<and>
     SubtreeHash mk_Hash sample_index 8 13
       (sample_reader (HashChildren mk_Hash) (\<lambda>i. mk_Hash [of_nat i])) = Inr root \<and>
     EvaluateInclusionProof mk_Hash 8 13 10 (mk_Hash [10]) proof = Inr root"
proof -
  have "IsValid 8 13 = Inr True" by code_simp
  from inclusion_proof_roundtrip [OF sample_reader_serves _ this, of 13 10 mk_Hash
      "\<lambda>i. mk_Hash [of_nat i]"]
  show ?thesis by simp
qed

end
