(* ===== verification/Tlog.thy ===== *)
theory Tlog
  imports Inclusion
begin

text \<open>
  The interface of golang.org/x/mod/sumdb/tlog that the log, the mirror and the client use. The
  package is not part of the repository: its functions are the fields of a record that the models
  take as a parameter, and \<open>tlog_laws\<close> states the documented behaviour the code relies on. A
  reference implementation of that behaviour shows that the laws can hold. The hash reader backed by
  a slice is the one of log/tilewriter/tilewriter.go.
\<close>

section \<open>The parameter\<close>

record Tile =
  tileH :: nat
  tileL :: int
  tileN :: nat
  tileW :: nat

record tlog =
  StoredHashIndex :: stored_hash_index
  StoredHashCount :: "nat \<Rightarrow> nat"
  StoredHashes :: "nat \<Rightarrow> bytes \<Rightarrow> hash_reader \<Rightarrow> Hash list result"
  TreeHash :: "nat \<Rightarrow> hash_reader \<Rightarrow> Hash result"
  NewTiles :: "nat \<Rightarrow> nat \<Rightarrow> nat \<Rightarrow> Tile list"
  ReadTileData :: "Tile \<Rightarrow> hash_reader \<Rightarrow> bytes result"

text \<open>\<open>hashReader.ReadHashes\<close>.\<close>

definition ReadHashes :: "Hash list \<Rightarrow> hash_reader" where
  "ReadHashes h indexes =
     rmap (\<lambda>idx. if idx < 0 \<or> idx \<ge> int (length h) then Inl (Errorf ''tilewriter: hash index out of range'')
        else Inr (h ! nat idx)) indexes"

definition leaf_hashes :: "(bytes \<Rightarrow> Hash) \<Rightarrow> bytes list \<Rightarrow> nat \<Rightarrow> Hash" where
  "leaf_hashes sha256 es i = HashLeaf sha256 (es ! i)"

text \<open>A slice holds the stored hashes of the tree over some entries.\<close>

definition valid_store :: "tlog \<Rightarrow> (bytes \<Rightarrow> Hash) \<Rightarrow> bytes list \<Rightarrow> Hash list \<Rightarrow> bool" where
  "valid_store lib sha256 es hs \<longleftrightarrow>
     length hs = StoredHashCount lib (length es) \<and>
     reader_serves (StoredHashIndex lib) (ReadHashes hs) (HashChildren sha256) (leaf_hashes sha256 es) (length es)"

locale tlog_laws =
  fixes lib :: tlog and sha256 :: "bytes \<Rightarrow> Hash"
  assumes count_0: "StoredHashCount lib 0 = 0"
    and stored_hashes: "valid_store lib sha256 es hs \<Longrightarrow>
      \<exists>new. StoredHashes lib (length es) e (ReadHashes hs) = Inr new \<and> valid_store lib sha256 (es @ [e]) (hs @ new)"
    and tree_hash: "valid_store lib sha256 es hs \<Longrightarrow> 0 < length es \<Longrightarrow>
      TreeHash lib (length es) (ReadHashes hs) = Inr (mth (HashChildren sha256) (leaf_hashes sha256 es) 0 (length es))"
    and tree_hash_missing: "valid_store lib sha256 es hs \<Longrightarrow> length es < n \<Longrightarrow>
      \<exists>e. TreeHash lib n (ReadHashes hs) = Inl e"
    and new_tiles: "t \<in> set (NewTiles lib h old new) \<Longrightarrow> 0 \<le> tileL t"
    and tile_data: "valid_store lib sha256 es hs \<Longrightarrow> t \<in> set (NewTiles lib h old (length es)) \<Longrightarrow>
      \<exists>d. ReadTileData lib t (ReadHashes hs) = Inr d"
begin

lemma valid_empty: "valid_store lib sha256 [] []"
  by (simp add: valid_store_def count_0 reader_serves_def)

end

lemma ReadHashes_one:
  "ReadHashes hs [idx] = (if idx < 0 \<or> idx \<ge> int (length hs) then Inl (Errorf ''tilewriter: hash index out of range'')
     else Inr [hs ! nat idx])"
  by (simp add: ReadHashes_def)

lemma ReadHashes_nat: "k < length hs \<Longrightarrow> ReadHashes hs [int k] = Inr [hs ! k]"
  by (simp add: ReadHashes_one)

section \<open>A reference implementation\<close>

text \<open>Number of trailing zero bits.\<close>

fun tz :: "nat \<Rightarrow> nat" where
  "tz n = (if n = 0 \<or> odd n then 0 else Suc (tz (n div 2)))"

declare tz.simps [simp del]

definition stored_count :: "nat \<Rightarrow> nat" where
  "stored_count n = 2 * n - ones n"

definition ref_index :: stored_hash_index where
  "ref_index l n = int (stored_count ((nat n + 1) * 2 ^ l - 1) + l)"

definition read1 :: "hash_reader \<Rightarrow> nat \<Rightarrow> nat \<Rightarrow> Hash result" where
  "read1 hr l n = rbind (hr [ref_index l (int n)]) first_hash"

text \<open>The hashes completed by record \<open>n\<close>: its own, then one per trailing zero of \<open>n + 1\<close>.\<close>

fun ref_chain :: "(bytes \<Rightarrow> Hash) \<Rightarrow> hash_reader \<Rightarrow> nat \<Rightarrow> nat \<Rightarrow> nat \<Rightarrow> Hash \<Rightarrow> Hash list result" where
  "ref_chain sha256 hr n l 0 h = Inr [h]"
| "ref_chain sha256 hr n l (Suc k) h =
     rbind (read1 hr l (n div 2 ^ l - 1)) (\<lambda>old.
     rbind (ref_chain sha256 hr n (Suc l) k (HashChildren sha256 old h)) (\<lambda>hs. Inr (h # hs)))"

function ref_tree :: "(bytes \<Rightarrow> Hash) \<Rightarrow> hash_reader \<Rightarrow> nat \<Rightarrow> nat \<Rightarrow> Hash result" where
  "ref_tree sha256 hr lo n =
     (let l = bit_len n - 1
      in if n \<le> 2 ^ l then read1 hr l (lo div 2 ^ l)
         else rbind (read1 hr l (lo div 2 ^ l)) (\<lambda>left.
              rbind (ref_tree sha256 hr (lo + 2 ^ l) (n - 2 ^ l)) (\<lambda>right. Inr (HashChildren sha256 left right))))"
  by pat_completeness auto
termination
  by (relation "measure (\<lambda>(_, _, _, n). n)") auto

declare ref_tree.simps [simp del]

definition level_tiles :: "nat \<Rightarrow> nat \<Rightarrow> nat \<Rightarrow> nat \<Rightarrow> Tile list" where
  "level_tiles h old new level =
     (let oldN = old div 2 ^ (h * level); newN = new div 2 ^ (h * level); n = newN div 2 ^ h; w = newN - n * 2 ^ h
      in if oldN = newN then []
         else map (\<lambda>k. \<lparr>tileH = h, tileL = int level, tileN = k, tileW = 2 ^ h\<rparr>) [oldN div 2 ^ h..<n]
              @ (if w > 0 then [\<lparr>tileH = h, tileL = int level, tileN = n, tileW = w\<rparr>] else []))"

definition ref_tile_data :: "Tile \<Rightarrow> hash_reader \<Rightarrow> bytes result" where
  "ref_tile_data t hr =
     rbind (hr (map (\<lambda>i. ref_index (tileH t * nat (tileL t)) (int (tileN t * 2 ^ tileH t + i))) [0..<tileW t]))
       (\<lambda>hs. Inr (concat (map hash_bytes hs)))"

definition ref_tlog :: "(bytes \<Rightarrow> Hash) \<Rightarrow> tlog" where
  "ref_tlog sha256 =
     \<lparr>StoredHashIndex = ref_index, StoredHashCount = stored_count,
      StoredHashes = (\<lambda>n e hr. ref_chain sha256 hr n 0 (tz (n + 1)) (HashLeaf sha256 e)),
      TreeHash = (\<lambda>n hr. ref_tree sha256 hr 0 n),
      NewTiles = (\<lambda>h old new. concat (map (level_tiles h old new) [0..<Suc (bit_len new)])),
      ReadTileData = ref_tile_data\<rparr>"

subsection \<open>Positions\<close>

lemma tz_odd: "odd n \<Longrightarrow> tz n = 0"
  by (simp add: tz.simps)

lemma tz_double: "0 < n \<Longrightarrow> tz (2 * n) = Suc (tz n)"
  by (subst tz.simps) simp

lemma power_dvd_tz: "0 < n \<Longrightarrow> 2 ^ l dvd n \<longleftrightarrow> l \<le> tz n"
proof (induction n arbitrary: l rule: tz.induct)
  case (1 n)
  show ?case
  proof (cases "odd n")
    case True
    then show ?thesis by (cases l) (auto simp: tz_odd)
  next
    case False
    then obtain m where m: "n = 2 * m" "0 < m" using 1(2) by auto
    show ?thesis
      using 1(1) [of "l - 1"] False m by (cases l) (auto simp: tz_double)
  qed
qed

lemma ones_Suc: "ones (Suc n) + tz (Suc n) = Suc (ones n)"
proof (induction n rule: less_induct)
  case (less n)
  show ?case
  proof (cases "odd n")
    case True
    then obtain k where k: "n = 2 * k + 1" by (auto elim: oddE)
    then have "Suc n = 2 * Suc k" by simp
    moreover have "ones n = Suc (ones k)" using True k by (simp add: ones_odd)
    ultimately show ?thesis using less [of k] k tz_double [of "Suc k"] ones_double [of "Suc k"] by simp
  next
    case False
    then show ?thesis by (simp add: tz_odd ones_odd ones_even)
  qed
qed

lemma ones_le: "ones n \<le> n"
proof (induction n)
  case (Suc n)
  then show ?case using ones_Suc [of n] by linarith
qed simp

lemma stored_count_Suc: "stored_count (Suc n) = stored_count n + 1 + tz (Suc n)"
  using ones_Suc [of n] ones_le [of n] ones_le [of "Suc n"] by (simp add: stored_count_def)

lemma stored_count_mono: "m \<le> n \<Longrightarrow> stored_count m \<le> stored_count n"
  by (induction n rule: dec_induct) (simp_all add: stored_count_Suc)

text \<open>A complete node sits among the hashes stored with the last record below it.\<close>

lemma ref_index_pos:
  assumes "(n + 1) * 2 ^ l \<le> N"
  shows "ref_index l (int n) = int (stored_count ((n + 1) * 2 ^ l - 1) + l)"
    "stored_count ((n + 1) * 2 ^ l - 1) + l < stored_count N"
proof -
  let ?r = "(n + 1) * 2 ^ l - 1"
  have r: "Suc ?r = (n + 1) * 2 ^ l" by simp
  have "2 ^ l dvd Suc ?r" unfolding r by simp
  then have "l \<le> tz (Suc ?r)" using power_dvd_tz by blast
  then have "stored_count ?r + l < stored_count (Suc ?r)" by (simp only: stored_count_Suc)
  also have "\<dots> \<le> stored_count N" using assms r by (intro stored_count_mono) simp
  finally show "stored_count ?r + l < stored_count N" .
qed (simp add: ref_index_def)


subsection \<open>The laws\<close>

lemma read1_serves:
  assumes "reader_serves ref_index hr node d N" "(n + 1) * 2 ^ l \<le> N"
  shows "read1 hr l n = Inr (mth node d (n * 2 ^ l) (2 ^ l))"
  using assms by (simp add: read1_def reader_serves_def first_hash_def)

lemma ref_chain_eq:
  assumes serves: "reader_serves ref_index hr (HashChildren sha256) d n"
    and same: "\<And>i. i < n \<Longrightarrow> d' i = d i"
    and "l + k = tz (n + 1)" "h = mth (HashChildren sha256) d' (n + 1 - 2 ^ l) (2 ^ l)"
  shows "ref_chain sha256 hr n l k h = Inr (map (\<lambda>j. mth (HashChildren sha256) d' (n + 1 - 2 ^ j) (2 ^ j)) [l..<l + k + 1])"
  using assms(3,4)
proof (induction k arbitrary: l h)
  case (Suc k)
  let ?M = "mth (HashChildren sha256) d'"
  have "2 ^ Suc l dvd n + 1" using Suc.prems(1) power_dvd_tz [of "n + 1" "Suc l"] by simp
  then obtain q where q: "n + 1 = q * 2 ^ Suc l" by (metis dvd_div_mult_self)
  then obtain p where p: "q = Suc p" by (cases q) auto
  have n: "n = (2 * p + 1) * 2 ^ l + (2 ^ l - 1)"
    using q p by (simp add: algebra_simps)
  have "n div 2 ^ l = 2 * p + 1"
    unfolding n by (subst div_mult_self3) simp_all
  then have old: "n div 2 ^ l - 1 = 2 * p" by simp
  have bound: "(2 * p + 1) * 2 ^ l \<le> n" by (subst n) (rule le_add1)
  have "read1 hr l (2 * p) = Inr (mth (HashChildren sha256) d (2 * p * 2 ^ l) (2 ^ l))"
    using read1_serves [OF serves bound] .
  moreover have "mth (HashChildren sha256) d (2 * p * 2 ^ l) (2 ^ l) = ?M (2 * p * 2 ^ l) (2 ^ l)"
    using same bound by (intro mth_cong) (auto simp: algebra_simps)
  moreover have "HashChildren sha256 (?M (2 * p * 2 ^ l) (2 ^ l)) h = ?M (n + 1 - 2 ^ Suc l) (2 ^ Suc l)"
  proof -
    have "n + 1 - 2 ^ Suc l = 2 * p * 2 ^ l" "n + 1 - 2 ^ l = 2 * p * 2 ^ l + 2 ^ l"
      using q p by (simp_all add: algebra_simps)
    then show ?thesis unfolding mth_power_Suc Suc.prems(2) by simp
  qed
  moreover have "ref_chain sha256 hr n (Suc l) k (?M (n + 1 - 2 ^ Suc l) (2 ^ Suc l))
      = Inr (map (\<lambda>j. ?M (n + 1 - 2 ^ j) (2 ^ j)) [Suc l..<Suc l + k + 1])"
    using Suc.prems(1) by (intro Suc.IH) simp_all
  moreover have "[l..<l + Suc k + 1] = l # [Suc l..<Suc l + k + 1]" by (simp add: upt_rec)
  ultimately show ?case using Suc.prems(2) old by simp
qed simp

lemma ref_chain_extends:
  fixes e :: bytes
  assumes "valid_store (ref_tlog sha256) sha256 es hs"
  defines "new \<equiv> map (\<lambda>j. mth (HashChildren sha256) (leaf_hashes sha256 (es @ [e])) (length es + 1 - 2 ^ j) (2 ^ j))
    [0..<tz (length es + 1) + 1]"
  shows "StoredHashes (ref_tlog sha256) (length es) e (ReadHashes hs) = Inr new"
    and "valid_store (ref_tlog sha256) sha256 (es @ [e]) (hs @ new)"
proof -
  let ?d = "leaf_hashes sha256 es" and ?d' = "leaf_hashes sha256 (es @ [e])" and ?node = "HashChildren sha256"
  let ?n = "length es"
  have len: "length hs = stored_count ?n" and serves: "reader_serves ref_index (ReadHashes hs) ?node ?d ?n"
    using assms(1) by (simp_all add: valid_store_def ref_tlog_def)
  have same: "?d' i = ?d i" if "i < ?n" for i using that by (simp add: leaf_hashes_def nth_append)
  have leaf: "?d' ?n = HashLeaf sha256 e" by (simp add: leaf_hashes_def)
  have "ref_chain sha256 (ReadHashes hs) ?n 0 (tz (?n + 1)) (HashLeaf sha256 e) = Inr new"
    unfolding new_def
    using ref_chain_eq [OF serves same, of 0 "tz (?n + 1)" "HashLeaf sha256 e"] leaf by simp
  then show "StoredHashes (ref_tlog sha256) ?n e (ReadHashes hs) = Inr new" by (simp add: ref_tlog_def)
  have lnew: "length (hs @ new) = stored_count (Suc ?n)" by (simp add: new_def len stored_count_Suc)
  have "ReadHashes (hs @ new) [ref_index l (int m)] = Inr [mth ?node ?d' (m * 2 ^ l) (2 ^ l)]"
    if b: "(m + 1) * 2 ^ l \<le> Suc ?n" for l m
  proof -
    let ?r = "(m + 1) * 2 ^ l - 1"
    note pos = ref_index_pos [OF b]
    have rd: "ReadHashes (hs @ new) [ref_index l (int m)] = Inr [(hs @ new) ! (stored_count ?r + l)]"
      using pos(2) unfolding pos(1) lnew [symmetric] by (rule ReadHashes_nat)
    show ?thesis
    proof (cases "(m + 1) * 2 ^ l \<le> ?n")
      case True
      note p = ref_index_pos [OF True]
      have "ReadHashes hs [ref_index l (int m)] = Inr [mth ?node ?d (m * 2 ^ l) (2 ^ l)]"
        using serves True by (simp add: reader_serves_def)
      then have "hs ! (stored_count ?r + l) = mth ?node ?d (m * 2 ^ l) (2 ^ l)"
        using p(2) ReadHashes_nat [of "stored_count ?r + l" hs] unfolding p(1) len by simp
      also have "\<dots> = mth ?node ?d' (m * 2 ^ l) (2 ^ l)"
        using same True by (intro mth_cong) auto
      finally show ?thesis using rd p(2) by (simp add: nth_append len)
    next
      case False
      then have eq: "(m + 1) * 2 ^ l = Suc ?n" using b by simp
      then have "2 ^ l dvd Suc ?n" by (metis dvd_triv_right)
      then have l: "l \<le> tz (Suc ?n)" using power_dvd_tz [of "Suc ?n" l] by simp
      have "m * 2 ^ l = Suc ?n - 2 ^ l" using eq by simp
      then show ?thesis using rd l eq by (simp add: nth_append len new_def nth_append)
    qed
  qed
  then show "valid_store (ref_tlog sha256) sha256 (es @ [e]) (hs @ new)"
    using lnew by (simp add: valid_store_def ref_tlog_def reader_serves_def)
qed


lemma ref_tree_eq:
  assumes "reader_serves ref_index hr (HashChildren sha256) d N" "0 < n" "lo + n \<le> N" "2 ^ (bit_len n - 1) dvd lo"
  shows "ref_tree sha256 hr lo n = Inr (mth (HashChildren sha256) d lo n)"
  using assms(2-4)
proof (induction n arbitrary: lo rule: less_induct)
  case (less n)
  define l where "l = bit_len n - 1"
  have low: "2 ^ l \<le> n" using less.prems(1) unfolding l_def by (rule bit_len_lower)
  have up: "n < 2 * 2 ^ l"
    using less_bit_len [of n] less.prems(1) unfolding l_def by (cases "bit_len n") auto
  obtain q where q: "lo = q * 2 ^ l" using less.prems(3) unfolding l_def by (metis dvd_div_mult_self)
  have "(q + 1) * 2 ^ l \<le> N" using q low less.prems(2) by (simp add: algebra_simps)
  from read1_serves [OF assms(1) this] q
  have rd: "read1 hr l (lo div 2 ^ l) = Inr (mth (HashChildren sha256) d lo (2 ^ l))" by simp
  have unf: "ref_tree sha256 hr lo n =
      (if n \<le> 2 ^ l then read1 hr l (lo div 2 ^ l)
       else rbind (read1 hr l (lo div 2 ^ l)) (\<lambda>left.
            rbind (ref_tree sha256 hr (lo + 2 ^ l) (n - 2 ^ l)) (\<lambda>right. Inr (HashChildren sha256 left right))))"
    unfolding l_def by (subst ref_tree.simps) (simp only: Let_def)
  show ?case
  proof (cases "n \<le> 2 ^ l")
    case True
    then have "2 ^ l = n" using low by simp
    then show ?thesis using rd True unfolding unf by simp
  next
    case False
    have lp: "lp2 n = 2 ^ l" using False up by (intro lp2_unique) simp_all
    have "n - 2 ^ l < 2 ^ l" using up by simp
    then have bl: "bit_len (n - 2 ^ l) \<le> l" by (simp add: bit_len_le_iff)
    have "2 ^ (bit_len (n - 2 ^ l) - 1) dvd (2::nat) ^ l" using bl by (intro le_imp_power_dvd) simp
    then have "2 ^ (bit_len (n - 2 ^ l) - 1) dvd lo + 2 ^ l" unfolding q by (intro dvd_add) (simp_all add: dvd_mult)
    then have "ref_tree sha256 hr (lo + 2 ^ l) (n - 2 ^ l) = Inr (mth (HashChildren sha256) d (lo + 2 ^ l) (n - 2 ^ l))"
      using False less.prems(2) by (intro less.IH) simp_all
    moreover have "1 < n" using False one_le_power [of "2 :: nat" l] by linarith
    ultimately show ?thesis
      unfolding unf using False rd mth_split [of n "HashChildren sha256" d lo] lp by simp
  qed
qed

text \<open>A tree past the stored hashes ends in a read out of range.\<close>

lemma ref_tree_missing:
  assumes "length hs = stored_count m" "0 < n" "m < lo + n" "2 ^ (bit_len n - 1) dvd lo"
  shows "\<exists>e. ref_tree sha256 (ReadHashes hs) lo n = Inl e"
  using assms(2-4)
proof (induction n arbitrary: lo rule: less_induct)
  case (less n)
  define l where "l = bit_len n - 1"
  have low: "2 ^ l \<le> n" using less.prems(1) unfolding l_def by (rule bit_len_lower)
  have up: "n < 2 * 2 ^ l"
    using less_bit_len [of n] less.prems(1) unfolding l_def by (cases "bit_len n") auto
  obtain q where q: "lo = q * 2 ^ l" using less.prems(3) unfolding l_def by (metis dvd_div_mult_self)
  have unf: "ref_tree sha256 (ReadHashes hs) lo n =
      (if n \<le> 2 ^ l then read1 (ReadHashes hs) l (lo div 2 ^ l)
       else rbind (read1 (ReadHashes hs) l (lo div 2 ^ l)) (\<lambda>left.
            rbind (ref_tree sha256 (ReadHashes hs) (lo + 2 ^ l) (n - 2 ^ l)) (\<lambda>right. Inr (HashChildren sha256 left right))))"
    unfolding l_def by (subst ref_tree.simps) (simp only: Let_def)
  show ?case
  proof (cases "n \<le> 2 ^ l")
    case True
    have "(q + 1) * 2 ^ l = lo + n" using low True q by simp
    then have "stored_count m \<le> stored_count ((q + 1) * 2 ^ l - 1)"
      using less.prems(2) by (intro stored_count_mono) simp
    then have "int (length hs) \<le> ref_index l (int q)" unfolding ref_index_def assms(1) by simp
    then have "read1 (ReadHashes hs) l q = Inl (Errorf ''tilewriter: hash index out of range'')"
      by (simp add: read1_def ReadHashes_one)
    then show ?thesis using True q unfolding unf by simp
  next
    case False
    have "n - 2 ^ l < 2 ^ l" using up by simp
    then have bl: "bit_len (n - 2 ^ l) \<le> l" by (simp add: bit_len_le_iff)
    have "2 ^ (bit_len (n - 2 ^ l) - 1) dvd (2::nat) ^ l" using bl by (intro le_imp_power_dvd) simp
    then have "2 ^ (bit_len (n - 2 ^ l) - 1) dvd lo + 2 ^ l" unfolding q by (intro dvd_add) (simp_all add: dvd_mult)
    then have "\<exists>e. ref_tree sha256 (ReadHashes hs) (lo + 2 ^ l) (n - 2 ^ l) = Inl e"
      using False less.prems(2) by (intro less.IH) simp_all
    then show ?thesis unfolding unf using False by (cases "read1 (ReadHashes hs) l (lo div 2 ^ l)") auto
  qed
qed

lemma ref_tile_data_ok:
  assumes serves: "reader_serves ref_index (ReadHashes hs) node d N" and "t \<in> set (level_tiles h old N level)"
  shows "\<exists>b. ref_tile_data t (ReadHashes hs) = Inr b"
proof -
  have t: "tileH t = h" "tileL t = int level" "tileN t * 2 ^ h + tileW t \<le> N div 2 ^ (h * level)"
  proof -
    have "k * 2 ^ h + 2 ^ h \<le> m" if "k < m div 2 ^ h" for k m :: nat
    proof -
      have "(k + 1) * 2 ^ h \<le> m div 2 ^ h * 2 ^ h" using that by (intro mult_le_mono1) simp
      also have "\<dots> \<le> m" by (rule div_times_less_eq_dividend)
      finally show ?thesis by simp
    qed
    then show "tileH t = h" "tileL t = int level" "tileN t * 2 ^ h + tileW t \<le> N div 2 ^ (h * level)"
      using assms(2) by (auto simp: level_tiles_def Let_def split: if_splits)
  qed
  have all: "ReadHashes hs is = Inr (map (\<lambda>i. hs ! nat i) is)" if "\<forall>i\<in>set is. \<exists>x. ReadHashes hs [i] = Inr x" for "is"
    unfolding ReadHashes_def using that by (intro rmap_Inr_map) (auto simp: ReadHashes_one split: if_splits)
  have one: "\<exists>x. ReadHashes hs [ref_index (h * level) (int (tileN t * 2 ^ h + i))] = Inr x" if "i < tileW t" for i
  proof -
    have "tileN t * 2 ^ h + i + 1 \<le> N div 2 ^ (h * level)" using that t(3) by simp
    then have "(tileN t * 2 ^ h + i + 1) * 2 ^ (h * level) \<le> N"
      by (meson div_times_less_eq_dividend le_trans mult_le_mono1)
    with serves show ?thesis unfolding reader_serves_def by blast
  qed
  have "ReadHashes hs (map (\<lambda>i. ref_index (h * level) (int (tileN t * 2 ^ h + i))) [0..<tileW t])
      = Inr (map (\<lambda>i. hs ! nat i) (map (\<lambda>i. ref_index (h * level) (int (tileN t * 2 ^ h + i))) [0..<tileW t]))"
    by (rule all) (use one in \<open>auto simp del: of_nat_add\<close>)
  then show ?thesis unfolding ref_tile_data_def t(1,2) nat_int by (simp only: rbind_simps) (rule exI, rule refl)
qed

interpretation ref: tlog_laws "ref_tlog sha256" sha256 for sha256
proof
  show "StoredHashCount (ref_tlog sha256) 0 = 0" by (simp add: ref_tlog_def stored_count_def)
next
  fix es hs e
  assume "valid_store (ref_tlog sha256) sha256 es hs"
  from ref_chain_extends [OF this, of e]
  show "\<exists>new. StoredHashes (ref_tlog sha256) (length es) e (ReadHashes hs) = Inr new \<and>
      valid_store (ref_tlog sha256) sha256 (es @ [e]) (hs @ new)" by blast
next
  fix es hs
  assume "valid_store (ref_tlog sha256) sha256 es hs" "0 < length es"
  then show "TreeHash (ref_tlog sha256) (length es) (ReadHashes hs)
      = Inr (mth (HashChildren sha256) (leaf_hashes sha256 es) 0 (length es))"
    using ref_tree_eq [of "ReadHashes hs" sha256 "leaf_hashes sha256 es" "length es" "length es" 0]
    by (simp add: valid_store_def ref_tlog_def)
next
  fix es hs n
  assume "valid_store (ref_tlog sha256) sha256 es hs" "length es < n"
  then show "\<exists>e. TreeHash (ref_tlog sha256) n (ReadHashes hs) = Inl e"
    using ref_tree_missing [of hs "length es" n 0 sha256] by (simp add: valid_store_def ref_tlog_def)
next
  fix t h old new
  assume "t \<in> set (NewTiles (ref_tlog sha256) h old new)"
  then show "0 \<le> tileL t" by (auto simp: ref_tlog_def level_tiles_def Let_def split: if_splits)
next
  fix es hs t h old
  assume "valid_store (ref_tlog sha256) sha256 es hs" "t \<in> set (NewTiles (ref_tlog sha256) h old (length es))"
  then show "\<exists>d. ReadTileData (ref_tlog sha256) t (ReadHashes hs) = Inr d"
    using ref_tile_data_ok by (fastforce simp: valid_store_def ref_tlog_def simp del: upt_Suc)
qed

end
