(* ===== verification/Tilewriter.thy ===== *)
theory Tilewriter
  imports Tlog Storage GoTime
begin

text \<open>
  The tile writer of the issuance log (log/tilewriter/tilewriter.go): appending entries, the hash and
  data tiles it writes, the size file that commits an append, and the reload from disk. The tlog
  package is the parameter of theory Tlog. Sizes and tile numbers are natural numbers; the model has
  no limit on memory.
\<close>

section \<open>Paths\<close>

definition TileHeight :: nat where
  "TileHeight = 8"

definition EntriesPerDataTile :: nat where
  "EntriesPerDataTile = 2 ^ TileHeight"

fun formatLoop :: "nat \<Rightarrow> string \<Rightarrow> string" where
  "formatLoop n s =
     (if n \<ge> 1000 then let m = n div 1000 in formatLoop m (''x'' @ pad 3 (m mod 1000) @ ''/'' @ s) else s)"

declare formatLoop.simps [simp del]

definition formatTileIndex :: "nat \<Rightarrow> string" where
  "formatTileIndex n = formatLoop n (pad 3 (n mod 1000))"

definition TilePath :: "Tile \<Rightarrow> string" where
  "TilePath t =
     (let level = (if tileL t < 0 then ''entries'' else decimal (nat (tileL t)));
          p = ''tile/'' @ level @ ''/'' @ formatTileIndex (tileN t)
      in if tileW t \<noteq> 0 \<and> tileW t \<noteq> 2 ^ tileH t then p @ ''.p/'' @ decimal (tileW t) else p)"

definition DataTilePath :: "nat \<Rightarrow> nat \<Rightarrow> string" where
  "DataTilePath n records = TilePath \<lparr>tileH = TileHeight, tileL = - 1, tileN = n, tileW = records\<rparr>"

definition tilePath :: "Tile \<Rightarrow> string" where
  "tilePath t = ''log/'' @ TilePath t"

definition dataTilePath :: "nat \<Rightarrow> nat \<Rightarrow> string" where
  "dataTilePath n records = ''log/'' @ DataTilePath n records"

definition treeSizePath :: string where
  "treeSizePath = ''log/state/treeSize''"

section \<open>Entry bundles\<close>

definition appendDataEntry :: "bytes \<Rightarrow> bytes \<Rightarrow> bytes result" where
  "appendDataEntry buf entry =
     (if length entry > 0xffff then Inl (Panic ''tilewriter: entry too long for uint16 framing'')
      else Inr (buf @ [of_nat (length entry div 2 ^ 8), of_nat (length entry)] @ entry))"

function SplitDataTile :: "bytes \<Rightarrow> bytes list result" where
  "SplitDataTile data =
     (if data = [] then Inr []
      else if length data < 2 then Inl (Errorf ''tilewriter: short data tile'')
      else
        let n = unat (data ! 0) * 2 ^ 8 + unat (data ! 1)
        in if 2 + n > length data then Inl (Errorf ''tilewriter: truncated entry'')
           else rbind (SplitDataTile (drop (2 + n) data)) (\<lambda>out. Inr (take n (drop 2 data) # out)))"
  by pat_completeness auto
termination
  by (relation "measure length") auto

declare SplitDataTile.simps [simp del]

section \<open>The writer\<close>

record TileWriter =
  wfs :: FS
  wsize :: nat
  whashes :: "Hash list"
  dataTiles :: "nat \<Rightarrow> bytes option"

definition RootHash :: "tlog \<Rightarrow> (bytes \<Rightarrow> Hash) \<Rightarrow> TileWriter \<Rightarrow> Hash result" where
  "RootHash lib sha256 w =
     (if wsize w = 0 then Inr (sha256 []) else TreeHash lib (wsize w) (ReadHashes (whashes w)))"

text \<open>The loop over the entries that computes the stored hashes, in \<open>Append\<close> and in \<open>loadFromDisk\<close>.\<close>

fun hashLoop :: "tlog \<Rightarrow> nat \<Rightarrow> Hash list \<Rightarrow> Hash list \<Rightarrow> bytes list \<Rightarrow> Hash list result" where
  "hashLoop lib cur hr new [] = Inr new"
| "hashLoop lib cur hr new (e # es) =
     rbind (rwrap ''tlog.StoredHashes'' (StoredHashes lib cur e (ReadHashes hr))) (\<lambda>hs.
       hashLoop lib (cur + 1) (hr @ hs) (new @ hs) es)"

fun readPartialLoop :: "FS \<Rightarrow> nat \<Rightarrow> nat \<Rightarrow> bytes result" where
  "readPartialLoop fs n 0 = Inl (Errorf ''partial data tile not found'')"
| "readPartialLoop fs n (Suc ww) =
     (case Get fs (dataTilePath n (Suc ww)) of
        Inr d \<Rightarrow> Inr d
      | Inl e \<Rightarrow> if \<not> errors_Is e ''file does not exist'' then Inl e else readPartialLoop fs n ww)"

text \<open>\<open>None\<close> is the nil slice.\<close>

definition readPartialDataTile :: "FS \<Rightarrow> nat \<Rightarrow> nat \<Rightarrow> bytes option result" where
  "readPartialDataTile fs n expectedRecords =
     (if expectedRecords = 0 then Inr None else rbind (readPartialLoop fs n expectedRecords) (\<lambda>d. Inr (Some d)))"

fun persistHashTiles :: "tlog \<Rightarrow> Tile list \<Rightarrow> TileWriter \<Rightarrow> unit result \<times> TileWriter" where
  "persistHashTiles lib [] w = (Inr (), w)"
| "persistHashTiles lib (t # ts) w =
     (case ReadTileData lib t (ReadHashes (whashes w)) of
        Inl e \<Rightarrow> (Inl (wrapf ''ReadTileData'' e), w)
      | Inr data \<Rightarrow>
          (case Put (wfs w) (tilePath t) data False of
             (Inl e, fs') \<Rightarrow> (Inl (wrapf ''write'' e), w\<lparr>wfs := fs'\<rparr>)
           | (Inr _, fs') \<Rightarrow> persistHashTiles lib ts (w\<lparr>wfs := fs'\<rparr>)))"

fun persistDataTiles :: "nat \<Rightarrow> bytes list \<Rightarrow> TileWriter \<Rightarrow> unit result \<times> TileWriter" where
  "persistDataTiles idx [] w = (Inr (), w)"
| "persistDataTiles idx (entry # es) w =
     (let n = idx div EntriesPerDataTile
      in case (case dataTiles w n of
                 Some buf \<Rightarrow> Inr (Some buf)
               | None \<Rightarrow> readPartialDataTile (wfs w) n (idx - n * EntriesPerDataTile)) of
           Inl e \<Rightarrow> (Inl e, w)
         | Inr b \<Rightarrow>
             (case appendDataEntry (case b of None \<Rightarrow> [] | Some buf \<Rightarrow> buf) entry of
                Inl e \<Rightarrow> (Inl e, w)
              | Inr buf \<Rightarrow>
                  let records = idx - n * EntriesPerDataTile + 1
                  in case Put (wfs w) (dataTilePath n records) buf False of
                       (Inl e, fs') \<Rightarrow>
                         (Inl (wrapf ''write data tile'' e), w\<lparr>dataTiles := (dataTiles w)(n := Some buf), wfs := fs'\<rparr>)
                     | (Inr _, fs') \<Rightarrow>
                         persistDataTiles (idx + 1) es
                           (w\<lparr>dataTiles := (dataTiles w)(n := if records = EntriesPerDataTile then None else Some buf),
                              wfs := fs'\<rparr>)))"

definition persistAfterAppend :: "tlog \<Rightarrow> nat \<Rightarrow> bytes list \<Rightarrow> TileWriter \<Rightarrow> unit result \<times> TileWriter" where
  "persistAfterAppend lib oldSize newEntries w =
     (case persistHashTiles lib (NewTiles lib TileHeight oldSize (wsize w)) w of
        (Inl e, w1) \<Rightarrow> (Inl e, w1)
      | (Inr _, w1) \<Rightarrow>
          (case persistDataTiles oldSize newEntries w1 of
             (Inl e, w2) \<Rightarrow> (Inl e, w2)
           | (Inr _, w2) \<Rightarrow>
               (case Put (wfs w2) treeSizePath (be 8 (wsize w2)) False of
                  (Inl e, fs') \<Rightarrow> (Inl (wrapf ''write treeSize'' e), w2\<lparr>wfs := fs'\<rparr>)
                | (Inr _, fs') \<Rightarrow> (Inr (), w2\<lparr>wfs := fs'\<rparr>))))"

text \<open>\<open>Append\<close>. A panic leaves the function before the roll back.\<close>

definition TWAppend :: "tlog \<Rightarrow> bytes list \<Rightarrow> TileWriter \<Rightarrow> nat list result \<times> TileWriter" where
  "TWAppend lib entries w =
     (if entries = [] then (Inr [], w)
      else
        let oldSize = wsize w; prevCount = StoredHashCount lib oldSize
        in case hashLoop lib oldSize (whashes w) [] entries of
             Inl e \<Rightarrow> (Inl e, w)
           | Inr newHashes \<Rightarrow>
               let curSize = oldSize + length entries
               in if int (length newHashes) \<noteq> int (StoredHashCount lib curSize) - int prevCount then
                    (Inl (Errorf ''internal: stored hash count mismatch''), w)
                  else
                    case persistAfterAppend lib oldSize entries
                           (w\<lparr>whashes := whashes w @ newHashes, wsize := curSize\<rparr>) of
                      (Inl (Panic m), w') \<Rightarrow> (Inl (Panic m), w')
                    | (Inl e, w') \<Rightarrow>
                        (Inl (wrapf ''persist tiles'' e), w'\<lparr>whashes := take prevCount (whashes w'), wsize := oldSize\<rparr>)
                    | (Inr _, w') \<Rightarrow> (Inr (map (\<lambda>i. oldSize + i) [0..<length entries]), w'))"

function loadTiles :: "FS \<Rightarrow> nat \<Rightarrow> nat \<Rightarrow> bytes list \<Rightarrow> bytes list result" where
  "loadTiles fs sz n entries =
     (if n * EntriesPerDataTile < sz then
        let records = (if (n + 1) * EntriesPerDataTile > sz then sz - n * EntriesPerDataTile else EntriesPerDataTile)
        in rbind (rwrap ''read'' (Get fs (dataTilePath n records))) (\<lambda>raw.
           rbind (rwrap ''parse'' (SplitDataTile raw)) (\<lambda>es.
             if length es \<noteq> records then Inl (Errorf ''data tile has wrong number of entries'')
             else loadTiles fs sz (n + 1) (entries @ es)))
      else Inr entries)"
  by pat_completeness auto
termination
  by (relation "measure (\<lambda>(_, sz, n, _). sz - n * EntriesPerDataTile)")
    (auto simp: EntriesPerDataTile_def TileHeight_def)

declare loadTiles.simps [simp del]

definition loadFromDisk :: "tlog \<Rightarrow> TileWriter \<Rightarrow> TileWriter result" where
  "loadFromDisk lib w =
     (case Get (wfs w) treeSizePath of
        Inl e \<Rightarrow> if errors_Is e ''file does not exist'' then Inr w else Inl (wrapf ''read treeSize'' e)
      | Inr data \<Rightarrow>
          if length data \<noteq> 8 then Inl (Errorf ''treeSize file is not 8 bytes'')
          else
            let sz = sint (of_nat (unbe data) :: u64)
            in if sz = 0 then Inr w
               else if sz < 0 then Inl (Panic ''makeslice: cap out of range'')
               else rbind (loadTiles (wfs w) (nat sz) 0 []) (\<lambda>entries.
                    rbind (hashLoop lib 0 [] [] entries) (\<lambda>hr.
                      Inr (w\<lparr>whashes := hr, wsize := nat sz\<rparr>))))"

definition NewTileWriter :: "tlog \<Rightarrow> FS \<Rightarrow> TileWriter result" where
  "NewTileWriter lib fs = loadFromDisk lib \<lparr>wfs = fs, wsize = 0, whashes = [], dataTiles = (\<lambda>_. None)\<rparr>"

section \<open>Paths are distinct\<close>

definition dval :: "string \<Rightarrow> nat" where
  "dval s = foldl (\<lambda>a c. a * 10 + digit_val c) 0 s"

lemma dval_append: "dval (s @ t) = dval s * 10 ^ length t + dval t"
proof (induction t rule: rev_induct)
  case (snoc c t)
  have st: "dval (xs @ [c]) = dval xs * 10 + digit_val c" for xs by (simp add: dval_def)
  have "dval (s @ t @ [c]) = dval (s @ t) * 10 + digit_val c" using st [of "s @ t"] by simp
  with snoc st [of t] show ?case by (simp add: algebra_simps)
qed (simp add: dval_def)

lemma dval_decimal: "dval (decimal n) = n"
proof (induction n rule: decimal.induct)
  case (1 n)
  show ?case
  proof (cases "n < 10")
    case True
    then show ?thesis by (subst decimal.simps) (simp add: dval_def digit_char_props)
  next
    case False
    have d: "dval [digit_char (n mod 10)] = n mod 10" by (simp add: dval_def digit_char_props)
    have "dval (decimal n) = dval (decimal (n div 10)) * 10 + dval [digit_char (n mod 10)]"
      using False by (subst decimal.simps) (simp add: dval_append)
    also have "\<dots> = n" unfolding d 1 [OF False] by (rule div_mult_mod_eq)
    finally show ?thesis .
  qed
qed

lemma decimal_eq: "decimal m = decimal n \<longleftrightarrow> m = n"
  by (metis dval_decimal)

lemma dval_pad: "dval (pad k n) = n"
proof -
  have "dval (replicate k (CHR ''0'')) = 0" for k
    by (induction k) (simp_all add: dval_def digit_val_def)
  then show ?thesis by (simp add: pad_def dval_append dval_decimal)
qed

lemma filter_pad [simp]: "filter is_digit (pad k n) = pad k n"
  using pad_digits [of k n] by (simp add: filter_id_conv)

lemma formatLoop_dval:
  "dval (filter is_digit (formatLoop n s)) =
     n div 1000 * 10 ^ length (filter is_digit s) + dval (filter is_digit s)"
proof (induction n s rule: formatLoop.induct)
  case (1 n s)
  show ?case
  proof (cases "n \<ge> 1000")
    case True
    let ?m = "n div 1000"
    have nd: "\<not> is_digit (CHR ''x'')" "\<not> is_digit (CHR ''/'')" by (simp_all add: is_digit_def)
    have f: "filter is_digit (''x'' @ pad 3 (?m mod 1000) @ ''/'' @ s) = pad 3 (?m mod 1000) @ filter is_digit s"
      using nd by simp
    have len: "length (pad 3 (?m mod 1000)) = 3" by (rule length_pad) simp_all
    have "dval (filter is_digit (formatLoop n s)) =
        ?m div 1000 * 10 ^ (3 + length (filter is_digit s)) + dval (pad 3 (?m mod 1000) @ filter is_digit s)"
      using 1 [OF True refl] True unfolding f by (subst formatLoop.simps) (simp add: Let_def len)
    also have "\<dots> = (?m div 1000 * 1000 + ?m mod 1000) * 10 ^ length (filter is_digit s) + dval (filter is_digit s)"
      unfolding dval_append dval_pad power_add by (simp only: algebra_simps) simp
    finally show ?thesis unfolding div_mult_mod_eq .
  next
    case False
    then show ?thesis by (subst formatLoop.simps) simp
  qed
qed

lemma formatTileIndex_inject: "formatTileIndex m = formatTileIndex n \<longleftrightarrow> m = n"
proof -
  have "dval (filter is_digit (formatTileIndex n)) = n" for n
    using length_pad [of "n mod 1000" 3] by (simp add: formatTileIndex_def formatLoop_dval dval_pad)
  then show ?thesis by metis
qed

lemma formatLoop_no_dot: "CHR ''.'' \<notin> set s \<Longrightarrow> CHR ''.'' \<notin> set (formatLoop n s)"
proof (induction n s rule: formatLoop.induct)
  case (1 n s)
  have "CHR ''.'' \<notin> set (pad 3 k)" for k
    using pad_digits [of 3 k] by (auto simp: is_digit_def)
  with 1 show ?case by (subst formatLoop.simps) (simp add: Let_def)
qed

lemma formatTileIndex_no_dot: "CHR ''.'' \<notin> set (formatTileIndex n)"
  unfolding formatTileIndex_def
  using pad_digits [of 3 "n mod 1000"] by (intro formatLoop_no_dot) (auto simp: is_digit_def)

lemma until_dot:
  assumes "CHR ''.'' \<notin> set a" "CHR ''.'' \<notin> set b"
    "a @ (if p then CHR ''.'' # x else []) = b @ (if q then CHR ''.'' # y else [])"
  shows "a = b \<and> p = q \<and> (p \<longrightarrow> x = y)"
proof -
  have tw: "takeWhile (\<lambda>c. c \<noteq> CHR ''.'') (a @ (if p then CHR ''.'' # x else [])) = a"
    if "CHR ''.'' \<notin> set a" for a p x
    using that by (induction a) auto
  have "a = b" using tw [OF assms(1), of p x] tw [OF assms(2), of q y] assms(3) by simp
  with assms(3) show ?thesis by (auto split: if_splits)
qed

lemma dataTilePath_eq:
  "dataTilePath n r = ''log/tile/entries/'' @ formatTileIndex n @
     (if r \<noteq> 0 \<and> r \<noteq> EntriesPerDataTile then CHR ''.'' # ''p/'' @ decimal r else [])"
  by (simp add: dataTilePath_def DataTilePath_def TilePath_def EntriesPerDataTile_def Let_def)

lemma dataTilePath_inject:
  assumes "0 < r" "0 < q" "dataTilePath m r = dataTilePath n q"
  shows "m = n \<and> r = q"
proof -
  have "formatTileIndex m = formatTileIndex n \<and> (r \<noteq> EntriesPerDataTile) = (q \<noteq> EntriesPerDataTile) \<and>
      (r \<noteq> EntriesPerDataTile \<longrightarrow> ''p/'' @ decimal r = ''p/'' @ decimal q)"
    using assms by (intro until_dot formatTileIndex_no_dot) (simp add: dataTilePath_eq)
  then show ?thesis by (auto simp: formatTileIndex_inject decimal_eq)
qed

lemma tilePath_not_data: "0 \<le> tileL t \<Longrightarrow> tilePath t \<noteq> dataTilePath n r"
proof -
  assume "0 \<le> tileL t"
  obtain c cs where c: "decimal (nat (tileL t)) = c # cs" by (cases "decimal (nat (tileL t))") auto
  have "is_digit c" using decimal_digits [of c "nat (tileL t)"] c by simp
  then have "c \<noteq> CHR ''e''" by (auto simp: is_digit_def)
  with c \<open>0 \<le> tileL t\<close> show ?thesis
    by (simp add: dataTilePath_eq tilePath_def TilePath_def Let_def)
qed

lemma treeSizePath_other: "tilePath t \<noteq> treeSizePath" "dataTilePath n r \<noteq> treeSizePath"
  by (simp_all add: dataTilePath_eq treeSizePath_def tilePath_def TilePath_def Let_def)

lemmas treeSizePath_neq [simp] = treeSizePath_other treeSizePath_other [symmetric]


section \<open>Framing\<close>

lemma EntriesPerDataTile_256 [simp]: "EntriesPerDataTile = 256"
  by (simp add: EntriesPerDataTile_def TileHeight_def)

definition frame :: "bytes \<Rightarrow> bytes" where
  "frame e = [of_nat (length e div 2 ^ 8), of_nat (length e)] @ e"

definition frames :: "bytes list \<Rightarrow> bytes" where
  "frames es = concat (map frame es)"

definition short_entry :: "bytes \<Rightarrow> bool" where
  "short_entry e \<longleftrightarrow> length e \<le> 0xffff"

lemma appendDataEntry_frames:
  "short_entry e \<Longrightarrow> appendDataEntry (frames es) e = Inr (frames (es @ [e]))"
  by (simp add: appendDataEntry_def frames_def frame_def short_entry_def)

lemma frame_length_bytes: "short_entry e \<Longrightarrow>
    unat (of_nat (length e div 256) :: byte) * 256 + unat (of_nat (length e) :: byte) = length e"
proof -
  assume "short_entry e"
  then have "length e div 256 < 256" by (simp add: short_entry_def)
  then show ?thesis by (simp add: unat_of_nat_byte)
qed

lemma SplitDataTile_frames: "\<forall>e\<in>set es. short_entry e \<Longrightarrow> SplitDataTile (frames es) = Inr es"
proof (induction es)
  case Nil
  then show ?case by (simp add: frames_def SplitDataTile.simps)
next
  case (Cons e es)
  let ?d = "frames (e # es)"
  have d: "?d = [of_nat (length e div 2 ^ 8), of_nat (length e)] @ e @ frames es"
    by (simp add: frames_def frame_def)
  have n: "unat (?d ! 0) * 2 ^ 8 + unat (?d ! 1) = length e"
    using frame_length_bytes [of e] Cons.prems unfolding d by simp
  have r: "SplitDataTile (frames es) = Inr es" using Cons by simp
  have parts: "drop (2 + length e) ?d = frames es" "take (length e) (drop 2 ?d) = e" "2 + length e \<le> length ?d" "?d \<noteq> []"
    unfolding d by simp_all
  show ?case
    unfolding SplitDataTile.simps [of ?d] Let_def n parts(1,2) r using parts(3,4) by simp
qed

definition entry_bundle :: "bytes list \<Rightarrow> bytes result" where
  "entry_bundle es = foldl (\<lambda>b e. rbind b (\<lambda>buf. appendDataEntry buf e)) (Inr []) es"

lemma entry_bundle_eq:
  "entry_bundle es = (if \<forall>e\<in>set es. short_entry e then Inr (frames es)
     else Inl (Panic ''tilewriter: entry too long for uint16 framing''))"
proof (induction es rule: rev_induct)
  case Nil
  then show ?case by (simp add: entry_bundle_def frames_def)
next
  case (snoc e es)
  have "entry_bundle (es @ [e]) = rbind (entry_bundle es) (\<lambda>buf. appendDataEntry buf e)" by (simp add: entry_bundle_def)
  then show ?case using snoc appendDataEntry_frames [of e es] by (auto simp: appendDataEntry_def short_entry_def)
qed

lemma SplitDataTile_canonical:
  "SplitDataTile buf = Inr es \<Longrightarrow> (\<forall>e\<in>set es. short_entry e) \<and> buf = frames es"
proof (induction buf arbitrary: es rule: SplitDataTile.induct)
  case (1 data)
  show ?case
  proof (cases "data = []")
    case True
    then show ?thesis using 1(2) by (simp add: SplitDataTile.simps frames_def)
  next
    case False
    obtain b0 b1 rest where d: "data = b0 # b1 # rest"
      using 1(2) False by (cases data; cases "tl data") (auto simp: SplitDataTile.simps)
    let ?n = "unat b0 * 2 ^ 8 + unat b1"
    have b: "unat b0 < 256" "unat b1 < 256" using unsigned_less [of b0] unsigned_less [of b1] by simp_all
    obtain out where out: "\<not> 2 + ?n > length data" "SplitDataTile (drop (2 + ?n) data) = Inr out"
        "es = take ?n (drop 2 data) # out"
      using 1(2) False unfolding SplitDataTile.simps [of data] by (auto simp: d Let_def rbind_eq_Inr split: if_splits)
    have IH: "(\<forall>e\<in>set out. short_entry e) \<and> drop (2 + ?n) data = frames out"
      using out False by (intro 1(1) [of ?n]) (simp_all add: d)
    let ?e = "take ?n rest"
    have l: "length ?e = ?n" using out(1) by (simp add: d)
    have "?n div 2 ^ 8 = unat b0" using b by simp
    then have "of_nat (length ?e div 2 ^ 8) = b0" unfolding l by simp
    moreover have "of_nat (length ?e) = b1"
      unfolding l word_unat_eq_iff unat_of_nat_byte using b by simp
    ultimately have "frame ?e = b0 # b1 # ?e" by (simp add: frame_def)
    moreover have "rest = ?e @ frames out" using IH append_take_drop_id [of ?n rest] by (simp add: d)
    ultimately have "data = frames es" using out(3) by (simp add: d frames_def)
    moreover have "short_entry ?e" using l b by (simp add: short_entry_def)
    moreover have "es = ?e # out" using out(3) by (simp add: d)
    ultimately show ?thesis using IH by auto
  qed
qed

section \<open>What is on disk\<close>

definition tile_entries :: "bytes list \<Rightarrow> nat \<Rightarrow> bytes list" where
  "tile_entries es n = take 256 (drop (n * 256) es)"

definition tile_width :: "nat \<Rightarrow> nat \<Rightarrow> nat" where
  "tile_width sz n = min 256 (sz - n * 256)"

definition tiles_on_disk :: "FS \<Rightarrow> bytes list \<Rightarrow> bool" where
  "tiles_on_disk fs es \<longleftrightarrow>
     (\<forall>n. n * 256 < length es \<longrightarrow> files fs (dataTilePath n (tile_width (length es) n)) = Some (frames (tile_entries es n)))"

definition size_on_disk :: "FS \<Rightarrow> bytes list \<Rightarrow> bool" where
  "size_on_disk fs es \<longleftrightarrow> files fs treeSizePath = (if es = [] then None else Some (be 8 (length es)))"

definition tiles_in_memory :: "(nat \<Rightarrow> bytes option) \<Rightarrow> bytes list \<Rightarrow> bool" where
  "tiles_in_memory dt es \<longleftrightarrow>
     (\<forall>n buf. dt n = Some buf \<longrightarrow> n * 256 < length es \<and> length es < (n + 1) * 256 \<and> buf = frames (tile_entries es n))"

definition tw_inv :: "tlog \<Rightarrow> bytes list \<Rightarrow> TileWriter \<Rightarrow> bool" where
  "tw_inv lib es w \<longleftrightarrow>
     wsize w = length es \<and> hashLoop lib 0 [] [] es = Inr (whashes w) \<and> (\<forall>e\<in>set es. short_entry e) \<and>
     size_on_disk (wfs w) es \<and> tiles_on_disk (wfs w) es \<and> tiles_in_memory (dataTiles w) es"

lemma pos_mod_bound_nat: "(n :: nat) mod 256 < 256"
  by simp

lemma tile_entries_snoc:
  "tile_entries (es @ [e]) n = (if n = length es div 256 then tile_entries es n @ [e] else tile_entries es n)"
proof (cases "length es < n * 256")
  case True
  then have "length es div 256 < n" by (simp add: div_less_iff_less_mult)
  then show ?thesis using True by (simp add: tile_entries_def)
next
  case False
  show ?thesis
  proof (cases "n = length es div 256")
    case True
    then have "length (drop (n * 256) es) < 256" by (simp add: mod_less_divisor minus_div_mult_eq_mod [symmetric])
    then show ?thesis using True False by (simp add: tile_entries_def)
  next
    case n: False
    then have "n < length es div 256" using False by (simp add: not_less less_eq_div_iff_mult_less_eq le_neq_implies_less)
    then have "n + 1 \<le> length es div 256" by simp
    then have "(n + 1) * 256 \<le> length es" by (simp add: less_eq_div_iff_mult_less_eq)
    then show ?thesis using n by (simp add: tile_entries_def)
  qed
qed

lemma tile_width_other:
  assumes "n * 256 < Suc sz" "n \<noteq> sz div 256"
  shows "n * 256 < sz \<and> tile_width (Suc sz) n = 256 \<and> tile_width sz n = 256"
proof -
  have "n \<le> sz div 256" using assms(1) by (simp add: less_eq_div_iff_mult_less_eq)
  then have "n + 1 \<le> sz div 256" using assms(2) by simp
  then have "(n + 1) * 256 \<le> sz" by (simp add: less_eq_div_iff_mult_less_eq)
  then show ?thesis by (simp add: tile_width_def)
qed

text \<open>The buffer the next entry goes to: in memory, on disk, or empty.\<close>

definition tile_buffer :: "TileWriter \<Rightarrow> nat \<Rightarrow> bytes option result" where
  "tile_buffer w idx =
     (let n = idx div EntriesPerDataTile
      in case dataTiles w n of Some buf \<Rightarrow> Inr (Some buf)
         | None \<Rightarrow> readPartialDataTile (wfs w) n (idx - n * EntriesPerDataTile))"

lemma tile_buffer_eq:
  assumes "tiles_on_disk (wfs w) es" "tiles_in_memory (dataTiles w) es" "tile_buffer w (length es) = Inr b"
  shows "(case b of None \<Rightarrow> [] | Some buf \<Rightarrow> buf) = frames (tile_entries es (length es div 256))"
proof -
  let ?n = "length es div 256"
  have off: "length es - ?n * 256 = length es mod 256" by (simp add: minus_div_mult_eq_mod)
  show ?thesis
  proof (cases "dataTiles w ?n")
    case (Some buf)
    have "b = Some buf" using assms(3) Some by (simp add: tile_buffer_def)
    moreover have "buf = frames (tile_entries es ?n)" using assms(2) Some unfolding tiles_in_memory_def by blast
    ultimately show ?thesis by simp
  next
    case None
    show ?thesis
    proof (cases "length es mod 256")
      case 0
      then have "length es \<le> ?n * 256" using off by linarith
      then have "tile_entries es ?n = []" by (simp add: tile_entries_def)
      then show ?thesis using None 0 assms(3) off by (simp add: tile_buffer_def readPartialDataTile_def frames_def)
    next
      case (Suc k)
      have "?n * 256 < length es" using Suc off by linarith
      moreover have "tile_width (length es) ?n = length es mod 256"
        unfolding tile_width_def off using mod_less_divisor [of 256 "length es"] by simp
      ultimately have "files (wfs w) (dataTilePath ?n (Suc k)) = Some (frames (tile_entries es ?n))"
        using assms(1) Suc unfolding tiles_on_disk_def by metis
      then have "b = Some (frames (tile_entries es ?n))" using None assms(3) off Suc
        by (auto simp: tile_buffer_def readPartialDataTile_def Get_def rbind_eq_Inr Let_def split: if_splits)
      then show ?thesis by simp
    qed
  qed
qed


section \<open>Writing\<close>

lemma Put_files:
  assumes "Put fs n d x = (r, fs')"
  shows "r = Inr u \<Longrightarrow> files fs' = (files fs)(n := Some d)" "r = Inl e \<Longrightarrow> files fs' = files fs"
    "get_faults fs' = get_faults fs"
  using assms by (auto simp: Put_def Let_def split: prod.splits if_splits)

lemma persistHashTiles_frame:
  assumes "persistHashTiles lib ts w = (r, w')" "\<forall>t\<in>set ts. 0 \<le> tileL t"
  shows "whashes w' = whashes w \<and> wsize w' = wsize w \<and> dataTiles w' = dataTiles w \<and>
    files (wfs w') treeSizePath = files (wfs w) treeSizePath \<and>
    files (wfs w') (dataTilePath n k) = files (wfs w) (dataTilePath n k) \<and>
    get_faults (wfs w') = get_faults (wfs w)"
  using assms
proof (induction ts arbitrary: w)
  case (Cons t ts)
  have ne: "dataTilePath n k \<noteq> tilePath t" "treeSizePath \<noteq> tilePath t"
    using Cons.prems(2) tilePath_not_data [of t n k] treeSizePath_other(1) [of t] by (simp_all add: eq_commute)
  show ?case
  proof (cases "ReadTileData lib t (ReadHashes (whashes w))")
    case (Inl e)
    then show ?thesis using Cons.prems by auto
  next
    case (Inr data)
    obtain q fs' where q: "Put (wfs w) (tilePath t) data False = (q, fs')"
      by (cases "Put (wfs w) (tilePath t) data False")
    note p = Put_files [OF q]
    show ?thesis
    proof (cases q)
      case (Inl e)
      then show ?thesis using Cons.prems(1) q \<open>ReadTileData lib t (ReadHashes (whashes w)) = Inr data\<close> p by auto
    next
      case (Inr u)
      have "persistHashTiles lib ts (w\<lparr>wfs := fs'\<rparr>) = (r, w')"
        using Cons.prems(1) q Inr \<open>ReadTileData lib t (ReadHashes (whashes w)) = Inr data\<close> by simp
      from Cons.IH [OF this] Cons.prems(2) p(1) [OF Inr] p(3) ne show ?thesis by simp
    qed
  qed
qed simp

text \<open>One step of the data loop: where it writes, and what it establishes.\<close>

lemma persistDataTiles_step:
  assumes "persistDataTiles (length es) (entry # rest) w = (r, w')" "short_entry entry"
    "tiles_on_disk (wfs w) es" "tiles_in_memory (dataTiles w) es"
  obtains (stop) "r \<noteq> Inr ()" "whashes w' = whashes w" "wsize w' = wsize w"
      "get_faults (wfs w') = get_faults (wfs w)" "files (wfs w') = files (wfs w)"
    | (go) w1 where "persistDataTiles (length (es @ [entry])) rest w1 = (r, w')"
      "whashes w1 = whashes w" "wsize w1 = wsize w" "get_faults (wfs w1) = get_faults (wfs w)"
      "files (wfs w1) = (files (wfs w))(dataTilePath (length es div 256) (length es mod 256 + 1)
          := Some (frames (tile_entries (es @ [entry]) (length es div 256))))"
      "tiles_on_disk (wfs w1) (es @ [entry])" "tiles_in_memory (dataTiles w1) (es @ [entry])"
proof (cases "tile_buffer w (length es)")
  case (Inl e)
  then show thesis using assms(1) by (intro stop) (auto simp: tile_buffer_def Let_def)
next
  case (Inr b)
  let ?n = "length es div 256" and ?k = "length es mod 256 + 1"
  let ?buf = "frames (tile_entries (es @ [entry]) ?n)"
  have off: "length es - ?n * 256 = length es mod 256" by (simp add: minus_div_mult_eq_mod)
  have buf: "appendDataEntry (case b of None \<Rightarrow> [] | Some buf \<Rightarrow> buf) entry = Inr ?buf"
    unfolding tile_buffer_eq [OF assms(3,4) Inr] using appendDataEntry_frames [OF assms(2)] by (simp add: tile_entries_snoc)
  obtain q fs' where q: "Put (wfs w) (dataTilePath ?n ?k) ?buf False = (q, fs')"
    by (cases "Put (wfs w) (dataTilePath ?n ?k) ?buf False")
  note p = Put_files [OF q]
  let ?w1 = "w\<lparr>dataTiles := (dataTiles w)(?n := if ?k = 256 then None else Some ?buf), wfs := fs'\<rparr>"
  have run: "persistDataTiles (length es) (entry # rest) w =
      (case q of Inl e \<Rightarrow> (Inl (wrapf ''write data tile'' e), w\<lparr>dataTiles := (dataTiles w)(?n := Some ?buf), wfs := fs'\<rparr>)
       | Inr _ \<Rightarrow> persistDataTiles (length es + 1) rest ?w1)"
    using Inr buf q off by (simp add: tile_buffer_def Let_def split: option.splits)
  show thesis
  proof (cases q)
    case (Inl e)
    then show thesis using assms(1) run p(2) [OF Inl] p(3) by (intro stop) auto
  next
    case (Inr u)
    have f: "files fs' = (files (wfs w))(dataTilePath ?n ?k := Some ?buf)" using p(1) [OF Inr] .
    have "tiles_on_disk fs' (es @ [entry])"
      unfolding tiles_on_disk_def
    proof (intro allI impI)
      fix m assume m: "m * 256 < length (es @ [entry])"
      show "files fs' (dataTilePath m (tile_width (length (es @ [entry])) m)) = Some (frames (tile_entries (es @ [entry]) m))"
      proof (cases "m = ?n")
        case True
        have "tile_width (Suc (length es)) ?n = ?k"
          using off mod_less_divisor [of 256 "length es"] div_times_less_eq_dividend [of "length es" 256]
          unfolding tile_width_def by linarith
        then show ?thesis using True f by simp
      next
        case False
        have t: "m * 256 < length es" "tile_width (Suc (length es)) m = 256" "tile_width (length es) m = 256"
          using tile_width_other [of m "length es"] m False by auto
        have "dataTilePath m 256 \<noteq> dataTilePath ?n ?k" using dataTilePath_inject [of 256 ?k m ?n] False by auto
        moreover have "files (wfs w) (dataTilePath m (tile_width (length es) m)) = Some (frames (tile_entries es m))"
          using assms(3) t(1) by (simp add: tiles_on_disk_def)
        ultimately show ?thesis using t(2,3) f False by (simp add: tile_entries_snoc)
      qed
    qed
    moreover have "tiles_in_memory ((dataTiles w)(?n := if ?k = 256 then None else Some ?buf)) (es @ [entry])"
    proof -
      have mem: "m = ?n" if "dataTiles w m = Some b'" for m b'
      proof -
        have "m * 256 < length es" "length es < (m + 1) * 256" using assms(4) that by (auto simp: tiles_in_memory_def)
        then show ?thesis by (simp add: div_nat_eqI)
      qed
      have "?n * 256 < Suc (length es)" using div_times_less_eq_dividend [of "length es" 256] by linarith
      moreover have "Suc (length es) < (?n + 1) * 256" if "?k \<noteq> 256"
      proof -
        have "?k < 256" using that pos_mod_bound_nat [of "length es"] by (simp add: le_neq_implies_less)
        then show ?thesis using div_mult_mod_eq [of "length es" 256] unfolding add_mult_distrib by linarith
      qed
      ultimately show ?thesis unfolding tiles_in_memory_def using mem by auto
    qed
    ultimately show thesis
      using assms(1) run Inr p(3) f by (intro go [of ?w1]) simp_all
  qed
qed

lemma persistDataTiles_run:
  assumes "persistDataTiles (length es) new w = (r, w')" "\<forall>e\<in>set new. short_entry e"
    "tiles_on_disk (wfs w) es" "tiles_in_memory (dataTiles w) es"
  shows "whashes w' = whashes w \<and> wsize w' = wsize w \<and> get_faults (wfs w') = get_faults (wfs w) \<and>
    (r = Inr () \<longrightarrow> tiles_on_disk (wfs w') (es @ new) \<and> tiles_in_memory (dataTiles w') (es @ new)) \<and>
    files (wfs w') treeSizePath = files (wfs w) treeSizePath \<and>
    (0 < k \<longrightarrow> n * 256 + k \<le> length es \<longrightarrow> files (wfs w') (dataTilePath n k) = files (wfs w) (dataTilePath n k))"
  using assms
proof (induction new arbitrary: es w)
  case (Cons entry rest)
  have se: "short_entry entry" using Cons.prems(2) by simp
  show ?case
  proof (cases rule: persistDataTiles_step [OF Cons.prems(1) se Cons.prems(3,4)])
    case 1
    then show ?thesis by simp
  next
    case (2 w1)
    have "dataTilePath n k \<noteq> dataTilePath (length es div 256) (length es mod 256 + 1)" if "0 < k" "n * 256 + k \<le> length es"
    proof
      assume "dataTilePath n k = dataTilePath (length es div 256) (length es mod 256 + 1)"
      from dataTilePath_inject [OF that(1) _ this] have "n = length es div 256" "k = length es mod 256 + 1" by auto
      then show False using that(2) div_mult_mod_eq [of "length es" 256] by simp
    qed
    with 2 Cons.IH [OF 2(1)] Cons.prems(2) show ?thesis by auto
  qed
qed simp


section \<open>Appending\<close>

lemma hashLoop_acc: "hashLoop lib cur hr acc es = rbind (hashLoop lib cur hr [] es) (\<lambda>n. Inr (acc @ n))"
proof (induction es arbitrary: cur hr acc)
  case (Cons e es)
  show ?case
  proof (cases "StoredHashes lib cur e (ReadHashes hr)")
    case (Inr hs)
    then show ?thesis
      using Cons [of "cur + 1" "hr @ hs" "acc @ hs"] Cons [of "cur + 1" "hr @ hs" hs]
      by (cases "hashLoop lib (cur + 1) (hr @ hs) [] es") simp_all
  qed simp
qed simp

lemma hashLoop_append:
  "hashLoop lib cur hr [] (es @ es') =
     rbind (hashLoop lib cur hr [] es) (\<lambda>n.
     rbind (hashLoop lib (cur + length es) (hr @ n) [] es') (\<lambda>m. Inr (n @ m)))"
proof (induction es arbitrary: cur hr)
  case Nil
  show ?case by (cases "hashLoop lib cur hr [] es'") simp_all
next
  case (Cons e es)
  show ?case
  proof (cases "StoredHashes lib cur e (ReadHashes hr)")
    case (Inr hs)
    then show ?thesis
      using Cons [of "cur + 1" "hr @ hs"] hashLoop_acc [of lib "cur + 1" "hr @ hs" hs "es @ es'"]
        hashLoop_acc [of lib "cur + 1" "hr @ hs" hs es]
      by (cases "hashLoop lib (cur + 1) (hr @ hs) [] es")
        (simp_all, cases "hashLoop lib (Suc (cur + length es)) (hr @ hs @ projr (hashLoop lib (Suc cur) (hr @ hs) [] es)) [] es'",
         simp_all)
  qed simp
qed

definition is_panic :: "goerror \<Rightarrow> bool" where
  "is_panic e = (case e of Panic _ \<Rightarrow> True | _ \<Rightarrow> False)"

lemma is_panic_simps [simp]: "is_panic (Panic m)" "\<not> is_panic (Errorf s)" "\<not> is_panic (Sentinel s)"
    "\<not> is_panic (Wrapf s e)" "is_panic (wrapf s e) = is_panic e"
  by (simp_all add: is_panic_def wrapf_def split: goerror.splits)

lemma store_errors: "Get fs n = Inl e \<Longrightarrow> \<not> is_panic e" "Put fs n d x = (Inl e, fs') \<Longrightarrow> \<not> is_panic e"
  by (auto simp: Get_def Put_def Let_def ErrNotExist_def ErrExists_def split: if_splits option.splits prod.splits)

lemma readPartialLoop_error: "readPartialLoop fs n k = Inl e \<Longrightarrow> \<not> is_panic e"
  by (induction k) (auto dest: store_errors split: sum.splits if_splits)

lemma tile_buffer_error: "tile_buffer w idx = Inl e \<Longrightarrow> \<not> is_panic e"
  by (auto simp: tile_buffer_def Let_def readPartialDataTile_def rbind_def dest: readPartialLoop_error
      split: option.splits if_splits sum.splits)

lemma appendDataEntry_short: "short_entry e \<Longrightarrow> appendDataEntry b e = Inr (b @ frame e)"
  by (simp add: appendDataEntry_def short_entry_def frame_def)

lemma persistDataTiles_error:
  "persistDataTiles idx new w = (Inl e, w') \<Longrightarrow> \<forall>e\<in>set new. short_entry e \<Longrightarrow> \<not> is_panic e"
proof (induction new arbitrary: idx w)
  case (Cons entry rest)
  show ?case
  proof (cases "tile_buffer w idx")
    case (Inl e')
    then have "e = e'" using Cons.prems(1) by (simp add: tile_buffer_def Let_def)
    then show ?thesis using tile_buffer_error Inl by blast
  next
    case (Inr b)
    let ?n = "idx div 256"
    let ?buf = "(case b of None \<Rightarrow> [] | Some buf \<Rightarrow> buf) @ frame entry"
    obtain q fs' where q: "Put (wfs w) (dataTilePath ?n (idx - ?n * 256 + 1)) ?buf False = (q, fs')"
      by (cases "Put (wfs w) (dataTilePath ?n (idx - ?n * 256 + 1)) ?buf False")
    show ?thesis
      using Cons.prems Cons.IH Inr q store_errors(2) [of "wfs w" _ _ _ _ fs']
      by (cases q) (auto simp: tile_buffer_def Let_def appendDataEntry_short)
  qed
qed simp

context tlog_laws
begin

lemma hashLoop_valid:
  "valid_store lib sha256 es hs \<Longrightarrow>
    \<exists>n. hashLoop lib (length es) hs [] es' = Inr n \<and> valid_store lib sha256 (es @ es') (hs @ n)"
proof (induction es' arbitrary: es hs)
  case Nil
  then show ?case by simp
next
  case (Cons e es')
  obtain new where new: "StoredHashes lib (length es) e (ReadHashes hs) = Inr new"
      "valid_store lib sha256 (es @ [e]) (hs @ new)"
    using stored_hashes [OF Cons.prems, of e] by blast
  from Cons.IH [OF new(2)] obtain n where n: "hashLoop lib (Suc (length es)) (hs @ new) [] es' = Inr n"
      "valid_store lib sha256 (es @ e # es') (hs @ new @ n)"
    by auto
  then have "hashLoop lib (length es) hs [] (e # es') = Inr (new @ n)"
    using new(1) hashLoop_acc [of lib "Suc (length es)" "hs @ new" new es'] by simp
  with n(2) show ?case by auto
qed

lemma tw_valid: "tw_inv lib es w \<Longrightarrow> valid_store lib sha256 es (whashes w)"
  using hashLoop_valid [OF valid_empty, of es] by (auto simp: tw_inv_def)

lemma persistHashTiles_error:
  assumes "persistHashTiles lib ts w = (Inl e, w')" "set ts \<subseteq> set (NewTiles lib h old (length es))"
    "valid_store lib sha256 es (whashes w)"
  shows "\<not> is_panic e"
  using assms
proof (induction ts arbitrary: w)
  case (Cons t ts)
  obtain d where d: "ReadTileData lib t (ReadHashes (whashes w)) = Inr d"
    using tile_data [OF Cons.prems(3), of t h old] Cons.prems(2) by auto
  obtain q fs' where q: "Put (wfs w) (tilePath t) d False = (q, fs')" by (cases "Put (wfs w) (tilePath t) d False")
  show ?case
  proof (cases q)
    case (Inl e')
    then show ?thesis using Cons.prems(1) d q store_errors(2) [of "wfs w" "tilePath t" d False e' fs'] by auto
  next
    case (Inr u)
    then have "persistHashTiles lib ts (w\<lparr>wfs := fs'\<rparr>) = (Inl e, w')" using Cons.prems(1) d q by simp
    then show ?thesis using Cons.IH Cons.prems(2,3) by simp
  qed
qed simp


lemma persistAfterAppend_run:
  assumes run: "persistAfterAppend lib (length es) new w = (r, w')" and new: "\<forall>e\<in>set new. short_entry e" "new \<noteq> []"
    and disk: "size_on_disk (wfs w) es" "tiles_on_disk (wfs w) es" "tiles_in_memory (dataTiles w) es"
    and size: "wsize w = length (es @ new)" and valid: "valid_store lib sha256 (es @ new) (whashes w)"
  shows "whashes w' = whashes w \<and> wsize w' = wsize w \<and> get_faults (wfs w') = get_faults (wfs w)"
    and "r = Inr () \<Longrightarrow> size_on_disk (wfs w') (es @ new) \<and> tiles_on_disk (wfs w') (es @ new) \<and>
      tiles_in_memory (dataTiles w') (es @ new)"
    and "r = Inl e \<Longrightarrow> size_on_disk (wfs w') es \<and> tiles_on_disk (wfs w') es \<and> \<not> is_panic e"
proof -
  let ?ts = "NewTiles lib TileHeight (length es) (wsize w)"
  obtain r1 w1 where w1: "persistHashTiles lib ?ts w = (r1, w1)" by (cases "persistHashTiles lib ?ts w")
  have ts: "\<forall>t\<in>set ?ts. 0 \<le> tileL t" using new_tiles by blast
  note f1g = persistHashTiles_frame [OF w1 ts]
  note f1 = f1g [of 0 0]
  have d1: "size_on_disk (wfs w1) es" "tiles_on_disk (wfs w1) es" "tiles_in_memory (dataTiles w1) es"
    using disk f1g by (simp_all add: size_on_disk_def tiles_on_disk_def)
  obtain r2 w2 where w2: "persistDataTiles (length es) new w1 = (r2, w2)" by (cases "persistDataTiles (length es) new w1")
  note f2g = persistDataTiles_run [OF w2 new(1) d1(2,3)]
  note f2 = f2g [of 0 0]
  have old: "size_on_disk (wfs w2) es" "tiles_on_disk (wfs w2) es"
  proof -
    show "size_on_disk (wfs w2) es" using d1(1) f2 by (simp add: size_on_disk_def)
    show "tiles_on_disk (wfs w2) es" unfolding tiles_on_disk_def
    proof (intro allI impI)
      fix n assume n: "n * 256 < length es"
      have "0 < tile_width (length es) n" "n * 256 + tile_width (length es) n \<le> length es"
        using n by (auto simp: tile_width_def)
      then show "files (wfs w2) (dataTilePath n (tile_width (length es) n)) = Some (frames (tile_entries es n))"
        using f2g [of "tile_width (length es) n" n] d1(2) n unfolding tiles_on_disk_def by metis
    qed
  qed
  obtain r3 fs3 where w3: "Put (wfs w2) treeSizePath (be 8 (wsize w2)) False = (r3, fs3)"
    by (cases "Put (wfs w2) treeSizePath (be 8 (wsize w2)) False")
  note f3 = Put_files [OF w3]
  have tiles: "tiles_on_disk (w'::FS) xs" if "tiles_on_disk fs xs" "\<forall>n k. files w' (dataTilePath n k) = files fs (dataTilePath n k)"
    for w' fs xs using that by (simp add: tiles_on_disk_def)
  show "whashes w' = whashes w \<and> wsize w' = wsize w \<and> get_faults (wfs w') = get_faults (wfs w)"
    using run w1 w2 w3 f1 f2 f3(3) by (auto simp: persistAfterAppend_def split: sum.splits)
  show "size_on_disk (wfs w') (es @ new) \<and> tiles_on_disk (wfs w') (es @ new) \<and> tiles_in_memory (dataTiles w') (es @ new)"
    if r: "r = Inr ()"
  proof -
    have ok: "r1 = Inr ()" "r2 = Inr ()" "r3 = Inr ()" "w' = w2\<lparr>wfs := fs3\<rparr>"
      using run w1 w2 w3 r by (auto simp: persistAfterAppend_def split: sum.splits)
    have "wsize w2 = length (es @ new)" using f1 f2 size by simp
    then have "size_on_disk fs3 (es @ new)" using f3(1) [OF ok(3)] new(2) by (simp add: size_on_disk_def)
    moreover have "tiles_on_disk fs3 (es @ new)"
    proof (rule tiles)
      show "tiles_on_disk (wfs w2) (es @ new)" using f2 ok(2) by simp
      show "\<forall>n k. files fs3 (dataTilePath n k) = files (wfs w2) (dataTilePath n k)"
        unfolding f3(1) [OF ok(3)] by simp
    qed
    ultimately show ?thesis using f2 ok by simp
  qed
  show "size_on_disk (wfs w') es \<and> tiles_on_disk (wfs w') es \<and> \<not> is_panic e" if r: "r = Inl e"
  proof (cases "r1")
    case (Inl e1)
    then have "e = e1" "w' = w1" using run w1 r by (auto simp: persistAfterAppend_def)
    then show ?thesis using d1 Inl w1 persistHashTiles_error [of ?ts w e1 w1 TileHeight "length es" "es @ new"] size valid
      by simp
  next
    case r1: (Inr u1)
    show ?thesis
    proof (cases r2)
      case (Inl e2)
      then have "e = e2" "w' = w2" using run w1 w2 r r1 by (auto simp: persistAfterAppend_def)
      then show ?thesis using old Inl w2 new(1) persistDataTiles_error by simp
    next
      case (Inr u2)
      then obtain e3 where e3: "r3 = Inl e3" "e = wrapf ''write treeSize'' e3" "w' = w2\<lparr>wfs := fs3\<rparr>"
        using run w1 w2 w3 r r1 by (auto simp: persistAfterAppend_def split: sum.splits)
      have "\<not> is_panic e3" using store_errors(2) w3 e3(1) by blast
      then show ?thesis using old e3 f3(2) [OF e3(1)] by (simp add: size_on_disk_def tiles_on_disk_def)
    qed
  qed
qed

lemma append_run:
  assumes inv: "tw_inv lib es w" and new: "\<forall>e\<in>set new. short_entry e" and run: "TWAppend lib new w = (r, w')"
  shows "r = Inr idx \<Longrightarrow> tw_inv lib (es @ new) w' \<and> idx = [length es..<length es + length new]"
    and "r = Inl e \<Longrightarrow> wsize w' = wsize w \<and> whashes w' = whashes w \<and> \<not> is_panic e \<and>
      size_on_disk (wfs w') es \<and> tiles_on_disk (wfs w') es"
    and "get_faults (wfs w') = get_faults (wfs w)"
proof -
  have i: "wsize w = length es" "hashLoop lib 0 [] [] es = Inr (whashes w)" "size_on_disk (wfs w) es"
      "tiles_on_disk (wfs w) es" "tiles_in_memory (dataTiles w) es" "\<forall>e\<in>set es. short_entry e"
    using inv by (auto simp: tw_inv_def)
  note v = tw_valid [OF inv]
  obtain n where n: "hashLoop lib (length es) (whashes w) [] new = Inr n" "valid_store lib sha256 (es @ new) (whashes w @ n)"
    using hashLoop_valid [OF v] by blast
  have cnt: "length (whashes w) = StoredHashCount lib (length es)"
      "length (whashes w) + length n = StoredHashCount lib (length es + length new)"
    using v n(2) by (simp_all add: valid_store_def)
  let ?w1 = "w\<lparr>whashes := whashes w @ n, wsize := length es + length new\<rparr>"
  obtain q w2 where q: "persistAfterAppend lib (length es) new ?w1 = (q, w2)"
    by (cases "persistAfterAppend lib (length es) new ?w1")
  have run': "TWAppend lib new w = (if new = [] then (Inr [], w) else
      case q of Inl e \<Rightarrow> if is_panic e then (Inl e, w2)
          else (Inl (wrapf ''persist tiles'' e), w2\<lparr>whashes := take (length (whashes w)) (whashes w2), wsize := length es\<rparr>)
      | Inr _ \<Rightarrow> (Inr [length es..<length es + length new], w2))"
    using i(1) n(1) cnt q
    by (auto simp: TWAppend_def Let_def is_panic_def map_add_upt [of "length es" "length new", unfolded add.commute [of _ "length es"]] split: sum.splits goerror.splits)
  show "tw_inv lib (es @ new) w' \<and> idx = [length es..<length es + length new]" if r: "r = Inr idx"
  proof (cases "new = []")
    case True
    then show ?thesis using inv run run' r by simp
  next
    case False
    then have q': "q = Inr ()" "w' = w2" "idx = [length es..<length es + length new]"
      using run run' r by (auto split: sum.splits if_splits)
    note p = persistAfterAppend_run [OF q new False]
    have "hashLoop lib 0 [] [] (es @ new) = Inr (whashes w @ n)"
      using hashLoop_append [of lib 0 "[]" es new] i(2) n(1) by simp
    then show ?thesis using p(1,2) q' i new n(2) by (auto simp: tw_inv_def)
  qed
  show "wsize w' = wsize w \<and> whashes w' = whashes w \<and> \<not> is_panic e \<and> size_on_disk (wfs w') es \<and> tiles_on_disk (wfs w') es"
    if r: "r = Inl e"
  proof -
    have ne: "new \<noteq> []" using run run' r by auto
    then obtain e' where e': "q = Inl e'" using run run' r by (auto split: sum.splits)
    note p = persistAfterAppend_run [OF q new ne]
    have np: "\<not> is_panic e'" using p(3) [OF _ _ _ _ _ e'] i n(2) by simp
    then have "e = wrapf ''persist tiles'' e'"
        "w' = w2\<lparr>whashes := take (length (whashes w)) (whashes w2), wsize := length es\<rparr>"
      using run run' r ne e' by auto
    then show ?thesis using p(1,3) e' i n(2) np by simp
  qed
  show "get_faults (wfs w') = get_faults (wfs w)"
  proof (cases "new = []")
    case True
    then show ?thesis using run run' by simp
  next
    case False
    note p = persistAfterAppend_run(1) [OF q new False]
    show ?thesis using p i n(2) run run' False by (auto split: sum.splits if_splits)
  qed
qed

end


section \<open>Reloading\<close>

lemma take_tile: "take (n * 256) es @ tile_entries es n = take ((n + 1) * 256) es"
  by (simp add: tile_entries_def take_add [symmetric] add.commute)

lemma length_tile_entries: "length (tile_entries es n) = tile_width (length es) n"
  by (simp add: tile_entries_def tile_width_def min.commute)

lemma loadTiles_all:
  assumes "tiles_on_disk fs es" "\<forall>e\<in>set es. short_entry e" "\<forall>n. \<not> get_faults fs n"
  shows "loadTiles fs (length es) n (take (n * 256) es) = Inr es"
proof (induction "length es - n * 256" arbitrary: n rule: less_induct)
  case less
  show ?case
  proof (cases "n * 256 < length es")
    case True
    have rec: "(if (n + 1) * EntriesPerDataTile > length es then length es - n * EntriesPerDataTile else EntriesPerDataTile)
        = tile_width (length es) n"
      unfolding tile_width_def EntriesPerDataTile_256 using True by (auto simp: min_def)
    have get: "Get fs (dataTilePath n (tile_width (length es) n)) = Inr (frames (tile_entries es n))"
      using assms(1,3) True by (simp add: Get_def tiles_on_disk_def)
    have "\<forall>e\<in>set (tile_entries es n). short_entry e"
      using assms(2) by (auto simp: tile_entries_def dest!: in_set_takeD in_set_dropD)
    then have sp: "SplitDataTile (frames (tile_entries es n)) = Inr (tile_entries es n)" by (rule SplitDataTile_frames)
    have "loadTiles fs (length es) (n + 1) (take ((n + 1) * 256) es) = Inr es"
      using True by (intro less) simp
    then show ?thesis
      unfolding loadTiles.simps [of fs "length es" n] rec Let_def get
      using True by (simp add: sp length_tile_entries take_tile [unfolded add_mult_distrib, simplified] add.commute)
  next
    case False
    then show ?thesis by (subst loadTiles.simps) simp
  qed
qed

lemma size_file:
  assumes "n < 2 ^ 63"
  shows "sint (of_nat (unbe (be 8 n)) :: u64) = int n"
proof -
  have "unbe (be 8 n) = n" using assms by (intro unbe_be) (simp add: less_trans)
  moreover have "unat (of_nat n :: u64) = n" using assms by (intro unat_of_nat64) (simp add: less_trans)
  ultimately show ?thesis using sint_small [of "of_nat n"] assms by simp
qed

lemma reload:
  assumes "size_on_disk fs es" "tiles_on_disk fs es" "\<forall>e\<in>set es. short_entry e" "hashLoop lib 0 [] [] es = Inr hs"
    "\<forall>n. \<not> get_faults fs n" "length es < 2 ^ 63"
  shows "NewTileWriter lib fs = Inr \<lparr>wfs = fs, wsize = length es, whashes = hs, dataTiles = (\<lambda>_. None)\<rparr>"
proof (cases "es = []")
  case True
  then show ?thesis using assms(1,4,5)
    by (simp add: NewTileWriter_def loadFromDisk_def Get_def size_on_disk_def ErrNotExist_def)
next
  case False
  have g: "Get fs treeSizePath = Inr (be 8 (length es))"
    using assms(1,5) False by (simp add: Get_def size_on_disk_def)
  have l: "loadTiles fs (length es) 0 [] = Inr es" using loadTiles_all [OF assms(2,3,5), of 0] by simp
  show ?thesis
    using g size_file [OF assms(6)] l assms(4) False
    by (simp add: NewTileWriter_def loadFromDisk_def Let_def)
qed

lemma reload_inv:
  assumes "size_on_disk fs es" "tiles_on_disk fs es" "\<forall>e\<in>set es. short_entry e" "hashLoop lib 0 [] [] es = Inr hs"
  shows "tw_inv lib es \<lparr>wfs = fs, wsize = length es, whashes = hs, dataTiles = (\<lambda>_. None)\<rparr>"
  using assms by (simp add: tw_inv_def tiles_in_memory_def)

section \<open>Progress\<close>

definition faultless :: "FS \<Rightarrow> bool" where
  "faultless fs \<longleftrightarrow> put_faults fs = [] \<and> (\<forall>n. \<not> get_faults fs n)"

lemma Put_faultless:
  assumes "faultless fs"
  shows "\<exists>fs'. Put fs n d False = (Inr (), fs') \<and> faultless fs'"
  using assms by (simp add: Put_def faultless_def next_fault_def Let_def)

lemma tile_buffer_ok:
  assumes "tiles_on_disk (wfs w) es" "tiles_in_memory (dataTiles w) es" "\<forall>n. \<not> get_faults (wfs w) n"
  shows "\<exists>b. tile_buffer w (length es) = Inr b \<and> (case b of None \<Rightarrow> [] | Some buf \<Rightarrow> buf) = frames (tile_entries es (length es div 256))"
proof -
  let ?n = "length es div 256" and ?k = "length es mod 256"
  have off: "length es - ?n * 256 = ?k" by (simp add: minus_div_mult_eq_mod)
  have "\<exists>b. tile_buffer w (length es) = Inr b"
  proof (cases "dataTiles w ?n \<noteq> None \<or> length es - ?n * 256 = 0")
    case True
    then show ?thesis by (auto simp: tile_buffer_def readPartialDataTile_def Let_def simp del: diff_is_0_eq split: option.split)
  next
    case False
    then have False': "dataTiles w ?n = None" "?k \<noteq> 0" using off by auto
    then obtain m where m: "?k = Suc m" by (cases ?k) auto
    have lt: "?n * 256 < length es" using False' off by linarith
    have "tile_width (length es) ?n = ?k"
      unfolding tile_width_def off using pos_mod_bound_nat [of "length es"] by simp
    then have "files (wfs w) (dataTilePath ?n ?k) = Some (frames (tile_entries es ?n))"
      using assms(1) lt unfolding tiles_on_disk_def by metis
    then show ?thesis using False'(1) off m assms(3)
      by (auto simp: tile_buffer_def readPartialDataTile_def Let_def Get_def)
  qed
  then show ?thesis using tile_buffer_eq [OF assms(1,2)] by blast
qed

lemma persistDataTiles_progress:
  assumes "faultless (wfs w)" "\<forall>e\<in>set new. short_entry e" "tiles_on_disk (wfs w) es" "tiles_in_memory (dataTiles w) es"
  shows "\<exists>w'. persistDataTiles (length es) new w = (Inr (), w') \<and> faultless (wfs w')"
  using assms
proof (induction new arbitrary: es w)
  case (Cons entry rest)
  let ?n = "length es div 256" and ?k = "length es mod 256"
  have off: "length es - ?n * 256 = ?k" by (simp add: minus_div_mult_eq_mod)
  obtain b where b: "tile_buffer w (length es) = Inr b"
    using tile_buffer_ok [OF Cons.prems(3,4)] Cons.prems(1) by (auto simp: faultless_def)
  have se: "short_entry entry" using Cons.prems(2) by simp
  define buf where "buf = (case b of None \<Rightarrow> [] | Some buf \<Rightarrow> buf) @ frame entry"
  obtain fs' where fs': "Put (wfs w) (dataTilePath ?n (?k + 1)) buf False = (Inr (), fs')" "faultless fs'"
    using Put_faultless [OF Cons.prems(1)] by blast
  obtain r w' where r: "persistDataTiles (length es) (entry # rest) w = (r, w')"
    by (cases "persistDataTiles (length es) (entry # rest) w")
  let ?w1 = "w\<lparr>dataTiles := (dataTiles w)(?n := if ?k + 1 = 256 then None else Some buf), wfs := fs'\<rparr>"
  have step: "persistDataTiles (length es) (entry # rest) w = persistDataTiles (length (es @ [entry])) rest ?w1"
    using b fs'(1) off se
    by (auto simp: tile_buffer_def Let_def appendDataEntry_short buf_def split: option.splits)
  have snoc: "tiles_on_disk fs' (es @ [entry]) \<and> tiles_in_memory (dataTiles ?w1) (es @ [entry])"
  proof -
    have one: "persistDataTiles (length es) [entry] w = (Inr (), ?w1)"
      using b fs'(1) off se
      by (auto simp: tile_buffer_def Let_def appendDataEntry_short buf_def split: option.splits)
    show ?thesis using persistDataTiles_run [OF one _ Cons.prems(3,4), of 0 0] se by simp
  qed
  have "\<exists>w'. persistDataTiles (length (es @ [entry])) rest ?w1 = (Inr (), w') \<and> faultless (wfs w')"
  proof (rule Cons.IH)
    show "faultless (wfs ?w1)" "tiles_on_disk (wfs ?w1) (es @ [entry])" using fs'(2) snoc by simp_all
    show "tiles_in_memory (dataTiles ?w1) (es @ [entry])" using snoc by (rule conjunct2)
    show "\<forall>e\<in>set rest. short_entry e" using Cons.prems(2) by simp
  qed
  then show ?case unfolding step .
qed auto

context tlog_laws
begin

lemma persistHashTiles_progress:
  assumes "faultless (wfs w)" "set ts \<subseteq> set (NewTiles lib h old (length es))" "valid_store lib sha256 es (whashes w)"
  shows "\<exists>w'. persistHashTiles lib ts w = (Inr (), w') \<and> faultless (wfs w')"
  using assms
proof (induction ts arbitrary: w)
  case (Cons t ts)
  obtain d where d: "ReadTileData lib t (ReadHashes (whashes w)) = Inr d"
    using tile_data [OF Cons.prems(3), of t h old] Cons.prems(2) by auto
  obtain fs' where fs': "Put (wfs w) (tilePath t) d False = (Inr (), fs')" "faultless fs'"
    using Put_faultless [OF Cons.prems(1)] by blast
  have "\<exists>w'. persistHashTiles lib ts (w\<lparr>wfs := fs'\<rparr>) = (Inr (), w') \<and> faultless (wfs w')"
    using fs'(2) Cons.prems(2,3) by (intro Cons.IH) simp_all
  then show ?case using d fs'(1) by simp
qed auto

lemma append_progress:
  assumes inv: "tw_inv lib es w" and new: "\<forall>e\<in>set new. short_entry e" and ok: "faultless (wfs w)"
  shows "\<exists>idx w'. TWAppend lib new w = (Inr idx, w') \<and> faultless (wfs w')"
proof (cases "new = []")
  case True
  then show ?thesis using ok by (simp add: TWAppend_def)
next
  case False
  have i: "wsize w = length es" "tiles_on_disk (wfs w) es" "tiles_in_memory (dataTiles w) es"
    using inv by (auto simp: tw_inv_def)
  note v = tw_valid [OF inv]
  obtain n where n: "hashLoop lib (length es) (whashes w) [] new = Inr n" "valid_store lib sha256 (es @ new) (whashes w @ n)"
    using hashLoop_valid [OF v] by blast
  have cnt: "length (whashes w) = StoredHashCount lib (length es)"
      "length (whashes w) + length n = StoredHashCount lib (length es + length new)"
    using v n(2) by (simp_all add: valid_store_def)
  let ?w1 = "w\<lparr>whashes := whashes w @ n, wsize := length es + length new\<rparr>"
  let ?ts = "NewTiles lib TileHeight (length es) (length es + length new)"
  have "\<exists>w2. persistHashTiles lib ?ts ?w1 = (Inr (), w2) \<and> faultless (wfs w2)"
    using ok n(2) persistHashTiles_progress [of ?w1 ?ts TileHeight "length es" "es @ new"] by simp
  then obtain w2 where w2: "persistHashTiles lib ?ts ?w1 = (Inr (), w2)" "faultless (wfs w2)" by blast
  have ts: "\<forall>t\<in>set ?ts. 0 \<le> tileL t" using new_tiles by blast
  have d2: "tiles_on_disk (wfs w2) es" "tiles_in_memory (dataTiles w2) es"
    using persistHashTiles_frame [OF w2(1) ts] i by (simp_all add: tiles_on_disk_def)
  obtain w3 where w3: "persistDataTiles (length es) new w2 = (Inr (), w3)" "faultless (wfs w3)"
    using persistDataTiles_progress [OF w2(2) new d2] by blast
  obtain fs4 where fs4: "Put (wfs w3) treeSizePath (be 8 (wsize w3)) False = (Inr (), fs4)" "faultless fs4"
    using Put_faultless [OF w3(2)] by blast
  have "persistAfterAppend lib (length es) new ?w1 = (Inr (), w3\<lparr>wfs := fs4\<rparr>)"
    using w2(1) w3(1) fs4(1) by (simp add: persistAfterAppend_def)
  then show ?thesis using i(1) n(1) cnt False fs4(2) by (auto simp: TWAppend_def Let_def)
qed

end

section \<open>A retry after a failed append\<close>

lemma Put_ok: "next_fault (put_faults fs) = (False, rest) \<Longrightarrow>
    Put fs n d False = (Inr (), fs\<lparr>put_faults := rest, files := (files fs)(n := Some d)\<rparr>)"
  by (simp add: Put_def)

lemma Put_fault: "next_fault (put_faults fs) = (True, rest) \<Longrightarrow>
    Put fs n d x = (Inl (Errorf ''write error''), fs\<lparr>put_faults := rest\<rparr>)"
  by (simp add: Put_def)

text \<open>The data loop on one entry that does not fill its tile.\<close>

lemma persistDataTiles_one:
  assumes "tile_buffer w idx = Inr b" "(case b of None \<Rightarrow> [] | Some x \<Rightarrow> x) = c" "short_entry e" "idx mod 256 < 255"
  shows "persistDataTiles idx [e] w =
    (case Put (wfs w) (dataTilePath (idx div 256) (idx mod 256 + 1)) (c @ frame e) False of
       (Inl x, fs') \<Rightarrow> (Inl (wrapf ''write data tile'' x), w\<lparr>dataTiles := (dataTiles w)(idx div 256 := Some (c @ frame e)), wfs := fs'\<rparr>)
     | (Inr _, fs') \<Rightarrow> (Inr (), w\<lparr>dataTiles := (dataTiles w)(idx div 256 := Some (c @ frame e)), wfs := fs'\<rparr>))"
proof -
  have "idx - idx div 256 * 256 = idx mod 256" by (simp add: minus_div_mult_eq_mod)
  then show ?thesis
    using assms by (auto simp: tile_buffer_def Let_def appendDataEntry_short split: option.splits prod.splits sum.splits)
qed


context tlog_laws
begin

lemma persistHashTiles_until:
  assumes "\<forall>i<length ts. i < length (put_faults (wfs w)) \<longrightarrow> \<not> put_faults (wfs w) ! i"
    "set ts \<subseteq> set (NewTiles lib h old (length es))" "valid_store lib sha256 es (whashes w)"
  shows "\<exists>w'. persistHashTiles lib ts w = (Inr (), w') \<and> put_faults (wfs w') = drop (length ts) (put_faults (wfs w))"
  using assms
proof (induction ts arbitrary: w)
  case (Cons t ts)
  obtain d where d: "ReadTileData lib t (ReadHashes (whashes w)) = Inr d"
    using tile_data [OF Cons.prems(3), of t h old] Cons.prems(2) by auto
  let ?pf = "put_faults (wfs w)"
  have nf: "next_fault ?pf = (False, drop 1 ?pf)" using Cons.prems(1) [rule_format, of 0] by (cases ?pf) (auto simp: next_fault_def)
  let ?w1 = "w\<lparr>wfs := (wfs w)\<lparr>put_faults := drop 1 ?pf, files := (files (wfs w))(tilePath t := Some d)\<rparr>\<rparr>"
  have "\<not> drop 1 ?pf ! i" if "i < length ts" "i < length (drop 1 ?pf)" for i
    using Cons.prems(1) [rule_format, of "Suc i"] that by simp
  then have "\<exists>w'. persistHashTiles lib ts ?w1 = (Inr (), w') \<and> put_faults (wfs w') = drop (length ts) (put_faults (wfs ?w1))"
    using Cons.prems(2,3) by (intro Cons.IH) auto
  then show ?case using d Put_ok [OF nf] by simp
qed simp

lemma append_one:
  assumes "valid_store lib sha256 es (whashes w)" "wsize w = length es"
  obtains hs where "valid_store lib sha256 (es @ [e]) (whashes w @ hs)"
    "\<And>q w'. persistAfterAppend lib (length es) [e] (w\<lparr>whashes := whashes w @ hs, wsize := length es + 1\<rparr>) = (Inl q, w') \<Longrightarrow> \<not> is_panic q \<Longrightarrow>
       TWAppend lib [e] w = (Inl (wrapf ''persist tiles'' q), w'\<lparr>whashes := take (length (whashes w)) (whashes w'), wsize := length es\<rparr>)"
    "\<And>w'. persistAfterAppend lib (length es) [e] (w\<lparr>whashes := whashes w @ hs, wsize := length es + 1\<rparr>) = (Inr (), w') \<Longrightarrow>
       TWAppend lib [e] w = (Inr [length es], w')"
proof -
  obtain hs where hs: "hashLoop lib (length es) (whashes w) [] [e] = Inr hs" "valid_store lib sha256 (es @ [e]) (whashes w @ hs)"
    using hashLoop_valid [OF assms(1)] by blast
  have cnt: "length (whashes w) = StoredHashCount lib (length es)"
      "length (whashes w) + length hs = StoredHashCount lib (length es + 1)"
    using assms(1) hs(2) by (simp_all add: valid_store_def)
  show thesis
    by (rule that [OF hs(2)]) (use assms(2) hs(1) cnt in
      \<open>auto simp: TWAppend_def Let_def is_panic_def split: sum.splits goerror.splits\<close>)
qed

text \<open>
  One entry, from a writer whose buffer for the next entry holds \<open>c\<close>: the first writes succeed, and the
  write of the data tile or of the size file fails.
\<close>

lemma append_fails:
  assumes v: "valid_store lib sha256 es (whashes w)" "wsize w = length es" and e: "short_entry e" "length es mod 256 < 255"
    and d: "tiles_on_disk (wfs w) es" "tiles_in_memory (dataTiles w) es" "\<forall>n. \<not> get_faults (wfs w) n"
    and pf: "put_faults (wfs w) = replicate (length (NewTiles lib TileHeight (length es) (length es + 1)) + k) False @ [True]" "k \<le> 1"
  shows "\<exists>x w'. TWAppend lib [e] w = (Inl x, w') \<and> put_faults (wfs w') = [] \<and>
    dataTiles w' (length es div 256) = Some (frames (tile_entries es (length es div 256)) @ frame e)"
proof -
  let ?ts = "NewTiles lib TileHeight (length es) (length es + 1)" and ?c = "frames (tile_entries es (length es div 256))"
  obtain hs where hs: "valid_store lib sha256 (es @ [e]) (whashes w @ hs)" and
    fails: "\<And>q w'. persistAfterAppend lib (length es) [e] (w\<lparr>whashes := whashes w @ hs, wsize := length es + 1\<rparr>) = (Inl q, w') \<Longrightarrow> \<not> is_panic q \<Longrightarrow>
       TWAppend lib [e] w = (Inl (wrapf ''persist tiles'' q), w'\<lparr>whashes := take (length (whashes w)) (whashes w'), wsize := length es\<rparr>)"
    using append_one [OF v] by metis
  let ?w1 = "w\<lparr>whashes := whashes w @ hs, wsize := length es + 1\<rparr>"
  obtain w2 where w2: "persistHashTiles lib ?ts ?w1 = (Inr (), w2)" "put_faults (wfs w2) = replicate k False @ [True]"
    using persistHashTiles_until [of ?ts ?w1 TileHeight "length es" "es @ [e]"] hs pf(1) by (auto simp: nth_append)
  have ts: "\<forall>t\<in>set ?ts. 0 \<le> tileL t" using new_tiles by blast
  have d2: "tiles_on_disk (wfs w2) es" "tiles_in_memory (dataTiles w2) es" "\<forall>n. \<not> get_faults (wfs w2) n"
    using persistHashTiles_frame [OF w2(1) ts] d by (simp_all add: tiles_on_disk_def)
  obtain b where b: "tile_buffer w2 (length es) = Inr b" "(case b of None \<Rightarrow> [] | Some buf \<Rightarrow> buf) = ?c"
    using tile_buffer_ok [OF d2] by blast
  note one = persistDataTiles_one [OF b e]
  have "\<exists>q w'. persistAfterAppend lib (length es) [e] ?w1 = (Inl q, w') \<and> \<not> is_panic q \<and> put_faults (wfs w') = [] \<and>
      dataTiles w' (length es div 256) = Some (?c @ frame e)"
  proof (cases "k = 0")
    case True
    then have "next_fault (put_faults (wfs w2)) = (True, [])" using w2(2) by (simp add: next_fault_def)
    then show ?thesis using w2(1) one by (simp add: persistAfterAppend_def Put_fault wrapf_def)
  next
    case False
    then have "put_faults (wfs w2) = [False, True]" using w2(2) pf(2) by (cases k) auto
    then have nf: "next_fault (put_faults (wfs w2)) = (False, [True])" by (simp add: next_fault_def)
    have f: "next_fault [True] = (True, [])" by (simp add: next_fault_def)
    show ?thesis using w2(1) one by (simp add: persistAfterAppend_def Put_ok [OF nf] Put_fault f wrapf_def)
  qed
  then obtain q w' where q: "persistAfterAppend lib (length es) [e] ?w1 = (Inl q, w')" "\<not> is_panic q" "put_faults (wfs w') = []"
      "dataTiles w' (length es div 256) = Some (?c @ frame e)" by blast
  from fails [OF q(1,2)] q(3,4) show ?thesis by simp
qed

text \<open>One entry on a working store, from a writer whose buffer for the next entry holds \<open>c\<close>.\<close>

lemma append_on_buffer:
  assumes v: "valid_store lib sha256 es (whashes w)" "wsize w = length es" and e: "short_entry e" "length es mod 256 < 255"
    and buf: "dataTiles w (length es div 256) = Some c" and ok: "put_faults (wfs w) = []"
  shows "\<exists>w'. TWAppend lib [e] w = (Inr [length es], w') \<and> files (wfs w') treeSizePath = Some (be 8 (length es + 1)) \<and>
    get_faults (wfs w') = get_faults (wfs w) \<and>
    (\<forall>n r. 0 < r \<longrightarrow> files (wfs w') (dataTilePath n r) = (if n = length es div 256 \<and> r = length es mod 256 + 1 then Some (c @ frame e)
       else files (wfs w) (dataTilePath n r)))"
proof -
  let ?ts = "NewTiles lib TileHeight (length es) (length es + 1)" and ?p = "dataTilePath (length es div 256) (length es mod 256 + 1)"
  obtain hs where hs: "valid_store lib sha256 (es @ [e]) (whashes w @ hs)" and
    succeeds: "\<And>w'. persistAfterAppend lib (length es) [e] (w\<lparr>whashes := whashes w @ hs, wsize := length es + 1\<rparr>) = (Inr (), w') \<Longrightarrow>
       TWAppend lib [e] w = (Inr [length es], w')"
    using append_one [OF v] by metis
  let ?w1 = "w\<lparr>whashes := whashes w @ hs, wsize := length es + 1\<rparr>"
  obtain w2 where w2: "persistHashTiles lib ?ts ?w1 = (Inr (), w2)" "put_faults (wfs w2) = []"
    using persistHashTiles_until [of ?ts ?w1 TileHeight "length es" "es @ [e]"] hs ok by auto
  have ts: "\<forall>t\<in>set ?ts. 0 \<le> tileL t" using new_tiles by blast
  note fr = persistHashTiles_frame [OF w2(1) ts]
  have b: "tile_buffer w2 (length es) = Inr (Some c)" using fr buf by (simp add: tile_buffer_def)
  have nf: "next_fault (put_faults (wfs w2)) = (False, [])" "next_fault [] = (False, [])" using w2(2) by (simp_all add: next_fault_def)
  let ?fs = "(wfs w2)\<lparr>put_faults := [], files := (files (wfs w2))(?p := Some (c @ frame e), treeSizePath := Some (be 8 (length es + 1)))\<rparr>"
  have "persistAfterAppend lib (length es) [e] ?w1 =
      (Inr (), w2\<lparr>dataTiles := (dataTiles w2)(length es div 256 := Some (c @ frame e)), wfs := ?fs\<rparr>)"
    using w2(1) fr persistDataTiles_one [OF b _ e, of c]
    by (simp add: persistAfterAppend_def Put_ok [OF nf(1)] Put_ok nf(2))
  from succeeds [OF this] have r: "TWAppend lib [e] w = (Inr [length es], w2\<lparr>dataTiles := (dataTiles w2)(length es div 256 := Some (c @ frame e)), wfs := ?fs\<rparr>)" .
  have "dataTilePath n r = ?p \<longleftrightarrow> n = length es div 256 \<and> r = length es mod 256 + 1" if "0 < r" for n r
    using dataTilePath_inject [OF that, of "length es mod 256 + 1" n "length es div 256"] by auto
  then show ?thesis using r fr by (intro exI [of _ "w2\<lparr>dataTiles := (dataTiles w2)(length es div 256 := Some (c @ frame e)), wfs := ?fs\<rparr>"]) simp
qed

end


section \<open>Properties\<close>

definition empty_store :: "bool list \<Rightarrow> FS" where
  "empty_store pf = \<lparr>files = (\<lambda>_. None), put_faults = pf, get_faults = (\<lambda>_. False)\<rparr>"

definition empty_writer :: "bool list \<Rightarrow> TileWriter" where
  "empty_writer pf = \<lparr>wfs = empty_store pf, wsize = 0, whashes = [], dataTiles = (\<lambda>_. None)\<rparr>"

lemma empty_writer_inv: "tw_inv lib [] (empty_writer pf)"
  by (simp add: tw_inv_def empty_writer_def empty_store_def size_on_disk_def tiles_on_disk_def tiles_in_memory_def)

text \<open>
  C17: from a consistent writer (\<open>tw_inv\<close>, which holds of an empty writer, is kept by every successful append
  and is established by opening a store) a successful append hands out the next indices in order and leaves a state in which memory, the
  data tiles and the size file all hold the old entries followed by the new ones; the writer's hash
  reader then serves every complete subtree of that tree, and \<open>RootHash\<close> is its Merkle root.
\<close>

theorem tilewriter_append:
  assumes "tlog_laws lib sha256" "tw_inv lib es w" "\<forall>e\<in>set new. length e \<le> 0xffff" "TWAppend lib new w = (Inr idx, w')"
    "es @ new \<noteq> []"
  shows "idx = [length es..<length es + length new] \<and> tw_inv lib (es @ new) w' \<and>
    reader_serves (StoredHashIndex lib) (ReadHashes (whashes w')) (HashChildren sha256)
      (leaf_hashes sha256 (es @ new)) (length (es @ new)) \<and>
    RootHash lib sha256 w' = Inr (mth (HashChildren sha256) (leaf_hashes sha256 (es @ new)) 0 (length (es @ new)))"
proof -
  have i: "tw_inv lib (es @ new) w'" "idx = [length es..<length es + length new]"
    using tlog_laws.append_run(1) [OF assms(1,2) _ assms(4) refl] assms(3) by (auto simp: short_entry_def)
  have v: "valid_store lib sha256 (es @ new) (whashes w')" by (rule tlog_laws.tw_valid [OF assms(1) i(1)])
  have "0 < length (es @ new)" using assms(5) by simp
  from tlog_laws.tree_hash [OF assms(1) v this] v i show ?thesis
    using assms(5) by (auto simp: valid_store_def RootHash_def tw_inv_def)
qed

theorem tilewriter_append_witness:
  "\<exists>idx w'. TWAppend (ref_tlog mk_Hash) [[1], [2, 3]] (empty_writer []) = (Inr idx, w') \<and> idx = [0, 1] \<and>
     tw_inv (ref_tlog mk_Hash) [[1], [2, 3]] w'"
proof -
  have e: "\<forall>e\<in>set [[1], [2, 3 :: byte]]. length e \<le> 0xffff" by simp
  have "faultless (wfs (empty_writer []))" by (simp add: faultless_def empty_writer_def empty_store_def)
  with tlog_laws.append_progress [OF ref.tlog_laws_axioms empty_writer_inv, of "[[1], [2, 3]]" "[]" mk_Hash] e
  obtain idx w' where r: "TWAppend (ref_tlog mk_Hash) [[1], [2, 3]] (empty_writer []) = (Inr idx, w')"
    by (auto simp: short_entry_def)
  have "[0..<0 + length [[1], [2, 3 :: byte]]] = [0, 1]" by (simp add: upt_rec)
  with tilewriter_append [OF ref.tlog_laws_axioms empty_writer_inv e r] r show ?thesis by auto
qed

text \<open>
  C18: crash recovery. Whatever writes fail during an append to a consistent writer, opening the store again afterwards gives
  the tree with the new entries if the append returned success and exactly the old tree if it
  returned an error.
\<close>

theorem tilewriter_crash_recovery:
  assumes "tlog_laws lib sha256" "tw_inv lib es w" "\<forall>e\<in>set new. length e \<le> 0xffff" "TWAppend lib new w = (r, w')"
    "\<forall>n. \<not> get_faults (wfs w) n" "length (es @ new) < 2 ^ 63"
  shows "\<exists>w''. NewTileWriter lib (wfs w') = Inr w'' \<and> wsize w'' = wsize w' \<and> whashes w'' = whashes w' \<and>
    tw_inv lib (case r of Inl _ \<Rightarrow> es | Inr _ \<Rightarrow> es @ new) w''"
proof -
  note run = tlog_laws.append_run [OF assms(1,2) _ assms(4)]
  have se: "\<forall>e\<in>set new. short_entry e" "\<forall>e\<in>set es. short_entry e"
    using assms(2,3) by (auto simp: short_entry_def tw_inv_def)
  have gf: "\<forall>n. \<not> get_faults (wfs w') n" using run(3) se assms(5) by simp
  show ?thesis
  proof (cases r)
    case (Inl e)
    with run(2) se(1) have a: "wsize w' = length es" "whashes w' = whashes w" "size_on_disk (wfs w') es"
        "tiles_on_disk (wfs w') es"
      using assms(2) by (auto simp: tw_inv_def)
    have h: "hashLoop lib 0 [] [] es = Inr (whashes w)" using assms(2) by (simp add: tw_inv_def)
    from reload [OF a(3,4) se(2) h gf] reload_inv [OF a(3,4) se(2) h] a Inl assms(6) show ?thesis by simp
  next
    case (Inr idx)
    with run(1) se(1) have inv: "tw_inv lib (es @ new) w'" by blast
    then have a: "wsize w' = length (es @ new)" "size_on_disk (wfs w') (es @ new)" "tiles_on_disk (wfs w') (es @ new)"
        "hashLoop lib 0 [] [] (es @ new) = Inr (whashes w')" "\<forall>e\<in>set (es @ new). short_entry e"
      by (auto simp: tw_inv_def)
    from reload [OF a(2,3,5,4) gf assms(6)] reload_inv [OF a(2,3,5,4)] a(1) Inr show ?thesis by simp
  qed
qed

theorem tilewriter_crash_recovery_witness:
  "\<exists>r w' w''. TWAppend (ref_tlog mk_Hash) [[1]] (empty_writer [False, False, True]) = (r, w') \<and>
     NewTileWriter (ref_tlog mk_Hash) (wfs w') = Inr w'' \<and> wsize w'' = wsize w'"
proof -
  obtain r w' where r: "TWAppend (ref_tlog mk_Hash) [[1]] (empty_writer [False, False, True]) = (r, w')"
    by (cases "TWAppend (ref_tlog mk_Hash) [[1]] (empty_writer [False, False, True])")
  have "\<forall>e\<in>set [[1 :: byte]]. length e \<le> 0xffff" "\<forall>n. \<not> get_faults (wfs (empty_writer [False, False, True])) n"
      "length ([] @ [[1 :: byte]]) < 2 ^ 63"
    by (simp_all add: empty_writer_def empty_store_def)
  from tilewriter_crash_recovery [OF ref.tlog_laws_axioms empty_writer_inv this(1) r this(2,3)] r show ?thesis by blast
qed

text \<open>
  an append makes progress: with no storage faults and entries of at most 65535 bytes it always
  succeeds, from every valid state.
\<close>

theorem tilewriter_progress:
  assumes "tlog_laws lib sha256" "tw_inv lib es w" "\<forall>e\<in>set new. length e \<le> 0xffff"
    "put_faults (wfs w) = []" "\<forall>n. \<not> get_faults (wfs w) n"
  shows "\<exists>w'. TWAppend lib new w = (Inr [length es..<length es + length new], w')"
proof -
  have se: "\<forall>e\<in>set new. short_entry e" using assms(3) by (simp add: short_entry_def)
  have "faultless (wfs w)" using assms(4,5) by (simp add: faultless_def)
  then obtain idx w' where r: "TWAppend lib new w = (Inr idx, w')"
    using tlog_laws.append_progress [OF assms(1,2) se] by blast
  from tlog_laws.append_run(1) [OF assms(1,2) se r refl] r show ?thesis by auto
qed

theorem tilewriter_progress_witness:
  "\<exists>w'. TWAppend (ref_tlog mk_Hash) [[7, 7], []] (empty_writer []) = (Inr [0, 1], w')"
proof -
  have "\<forall>e\<in>set [[7, 7 :: byte], []]. length e \<le> 0xffff" "put_faults (wfs (empty_writer [])) = []"
      "\<forall>n. \<not> get_faults (wfs (empty_writer [])) n"
    by (simp_all add: empty_writer_def empty_store_def)
  from tilewriter_progress [OF ref.tlog_laws_axioms empty_writer_inv this] show ?thesis
    by (simp add: upt_rec)
qed



text \<open>
  the storage paths of tiles never collide: data tiles of different number or width, hash tiles
  and the size file all have different paths.
\<close>

theorem tile_paths_distinct:
  assumes "0 < r" "0 < q" "0 \<le> tileL t"
  shows "(dataTilePath m r = dataTilePath n q \<longleftrightarrow> m = n \<and> r = q) \<and>
    tilePath t \<noteq> dataTilePath n q \<and> tilePath t \<noteq> treeSizePath \<and> dataTilePath n q \<noteq> treeSizePath"
  using dataTilePath_inject [OF assms(1,2), of m n] tilePath_not_data [OF assms(3)] by auto

theorem tile_paths_distinct_witness:
  "dataTilePath 1234067 5 = ''log/tile/entries/x001/x234/067.p/5'' \<and> dataTilePath 0 256 \<noteq> dataTilePath 0 255"
proof -
  have "dataTilePath 1234067 5 = ''log/tile/entries/x001/x234/067.p/5''" by code_simp
  with tile_paths_distinct [of 256 255 "\<lparr>tileH = 8, tileL = 0, tileN = 0, tileW = 1\<rparr>" 0 0] show ?thesis by simp
qed

text \<open>
  entry bundles. Appending entries one by one to an empty bundle and splitting are inverse: the
  bundle built from a list of entries splits into exactly that list, and every bundle that splits is
  the one built from its entries, so the framing is unambiguous and canonical.
\<close>

theorem data_tile_roundtrip: "entry_bundle es = Inr buf \<longleftrightarrow> SplitDataTile buf = Inr es"
proof
  assume "entry_bundle es = Inr buf"
  then show "SplitDataTile buf = Inr es" using SplitDataTile_frames by (auto simp: entry_bundle_eq split: if_splits)
next
  assume "SplitDataTile buf = Inr es"
  from SplitDataTile_canonical [OF this] show "entry_bundle es = Inr buf" by (auto simp: entry_bundle_eq)
qed

end
