(* ===== verification/Follower.thy ===== *)
theory Follower
  imports Cosign Tilewriter
begin

text \<open>
  The follower of a mirror (mirror/follower.go): polling the upstream log, verifying its checkpoint,
  replaying the new entries and committing the state, the halted mode, and the restart from disk. The
  HTTP client is a parameter that gives the status and the body of each response; a poll has one such
  parameter, so that the upstream may answer differently in each poll. Sizes handed to the tlog package
  are those of an int64 that is not negative. The method \<open>ReadHashes\<close> of the file is the one of theory Tlog.
\<close>

section \<open>State\<close>

record Upstream =
  TileURL :: string
  UpLogID :: TrustAnchorID
  UpCosignerID :: TrustAnchorID
  UpCosignerKey :: bytes

record Follower =
  fup :: Upstream
  ffs :: FS
  fsize :: u64
  froot :: Hash
  fnote :: bytes
  fhashes :: "Hash list"
  fhalted :: bool

definition stateRoot :: string where
  "stateRoot = ''state/mirror/upstream/''"

definition stateCheckpoint :: string where
  "stateCheckpoint = stateRoot @ ''checkpoint''"

definition stateSize :: string where
  "stateSize = stateRoot @ ''size''"

definition stateHaltedFile :: string where
  "stateHaltedFile = stateRoot @ ''halted''"

section \<open>Fetching\<close>

type_synonym http_get = "string \<Rightarrow> (nat \<times> bytes) result"

definition MaxFetchBytes :: nat where
  "MaxFetchBytes = 8 * 2 ^ 20"

definition httpGet :: "http_get \<Rightarrow> string \<Rightarrow> bytes result" where
  "httpGet http url =
     rbind (http url) (\<lambda>(code, body).
       if code \<noteq> 200 then Inl (Errorf ''HTTP status'') else Inr (take MaxFetchBytes body))"

text \<open>The entries of one tile, up to the last one wanted; whether that was reached.\<close>

fun takeLoop :: "u64 \<Rightarrow> u64 \<Rightarrow> bytes list \<Rightarrow> bytes list \<Rightarrow> bytes list \<times> bool" where
  "takeLoop from to out [] = (out, False)"
| "takeLoop from to out (e # es) =
     (let out' = out @ [e] in if of_nat (length out') + from \<ge> to then (out', True) else takeLoop from to out' es)"

text \<open>The body of the loop over the tiles: the entries of tile \<open>tn\<close> that are not held yet.\<close>

definition fetchTile :: "http_get \<Rightarrow> string \<Rightarrow> u64 \<Rightarrow> u64 \<Rightarrow> u64 \<Rightarrow> bytes list result" where
  "fetchTile http url from to tn =
     (let ents = of_nat EntriesPerDataTile;
          recordsInTile = (if (tn + 1) * ents > to then unat (to - tn * ents) else EntriesPerDataTile)
      in rbind (httpGet http (url @ ''/'' @ DataTilePath (unat tn) recordsInTile)) (\<lambda>raw.
         rbind (SplitDataTile raw) (\<lambda>es.
           let startInTile = (if from > tn * ents then sint (from - tn * ents) else 0)
           in if startInTile < 0 then Inl (Panic ''index out of range'') else Inr (drop (nat startInTile) es))))"

text \<open>Near the end of the 64-bit range the product wraps and the loop need not end.\<close>

partial_function (option) fetchLoop ::
    "http_get \<Rightarrow> string \<Rightarrow> u64 \<Rightarrow> u64 \<Rightarrow> u64 \<Rightarrow> bytes list \<Rightarrow> bytes list result option" where
  "fetchLoop http url from to tn out =
     (if tn * of_nat EntriesPerDataTile < to then
        (case fetchTile http url from to tn of
           Inl e \<Rightarrow> Some (Inl e)
         | Inr es \<Rightarrow>
             let r = takeLoop from to out es
             in if snd r then Some (Inr (fst r)) else fetchLoop http url from to (tn + 1) (fst r))
      else Some (Inr out))"

declare fetchLoop.simps [code]

definition fetchEntries :: "http_get \<Rightarrow> string \<Rightarrow> u64 \<Rightarrow> u64 \<Rightarrow> bytes list result option" where
  "fetchEntries http url from to =
     (if sint (to - from) < 0 then Some (Inl (Panic ''makeslice: cap out of range''))
      else fetchLoop http url from to (from div of_nat EntriesPerDataTile) [])"

definition replayNewEntries :: "tlog \<Rightarrow> http_get \<Rightarrow> Follower \<Rightarrow> u64 \<Rightarrow> u64 \<Rightarrow> Hash list result option" where
  "replayNewEntries lib http f from to =
     map_option (\<lambda>r. rbind r (\<lambda>entries. hashLoop lib (unat from) (fhashes f) [] entries))
       (fetchEntries http (TileURL (fup f)) from to)"

section \<open>Advancing\<close>

text \<open>The halted marker holds the message; its arguments are left out here.\<close>

definition haltf :: "Follower \<Rightarrow> string \<Rightarrow> unit result \<times> Follower" where
  "haltf f msg =
     (Inl (Errorf (''mirror halted: '' @ msg)),
      f\<lparr>fhalted := True, ffs := snd (Put (ffs f) stateHaltedFile (bytes_of (msg @ [newline])) False)\<rparr>)"

definition ca_key :: "Upstream \<Rightarrow> CosignerKey" where
  "ca_key u = \<lparr>CKID = UpCosignerID u, CKAlgorithm = AlgMLDSA44, CKPublicKey = UpCosignerKey u\<rparr>"

definition commit :: "Follower \<Rightarrow> bytes \<Rightarrow> u64 \<Rightarrow> unit result \<times> Follower" where
  "commit f checkpoint upstreamSize =
     (case Put (ffs f) stateCheckpoint checkpoint False of
        (Inl e, fs1) \<Rightarrow> (Inl e, f\<lparr>ffs := fs1\<rparr>)
      | (Inr _, fs1) \<Rightarrow>
          (case Put fs1 stateSize (be 8 (unat upstreamSize)) False of
             (Inl e, fs2) \<Rightarrow> (Inl e, f\<lparr>ffs := fs2\<rparr>)
           | (Inr _, fs2) \<Rightarrow> (Inr (), f\<lparr>ffs := fs2\<rparr>)))"

definition advance :: "tlog \<Rightarrow> 'pk mldsa \<Rightarrow> http_get \<Rightarrow> Follower \<Rightarrow> (unit result \<times> Follower) option" where
  "advance lib mlib http f =
     (let u = fup f
      in case httpGet http (TileURL u @ ''/checkpoint'') of
           Inl e \<Rightarrow> Some (Inl (wrapf ''fetch checkpoint'' e), f)
         | Inr checkpoint \<Rightarrow>
        (case mirror_parseSignedNote (string_of checkpoint) (OIDName (UpCosignerID u)) of
           Inl e \<Rightarrow> Some (Inl (wrapf ''parse checkpoint'' e), f)
         | Inr (upstreamSize, upstreamRoot, sig) \<Rightarrow>
        (case MarshalSignatureInput (UpCosignerID u)
                \<lparr>SubLogID = UpLogID u, SubStart = 0, SubEnd = upstreamSize, SubHash = upstreamRoot\<rparr> of
           Inl e \<Rightarrow> Some (Inl e, f)
         | Inr sigInput \<Rightarrow>
        (case VerifyMTCSignature mlib (ca_key u) \<lparr>CosignerID = UpCosignerID u, Signature = sig\<rparr> sigInput of
           Inl e \<Rightarrow> Some (haltf f ''CA cosignature verify'')
         | Inr _ \<Rightarrow>
             let currentSize = fsize f
             in if upstreamSize = currentSize then
                  (case Put (ffs f) stateCheckpoint checkpoint False of
                     (r, fs1) \<Rightarrow> Some (r, f\<lparr>fnote := checkpoint, ffs := fs1\<rparr>))
                else if upstreamSize < currentSize then Some (haltf f ''upstream size < local (rollback)'')
                else
                  (case replayNewEntries lib http f currentSize upstreamSize of
                     None \<Rightarrow> None
                   | Some (Inl e) \<Rightarrow> Some (Inl (wrapf ''replay new entries'' e), f)
                   | Some (Inr newHashes) \<Rightarrow>
                       let combined = fhashes f @ newHashes
                       in (case TreeHash lib (unat upstreamSize) (ReadHashes combined) of
                             Inl e \<Rightarrow> Some (Inl (wrapf ''TreeHash'' e), f)
                           | Inr rt \<Rightarrow>
                               if rt \<noteq> upstreamRoot then Some (haltf f ''recomputed root != upstream root'')
                               else
                                 Some (commit (f\<lparr>fhashes := combined, fsize := upstreamSize, froot := upstreamRoot,
                                   fnote := checkpoint\<rparr>) checkpoint upstreamSize)))))))"

definition poll :: "tlog \<Rightarrow> 'pk mldsa \<Rightarrow> http_get \<Rightarrow> Follower \<Rightarrow> Follower option" where
  "poll lib mlib http f = (if fhalted f then Some f else map_option snd (advance lib mlib http f))"

definition Current :: "Follower \<Rightarrow> u64 \<times> Hash \<times> bytes" where
  "Current f = (fsize f, froot f, fnote f)"

definition follower_SubtreeHash :: "tlog \<Rightarrow> (bytes \<Rightarrow> Hash) \<Rightarrow> Follower \<Rightarrow> u64 \<Rightarrow> u64 \<Rightarrow> Hash result" where
  "follower_SubtreeHash lib sha256 f start fin =
     (if fin > fsize f then Inl (Errorf ''mirror: end > local size'')
      else SubtreeHash sha256 (StoredHashIndex lib) start fin (ReadHashes (fhashes f)))"

section \<open>Starting\<close>

definition follower_loadFromDisk :: "Follower \<Rightarrow> Follower result" where
  "follower_loadFromDisk f =
     (if Exists (ffs f) stateHaltedFile = Inr True then Inr (f\<lparr>fhalted := True\<rparr>)
      else case Get (ffs f) stateSize of
        Inl e \<Rightarrow> if errors_Is e ''file does not exist'' then Inr f else Inl e
      | Inr sizeBytes \<Rightarrow>
          if length sizeBytes \<noteq> 8 then Inl (Errorf ''mirror: bad size file'')
          else
            rbind (Get (ffs f) stateCheckpoint) (\<lambda>cp.
            rbind (mirror_parseSignedNote (string_of cp) (OIDName (UpCosignerID (fup f)))) (\<lambda>(_, rt, _).
              Inr (f\<lparr>fsize := 0, froot := rt, fnote := cp\<rparr>))))"

definition NewFollower :: "int \<Rightarrow> Upstream \<Rightarrow> FS \<Rightarrow> Follower result" where
  "NewFollower pollInterval u fs =
     (if pollInterval \<le> 0 then Inl (Errorf ''mirror: PollInterval must be > 0'')
      else if UpCosignerKey u = [] then Inl (Errorf ''mirror: Upstream.CACosignerKey is required'')
      else follower_loadFromDisk
             \<lparr>fup = u, ffs = fs, fsize = 0, froot = mk_Hash [], fnote = [], fhashes = [], fhalted = False\<rparr>)"

section \<open>Fetching the entries of a range\<close>

lemma reached_iff:
  assumes "unat (lo :: u64) + k \<le> unat to"
  shows "of_nat k + lo \<ge> to \<longleftrightarrow> unat lo + k = unat to"
proof -
  have k: "k < 2 ^ 64" "unat lo + k < 2 ^ 64" using assms unat_less_u64 [of to] by simp_all
  then have "unat (of_nat k :: u64) = k" by (simp add: unat_of_nat64)
  then have "unat (of_nat k + lo) = unat lo + k" using k(2) unat_add_u64 [of "of_nat k" lo] by simp
  then show ?thesis using assms by (auto simp: u64_le_iff)
qed

lemma takeLoop_bound:
  assumes "unat lo + length out < unat to"
  shows "unat lo + length (fst (takeLoop lo to out es)) \<le> unat to \<and>
    (\<not> snd (takeLoop lo to out es) \<longrightarrow> unat lo + length (fst (takeLoop lo to out es)) < unat to)"
  using assms
proof (induction lo to out es rule: takeLoop.induct)
  case (2 lo to out e es)
  have b: "unat lo + length (out @ [e]) \<le> unat to" using 2(2) by simp
  show ?case
  proof (cases "unat lo + length (out @ [e]) = unat to")
    case True
    then show ?thesis using reached_iff [OF b] by (simp add: Let_def)
  next
    case False
    then have r: "\<not> of_nat (length (out @ [e])) + lo \<ge> to" using reached_iff [OF b] by blast
    have "unat lo + length (out @ [e]) < unat to" using b False by simp
    from 2(1) [OF refl r this] show ?thesis using r by (simp add: Let_def)
  qed
qed simp

definition in_range :: "u64 \<Rightarrow> u64 \<Rightarrow> bytes list \<Rightarrow> bytes list result \<Rightarrow> bool" where
  "in_range lo to out r \<longleftrightarrow>
     (unat lo + length out < unat to \<longrightarrow> (\<forall>es. r = Inr es \<longrightarrow> unat lo + length es \<le> unat to))"

lemma fetchLoop_bound:
  assumes "fetchLoop http url lo to n out = Some r"
  shows "in_range lo to out r"
proof (rule fetchLoop.raw_induct [where P = "\<lambda>http url lo to n out r. in_range lo to out r", OF _ assms])
  fix loop :: "http_get \<Rightarrow> string \<Rightarrow> u64 \<Rightarrow> u64 \<Rightarrow> u64 \<Rightarrow> bytes list \<Rightarrow> bytes list result option" and http url lo to n out r
  assume IH: "\<And>http url lo to n out r. loop http url lo to n out = Some r \<Longrightarrow> in_range lo to out r"
    and body: "(if n * of_nat EntriesPerDataTile < to then
        (case fetchTile http url lo to n of
           Inl e \<Rightarrow> Some (Inl e)
         | Inr es \<Rightarrow>
             let r = takeLoop lo to out es
             in if snd r then Some (Inr (fst r)) else loop http url lo to (n + 1) (fst r))
      else Some (Inr out)) = Some r"
  show "in_range lo to out r"
  proof (cases "unat lo + length out < unat to")
    case True
    note b = takeLoop_bound [OF True]
    have rec: "unat lo + length xs \<le> unat to" if "\<not> snd (takeLoop lo to out es)"
        "loop http url lo to (n + 1) (fst (takeLoop lo to out es)) = Some (Inr xs)" for es xs
      using IH [OF that(2)] b [of es] that(1) by (simp add: in_range_def)
    show ?thesis using body b
      by (auto simp: Let_def in_range_def split: if_splits sum.splits dest: rec)
  qed (simp add: in_range_def)
qed

lemma fetchEntries_bound:
  assumes "fetchEntries http url lo to = Some (Inr es)" "lo < to"
  shows "unat lo + length es \<le> unat to"
  using assms fetchLoop_bound [of http url lo to _ "[]"]
  by (auto simp: fetchEntries_def u64_less_iff in_range_def split: if_splits)

lemma fetchLoop_returns:
  assumes "unat to \<le> 2 ^ 64 - 256" "unat n * 256 < 2 ^ 64"
  shows "\<exists>r. fetchLoop http url lo to n out = Some r"
  using assms(2)
proof (induction "unat to - unat n * 256" arbitrary: n out rule: less_induct)
  case less
  have m: "unat (n * 256) = unat n * 256" using less.prems by (simp add: unat_word_ariths)
  show ?case
  proof (cases "n * 256 < to")
    case True
    then have lt: "unat n * 256 < unat to" using m by (simp add: u64_less_iff)
    then have "unat n + 1 < 2 ^ 64" using less.prems by simp
    then have n1: "unat (n + 1) = unat n + 1" using unat_add_u64 [of n 1] by simp
    then have b: "unat (n + 1) * 256 < 2 ^ 64" using lt assms(1) by simp
    have "unat to - unat (n + 1) * 256 < unat to - unat n * 256" using lt n1 by simp
    then have "\<exists>r. fetchLoop http url lo to (n + 1) o' = Some r" for o' using less.hyps b by blast
    then show ?thesis by (subst fetchLoop.simps) (auto simp: Let_def split: sum.splits)
  qed (subst fetchLoop.simps, simp)
qed

lemma fetchEntries_returns: "unat to \<le> 2 ^ 64 - 256 \<Longrightarrow> \<exists>r. fetchEntries http url lo to = Some r"
  using fetchLoop_returns [of to "lo div 256"] unat_less_u64 [of lo]
  by (simp add: fetchEntries_def unat_div_distrib)

section \<open>Advancing\<close>

lemma Put_fs: "fst (Put fs n d x) = Inr () \<or> (\<exists>e. fst (Put fs n d x) = Inl e)"
  by (cases "fst (Put fs n d x)") auto

text \<open>The CA's signature over a checkpoint was verified.\<close>

definition cosigned :: "'pk mldsa \<Rightarrow> Upstream \<Rightarrow> u64 \<Rightarrow> Hash \<Rightarrow> bool" where
  "cosigned mlib u sz r \<longleftrightarrow>
     (\<exists>sig msg. MarshalSignatureInput (UpCosignerID u) \<lparr>SubLogID = UpLogID u, SubStart = 0, SubEnd = sz, SubHash = r\<rparr> = Inr msg \<and>
        VerifyMTCSignature mlib (ca_key u) \<lparr>CosignerID = UpCosignerID u, Signature = sig\<rparr> msg = Inr ())"

definition same_log :: "Follower \<Rightarrow> Follower \<Rightarrow> bool" where
  "same_log f f' \<longleftrightarrow> fup f' = fup f \<and> fsize f' = fsize f \<and> froot f' = froot f \<and> fhashes f' = fhashes f"

definition extended :: "tlog \<Rightarrow> 'pk mldsa \<Rightarrow> Follower \<Rightarrow> Follower \<Rightarrow> bool" where
  "extended lib mlib f f' \<longleftrightarrow>
     fup f' = fup f \<and> fhalted f' = fhalted f \<and> fsize f < fsize f' \<and> cosigned mlib (fup f) (fsize f') (froot f') \<and>
     (\<exists>es n. unat (fsize f) + length es \<le> unat (fsize f') \<and> hashLoop lib (unat (fsize f)) (fhashes f) [] es = Inr n \<and>
       fhashes f' = fhashes f @ n) \<and>
     TreeHash lib (unat (fsize f')) (ReadHashes (fhashes f')) = Inr (froot f')"

lemma commit_state: "same_log f (snd (commit f cp sz)) \<and> fhalted (snd (commit f cp sz)) = fhalted f"
  by (auto simp: commit_def same_log_def split: prod.splits sum.splits)

lemma haltf_state: "same_log f (snd (haltf f msg))" "fhalted (snd (haltf f msg))" "\<exists>e. fst (haltf f msg) = Inl e"
  by (simp_all add: haltf_def same_log_def)

lemma advance_cases:
  assumes "advance lib mlib http f = Some (r, f')"
  shows "same_log f f' \<or> extended lib mlib f f'"
proof -
  let ?u = "fup f"
  consider "same_log f f'"
    | sz rt sig msg new where
      "MarshalSignatureInput (UpCosignerID ?u) \<lparr>SubLogID = UpLogID ?u, SubStart = 0, SubEnd = sz, SubHash = rt\<rparr> = Inr msg"
      "VerifyMTCSignature mlib (ca_key ?u) \<lparr>CosignerID = UpCosignerID ?u, Signature = sig\<rparr> msg = Inr ()"
      "fsize f < sz" "replayNewEntries lib http f (fsize f) sz = Some (Inr new)"
      "TreeHash lib (unat sz) (ReadHashes (fhashes f @ new)) = Inr rt"
      "\<exists>cp. f' = snd (commit (f\<lparr>fhashes := fhashes f @ new, fsize := sz, froot := rt, fnote := cp\<rparr>) cp sz)"
    using assms haltf_state(1) [of f]
    by (auto simp: advance_def Let_def same_log_def split: sum.splits prod.splits if_splits option.splits)
      (metis prod.sel(2) linorder_neqE)+
  then show ?thesis
  proof cases
    case (2 sz rt sig msg new)
    obtain es where es: "fetchEntries http (TileURL ?u) (fsize f) sz = Some (Inr es)"
        "hashLoop lib (unat (fsize f)) (fhashes f) [] es = Inr new"
      using 2(4) by (auto simp: replayNewEntries_def rbind_eq_Inr)
    obtain cp where f': "f' = snd (commit (f\<lparr>fhashes := fhashes f @ new, fsize := sz, froot := rt, fnote := cp\<rparr>) cp sz)"
      using 2(6) ..
    have "fup f' = fup f" "fsize f' = sz" "froot f' = rt" "fhashes f' = fhashes f @ new" "fhalted f' = fhalted f"
      using commit_state [of "f\<lparr>fhashes := fhashes f @ new, fsize := sz, froot := rt, fnote := cp\<rparr>" cp sz]
      unfolding f' by (simp_all add: same_log_def)
    then have "extended lib mlib f f'"
      using 2(1,2,3,5) es(2) fetchEntries_bound [OF es(1) 2(3)] unfolding extended_def cosigned_def by auto
    then show ?thesis ..
  qed simp
qed

lemma advance_returns:
  assumes "\<And>cp sz r sig. httpGet http (TileURL (fup f) @ ''/checkpoint'') = Inr cp \<Longrightarrow>
    mirror_parseSignedNote (string_of cp) (OIDName (UpCosignerID (fup f))) = Inr (sz, r, sig) \<Longrightarrow> unat sz \<le> 2 ^ 64 - 256"
  shows "\<exists>r f'. advance lib mlib http f = Some (r, f')"
proof -
  have "\<exists>r. replayNewEntries lib http f lo sz = Some r" if "unat sz \<le> 2 ^ 64 - 256" for lo sz
    using fetchEntries_returns [OF that, of http "TileURL (fup f)" lo] by (auto simp: replayNewEntries_def)
  moreover have "\<exists>cp sz r sig. httpGet http (TileURL (fup f) @ ''/checkpoint'') = Inr cp \<and>
      mirror_parseSignedNote (string_of cp) (OIDName (UpCosignerID (fup f))) = Inr (sz, r, sig) \<and>
      replayNewEntries lib http f (fsize f) sz = None" if "advance lib mlib http f = None"
    using that by (auto simp: advance_def Let_def split: sum.splits prod.splits option.splits if_splits)
  ultimately have "advance lib mlib http f \<noteq> None" using assms by (metis option.distinct(1))
  then show ?thesis by auto
qed

section \<open>The mirrored log only grows\<close>

definition follower_inv :: "tlog \<Rightarrow> 'pk mldsa \<Rightarrow> (bytes \<Rightarrow> Hash) \<Rightarrow> bytes list \<Rightarrow> Follower \<Rightarrow> bool" where
  "follower_inv lib mlib sha256 es f \<longleftrightarrow>
     valid_store lib sha256 es (fhashes f) \<and> unat (fsize f) = length es \<and>
     (0 < length es \<longrightarrow> froot f = mth (HashChildren sha256) (leaf_hashes sha256 es) 0 (length es) \<and>
        cosigned mlib (fup f) (fsize f) (froot f))"

inductive polls :: "tlog \<Rightarrow> 'pk mldsa \<Rightarrow> Follower \<Rightarrow> Follower \<Rightarrow> bool" for lib mlib f where
  none: "polls lib mlib f f"
| poll: "polls lib mlib f f1 \<Longrightarrow> poll lib mlib http f1 = Some f2 \<Longrightarrow> polls lib mlib f f2"

context tlog_laws
begin

lemma extended_inv:
  assumes "extended lib mlib f f'" "follower_inv lib mlib sha256 es f"
  shows "\<exists>es'. follower_inv lib mlib sha256 (es @ es') f'"
proof -
  obtain es' n where n: "unat (fsize f) + length es' \<le> unat (fsize f')"
      "hashLoop lib (unat (fsize f)) (fhashes f) [] es' = Inr n" "fhashes f' = fhashes f @ n"
    using assms(1) by (auto simp: extended_def)
  have vs: "valid_store lib sha256 (es @ es') (fhashes f')"
    using hashLoop_valid [of es "fhashes f" es'] assms(2) n by (auto simp: follower_inv_def)
  have th: "TreeHash lib (unat (fsize f')) (ReadHashes (fhashes f')) = Inr (froot f')" and "fsize f < fsize f'"
    and cs: "cosigned mlib (fup f') (fsize f') (froot f')"
    using assms(1) by (auto simp: extended_def)
  then have pos: "0 < unat (fsize f')" by (simp add: u64_less_iff)
  have "\<not> length (es @ es') < unat (fsize f')" using tree_hash_missing [OF vs] th by force
  then have len: "unat (fsize f') = length (es @ es')" using n(1) assms(2) by (simp add: follower_inv_def)
  have "froot f' = mth (HashChildren sha256) (leaf_hashes sha256 (es @ es')) 0 (length (es @ es'))"
    using tree_hash [OF vs] th pos unfolding len by simp
  with vs len cs show ?thesis unfolding follower_inv_def by blast
qed

lemma same_log_inv:
  "same_log f f' \<Longrightarrow> follower_inv lib mlib sha256 es f \<Longrightarrow> follower_inv lib mlib sha256 es f'"
  unfolding same_log_def follower_inv_def by metis

lemma polls_inv:
  assumes "polls lib mlib f f'" "follower_inv lib mlib sha256 es f"
  shows "\<exists>es'. follower_inv lib mlib sha256 (es @ es') f'"
  using assms
proof (induction rule: polls.induct)
  case none
  then show ?case by (intro exI [of _ "[]"]) simp
next
  case (poll f1 http f2)
  then obtain es1 where inv: "follower_inv lib mlib sha256 (es @ es1) f1" by blast
  from poll.hyps(2) consider "f2 = f1" | r where "advance lib mlib http f1 = Some (r, f2)"
    by (auto simp: poll_def split: if_splits)
  then show ?case
  proof cases
    case 1
    then show ?thesis using inv by blast
  next
    case (2 r)
    from advance_cases [OF this] show ?thesis
      using same_log_inv [OF _ inv] extended_inv [OF _ inv] by (metis append.assoc)
  qed
qed

lemma new_follower_inv: "NewFollower i u fs = Inr f \<Longrightarrow> follower_inv lib mlib sha256 [] f"
  using valid_empty
  by (auto simp: NewFollower_def follower_loadFromDisk_def follower_inv_def rbind_eq_Inr split: if_splits sum.splits)

end

section \<open>Halting\<close>

lemma polls_halted: "polls lib mlib f f' \<Longrightarrow> fhalted f \<Longrightarrow> f' = f"
  by (induction rule: polls.induct) (simp_all add: poll_def)

lemma halted_restart:
  assumes "files (ffs f) stateHaltedFile \<noteq> None" "\<not> get_faults (ffs f) stateHaltedFile" "NewFollower i u (ffs f) = Inr g"
  shows "fhalted g"
  using assms by (auto simp: NewFollower_def follower_loadFromDisk_def Exists_def split: if_splits)

text \<open>A log of one entry and its upstream.\<close>

definition sample_up :: Upstream where
  "sample_up = \<lparr>TileURL = ''u'', UpLogID = ''1'', UpCosignerID = ''2'', UpCosignerKey = [1]\<rparr>"

definition sample_root :: Hash where
  "sample_root = HashLeaf mk_Hash [5]"

definition sample_checkpoint :: "u64 \<Rightarrow> Hash \<Rightarrow> bytes" where
  "sample_checkpoint n r = bytes_of (concat (map (\<lambda>x. x @ [newline])
     [OIDName ''1'', FormatUint n, EncodeToString (hash_bytes r)]) @
     newline # sigLine (OIDName ''2'') ([0, 0, 0, 0] @ MarshalTimestampedSignature 0 [9]) @ [newline])"

definition sample_upstream :: http_get where
  "sample_upstream url =
     (if url = ''u/checkpoint'' then Inr (200, sample_checkpoint 1 sample_root)
      else if url = ''u/tile/entries/000.p/1'' then Inr (200, [0, 1, 5]) else Inr (404, []))"

definition sample_follower :: Follower where
  "sample_follower = \<lparr>fup = sample_up, ffs = \<lparr>files = (\<lambda>_. None), put_faults = [], get_faults = (\<lambda>_. False)\<rparr>,
     fsize = 0, froot = mk_Hash [], fnote = [], fhashes = [], fhalted = False\<rparr>"

lemma sample_poll:
  "map_option (\<lambda>f. (fsize f, froot f)) (poll (ref_tlog mk_Hash) sample_mldsa sample_upstream sample_follower) = Some (1, sample_root)"
  by code_simp

lemma sample_new: "NewFollower 1 sample_up (ffs sample_follower) = Inr sample_follower"
  by (simp add: NewFollower_def follower_loadFromDisk_def sample_follower_def sample_up_def Exists_def Get_def
      ErrNotExist_def errors_Is_def)

lemma sample_polls: "\<exists>f. polls (ref_tlog mk_Hash) sample_mldsa sample_follower f \<and> fsize f = 1 \<and> froot f = sample_root"
  using sample_poll polls.poll [OF polls.none, of "ref_tlog mk_Hash" sample_mldsa sample_upstream sample_follower] by auto

lemma sample_fetch: "httpGet sample_upstream (TileURL sample_up @ ''/checkpoint'') = Inr (sample_checkpoint 1 sample_root)"
  by code_simp

lemma sample_parse:
  "mirror_parseSignedNote (string_of (sample_checkpoint 1 sample_root)) (OIDName (UpCosignerID sample_up)) = Inr (1, sample_root, [9])"
  by code_simp

lemma sample_msg:
  "\<exists>msg. MarshalSignatureInput (UpCosignerID sample_up)
     \<lparr>SubLogID = UpLogID sample_up, SubStart = 0, SubEnd = 1, SubHash = sample_root\<rparr> = Inr msg"
  by (simp add: MarshalSignatureInput_eq sample_up_def OIDName_def OIDNamePrefix_def TrustAnchorOIDBase_def)

section \<open>Properties\<close>

text \<open>
  C8: what the follower holds is always an authenticated copy of the upstream log that only grows. After
  any number of polls of any upstream, starting from any store, the stored hashes are those of a list of
  entries of the current size, and the root is the Merkle tree hash of that list, signed by the CA's
  cosigner. After any further polls the list has only been extended at its end.
\<close>

theorem follower_append_only:
  assumes "tlog_laws lib sha256" "NewFollower i u fs = Inr f0" "polls lib mlib f0 f" "polls lib mlib f f'"
  shows "\<exists>es es'. follower_inv lib mlib sha256 es f \<and> follower_inv lib mlib sha256 (es @ es') f'"
  using tlog_laws.polls_inv [OF assms(1,3) tlog_laws.new_follower_inv [OF assms(1,2)]]
    tlog_laws.polls_inv [OF assms(1,4)] by fastforce

theorem follower_append_only_witness:
  "\<exists>f es. fsize f = 1 \<and> follower_inv (ref_tlog mk_Hash) sample_mldsa mk_Hash es f"
proof -
  obtain f where f: "polls (ref_tlog mk_Hash) sample_mldsa sample_follower f" "fsize f = 1" using sample_polls by blast
  from follower_append_only [OF ref.tlog_laws_axioms sample_new f(1) polls.none] f(2) show ?thesis by blast
qed

text \<open>
  C26: a detected violation stops the follower for good. A checkpoint whose CA signature does not verify,
  and a signed one that is smaller than the local log, halt the follower; the log it holds is unchanged,
  no later poll changes anything, and when the store works, a follower restarted on it is halted too.
\<close>

theorem follower_halts:
  assumes "httpGet http (TileURL (fup f) @ ''/checkpoint'') = Inr cp"
    and "mirror_parseSignedNote (string_of cp) (OIDName (UpCosignerID (fup f))) = Inr (sz, rt, sig)"
    and "MarshalSignatureInput (UpCosignerID (fup f))
      \<lparr>SubLogID = UpLogID (fup f), SubStart = 0, SubEnd = sz, SubHash = rt\<rparr> = Inr msg"
    and "sz < fsize f \<or> isl (VerifyMTCSignature mlib (ca_key (fup f)) \<lparr>CosignerID = UpCosignerID (fup f), Signature = sig\<rparr> msg)"
    and "\<not> fhalted f" "put_faults (ffs f) = []" "\<not> get_faults (ffs f) stateHaltedFile"
  shows "\<exists>e f'. advance lib mlib http f = Some (Inl e, f') \<and> fhalted f' \<and> same_log f f' \<and>
    (\<forall>f''. polls lib mlib f' f'' \<longrightarrow> f'' = f') \<and> (\<forall>i u g. NewFollower i u (ffs f') = Inr g \<longrightarrow> fhalted g)"
proof -
  obtain e m where e: "advance lib mlib http f = Some (haltf f m)" "fst (haltf f m) = Inl e"
    using assms(1-4) haltf_state(3)
    by (cases "VerifyMTCSignature mlib (ca_key (fup f)) \<lparr>CosignerID = UpCosignerID (fup f), Signature = sig\<rparr> msg")
      (fastforce simp: advance_def Let_def)+
  let ?f = "snd (haltf f m)"
  have "files (ffs ?f) stateHaltedFile \<noteq> None" "\<not> get_faults (ffs ?f) stateHaltedFile"
    using assms(6,7) by (simp_all add: haltf_def Put_def next_fault_def)
  then show ?thesis
    using e haltf_state polls_halted halted_restart by (metis prod.collapse)
qed

theorem follower_halts_witness:
  "\<exists>e f'. advance (ref_tlog mk_Hash) sample_mldsa sample_upstream (sample_follower\<lparr>fsize := 2\<rparr>) = Some (Inl e, f') \<and> fhalted f'"
proof -
  obtain msg where msg: "MarshalSignatureInput (UpCosignerID sample_up)
     \<lparr>SubLogID = UpLogID sample_up, SubStart = 0, SubEnd = 1, SubHash = sample_root\<rparr> = Inr msg" using sample_msg ..
  have u: "fup (sample_follower\<lparr>fsize := 2\<rparr>) = sample_up" by (simp add: sample_follower_def)
  from follower_halts [of sample_upstream "sample_follower\<lparr>fsize := 2\<rparr>" "sample_checkpoint 1 sample_root" 1 sample_root "[9]" msg
      sample_mldsa "ref_tlog mk_Hash", unfolded u, OF sample_fetch sample_parse msg]
  show ?thesis by (auto simp: sample_follower_def)
qed

text \<open>
  a fork of the same size goes unnoticed. When the upstream serves a checkpoint of the local size,
  signed by the CA, with another root, the follower neither halts nor keeps its note: it goes on serving
  its own root together with a checkpoint note for the other one.
\<close>

theorem follower_equivocation:
  assumes "httpGet http (TileURL (fup f) @ ''/checkpoint'') = Inr cp"
    and "mirror_parseSignedNote (string_of cp) (OIDName (UpCosignerID (fup f))) = Inr (fsize f, rt, sig)" "rt \<noteq> froot f"
    and "MarshalSignatureInput (UpCosignerID (fup f))
      \<lparr>SubLogID = UpLogID (fup f), SubStart = 0, SubEnd = fsize f, SubHash = rt\<rparr> = Inr msg"
    and "VerifyMTCSignature mlib (ca_key (fup f)) \<lparr>CosignerID = UpCosignerID (fup f), Signature = sig\<rparr> msg = Inr ()"
  shows "\<exists>r f'. advance lib mlib http f = Some (r, f') \<and> fhalted f' = fhalted f \<and>
    Current f' = (fsize f, froot f, cp) \<and>
    mirror_parseSignedNote (string_of (snd (snd (Current f')))) (OIDName (UpCosignerID (fup f'))) = Inr (fsize f, rt, sig)"
  using assms by (auto simp: advance_def Current_def Let_def split: prod.splits)

theorem follower_equivocation_witness:
  "\<exists>r f'. advance (ref_tlog mk_Hash) sample_mldsa sample_upstream (sample_follower\<lparr>fsize := 1\<rparr>) = Some (r, f') \<and>
     \<not> fhalted f' \<and> froot f' = mk_Hash [] \<and>
     mirror_parseSignedNote (string_of (fnote f')) (OIDName ''2'') = Inr (1, sample_root, [9]) \<and> sample_root \<noteq> mk_Hash []"
proof -
  let ?f = "sample_follower\<lparr>fsize := 1\<rparr>"
  obtain msg where msg: "MarshalSignatureInput (UpCosignerID sample_up)
     \<lparr>SubLogID = UpLogID sample_up, SubStart = 0, SubEnd = 1, SubHash = sample_root\<rparr> = Inr msg" using sample_msg ..
  have u: "fup ?f = sample_up" "fsize ?f = 1" "froot ?f = mk_Hash []" by (simp_all add: sample_follower_def)
  have n: "sample_root \<noteq> mk_Hash []" by code_simp
  have v: "VerifyMTCSignature sample_mldsa (ca_key sample_up) \<lparr>CosignerID = UpCosignerID sample_up, Signature = [9]\<rparr> msg = Inr ()"
    by (simp add: VerifyMTCSignature_def verifyMLDSA_def sample_mldsa_def ca_key_def)
  from follower_equivocation [of sample_upstream ?f "sample_checkpoint 1 sample_root" sample_root "[9]" msg
      sample_mldsa "ref_tlog mk_Hash", unfolded u, OF sample_fetch sample_parse n msg v]
  show ?thesis using n sample_parse by (auto simp: sample_follower_def Current_def sample_up_def)
qed

text \<open>
  A restarted follower has forgotten its log: unless it is halted it starts at size 0, so that the check
  against a smaller upstream cannot fire.
\<close>

lemma follower_restart_forgets: "NewFollower i u fs = Inr f \<Longrightarrow> fsize f = 0 \<and> fhashes f = []"
  by (auto simp: NewFollower_def follower_loadFromDisk_def rbind_eq_Inr split: if_splits sum.splits)

end
