(* ===== verification/Merkle_Consistency.thy ===== *)
theory Merkle_Consistency
  imports Merkle
begin

text \<open>
  Reference theory of subtree consistency proofs, over natural numbers and an arbitrary node
  function: the evaluation loop of section 4.4.3 of the draft as \<open>cons_path\<close>, whose root part is
  the inclusion loop \<open>eval_path\<close>; the tree of level-\<open>j\<close> nodes (\<open>level\<close>), whose root is the root of
  the tree; and the run of the loop along the audit path of the last chunk of a valid subtree,
  which computes the subtree hash and the root.
\<close>

section \<open>The evaluation loop\<close>

function strip3 :: "nat \<Rightarrow> nat \<Rightarrow> nat \<Rightarrow> nat \<times> nat \<times> nat" where
  "strip3 fn sn tn =
     (if even sn \<and> tn \<noteq> 0 then strip3 (fn div 2) (sn div 2) (tn div 2) else (fn, sn, tn))"
  by pat_completeness auto
termination
  by (relation "measure (\<lambda>(fn, sn, tn). tn)") auto

declare strip3.simps [simp del]

fun cons_path ::
  "('h \<Rightarrow> 'h \<Rightarrow> 'h) \<Rightarrow> nat \<Rightarrow> nat \<Rightarrow> nat \<Rightarrow> 'h \<Rightarrow> 'h \<Rightarrow> 'h list \<Rightarrow> ('h \<times> 'h) option" where
  "cons_path node fn sn tn fr sr [] = (if tn = 0 then Some (fr, sr) else None)"
| "cons_path node fn sn tn fr sr (c # ps) =
     (if tn = 0 then None
      else if odd sn \<or> sn = tn then
        (case strip3 fn sn tn of (fn', sn', tn') \<Rightarrow>
           cons_path node (fn' div 2) (sn' div 2) (tn' div 2)
             (if fn < sn then node c fr else fr) (node c sr) ps)
      else cons_path node (fn div 2) (sn div 2) (tn div 2) fr (node sr c) ps)"

lemma strip3_strip: "snd (strip3 fn sn tn) = strip sn tn"
  by (induction fn sn tn rule: strip3.induct) (subst strip3.simps, subst strip.simps, simp)

lemma strip3_odd [simp]: "odd sn \<Longrightarrow> strip3 fn sn tn = (fn, sn, tn)"
  by (subst strip3.simps) simp

lemma strip3_power: "odd q \<Longrightarrow> strip3 g (q * 2 ^ e) (q * 2 ^ e) = (g div 2 ^ e, q, q)"
proof (induction e arbitrary: g)
  case 0
  then show ?case by simp
next
  case (Suc e)
  then have "q \<noteq> 0" by (metis even_zero)
  then have "strip3 g (q * 2 ^ Suc e) (q * 2 ^ Suc e) = strip3 (g div 2) (q * 2 ^ e) (q * 2 ^ e)"
    by (subst strip3.simps) simp
  with Suc show ?case by (simp add: div_mult2_eq)
qed

text \<open>The root part of the loop is the inclusion loop.\<close>

lemma cons_path_root:
  "map_option snd (cons_path node fn sn tn fr sr ps) = eval_path node sn tn sr ps"
proof (induction ps arbitrary: fn sn tn fr sr)
  case Nil
  then show ?case by simp
next
  case (Cons c ps)
  obtain fn' sn' tn' where s3: "strip3 fn sn tn = (fn', sn', tn')" by (metis prod_cases3)
  then have "strip sn tn = (sn', tn')" using strip3_strip [of fn sn tn] by simp
  with Cons s3 show ?case by (simp del: strip3_odd strip_odd)
qed

text \<open>Once \<open>fn\<close> and \<open>sn\<close> agree, the subtree part does not change any more.\<close>

lemma strip3_eq: "strip3 sn sn tn = (fst (strip sn tn), strip sn tn)"
proof (induction sn tn rule: strip.induct)
  case (1 fn sn)
  then show ?case by (subst strip3.simps, subst (1 2) strip.simps) simp
qed

lemma cons_path_eq:
  "cons_path node sn sn tn fr sr ps = map_option (Pair fr) (eval_path node sn tn sr ps)"
  by (induction ps arbitrary: sn tn sr) (simp_all add: strip3_eq case_prod_beta del: strip3_odd strip_odd)

lemma cons_path_less:
  assumes "sn < tn"
  shows "cons_path node fn sn tn fr sr (c # ps) =
    cons_path node (fn div 2) (sn div 2) (tn div 2) (if odd sn \<and> fn < sn then node c fr else fr)
      (if odd sn then node c sr else node sr c) ps"
  using assms by auto

lemma cons_path_edge:
  assumes "odd q" "g < q * 2 ^ e"
  shows "cons_path node g (q * 2 ^ e) (q * 2 ^ e) fr sr (c # ps) =
    cons_path node (g div 2 ^ Suc e) (q div 2) (q div 2) (node c fr) (node c sr) ps"
proof -
  from assms(1) have "q \<noteq> 0" by (metis even_zero)
  then show ?thesis using assms by (simp add: strip3_power div_mult2_eq mult.commute [of 2])
qed

section \<open>Running along an audit path\<close>

lemma mth_snoc_power:
  assumes "2 ^ m \<le> i" "i < 2 ^ Suc m"
  shows "mth node d lo (Suc i) = node (mth node d lo (2 ^ m)) (mth node d (lo + 2 ^ m) (Suc (i - 2 ^ m)))"
proof -
  have k: "lp2 (Suc i) = 2 ^ m" by (rule lp2_unique) (use assms in simp_all)
  have "1 < Suc i" using assms(1) by (metis Suc_lessI le_zero_eq less_Suc_eq_0_disj nat.distinct(1) not_less power_not_zero zero_neq_numeral One_nat_def zero_less_Suc)
  from mth_split [OF this, of node d lo] show ?thesis
    unfolding k using assms(1) by (simp add: Suc_diff_le)
qed

text \<open>
  Inside a complete block of \<open>2 ^ m\<close> leaves, started left of the block: the loop leaves the block
  with the hash of the leaves up to \<open>i\<close> in the subtree part.
\<close>

lemma cons_path_complete:
  assumes "q < p" "i < 2 ^ m" "s < 2 ^ m" "g div 2 ^ m < q"
  shows "cons_path node g (q * 2 ^ m + i) (p * 2 ^ m + s) (d (lo + i)) (d (lo + i))
      (audit node d lo (2 ^ m) i @ qs)
    = cons_path node (g div 2 ^ m) q p (mth node d lo (Suc i)) (mth node d lo (2 ^ m)) qs"
  using assms
proof (induction m arbitrary: q p i s lo qs)
  case 0
  then show ?case by simp
next
  case (Suc m)
  have big: "(1::nat) < 2 ^ Suc m" by (rule one_less_power) simp_all
  have halves: "(2::nat) ^ Suc m - 2 ^ m = 2 ^ m" by simp
  define p' s' where "p' = 2 * p + s div 2 ^ m" and "s' = s mod 2 ^ m"
  have S: "p * 2 ^ Suc m + s = p' * 2 ^ m + s'"
    by (simp add: p'_def s'_def algebra_simps)
  have s': "s' < 2 ^ m" by (simp add: s'_def)
  have "s div 2 ^ m < 2" using Suc.prems(3) by (simp add: less_mult_imp_div_less)
  then have p2: "p' div 2 = p" by (simp add: p'_def)
  have g2: "g div 2 ^ m div 2 = g div 2 ^ Suc m" by (simp add: div_mult2_eq mult.commute [of 2])
  have gq: "g div 2 ^ m < 2 * q" using Suc.prems(4) g2 by linarith
  show ?case
  proof (cases "i < 2 ^ m")
    case True
    have I: "q * 2 ^ Suc m + i = (2 * q) * 2 ^ m + i" by simp
    have lt: "2 * q < p'" using Suc.prems(1) by (simp add: p'_def)
    have A: "audit node d lo (2 ^ Suc m) i @ qs =
        audit node d lo (2 ^ m) i @ (mth node d (lo + 2 ^ m) (2 ^ m) # qs)"
      using audit_left [OF big, of i node d lo] True unfolding lp2_power_Suc halves by simp
    show ?thesis
      unfolding S I A Suc.IH [OF lt True s' gq] cons_path_less [OF lt]
      by (simp add: p2 g2 mth_power_Suc [unfolded power_Suc])
  next
    case False
    then have i': "i - 2 ^ m < 2 ^ m" using Suc.prems(2) by simp
    have I: "q * 2 ^ Suc m + i = (2 * q + 1) * 2 ^ m + (i - 2 ^ m)"
      using False by (simp add: algebra_simps)
    have lt: "2 * q + 1 < p'" using Suc.prems(1) by (simp add: p'_def)
    have leaf: "d (lo + i) = d (lo + 2 ^ m + (i - 2 ^ m))" using False by simp
    have A: "audit node d lo (2 ^ Suc m) i @ qs =
        audit node d (lo + 2 ^ m) (2 ^ m) (i - 2 ^ m) @ (mth node d lo (2 ^ m) # qs)"
      using audit_right [OF big, of i node d lo] False unfolding lp2_power_Suc halves by simp
    have gq': "g div 2 ^ m < 2 * q + 1" using gq by simp
    have fr: "node (mth node d lo (2 ^ m)) (mth node d (lo + 2 ^ m) (Suc (i - 2 ^ m)))
        = mth node d lo (Suc i)"
      using mth_snoc_power [of m i node d lo] False Suc.prems(2) by simp
    show ?thesis
      unfolding S I leaf A Suc.IH [OF lt i' s' gq'] cons_path_less [OF lt]
      using gq' by (simp add: p2 g2 fr mth_power_Suc [unfolded power_Suc])
  qed
qed

text \<open>The same at the right edge of the tree, for a block of \<open>n \<le> 2 ^ m\<close> leaves.\<close>

lemma cons_path_prefix:
  assumes "0 < n" "n \<le> 2 ^ m" "i < n" "g div 2 ^ m < q"
  shows "\<exists>t\<le>m. cons_path node g (q * 2 ^ m + i) (q * 2 ^ m + (n - 1)) (d (lo + i)) (d (lo + i))
      (audit node d lo n i @ qs)
    = cons_path node (g div 2 ^ t) (q * 2 ^ (m - t)) (q * 2 ^ (m - t)) (mth node d lo (Suc i))
        (mth node d lo n) qs"
  using assms
proof (induction n arbitrary: lo i q m qs rule: less_induct)
  case (less n)
  show ?case
  proof (cases "n = 1")
    case True
    with less.prems show ?thesis by (intro exI [of _ 0]) simp
  next
    case False
    with less.prems have n: "1 < n" by simp
    obtain j where j: "lp2 n = 2 ^ j" using lp2_power by blast
    have jn: "2 ^ j < n" and nj: "n \<le> 2 * 2 ^ j"
      using lp2_less [OF n] lp2_double [OF n] j by simp_all
    from jn less.prems(2) have "(2::nat) ^ j < 2 ^ m" by (rule less_le_trans)
    then have jm: "j < m" by (rule power_less_imp_less_exp [rotated]) simp
    define Q where "Q = q * 2 ^ (m - Suc j)"
    have pow: "(2::nat) ^ m = 2 ^ Suc j * 2 ^ (m - Suc j)" unfolding power_add [symmetric] using jm by simp
    have q: "q * 2 ^ m = (2 * Q) * 2 ^ j" by (simp add: Q_def pow)
    have "g < Q * 2 ^ Suc j"
      using less.prems(4) by (simp add: div_less_iff_less_mult Q_def pow mult_ac)
    then have gQ: "g div 2 ^ j < 2 * Q" by (simp add: div_less_iff_less_mult)
    have g2: "g div 2 ^ j div 2 = g div 2 ^ Suc j" by (simp add: div_mult2_eq mult.commute [of 2])
    show ?thesis
    proof (cases "i < 2 ^ j")
      case True
      have S: "q * 2 ^ m + (n - 1) = (2 * Q + 1) * 2 ^ j + (n - 1 - 2 ^ j)"
        using jn by (simp add: q)
      have s: "n - 1 - 2 ^ j < 2 ^ j" using nj jn by linarith
      have A: "audit node d lo n i @ qs =
          audit node d lo (2 ^ j) i @ (mth node d (lo + 2 ^ j) (n - 2 ^ j) # qs)"
        using audit_left [OF n, of i node d lo] True unfolding j by simp
      have lt: "2 * Q < 2 * Q + 1" by simp
      have "cons_path node g (q * 2 ^ m + i) (q * 2 ^ m + (n - 1)) (d (lo + i)) (d (lo + i))
          (audit node d lo n i @ qs)
        = cons_path node (g div 2 ^ Suc j) Q Q (mth node d lo (Suc i)) (mth node d lo n) qs"
        unfolding S A unfolding q cons_path_complete [OF lt True s gQ] cons_path_less [OF lt]
        by (simp add: g2 [simplified] mth_split [OF n] j)
      then show ?thesis using jm by (intro exI [of _ "Suc j"]) (simp add: Q_def)
    next
      case False
      define n' i' where "n' = n - 2 ^ j" and "i' = i - 2 ^ j"
      have n': "0 < n'" "n' \<le> 2 ^ j" "n' < n" "i' < n'"
        using jn nj False less.prems(3) by (auto simp: n'_def i'_def)
      have I: "q * 2 ^ m + i = (2 * Q + 1) * 2 ^ j + i'"
        and S: "q * 2 ^ m + (n - 1) = (2 * Q + 1) * 2 ^ j + (n' - 1)"
        using False jn by (simp_all add: q n'_def i'_def)
      have leaf: "lo + i = lo + 2 ^ j + i'" using False by (simp add: i'_def)
      have gQ': "g div 2 ^ j < 2 * Q + 1" using gQ by simp
      have A: "audit node d lo n i @ qs =
          audit node d (lo + 2 ^ j) n' i' @ (mth node d lo (2 ^ j) # qs)"
        using audit_right [OF n, of i node d lo] False unfolding j by (simp add: n'_def i'_def)
      obtain t where t: "t \<le> j" and ev:
        "cons_path node g ((2 * Q + 1) * 2 ^ j + i') ((2 * Q + 1) * 2 ^ j + (n' - 1))
           (d (lo + 2 ^ j + i')) (d (lo + 2 ^ j + i'))
           (audit node d (lo + 2 ^ j) n' i' @ (mth node d lo (2 ^ j) # qs))
         = cons_path node (g div 2 ^ t) ((2 * Q + 1) * 2 ^ (j - t)) ((2 * Q + 1) * 2 ^ (j - t))
             (mth node d (lo + 2 ^ j) (Suc i')) (mth node d (lo + 2 ^ j) n')
             (mth node d lo (2 ^ j) # qs)"
        using less.IH [OF n'(3) n'(1,2,4) gQ'] by blast
      have "g < (2 * Q + 1) * 2 ^ j" using gQ' by (simp add: div_less_iff_less_mult)
      moreover have "(2::nat) ^ j = 2 ^ (j - t) * 2 ^ t" using t by (simp flip: power_add)
      ultimately have gt: "g div 2 ^ t < (2 * Q + 1) * 2 ^ (j - t)"
        by (simp only: div_less_iff_less_mult mult.assoc zero_less_power zero_less_numeral)
      have gs: "g div 2 ^ t div 2 ^ Suc (j - t) = g div 2 ^ Suc j"
        using t by (simp add: div_mult2_eq [symmetric] flip: power_add power_Suc)
      have fr: "node (mth node d lo (2 ^ j)) (mth node d (lo + 2 ^ j) (Suc i')) = mth node d lo (Suc i)"
        using mth_snoc_power [of j i node d lo] False less.prems(3) nj by (simp add: i'_def)
      have odd: "odd (2 * Q + 1)" by simp
      have "cons_path node g (q * 2 ^ m + i) (q * 2 ^ m + (n - 1)) (d (lo + i)) (d (lo + i))
          (audit node d lo n i @ qs)
        = cons_path node (g div 2 ^ Suc j) Q Q (mth node d lo (Suc i)) (mth node d lo n) qs"
        unfolding I S leaf A ev cons_path_edge [OF odd gt] gs fr
        by (simp add: mth_split [OF n] j n'_def)
      then show ?thesis using jm by (intro exI [of _ "Suc j"]) (simp add: Q_def)
    qed
  qed
qed

section \<open>The tree of level-j nodes\<close>

text \<open>
  \<open>level\<close> gives the nodes of level \<open>j\<close> of the tree over the first \<open>n\<close> leaves, the last one truncated.
\<close>

definition level :: "('h \<Rightarrow> 'h \<Rightarrow> 'h) \<Rightarrow> (nat \<Rightarrow> 'h) \<Rightarrow> nat \<Rightarrow> nat \<Rightarrow> nat \<Rightarrow> 'h" where
  "level node d n j i = mth node d (i * 2 ^ j) (min (2 ^ j) (n - i * 2 ^ j))"

lemma lp2_level:
  assumes "2 ^ j < w"
  shows "\<exists>x. lp2 w = 2 ^ x * 2 ^ j \<and> lp2 (Suc ((w - 1) div 2 ^ j)) = 2 ^ x \<and>
    (w - 2 ^ x * 2 ^ j - 1) div 2 ^ j = (w - 1) div 2 ^ j - 2 ^ x \<and>
    2 ^ x \<le> (w - 1) div 2 ^ j"
proof -
  have w: "1 < w" using assms by (metis le_less_trans one_le_numeral one_le_power)
  obtain y where y: "lp2 w = 2 ^ y" using lp2_power by blast
  have yw: "2 ^ y < w" "w \<le> 2 * 2 ^ y" using lp2_less [OF w] lp2_double [OF w] y by simp_all
  have "(2::nat) ^ j < 2 ^ Suc y" using assms yw(2) by simp
  then have "j < Suc y" by (rule power_less_imp_less_exp [rotated]) simp
  then obtain x where x: "y = x + j" by (metis less_Suc_eq_le le_Suc_ex add.commute)
  have pow: "(2::nat) ^ y = 2 ^ x * 2 ^ j" by (simp add: x power_add)
  have ge: "2 ^ x \<le> (w - 1) div 2 ^ j"
    using yw(1) pow by (simp add: less_eq_div_iff_mult_less_eq)
  have "(w - 1) div 2 ^ j < 2 * 2 ^ x"
    using yw(2) pow w by (simp add: div_less_iff_less_mult mult.assoc)
  then have "lp2 (Suc ((w - 1) div 2 ^ j)) = 2 ^ x"
    using ge by (intro lp2_unique) simp_all
  moreover have "(w - 2 ^ x * 2 ^ j - 1) div 2 ^ j = (w - 1) div 2 ^ j - 2 ^ x"
  proof -
    have "w - 1 = 2 ^ x * 2 ^ j + (w - 2 ^ x * 2 ^ j - 1)" using yw(1) pow by simp
    then have "(w - 1) div 2 ^ j = 2 ^ x + (w - 2 ^ x * 2 ^ j - 1) div 2 ^ j"
      by (metis add.commute div_mult_self3 power_not_zero zero_neq_numeral)
    then show ?thesis by simp
  qed
  ultimately show ?thesis using ge y pow by auto
qed

text \<open>A range that starts at a level-\<open>j\<close> boundary and ends at one or at the end of the tree.\<close>

definition level_range :: "nat \<Rightarrow> nat \<Rightarrow> nat \<Rightarrow> nat \<Rightarrow> bool" where
  "level_range n j a w \<longleftrightarrow> 0 < w \<and> a * 2 ^ j + w \<le> n \<and> (2 ^ j dvd w \<or> a * 2 ^ j + w = n)"

lemma level_range_split:
  assumes "level_range n j a w" "2 ^ j < w" "lp2 w = 2 ^ x * 2 ^ j"
  shows "level_range n j a (2 ^ x * 2 ^ j)" "level_range n j (a + 2 ^ x) (w - 2 ^ x * 2 ^ j)"
proof -
  have w: "1 < w" using assms(2) by (metis le_less_trans one_le_numeral one_le_power)
  have lt: "2 ^ x * 2 ^ j < w" using lp2_less [OF w] assms(3) by simp
  show "level_range n j a (2 ^ x * 2 ^ j)"
    using assms(1) lt by (auto simp: level_range_def)
  show "level_range n j (a + 2 ^ x) (w - 2 ^ x * 2 ^ j)"
    using assms(1) lt by (auto simp: level_range_def algebra_simps intro: dvd_diff_nat)
qed

lemma level_single:
  assumes "level_range n j a w" "w \<le> 2 ^ j"
  shows "level node d n j a = mth node d (a * 2 ^ j) w" "(w - 1) div 2 ^ j = 0"
proof -
  show "(w - 1) div 2 ^ j = 0" using assms by (auto simp: level_range_def)
  have "min (2 ^ j) (n - a * 2 ^ j) = w"
    using assms by (auto simp: level_range_def dest: dvd_imp_le)
  then show "level node d n j a = mth node d (a * 2 ^ j) w" by (simp add: level_def)
qed

lemma mth_level:
  assumes "level_range n j a w"
  shows "mth node (level node d n j) a (Suc ((w - 1) div 2 ^ j)) = mth node d (a * 2 ^ j) w"
  using assms
proof (induction w arbitrary: a rule: less_induct)
  case (less w)
  show ?case
  proof (cases "w \<le> 2 ^ j")
    case True
    with level_single [OF less.prems True] show ?thesis by simp
  next
    case False
    then have big: "2 ^ j < w" by simp
    then obtain x where x: "lp2 w = 2 ^ x * 2 ^ j" "lp2 (Suc ((w - 1) div 2 ^ j)) = 2 ^ x"
      "(w - 2 ^ x * 2 ^ j - 1) div 2 ^ j = (w - 1) div 2 ^ j - 2 ^ x" "2 ^ x \<le> (w - 1) div 2 ^ j"
      using lp2_level by blast
    note r = level_range_split [OF less.prems big x(1)]
    have w: "1 < w" using big by (metis le_less_trans one_le_numeral one_le_power)
    have lt: "2 ^ x * 2 ^ j < w" using lp2_less [OF w] x(1) by simp
    have w': "1 < Suc ((w - 1) div 2 ^ j)"
      using x(4) by (metis Suc_le_eq less_Suc_eq_le one_le_numeral one_le_power order.trans One_nat_def)
    have "(2 ^ x * 2 ^ j - 1) div 2 ^ j = 2 ^ x - (1::nat)"
      by (rule div_nat_eqI) (simp_all add: diff_mult_distrib2 mult.commute diff_le_mono2)
    then have "mth node (level node d n j) a (2 ^ x) = mth node d (a * 2 ^ j) (2 ^ x * 2 ^ j)"
      using less.IH [OF lt r(1)] by simp
    moreover have "mth node (level node d n j) (a + 2 ^ x) (Suc ((w - 1) div 2 ^ j - 2 ^ x))
        = mth node d ((a + 2 ^ x) * 2 ^ j) (w - 2 ^ x * 2 ^ j)"
      using less.IH [OF _ r(2)] lt x(3) by simp
    ultimately show ?thesis
      unfolding mth_split [OF w] mth_split [OF w'] x(1,2) Suc_diff_le [OF x(4)]
      by (simp add: add_mult_distrib)
  qed
qed

lemma audit_level:
  assumes "level_range n j a w" "i < w"
  shows "audit node d (a * 2 ^ j) w i =
    audit node d ((a + i div 2 ^ j) * 2 ^ j) (min (2 ^ j) (w - i div 2 ^ j * 2 ^ j)) (i mod 2 ^ j)
      @ audit node (level node d n j) a (Suc ((w - 1) div 2 ^ j)) (i div 2 ^ j)"
  using assms
proof (induction w arbitrary: a i rule: less_induct)
  case (less w)
  show ?case
  proof (cases "w \<le> 2 ^ j")
    case True
    with less.prems level_single [OF less.prems(1) True] show ?thesis by simp
  next
    case False
    then have big: "2 ^ j < w" by simp
    then obtain x where x: "lp2 w = 2 ^ x * 2 ^ j" "lp2 (Suc ((w - 1) div 2 ^ j)) = 2 ^ x"
      "(w - 2 ^ x * 2 ^ j - 1) div 2 ^ j = (w - 1) div 2 ^ j - 2 ^ x" "2 ^ x \<le> (w - 1) div 2 ^ j"
      using lp2_level by blast
    note r = level_range_split [OF less.prems(1) big x(1)]
    have w: "1 < w" using big by (metis le_less_trans one_le_numeral one_le_power)
    have lt: "2 ^ x * 2 ^ j < w" using lp2_less [OF w] x(1) by simp
    have w': "1 < Suc ((w - 1) div 2 ^ j)"
      using x(4) by (metis Suc_le_eq less_Suc_eq_le one_le_numeral one_le_power order.trans One_nat_def)
    have full: "Suc ((2 ^ x * 2 ^ j - 1) div 2 ^ j) = (2::nat) ^ x"
    proof -
      have "(2 ^ x * 2 ^ j - 1) div 2 ^ j = 2 ^ x - (1::nat)"
        by (rule div_nat_eqI) (simp_all add: diff_mult_distrib2 mult.commute diff_le_mono2)
      then show ?thesis by simp
    qed
    have mR: "mth node (level node d n j) (a + 2 ^ x) (Suc ((w - 1) div 2 ^ j - 2 ^ x))
        = mth node d ((a + 2 ^ x) * 2 ^ j) (w - 2 ^ x * 2 ^ j)"
      using mth_level [OF r(2)] unfolding x(3) .
    have mL: "mth node (level node d n j) a (2 ^ x) = mth node d (a * 2 ^ j) (2 ^ x * 2 ^ j)"
      using mth_level [OF r(1)] unfolding full .
    show ?thesis
    proof (cases "i < 2 ^ x * 2 ^ j")
      case True
      then have dx: "i div 2 ^ j < 2 ^ x" by (simp add: div_less_iff_less_mult)
      then have "Suc (i div 2 ^ j) * 2 ^ j \<le> 2 ^ x * 2 ^ j" by (intro mult_le_mono1) simp
      then have wd: "min (2 ^ j) (w - i div 2 ^ j * 2 ^ j) = 2 ^ j"
        "min (2 ^ j) (2 ^ x * 2 ^ j - i div 2 ^ j * 2 ^ j) = 2 ^ j"
        using lt by simp_all
      have A: "audit node d (a * 2 ^ j) w i = audit node d (a * 2 ^ j) (2 ^ x * 2 ^ j) i
          @ [mth node d ((a + 2 ^ x) * 2 ^ j) (w - 2 ^ x * 2 ^ j)]"
        using audit_left [OF w, of i node d "a * 2 ^ j"] True unfolding x(1)
        by (simp add: add_mult_distrib)
      have B: "audit node (level node d n j) a (Suc ((w - 1) div 2 ^ j)) (i div 2 ^ j)
          = audit node (level node d n j) a (2 ^ x) (i div 2 ^ j)
          @ [mth node d ((a + 2 ^ x) * 2 ^ j) (w - 2 ^ x * 2 ^ j)]"
        using audit_left [OF w', of "i div 2 ^ j" node "level node d n j" a] dx
        unfolding x(2) Suc_diff_le [OF x(4)] mR .
      show ?thesis unfolding A B using less.IH [OF lt r(1) True] unfolding wd full by simp
    next
      case False
      define i' where "i' = i - 2 ^ x * 2 ^ j"
      have ii: "i = 2 ^ x * 2 ^ j + i'" using False by (simp add: i'_def)
      then have i': "i' < w - 2 ^ x * 2 ^ j" using less.prems(2) by simp
      have dm: "i div 2 ^ j = 2 ^ x + i' div 2 ^ j" "i mod 2 ^ j = i' mod 2 ^ j"
        unfolding ii by simp_all
      have A: "audit node d (a * 2 ^ j) w i
          = audit node d ((a + 2 ^ x) * 2 ^ j) (w - 2 ^ x * 2 ^ j) i'
          @ [mth node d (a * 2 ^ j) (2 ^ x * 2 ^ j)]"
        using audit_right [OF w, of i node d "a * 2 ^ j"] False unfolding x(1)
        by (simp add: add_mult_distrib i'_def)
      have B: "audit node (level node d n j) a (Suc ((w - 1) div 2 ^ j)) (i div 2 ^ j)
          = audit node (level node d n j) (a + 2 ^ x) (Suc ((w - 1) div 2 ^ j - 2 ^ x)) (i' div 2 ^ j)
          @ [mth node d (a * 2 ^ j) (2 ^ x * 2 ^ j)]"
        using audit_right [OF w', of "i div 2 ^ j" node "level node d n j" a]
        unfolding x(2) Suc_diff_le [OF x(4)] mL dm by simp
      have sm: "w - 2 ^ x * 2 ^ j < w" using w by simp
      have I: "a + (2 ^ x + i' div 2 ^ j) = a + 2 ^ x + i' div 2 ^ j"
        "w - (2 ^ x + i' div 2 ^ j) * 2 ^ j = w - 2 ^ x * 2 ^ j - i' div 2 ^ j * 2 ^ j"
        by (simp_all add: add_mult_distrib)
      show ?thesis unfolding A B less.IH [OF sm r(2) i'] x(3) unfolding dm I by simp
    qed
  qed
qed

section \<open>Completeness\<close>

lemma level_range_whole: "0 < n \<Longrightarrow> level_range n j 0 n"
  by (simp add: level_range_def)

lemma eval_level_audit:
  assumes "c \<le> (n - 1) div 2 ^ j" "0 < n"
  shows "eval_path node c ((n - 1) div 2 ^ j) (level node d n j c)
      (audit node (level node d n j) 0 (Suc ((n - 1) div 2 ^ j)) c) = Some (mth node d 0 n)"
  using eval_path_audit [of c "Suc ((n - 1) div 2 ^ j)" node "level node d n j" 0] assms
    mth_level [OF level_range_whole [OF assms(2)], of node d j]
  by simp

text \<open>Started at the last leaf of a valid subtree, the loop computes both hashes.\<close>

lemma cons_path_subtree:
  assumes "valid_range s e" "e \<le> n"
  shows "cons_path node s (e - 1) (n - 1) (d (e - 1)) (d (e - 1)) (audit node d 0 n (e - 1))
    = Some (mth node d s (e - s), mth node d 0 n)"
proof (cases "bit_len (e - s - 1)")
  case 0
  with assms have e: "e - 1 = s" "e - s = Suc 0" "s < n" by (simp_all add: valid_range_def)
  have "eval_path node s (n - 1) (d (0 + s)) (audit node d 0 n s) = Some (mth node d 0 n)"
    using e(3) by (rule eval_path_audit)
  then show ?thesis unfolding e(1,2) by (simp add: cons_path_eq)
next
  case (Suc b)
  define i where "i = e - s - 1"
  have se: "s < e" using assms(1) by (simp add: valid_range_def)
  obtain a where a: "s = a * 2 ^ Suc b" using assms(1) Suc unfolding valid_range_def by (metis dvd_def mult.commute)
  have i: "2 ^ b \<le> i" "i < 2 ^ Suc b"
    using less_bit_len [of i] bit_len_lower [of i] Suc by (cases "i = 0"; simp add: i_def)+
  have ei: "e - 1 = a * 2 ^ Suc b + i" "e - s = Suc i" using se a by (simp_all add: i_def)
  define W where "W = min (2 ^ Suc b) (n - s)"
  have iW: "i < W" "W \<le> 2 ^ Suc b" using i(2) assms(2) ei by (simp_all add: W_def)
  have k: "lp2 W = 2 ^ b" using iW i by (intro lp2_unique) simp_all
  have W1: "1 < W" using iW i by (metis Suc_le_eq le_less_trans less_one linorder_not_le nat_less_le not_less_zero one_le_numeral one_le_power)
  let ?L = "level node d n (Suc b)"
  let ?p = "(n - 1) div 2 ^ Suc b"
  let ?rest = "audit node ?L 0 (Suc ?p) a"
  have n0: "0 < n" using se assms(2) by simp
  have ed: "(e - 1) div 2 ^ Suc b = a" "(e - 1) mod 2 ^ Suc b = i" unfolding ei using i(2) by simp_all
  have ap: "a \<le> ?p" using div_le_mono [of "e - 1" "n - 1" "2 ^ Suc b"] assms(2) ed by simp
  have La: "?L a = mth node d s W" by (simp only: level_def W_def a)
  have path: "audit node d 0 n (e - 1)
      = audit node d (s + 2 ^ b) (W - 2 ^ b) (i - 2 ^ b) @ (mth node d s (2 ^ b) # ?rest)"
    using audit_level [OF level_range_whole [OF n0], of "e - 1" node d "Suc b"]
      audit_right [OF W1, of i node d s] i(1) se assms(2)
    unfolding ed k by (simp add: a W_def)
  have fr: "node (mth node d s (2 ^ b)) (mth node d (s + 2 ^ b) (Suc (i - 2 ^ b))) = mth node d s (Suc i)"
    using mth_snoc_power [OF i, of node d s] by simp
  have sr: "node (mth node d s (2 ^ b)) (mth node d (s + 2 ^ b) (W - 2 ^ b)) = ?L a"
    unfolding La mth_split [OF W1] k ..
  have fin: "cons_path node a a ?p (mth node d s (Suc i)) (?L a) ?rest
      = Some (mth node d s (e - s), mth node d 0 n)"
    unfolding cons_path_eq eval_level_audit [OF ap n0] ei by simp
  have leaf: "d (e - 1) = d (s + 2 ^ b + (i - 2 ^ b))" unfolding ei(1) a using i(1) by simp
  have sn: "e - 1 = (2 * a + 1) * 2 ^ b + (i - 2 ^ b)" unfolding ei(1) using i(1) by simp
  have sb: "s div 2 ^ b = 2 * a" by (simp add: a)
  show ?thesis
  proof (cases "a < ?p")
    case True
    define p' where "p' = (n - 1) div 2 ^ b"
    have p2: "p' div 2 = ?p" by (simp add: p'_def div_mult2_eq mult.commute [of 2])
    with True have lt: "2 * a + 1 < p'" by linarith
    have "Suc a * 2 ^ Suc b \<le> n - 1"
      using True by (metis Suc_leI less_eq_div_iff_mult_less_eq zero_less_numeral zero_less_power)
    then have W: "W - 2 ^ b = 2 ^ b" by (simp add: W_def a)
    have tn: "n - 1 = p' * 2 ^ b + (n - 1) mod 2 ^ b"
      unfolding p'_def by (rule div_mult_mod_eq [symmetric])
    have ib: "i - 2 ^ b < 2 ^ b" using i by simp
    have mb: "(n - 1) mod 2 ^ b < 2 ^ b" by simp
    have gs: "s div 2 ^ b < 2 * a + 1" using sb by simp
    have "cons_path node s (e - 1) (n - 1) (d (e - 1)) (d (e - 1)) (audit node d 0 n (e - 1))
        = cons_path node (2 * a) (2 * a + 1) p' (mth node d (s + 2 ^ b) (Suc (i - 2 ^ b)))
            (mth node d (s + 2 ^ b) (2 ^ b)) (mth node d s (2 ^ b) # ?rest)"
      using cons_path_complete [OF lt ib mb gs, of node d "s + 2 ^ b" "mth node d s (2 ^ b) # ?rest"]
      unfolding path W leaf tn [symmetric] sn [symmetric] sb .
    also have "\<dots> = cons_path node a a ?p (mth node d s (Suc i)) (?L a) ?rest"
      unfolding cons_path_less [OF lt] using fr sr W p2 by simp
    finally show ?thesis unfolding fin .
  next
    case False
    with ap have ap': "a = ?p" by simp
    have "n - 1 < Suc a * 2 ^ Suc b"
      using ap' by (metis lessI div_less_iff_less_mult zero_less_numeral zero_less_power)
    then have "n - s \<le> 2 ^ Suc b" using n0 by (simp add: a)
    then have W: "W = n - s" by (simp add: W_def)
    have tn: "n - 1 = (2 * a + 1) * 2 ^ b + (W - 2 ^ b - 1)"
      using iW(1) i(1) W by (simp add: a)
    have h: "0 < W - 2 ^ b" "W - 2 ^ b \<le> 2 ^ b" "i - 2 ^ b < W - 2 ^ b" "s div 2 ^ b < 2 * a + 1"
      using iW i(1) sb by simp_all
    obtain t where t: "t \<le> b" and ev:
      "cons_path node s (e - 1) (n - 1) (d (e - 1)) (d (e - 1)) (audit node d 0 n (e - 1))
        = cons_path node (s div 2 ^ t) ((2 * a + 1) * 2 ^ (b - t)) ((2 * a + 1) * 2 ^ (b - t))
            (mth node d (s + 2 ^ b) (Suc (i - 2 ^ b))) (mth node d (s + 2 ^ b) (W - 2 ^ b))
            (mth node d s (2 ^ b) # ?rest)"
      using cons_path_prefix [OF h, of node d "s + 2 ^ b" "mth node d s (2 ^ b) # ?rest"]
      unfolding path leaf tn [symmetric] sn [symmetric] by blast
    have pb: "(2::nat) ^ b = 2 ^ (b - t) * 2 ^ t" using t by (simp flip: power_add)
    then have st: "s div 2 ^ t = (2 * a) * 2 ^ (b - t)"
      by (simp add: a mult.assoc [symmetric])
    have odd: "odd (2 * a + 1)" by simp
    have less: "s div 2 ^ t < (2 * a + 1) * 2 ^ (b - t)" unfolding st by simp
    have "s div 2 ^ t div 2 ^ Suc (b - t) = a" unfolding st by simp
    then show ?thesis
      unfolding ev cons_path_edge [OF odd less] fr sr using fin ap' by simp
  qed
qed

section \<open>The chunk a proof starts from\<close>

text \<open>
  The level of the node a proof for \<open>[s, e)\<close> in a tree of \<open>n\<close> leaves starts from: the level of the
  subtree itself when it reaches the end of the tree or is complete, otherwise the level of the
  largest complete subtree that ends at \<open>e\<close>.
\<close>

definition chunk :: "nat \<Rightarrow> nat \<Rightarrow> nat \<Rightarrow> nat \<Rightarrow> bool" where
  "chunk n s e j \<longleftrightarrow> valid_range s e \<and> e \<le> n \<and> j \<le> bit_len (e - s - 1) \<and>
     (if e = n then j = bit_len (e - s - 1)
      else 2 ^ j dvd e \<and> (j = bit_len (e - s - 1) \<or> even ((e - 1) div 2 ^ j)))"

lemma valid_range_top:
  assumes "valid_range s e"
  shows "e - s \<le> 2 ^ bit_len (e - s - 1)"
  using assms less_bit_len [of "e - s - 1"] by (simp add: valid_range_def)

lemma valid_range_shift_eq:
  assumes "valid_range s e"
  shows "s div 2 ^ l = (e - 1) div 2 ^ l \<longleftrightarrow> bit_len (e - s - 1) \<le> l"
proof -
  define B where "B = bit_len (e - s - 1)"
  have se: "s < e" "2 ^ B dvd s" using assms by (simp_all add: valid_range_def B_def)
  have e: "e - 1 = s + (e - s - 1)" using se by simp
  show ?thesis
  proof (cases "B \<le> l")
    case True
    have lt: "(e - s - 1) div 2 ^ B = 0" using less_bit_len [of "e - s - 1"] by (simp add: B_def)
    obtain a where a: "s = a * 2 ^ B" using se(2) by (metis dvd_def mult.commute)
    have "(e - 1) div 2 ^ B = s div 2 ^ B" unfolding e using lt by (simp add: a)
    moreover have "(2::nat) ^ l = 2 ^ B * 2 ^ (l - B)" using True by (simp flip: power_add)
    ultimately show ?thesis using True by (simp add: div_mult2_eq B_def)
  next
    case False
    then have "2 ^ l dvd s" using se(2) by (meson dvd_trans le_imp_power_dvd nat_le_linear)
    moreover have "2 ^ l \<le> e - s - 1" using False bit_len_le_iff [of "e - s - 1" l] by (simp add: B_def)
    ultimately have "s div 2 ^ l < (e - 1) div 2 ^ l"
      unfolding e by (subst div_plus_div_distrib_dvd_left) (simp_all add: div_greater_zero_iff)
    with False show ?thesis by (simp add: B_def)
  qed
qed

lemma div_pred:
  assumes "0 < e" "2 ^ j dvd (e::nat)"
  shows "Suc ((e - 1) div 2 ^ j) * 2 ^ j = e"
proof -
  obtain c where c: "e = 2 ^ j * c" using assms(2) by (rule dvdE)
  then have "0 < c" using assms(1) by simp
  then obtain c' where c': "c = Suc c'" by (cases c) simp_all
  have "(e - 1) div 2 ^ j = c'"
  proof (rule div_nat_eqI)
    have "(1::nat) \<le> 2 ^ j" by simp
    then show "2 ^ j * c' \<le> e - 1" "e - 1 < 2 ^ j * Suc c'"
      unfolding c c' mult_Suc_right by linarith+
  qed
  with c' c show ?thesis by (simp add: mult.commute)
qed

text \<open>The subtree as a node: a proof that starts at its own level.\<close>

lemma chunk_whole:
  assumes "chunk n s e (bit_len (e - s - 1))"
  shows "level node d n (bit_len (e - s - 1)) ((e - 1) div 2 ^ bit_len (e - s - 1)) = mth node d s (e - s)"
proof -
  define B where "B = bit_len (e - s - 1)"
  have v: "valid_range s e" and en: "e \<le> n" and c: "e = n \<or> 2 ^ B dvd e"
    using assms by (auto simp: chunk_def B_def split: if_splits)
  have se: "s < e" "2 ^ B dvd s" using v by (simp_all add: valid_range_def B_def)
  have "(e - 1) div 2 ^ B = s div 2 ^ B" using valid_range_shift_eq [OF v, of B] by (simp add: B_def)
  then have s: "(e - 1) div 2 ^ B * 2 ^ B = s" using se(2) by simp
  have top: "e - s \<le> 2 ^ B" using valid_range_top [OF v] by (simp add: B_def)
  have "min (2 ^ B) (n - s) = e - s"
  proof (cases "e = n")
    case False
    with c se have "2 ^ B dvd e - s" by (simp add: dvd_diff_nat)
    with se(1) have "2 ^ B \<le> e - s" by (intro dvd_imp_le) simp_all
    with top en show ?thesis by simp
  qed (use top in simp)
  then show ?thesis unfolding B_def [symmetric] level_def s by simp
qed

lemma cons_path_chunk:
  assumes "chunk n s e j"
  shows "cons_path node (s div 2 ^ j) ((e - 1) div 2 ^ j) ((n - 1) div 2 ^ j)
      (level node d n j ((e - 1) div 2 ^ j)) (level node d n j ((e - 1) div 2 ^ j))
      (audit node (level node d n j) 0 (Suc ((n - 1) div 2 ^ j)) ((e - 1) div 2 ^ j))
    = Some (mth node d s (e - s), mth node d 0 n)"
proof -
  define B where "B = bit_len (e - s - 1)"
  have v: "valid_range s e" and en: "e \<le> n" and jB: "j \<le> B"
    using assms by (simp_all add: chunk_def B_def)
  have se: "s < e" "2 ^ B dvd s" using v by (simp_all add: valid_range_def B_def)
  have n0: "0 < n" using se(1) en by simp
  have cn: "(e - 1) div 2 ^ j \<le> (n - 1) div 2 ^ j" using en by (intro div_le_mono) simp
  show ?thesis
  proof (cases "j = B")
    case True
    then have "s div 2 ^ j = (e - 1) div 2 ^ j"
      using valid_range_shift_eq [OF v, of j] by (simp add: B_def)
    moreover have "level node d n j ((e - 1) div 2 ^ j) = mth node d s (e - s)"
      using chunk_whole [of n s e node d] assms True by (simp only: B_def)
    ultimately show ?thesis
      by (simp only: cons_path_eq) (metis eval_level_audit [OF cn n0] option.map(2))
  next
    case False
    with assms have j: "2 ^ j dvd e" by (auto simp: chunk_def B_def split: if_splits)
    have sj: "2 ^ j dvd s" using se(2) jB by (meson dvd_trans le_imp_power_dvd)
    define c where "c = (e - 1) div 2 ^ j"
    define a where "a = s div 2 ^ j"
    have s: "s = a * 2 ^ j" using sj by (simp add: a_def)
    have e: "Suc c * 2 ^ j = e" unfolding c_def using div_pred [OF _ j] se(1) by simp
    have ac: "a < Suc c" using se(1) unfolding s e [symmetric] mult_less_cancel2 by simp
    have w: "e - s = (Suc c - a) * 2 ^ j" unfolding s e [symmetric] by (simp add: diff_mult_distrib)
    have wd: "(e - s - 1) div 2 ^ j = c - a"
      using div_pred [of "e - s" j] w se(1) ac by (simp add: Suc_diff_le)
    have "bit_len (Suc c - a - 1) \<le> B - j"
      unfolding bit_len_le_iff
    proof -
      have "e - s - 1 < 2 ^ B" unfolding B_def by (rule less_bit_len)
      also have "(2::nat) ^ B = 2 ^ (B - j) * 2 ^ j" using jB by (simp flip: power_add)
      finally have "(e - s - 1) div 2 ^ j < 2 ^ (B - j)" by (simp add: div_less_iff_less_mult)
      then show "Suc c - a - 1 < 2 ^ (B - j)" unfolding wd by simp
    qed
    moreover have "2 ^ (B - j) dvd a"
    proof -
      have "(2::nat) ^ B = 2 ^ (B - j) * 2 ^ j" using jB by (simp flip: power_add)
      with se(2) s show ?thesis by simp
    qed
    ultimately have va: "valid_range a (Suc c)"
      using ac by (auto simp: valid_range_def intro: dvd_trans le_imp_power_dvd)
    have lr: "level_range n j a (e - s)"
      using en se(1) s j sj by (auto simp: level_range_def dvd_diff_nat)
    have "mth node (level node d n j) a (Suc c - a) = mth node d s (e - s)"
      using mth_level [OF lr, of node d] unfolding wd s [symmetric] using ac by (simp add: Suc_diff_le)
    moreover have "mth node (level node d n j) 0 (Suc ((n - 1) div 2 ^ j)) = mth node d 0 n"
      using mth_level [OF level_range_whole [OF n0], of node d j] by simp
    ultimately show ?thesis
      using cons_path_subtree [OF va, of "Suc ((n - 1) div 2 ^ j)" node "level node d n j"] cn
      by (simp add: c_def a_def)
  qed
qed

section \<open>Generating a proof\<close>

text \<open>SUBTREE_SUBPROOF of section 4.4.1, for the range of \<open>w\<close> leaves that starts at \<open>lo\<close>.\<close>

function subproof ::
  "('h \<Rightarrow> 'h \<Rightarrow> 'h) \<Rightarrow> (nat \<Rightarrow> 'h) \<Rightarrow> bool \<Rightarrow> nat \<Rightarrow> nat \<Rightarrow> nat \<Rightarrow> nat \<Rightarrow> 'h list" where
  "subproof node d known s e lo w =
     (if s = lo \<and> e = lo + w then (if known then [] else [mth node d lo w])
      else if w \<le> 1 then []
      else if e \<le> lo + lp2 w
      then subproof node d known s e lo (lp2 w) @ [mth node d (lo + lp2 w) (w - lp2 w)]
      else if lo + lp2 w \<le> s
      then subproof node d known s e (lo + lp2 w) (w - lp2 w) @ [mth node d lo (lp2 w)]
      else subproof node d False (lo + lp2 w) e (lo + lp2 w) (w - lp2 w) @ [mth node d lo (lp2 w)])"
  by pat_completeness auto
termination
  by (relation "measure (\<lambda>(_, _, _, _, _, _, w). w)") (auto simp: lp2_less)

declare subproof.simps [simp del]

lemma subproof_step:
  assumes "1 < w" "\<not> (s = lo \<and> e = lo + w)"
  shows "subproof node d known s e lo w =
     (if e \<le> lo + lp2 w
      then subproof node d known s e lo (lp2 w) @ [mth node d (lo + lp2 w) (w - lp2 w)]
      else if lo + lp2 w \<le> s
      then subproof node d known s e (lo + lp2 w) (w - lp2 w) @ [mth node d lo (lp2 w)]
      else subproof node d False (lo + lp2 w) e (lo + lp2 w) (w - lp2 w) @ [mth node d lo (lp2 w)])"
proof -
  have "\<not> w \<le> 1" using assms(1) by simp
  then show ?thesis using assms(2) by (subst subproof.simps) (simp only: if_False)
qed

text \<open>The ranges the generator visits: aligned, and complete unless they end with the tree.\<close>

definition tree_range :: "nat \<Rightarrow> nat \<Rightarrow> nat \<Rightarrow> bool" where
  "tree_range n lo w \<longleftrightarrow> valid_range lo (lo + w) \<and> lo + w \<le> n \<and> (lo + w = n \<or> (\<exists>m. w = 2 ^ m))"

lemma tree_range_split:
  assumes "tree_range n lo w" "1 < w"
  shows "tree_range n lo (lp2 w)" "tree_range n (lo + lp2 w) (w - lp2 w)" "2 * lp2 w dvd lo"
proof -
  obtain x where x: "lp2 w = 2 ^ x" using lp2_power by blast
  have lt: "2 ^ x < w" "w \<le> 2 * 2 ^ x" using lp2_less [OF assms(2)] lp2_double [OF assms(2)] x by simp_all
  have "bit_len (w - 1) = Suc x" using lt by (intro bit_len_unique) simp_all
  then have al: "2 ^ Suc x dvd lo" using assms(1) by (simp add: tree_range_def valid_range_def)
  then show "2 * lp2 w dvd lo" by (simp add: x)
  have alx: "2 ^ x dvd lo" using al by (metis dvd_trans le_imp_power_dvd le_SucI order_refl)
  have le: "lo + w \<le> n" using assms(1) by (simp add: tree_range_def)
  show "tree_range n lo (lp2 w)"
    using lt le alx by (auto simp: tree_range_def x intro: valid_rangeI [where k = x])
  have "w - 2 ^ x = 2 ^ x" if "w = 2 ^ m" for m
  proof -
    have "(2::nat) ^ x < 2 ^ m" "(2::nat) ^ m \<le> 2 ^ Suc x" using lt that by simp_all
    then have "x < m" "m \<le> Suc x"
      by (meson one_less_numeral_iff power_less_imp_less_exp semiring_norm(76),
          meson one_less_numeral_iff power_le_imp_le_exp semiring_norm(76))
    then have "m = Suc x" by simp
    then show ?thesis using that by simp
  qed
  then have "lo + w = n \<or> (\<exists>m. w - 2 ^ x = 2 ^ m)" using assms(1) by (auto simp: tree_range_def)
  moreover have "valid_range (lo + 2 ^ x) (lo + 2 ^ x + (w - 2 ^ x))"
    using lt alx by (intro valid_rangeI [where k = x]) auto
  ultimately show "tree_range n (lo + lp2 w) (w - lp2 w)"
    using lt le by (auto simp: tree_range_def x)
qed

text \<open>A valid subtree that contains the split point in its interior starts where the range starts.\<close>

lemma spanning_start:
  assumes "valid_range s e" "lo \<le> s" "s < lo + 2 ^ x" "lo + 2 ^ x < e" "2 ^ Suc x dvd lo"
  shows "s = lo" "x < bit_len (e - s - 1)"
proof -
  define B where "B = bit_len (e - s - 1)"
  have Bs: "2 ^ B dvd s" using assms(1) by (simp add: valid_range_def B_def)
  have top: "e \<le> s + 2 ^ B" using valid_range_top [OF assms(1)] by (simp add: B_def)
  show xB: "x < bit_len (e - s - 1)"
  proof (rule ccontr)
    assume "\<not> ?thesis"
    then have "B \<le> x" by (simp add: B_def)
    then have "2 ^ B dvd lo + 2 ^ x"
      using assms(5) by (meson dvd_add dvd_trans le_imp_power_dvd le_SucI)
    with Bs have "2 ^ B dvd lo + 2 ^ x - s" by (simp add: dvd_diff_nat)
    then have "2 ^ B \<le> lo + 2 ^ x - s" using assms(3) by (intro dvd_imp_le) simp_all
    with top assms(3,4) show False by simp
  qed
  then have "2 ^ Suc x dvd s" using Bs by (metis B_def Suc_leI dvd_trans le_imp_power_dvd)
  then have "2 ^ Suc x dvd s - lo" using assms(5) by (simp add: dvd_diff_nat)
  moreover have "s - lo < 2 ^ Suc x" using assms(2,3) by (simp add: less_diff_conv2)
  ultimately have "s - lo = 0" by (metis dvd_imp_le neq0_conv not_less)
  with assms(2) show "s = lo" by simp
qed

lemma chunk_node:
  assumes "chunk n s e j" "lo = a * 2 ^ j" "level_range n j a w" "w \<le> 2 ^ j" "lo \<le> s" "e \<le> lo + w"
  shows "s = lo" "e = lo + w" "j = bit_len (e - s - 1)"
proof -
  define B where "B = bit_len (e - s - 1)"
  have v: "valid_range s e" "e \<le> n" "j \<le> B" using assms(1) by (simp_all add: chunk_def B_def)
  have se: "s < e" "2 ^ B dvd s" using v(1) by (simp_all add: valid_range_def B_def)
  have "2 ^ j dvd s - lo"
    using se(2) v(3) assms(2) by (intro dvd_diff_nat) (auto intro: dvd_trans le_imp_power_dvd)
  moreover have "s - lo < 2 ^ j" using se(1) assms(4-6) by simp
  ultimately have "s - lo = 0" by (metis dvd_imp_le neq0_conv not_less)
  with assms(5) show s: "s = lo" by simp
  show e: "e = lo + w"
  proof (cases "e = n")
    case True
    with assms(2,3,6) show ?thesis by (simp add: level_range_def)
  next
    case False
    with assms(1) have "2 ^ j dvd e" by (simp add: chunk_def)
    then have "2 ^ j dvd e - lo" using assms(2) by (simp add: dvd_diff_nat)
    then have "2 ^ j \<le> e - lo" using se(1) s by (intro dvd_imp_le) simp_all
    with assms(4,6) se(1) s show ?thesis by linarith
  qed
  have "B \<le> j" unfolding B_def bit_len_le_iff using se(1) s assms(4,6) by simp
  with v(3) show "j = bit_len (e - s - 1)" by (simp add: B_def)
qed

lemma chunk_not_range:
  assumes "chunk n s e j" "tree_range n s (e - s)" "2 ^ j < e - s"
  shows False
proof -
  define B where "B = bit_len (e - s - 1)"
  have v: "valid_range s e" using assms(1) by (simp add: chunk_def)
  have se: "s < e" using v by (simp add: valid_range_def)
  have "\<not> B \<le> j" unfolding B_def bit_len_le_iff using assms(3) by simp
  then have ev: "e \<noteq> n" "even ((e - 1) div 2 ^ j)" "2 ^ j dvd e" and jB: "j < B"
    using assms(1) by (auto simp: chunk_def B_def split: if_splits)
  with assms(2) se obtain m where m: "e - s = 2 ^ m" by (auto simp: tree_range_def)
  have "m = B" unfolding B_def m
  proof (cases m)
    case (Suc m')
    have "bit_len (2 ^ m - 1) = Suc m'" using Suc by (intro bit_len_unique) simp_all
    with Suc show "m = bit_len (2 ^ m - 1)" by simp
  qed simp
  have sj: "(2::nat) ^ Suc j dvd 2 ^ B" using jB by (intro le_imp_power_dvd) simp
  with \<open>m = B\<close> m have "2 ^ Suc j dvd e - s" by simp
  moreover have "2 ^ Suc j dvd s" using v dvd_trans [OF sj] by (simp add: valid_range_def B_def)
  ultimately have "2 ^ Suc j dvd e" using se by (metis dvd_diffD less_imp_le)
  moreover have "Suc ((e - 1) div 2 ^ j) * 2 ^ j = e" using se by (intro div_pred ev(3)) simp
  ultimately have "2 dvd Suc ((e - 1) div 2 ^ j)"
    by (metis dvd_mult_cancel2 mult.commute power_Suc nat_mult_dvd_cancel_disj power_not_zero zero_neq_numeral)
  with ev(2) show False by simp
qed

text \<open>Past a split point inside the subtree, the right part keeps the chunk.\<close>

lemma chunk_right:
  assumes c: "chunk n s e j" and k: "s + 2 ^ x < e" "2 ^ Suc x dvd s"
    and le: "e \<le> s + 2 ^ Suc x" and "j < bit_len (e - s - 1)"
  shows "chunk n (s + 2 ^ x) e j"
proof -
  have v: "valid_range s e" "e \<le> n" using c by (simp_all add: chunk_def)
  from c assms(5) have e: "e \<noteq> n" "2 ^ j dvd e" "even ((e - 1) div 2 ^ j)"
    by (auto simp: chunk_def split: if_splits)
  have B: "bit_len (e - s - 1) = Suc x" using k(1) le by (intro bit_len_unique) auto
  have jx: "j \<le> x" using assms(5) B by simp
  have sx: "2 ^ j dvd s + 2 ^ x"
    using k(2) jx by (meson dvd_add dvd_trans le_imp_power_dvd le_SucI)
  have "2 ^ j dvd e - (s + 2 ^ x)" using e(2) sx by (simp only: dvd_diff_nat)
  then have ge: "2 ^ j \<le> e - (s + 2 ^ x)" using k(1) by (intro dvd_imp_le) simp_all
  have vr: "valid_range (s + 2 ^ x) e"
  proof (rule valid_rangeI [where k = x])
    show "s + 2 ^ x < e" by (rule k(1))
    show "e - (s + 2 ^ x) \<le> 2 ^ x" using le by simp
    have "(2::nat) ^ x dvd 2 ^ Suc x" by (intro le_imp_power_dvd) simp
    with k(2) show "2 ^ x dvd s + 2 ^ x" by (meson dvd_add dvd_refl dvd_trans)
  qed
  have "j \<le> bit_len (e - (s + 2 ^ x) - 1)"
  proof (cases j)
    case (Suc i)
    have "\<not> bit_len (e - (s + 2 ^ x) - 1) \<le> i"
    proof -
      have "(2::nat) ^ i < 2 ^ j" using Suc by simp
      then have "2 ^ i \<le> e - (s + 2 ^ x) - 1" using ge by linarith
      then show ?thesis by (simp add: bit_len_le_iff)
    qed
    with Suc show ?thesis by simp
  qed simp
  with vr v(2) e show ?thesis by (simp add: chunk_def)
qed

lemma subproof_audit:
  assumes "tree_range n lo w" "level_range n j a w" "lo = a * 2 ^ j"
    and "lo \<le> s" "e \<le> lo + w" "chunk n s e j"
  shows "subproof node d known s e lo w =
    (if known \<and> j = bit_len (e - s - 1) then [] else [level node d n j ((e - 1) div 2 ^ j)])
      @ audit node (level node d n j) a (Suc ((w - 1) div 2 ^ j)) ((e - 1) div 2 ^ j - a)"
  using assms
proof (induction w arbitrary: known s e lo a rule: less_induct)
  case (less w)
  note tr = less.prems(1) and lr = less.prems(2) and lo = less.prems(3) and ch = less.prems(6)
  let ?L = "level node d n j"
  have v: "valid_range s e" "e \<le> n" using ch by (simp_all add: chunk_def)
  have se: "s < e" using v(1) by (simp add: valid_range_def)
  show ?case
  proof (cases "w \<le> 2 ^ j")
    case True
    note cn = chunk_node [OF ch lo lr True less.prems(4,5)]
    note ls = level_single [OF lr True]
    have "e - 1 = a * 2 ^ j + (w - 1)" unfolding cn(2) lo using lr by (simp add: level_range_def)
    then have c: "(e - 1) div 2 ^ j = a" using ls(2) by simp
    have k: "(known \<and> j = bit_len (e - s - 1)) = known" using cn(3) by simp
    have "subproof node d known s e lo w = (if known then [] else [mth node d lo w])"
      using cn(1,2) by (subst subproof.simps) simp
    then show ?thesis unfolding k c ls lo by simp
  next
    case False
    then have big: "2 ^ j < w" by simp
    then have w: "1 < w" by (metis le_less_trans one_le_numeral one_le_power)
    obtain x where x: "lp2 w = 2 ^ x * 2 ^ j" "lp2 (Suc ((w - 1) div 2 ^ j)) = 2 ^ x"
      "(w - 2 ^ x * 2 ^ j - 1) div 2 ^ j = (w - 1) div 2 ^ j - 2 ^ x" "2 ^ x \<le> (w - 1) div 2 ^ j"
      using lp2_level [OF big] by blast
    define mid where "mid = lo + lp2 w"
    have mid: "mid = (a + 2 ^ x) * 2 ^ j" by (simp add: mid_def lo x(1) add_mult_distrib)
    note ts = tree_range_split [OF tr w, folded mid_def]
    note rs = level_range_split [OF lr big x(1), folded x(1)]
    have lt: "lp2 w < w" "w - lp2 w < w" using lp2_less [OF w] w by simp_all
    have w': "1 < Suc ((w - 1) div 2 ^ j)"
      using x(4) by (metis Suc_le_eq less_Suc_eq_le one_le_numeral one_le_power order.trans One_nat_def)
    have full: "Suc ((lp2 w - 1) div 2 ^ j) = 2 ^ x"
    proof -
      have "Suc ((lp2 w - 1) div 2 ^ j) * 2 ^ j = 2 ^ x * 2 ^ j"
        using div_pred [of "lp2 w" j] x(1) by (simp del: mult_Suc)
      then show ?thesis by (simp only: mult_cancel2) simp
    qed
    have mR: "mth node ?L (a + 2 ^ x) (Suc ((w - 1) div 2 ^ j) - 2 ^ x) = mth node d mid (w - lp2 w)"
      using mth_level [OF rs(2), of node d] x(3,4) mid by (simp add: x(1) Suc_diff_le)
    have mL: "mth node ?L a (2 ^ x) = mth node d lo (lp2 w)"
      using mth_level [OF rs(1), of node d] unfolding full lo .
    have right: "Suc ((w - lp2 w - 1) div 2 ^ j) = Suc ((w - 1) div 2 ^ j) - 2 ^ x"
      using x by (simp add: Suc_diff_le)
    have nb: "\<not> (s = lo \<and> e = lo + w)"
      using chunk_not_range [OF ch] tr big by auto
    have cd: "(e - 1) div 2 ^ j - a < 2 ^ x" if "e \<le> mid"
    proof -
      have "e - 1 < (a + 2 ^ x) * 2 ^ j" using that mid se by simp
      then have "(e - 1) div 2 ^ j < a + 2 ^ x" by (simp add: div_less_iff_less_mult)
      then show ?thesis by (cases "a \<le> (e - 1) div 2 ^ j") simp_all
    qed
    have cu: "a + 2 ^ x \<le> (e - 1) div 2 ^ j" if "mid < e"
      using that unfolding mid by (simp add: less_eq_div_iff_mult_less_eq)
    have R: "audit node ?L a (Suc ((w - 1) div 2 ^ j)) ((e - 1) div 2 ^ j - a)
        = audit node ?L (a + 2 ^ x) (Suc ((w - lp2 w - 1) div 2 ^ j)) ((e - 1) div 2 ^ j - (a + 2 ^ x))
          @ [mth node d lo (lp2 w)]" if "mid < e"
      using audit_right [OF w', of "(e - 1) div 2 ^ j - a" node ?L a] cu [OF that]
      unfolding x(2) mL right by simp
    consider "e \<le> mid" | "mid < e" "mid \<le> s" | "mid < e" "s < mid" by linarith
    then show ?thesis
    proof cases
      case 1
      have A: "audit node ?L a (Suc ((w - 1) div 2 ^ j)) ((e - 1) div 2 ^ j - a)
          = audit node ?L a (2 ^ x) ((e - 1) div 2 ^ j - a) @ [mth node d mid (w - lp2 w)]"
        using audit_left [OF w', of "(e - 1) div 2 ^ j - a" node ?L a] cd [OF 1] unfolding x(2) mR .
      have "e \<le> lo + lp2 w" using 1 by (simp add: mid_def)
      from less.IH [OF lt(1) ts(1) rs(1) lo less.prems(4) this ch, of known] this subproof_step [OF w nb, of node d known]
      show ?thesis unfolding A full by (simp add: mid_def)
    next
      case 2
      have "e \<le> mid + (w - lp2 w)" using less.prems(5) lt(1) by (simp add: mid_def)
      from less.IH [OF lt(2) ts(2) rs(2) mid 2(2) this ch, of known] subproof_step [OF w nb, of node d known] 2
      show ?thesis unfolding R [OF 2(1)] by (simp add: mid_def)
    next
      case 3
      have e: "e \<le> mid + (w - lp2 w)" using less.prems(5) lt(1) by (simp add: mid_def)
      obtain y where y: "lp2 w = 2 ^ y" using lp2_power by blast
      have al: "2 ^ Suc y dvd lo" using ts(3) by (simp add: y)
      have sp: "s = lo" "y < bit_len (e - s - 1)"
        using spanning_start [OF v(1) less.prems(4) _ _ al] 3 by (simp_all add: mid_def y)
      have eu: "e \<le> s + 2 ^ Suc y" using e lp2_double [OF w] sp(1) by (simp add: mid_def y)
      have jB: "j < bit_len (e - s - 1)"
      proof (rule ccontr)
        assume "\<not> ?thesis"
        moreover have "j \<le> bit_len (e - s - 1)" using ch by (simp add: chunk_def)
        ultimately have j: "j = bit_len (e - s - 1)" by simp
        have "e - s \<le> 2 ^ j" unfolding j by (rule valid_range_top [OF v(1)])
        moreover have "2 ^ j \<le> lp2 w" by (simp add: x(1))
        ultimately show False using 3(1) sp(1) by (simp add: mid_def)
      qed
      have "chunk n mid e j"
        using chunk_right [OF ch _ _ eu jB] 3(1) al sp(1) by (simp add: mid_def y)
      from less.IH [OF lt(2) ts(2) rs(2) mid order_refl e this, of False] subproof_step [OF w nb, of node d known] 3 jB
      show ?thesis unfolding R [OF 3(1)] by (simp add: mid_def)
    qed
  qed
qed

end
