(* ===== verification/Consistency.thy ===== *)
theory Consistency
  imports Inclusion Merkle_Consistency
begin

text \<open>
  Subtree consistency proofs (tlogx/consistency.go): the verification loop, the recursive generator,
  and the range hash it is built from. The lemmas relate them to the reference functions of theory
  \<open>Merkle_Consistency\<close>: what is generated is accepted, and what is accepted pins the subtree hash.
\<close>

section \<open>The code\<close>

lemma u64_shift_less:
  fixes x :: u64
  assumes "x \<noteq> 0"
  shows "unat (drop_bit 1 x) < unat x"
proof -
  have "0 < unat x" using assms by (simp add: unat_gt_0)
  then show ?thesis unfolding unat_drop_u64 by simp
qed

text \<open>Steps 3 and 4 of \<open>VerifyConsistencyProof\<close>: the two loops that equalise \<open>fn\<close> and \<open>sn\<close>.\<close>

function shift_until_equal :: "u64 \<Rightarrow> u64 \<Rightarrow> u64 \<Rightarrow> u64 \<times> u64 \<times> u64" where
  "shift_until_equal fn sn tn =
     (if fn \<noteq> sn then shift_until_equal (drop_bit 1 fn) (drop_bit 1 sn) (drop_bit 1 tn)
      else (fn, sn, tn))"
  by pat_completeness auto
termination
proof (relation "measure (\<lambda>(fn, sn, _). unat fn + unat sn)", simp)
  fix fn sn tn :: u64
  assume "fn \<noteq> sn"
  then consider "fn \<noteq> 0" | "sn \<noteq> 0" by blast
  moreover have "unat (drop_bit 1 fn) \<le> unat fn" "unat (drop_bit 1 sn) \<le> unat sn"
    by (simp_all add: unat_drop_u64 del: drop_bit_Suc)
  ultimately have "unat (drop_bit 1 fn) + unat (drop_bit 1 sn) < unat fn + unat sn"
    using u64_shift_less [of fn] u64_shift_less [of sn] by cases linarith+
  then show "((drop_bit 1 fn, drop_bit 1 sn, drop_bit 1 tn), fn, sn, tn)
      \<in> measure (\<lambda>(fn, sn, _). unat fn + unat sn)"
    by (simp only: in_measure prod.case)
qed

function shift_while_odd :: "u64 \<Rightarrow> u64 \<Rightarrow> u64 \<Rightarrow> u64 \<times> u64 \<times> u64" where
  "shift_while_odd fn sn tn =
     (if fn \<noteq> sn \<and> sn AND 1 \<noteq> 0 then shift_while_odd (drop_bit 1 fn) (drop_bit 1 sn) (drop_bit 1 tn)
      else (fn, sn, tn))"
  by pat_completeness auto
termination
proof (relation "measure (\<lambda>(_, sn, _). unat sn)", simp)
  fix fn sn tn :: u64
  assume "fn \<noteq> sn \<and> sn AND 1 \<noteq> 0"
  then have "sn \<noteq> 0" by auto
  then show "((drop_bit 1 fn, drop_bit 1 sn, drop_bit 1 tn), fn, sn, tn) \<in> measure (\<lambda>(_, sn, _). unat sn)"
    unfolding in_measure prod.case by (rule u64_shift_less)
qed

text \<open>The inner loop of step 7.\<close>

function shift3_even :: "u64 \<Rightarrow> u64 \<Rightarrow> u64 \<Rightarrow> u64 \<times> u64 \<times> u64" where
  "shift3_even fn sn tn =
     (if sn AND 1 = 0 \<and> tn \<noteq> 0 then shift3_even (drop_bit 1 fn) (drop_bit 1 sn) (drop_bit 1 tn)
      else (fn, sn, tn))"
  by pat_completeness auto
termination
proof (relation "measure (\<lambda>(_, _, tn). unat tn)", simp)
  fix fn sn tn :: u64
  assume "sn AND 1 = 0 \<and> tn \<noteq> 0"
  then have "tn \<noteq> 0" ..
  then show "((drop_bit 1 fn, drop_bit 1 sn, drop_bit 1 tn), fn, sn, tn) \<in> measure (\<lambda>(_, _, tn). unat tn)"
    unfolding in_measure prod.case by (rule u64_shift_less)
qed

declare shift_until_equal.simps [simp del]
declare shift_while_odd.simps [simp del]
declare shift3_even.simps [simp del]

text \<open>Step 7: the remaining proof entries. The result is \<open>(tn, fr, sr)\<close>.\<close>

fun consLoop ::
  "(bytes \<Rightarrow> Hash) \<Rightarrow> u64 \<Rightarrow> u64 \<Rightarrow> u64 \<Rightarrow> Hash \<Rightarrow> Hash \<Rightarrow> Hash list \<Rightarrow> (u64 \<times> Hash \<times> Hash) result" where
  "consLoop hash fn sn tn fr sr [] = Inr (tn, fr, sr)"
| "consLoop hash fn sn tn fr sr (c # proof) =
     (if tn = 0 then Inl (Errorf ''tlogx: proof has extra elements (tn=0)'')
      else if sn AND 1 \<noteq> 0 \<or> sn = tn then
        (let fr' = (if fn < sn then HashChildren hash c fr else fr);
             sr' = HashChildren hash c sr;
             (fn', sn', tn') = shift3_even fn sn tn
         in consLoop hash (drop_bit 1 fn') (drop_bit 1 sn') (drop_bit 1 tn') fr' sr' proof)
      else consLoop hash (drop_bit 1 fn) (drop_bit 1 sn) (drop_bit 1 tn) fr (HashChildren hash sr c) proof)"

definition VerifyConsistencyProof ::
  "(bytes \<Rightarrow> Hash) \<Rightarrow> u64 \<Rightarrow> u64 \<Rightarrow> u64 \<Rightarrow> Hash list \<Rightarrow> Hash \<Rightarrow> Hash \<Rightarrow> unit result" where
  "VerifyConsistencyProof hash start end n proof nodeHash rootHash =
     rbind (IsValid start end) (\<lambda>ok.
       if \<not> ok then Inl (Errorf ''tlogx: invalid subtree'')
       else if end > n then Inl (Errorf ''tlogx: end > tree size'')
       else
         let (fn, sn, tn) =
               (if end - 1 = n - 1 then shift_until_equal start (end - 1) (n - 1)
                else shift_while_odd start (end - 1) (n - 1))
         in rbind
              (if fn = sn then Inr (nodeHash, nodeHash, proof)
               else (case proof of
                 [] \<Rightarrow> Inl (Errorf ''tlogx: empty proof for incomplete subtree start'')
               | p # ps \<Rightarrow> Inr (p, p, ps)))
              (\<lambda>(fr, sr, proof'). rbind (consLoop hash fn sn tn fr sr proof') (\<lambda>(tn', fr', sr').
                if tn' \<noteq> 0 then Inl (Errorf ''tlogx: proof too short (tn != 0 at end)'')
                else if fr' \<noteq> nodeHash then Inl (Errorf ''tlogx: reconstructed subtree hash != node_hash'')
                else if sr' \<noteq> rootHash then Inl (Errorf ''tlogx: reconstructed root hash != root_hash'')
                else Inr ())))"

text \<open>\<open>uint64(1) << (bits.Len64(sz-1) - 1)\<close>; the callers panic on \<open>sz = 1\<close> (a negative shift).\<close>

definition splitPoint :: "u64 \<Rightarrow> u64" where
  "splitPoint sz = push_bit (Len64 (sz - 1) - 1) 1"

text \<open>The size of a range, with the wrapped-around empty range as the largest.\<close>

definition range_measure :: "u64 \<Rightarrow> nat" where
  "range_measure sz = (if sz = 0 then 2 ^ 64 else unat sz)"

lemma splitPoint_measure:
  assumes "sz \<noteq> 1"
  shows "range_measure (splitPoint sz) < range_measure sz"
    and "range_measure (sz - splitPoint sz) < range_measure sz"
proof -
  have "range_measure (splitPoint sz) < range_measure sz \<and>
      range_measure (sz - splitPoint sz) < range_measure sz"
  proof (cases "sz = 0")
    case True
    have "unat (sz - 1) = 2 ^ 64 - 1" unfolding True by (simp add: unsigned_minus_1_eq_mask mask_eq_exp_minus_1)
    moreover have "bit_len (2 ^ 64 - 1) = Suc 63" by (rule bit_len_unique) simp_all
    ultimately have "Len64 (sz - 1) = 64" by (simp add: Len64_def)
    then have "splitPoint sz = 2 ^ 63" by (simp add: splitPoint_def)
    then show ?thesis by (simp add: True range_measure_def)
  next
    case False
    then have w: "1 < unat sz" using assms unfolding u64_eq_iff by (simp add: Suc_lessI)
    have m1: "unat (sz - 1) = unat sz - 1"
      using w by (subst unat_diff_u64) (simp_all add: u64_le_iff)
    have "Len64 (sz - 1) - 1 < 64" using Len64_le_64 [of "sz - 1"] by linarith
    then have k: "unat (splitPoint sz) = lp2 (unat sz)"
      by (simp add: splitPoint_def lp2_def Len64_def m1 unat_2pow)
    then have "0 < unat (splitPoint sz)" "unat (splitPoint sz) < unat sz"
      using lp2_less [OF w] by simp_all
    then show ?thesis
      using False by (auto simp: range_measure_def unat_diff_u64 u64_le_iff)
  qed
  then show "range_measure (splitPoint sz) < range_measure sz"
    and "range_measure (sz - splitPoint sz) < range_measure sz" by simp_all
qed

lemma splitPoint_ranges:
  fixes lo hi :: u64
  assumes "hi - lo \<noteq> 1"
  shows "range_measure (lo + splitPoint (hi - lo) - lo) < range_measure (hi - lo)"
    and "range_measure (hi - (lo + splitPoint (hi - lo))) < range_measure (hi - lo)"
  using splitPoint_measure [OF assms] by (simp_all add: diff_diff_eq)

function computeRange ::
  "(bytes \<Rightarrow> Hash) \<Rightarrow> u64 \<Rightarrow> u64 \<Rightarrow> (u64 \<Rightarrow> Hash result) \<Rightarrow> Hash result" where
  "computeRange hash lo hi leafHash =
     (if hi - lo = 1 then leafHash lo
      else
        let sz = hi - lo; k = splitPoint sz
        in rbind (computeRange hash lo (lo + k) leafHash) (\<lambda>left.
           rbind (computeRange hash (lo + k) hi leafHash) (\<lambda>right.
             Inr (HashChildren hash left right))))"
  by pat_completeness auto
termination
  by (relation "measure (\<lambda>(_, lo, hi, _). range_measure (hi - lo))") (simp_all only: in_measure
    prod.case splitPoint_ranges wf_measure not_False_eq_True)

declare computeRange.simps [simp del]

function subtreeSubproof ::
  "(bytes \<Rightarrow> Hash) \<Rightarrow> u64 \<Rightarrow> u64 \<Rightarrow> u64 \<Rightarrow> u64 \<Rightarrow> bool \<Rightarrow> (u64 \<Rightarrow> Hash result) \<Rightarrow> Hash list result" where
  "subtreeSubproof hash start end lo hi known leafHash =
     (if start = lo \<and> end = hi then
        (if known then Inr [] else rbind (computeRange hash lo hi leafHash) (\<lambda>h. Inr [h]))
      else if hi - lo = 1 then Inl (Panic ''negative shift amount'')
      else
        let k = splitPoint (hi - lo); mid = lo + k
        in if end \<le> mid then
             rbind (subtreeSubproof hash start end lo mid known leafHash) (\<lambda>left.
             rbind (computeRange hash mid hi leafHash) (\<lambda>rightHash. Inr (left @ [rightHash])))
           else if mid \<le> start then
             rbind (subtreeSubproof hash start end mid hi known leafHash) (\<lambda>right.
             rbind (computeRange hash lo mid leafHash) (\<lambda>leftHash. Inr (right @ [leftHash])))
           else if start \<noteq> lo then
             Inl (Errorf ''tlogx: internal: subtree spans pivot but start != lo'')
           else
             rbind (subtreeSubproof hash mid end mid hi False leafHash) (\<lambda>cross.
             rbind (computeRange hash lo mid leafHash) (\<lambda>leftHash. Inr (cross @ [leftHash]))))"
  by pat_completeness auto
termination
  by (relation "measure (\<lambda>(_, _, _, lo, hi, _, _). range_measure (hi - lo))") (simp_all only: in_measure
    prod.case splitPoint_ranges wf_measure not_False_eq_True)

declare subtreeSubproof.simps [simp del]

definition GenerateConsistencyProof ::
  "(bytes \<Rightarrow> Hash) \<Rightarrow> u64 \<Rightarrow> u64 \<Rightarrow> u64 \<Rightarrow> (u64 \<Rightarrow> Hash result) \<Rightarrow> Hash list result" where
  "GenerateConsistencyProof hash start end n leafHash =
     rbind (IsValid start end) (\<lambda>ok.
       if \<not> ok then Inl (Errorf ''tlogx: invalid subtree'')
       else if end > n then Inl (Errorf ''tlogx: end > tree size'')
       else if start = 0 \<and> end = n then Inr []
       else subtreeSubproof hash start end 0 n True leafHash)"

section \<open>Verification and the reference loop\<close>

lemma drop_bit_Suc_1: "drop_bit j (drop_bit 1 (x::u64)) = drop_bit (Suc j) x"
  by (simp only: drop_bit_drop_bit) simp

lemma div_2_power: "(x::nat) div 2 div 2 ^ i = x div 2 ^ Suc i"
  by (simp add: div_mult2_eq)

lemma unat_drop_1: "unat (drop_bit 1 x :: u64) = unat x div 2"
  by (simp only: unat_drop_u64 power_one_right)

lemma shift_until_equal_level:
  "\<exists>j. shift_until_equal fn sn tn = (drop_bit j fn, drop_bit j sn, drop_bit j tn) \<and>
     unat fn div 2 ^ j = unat sn div 2 ^ j \<and> (\<forall>i<j. unat fn div 2 ^ i \<noteq> unat sn div 2 ^ i)"
proof (induction fn sn tn rule: shift_until_equal.induct)
  case (1 fn sn tn)
  show ?case
  proof (cases "fn = sn")
    case True
    then show ?thesis by (intro exI [of _ 0]) (simp add: shift_until_equal.simps)
  next
    case False
    from 1 [OF False] obtain j where j:
      "shift_until_equal (drop_bit 1 fn) (drop_bit 1 sn) (drop_bit 1 tn)
        = (drop_bit (Suc j) fn, drop_bit (Suc j) sn, drop_bit (Suc j) tn)"
      "unat fn div 2 ^ Suc j = unat sn div 2 ^ Suc j"
      "\<forall>i<j. unat fn div 2 ^ Suc i \<noteq> unat sn div 2 ^ Suc i"
      unfolding drop_bit_Suc_1 unat_drop_1 div_2_power by blast
    have "unat fn div 2 ^ i \<noteq> unat sn div 2 ^ i" if "i < Suc j" for i
      using that j(3) False by (cases i) (auto simp: u64_eq_iff)
    moreover have "shift_until_equal fn sn tn = (drop_bit (Suc j) fn, drop_bit (Suc j) sn, drop_bit (Suc j) tn)"
      using j(1) False by (subst shift_until_equal.simps) (simp only: simp_thms if_True)
    ultimately show ?thesis using j(2) by blast
  qed
qed

lemma shift_while_odd_level:
  "\<exists>j. shift_while_odd fn sn tn = (drop_bit j fn, drop_bit j sn, drop_bit j tn) \<and>
     (unat fn div 2 ^ j = unat sn div 2 ^ j \<or> even (unat sn div 2 ^ j)) \<and>
     (\<forall>i<j. unat fn div 2 ^ i \<noteq> unat sn div 2 ^ i \<and> odd (unat sn div 2 ^ i))"
proof (induction fn sn tn rule: shift_while_odd.induct)
  case (1 fn sn tn)
  show ?case
  proof (cases "fn \<noteq> sn \<and> sn AND 1 \<noteq> 0")
    case False
    then have "unat fn = unat sn \<or> even (unat sn)" unfolding u64_and_1_even by auto
    moreover have "shift_while_odd fn sn tn = (fn, sn, tn)"
      by (subst shift_while_odd.simps) (simp only: False if_False)
    ultimately show ?thesis by (intro exI [of _ 0]) simp
  next
    case True
    from 1 [OF True] obtain j where j:
      "shift_while_odd (drop_bit 1 fn) (drop_bit 1 sn) (drop_bit 1 tn)
        = (drop_bit (Suc j) fn, drop_bit (Suc j) sn, drop_bit (Suc j) tn)"
      "unat fn div 2 ^ Suc j = unat sn div 2 ^ Suc j \<or> even (unat sn div 2 ^ Suc j)"
      "\<forall>i<j. unat fn div 2 ^ Suc i \<noteq> unat sn div 2 ^ Suc i \<and> odd (unat sn div 2 ^ Suc i)"
      unfolding drop_bit_Suc_1 unat_drop_1 div_2_power by blast
    have z: "unat fn \<noteq> unat sn" "odd (unat sn)"
      using True unfolding u64_and_1_even u64_eq_iff [of fn sn] by auto
    have "unat fn div 2 ^ i \<noteq> unat sn div 2 ^ i \<and> odd (unat sn div 2 ^ i)" if "i < Suc j" for i
      using that j(3) z by (cases i) simp_all
    moreover have "shift_while_odd fn sn tn = (drop_bit (Suc j) fn, drop_bit (Suc j) sn, drop_bit (Suc j) tn)"
      using j(1) True by (subst shift_while_odd.simps) (simp only: simp_thms if_True)
    ultimately show ?thesis using j(2) by blast
  qed
qed

lemma all_odd_dvd:
  assumes "\<And>i. i < j \<Longrightarrow> odd (m div 2 ^ i)"
  shows "2 ^ j dvd Suc m"
  using assms
proof (induction j arbitrary: m)
  case (Suc j)
  have "2 ^ j dvd Suc (m div 2)"
    using Suc.prems [of "Suc _"] by (intro Suc.IH) (simp add: div_2_power)
  moreover have "Suc m = 2 * Suc (m div 2)" using Suc.prems [of 0] by simp
  ultimately show ?case by (simp only: power_Suc mult_dvd_mono dvd_refl)
qed simp

text \<open>The level at which \<open>VerifyConsistencyProof\<close> starts.\<close>

lemma init_chunk:
  assumes "IsValid start end = Inr True" "end \<le> n"
  obtains j where "chunk (unat n) (unat start) (unat end) j"
    and "(if end - 1 = n - 1 then shift_until_equal start (end - 1) (n - 1)
          else shift_while_odd start (end - 1) (n - 1))
       = (drop_bit j start, drop_bit j (end - 1), drop_bit j (n - 1))"
proof -
  define s e N where "s = unat start" and "e = unat end" and "N = unat n"
  have v: "valid_range s e" using IsValid_TrueD(1) [OF assms(1)] by (simp add: s_def e_def)
  have se: "s < e" using v by (simp add: valid_range_def)
  have eN: "e \<le> N" using assms(2) by (simp add: e_def N_def u64_le_iff)
  have e1: "unat (end - 1) = e - 1" using se by (subst unat_diff_u64) (simp_all add: u64_le_iff e_def)
  have n1: "unat (n - 1) = N - 1"
    using se eN by (subst unat_diff_u64) (simp_all add: u64_le_iff N_def)
  have eq: "end - 1 = n - 1 \<longleftrightarrow> e = N" unfolding u64_eq_iff e1 n1 using se eN by linarith
  note sh = valid_range_shift_eq [OF v]
  show thesis
  proof (cases "e = N")
    case True
    obtain j where j: "shift_until_equal start (end - 1) (n - 1)
        = (drop_bit j start, drop_bit j (end - 1), drop_bit j (n - 1))"
      "bit_len (e - s - 1) \<le> j" "\<And>i. i < j \<Longrightarrow> \<not> bit_len (e - s - 1) \<le> i"
      using shift_until_equal_level [of start "end - 1" "n - 1"]
      unfolding e1 s_def [symmetric] sh by blast
    have "j = bit_len (e - s - 1)" using j(2) j(3) [of "bit_len (e - s - 1)"] by linarith
    then have "chunk N s e j" using v eN True by (simp add: chunk_def)
    with j(1) show thesis using that [of j] eq True by (simp add: s_def e_def N_def)
  next
    case False
    obtain j where j: "shift_while_odd start (end - 1) (n - 1)
        = (drop_bit j start, drop_bit j (end - 1), drop_bit j (n - 1))"
      "bit_len (e - s - 1) \<le> j \<or> even ((e - 1) div 2 ^ j)"
      "\<And>i. i < j \<Longrightarrow> \<not> bit_len (e - s - 1) \<le> i" "\<And>i. i < j \<Longrightarrow> odd ((e - 1) div 2 ^ i)"
      using shift_while_odd_level [of start "end - 1" "n - 1"]
      unfolding e1 s_def [symmetric] sh by blast
    have le: "j \<le> bit_len (e - s - 1)" using j(3) [of "bit_len (e - s - 1)"] by linarith
    have "2 ^ j dvd Suc (e - 1)" using j(4) by (rule all_odd_dvd)
    then have "2 ^ j dvd e" using se by simp
    with le j(2) v eN False have "chunk N s e j" by (auto simp: chunk_def)
    with j(1) show thesis using that [of j] eq False by (simp add: s_def e_def N_def)
  qed
qed

lemma shift3_even_strip3:
  "strip3 (unat fn) (unat sn) (unat tn) =
     (case shift3_even fn sn tn of (f, s, t) \<Rightarrow> (unat f, unat s, unat t))"
proof (induction fn sn tn rule: shift3_even.induct)
  case (1 fn sn tn)
  have z: "sn AND 1 = 0 \<and> tn \<noteq> 0 \<longleftrightarrow> even (unat sn) \<and> unat tn \<noteq> 0"
    unfolding u64_and_1_even u64_eq_iff [of tn] by simp
  show ?case
  proof (cases "sn AND 1 = 0 \<and> tn \<noteq> 0")
    case True
    have "shift3_even fn sn tn = shift3_even (drop_bit 1 fn) (drop_bit 1 sn) (drop_bit 1 tn)"
      by (subst shift3_even.simps) (simp only: True simp_thms if_True)
    moreover have "strip3 (unat fn) (unat sn) (unat tn)
        = strip3 (unat fn div 2) (unat sn div 2) (unat tn div 2)"
      using True unfolding z by (subst strip3.simps) (simp only: simp_thms if_True)
    ultimately show ?thesis using 1 [OF True] unfolding unat_drop_1 by simp
  next
    case False
    have "shift3_even fn sn tn = (fn, sn, tn)"
      by (subst shift3_even.simps) (simp only: False if_False)
    moreover have "strip3 (unat fn) (unat sn) (unat tn) = (unat fn, unat sn, unat tn)"
      using False unfolding z by (subst strip3.simps) (simp only: if_False)
    ultimately show ?thesis by simp
  qed
qed

lemma consLoop_cons_path:
  "(\<exists>tn'. consLoop hash fn sn tn fr sr ps = Inr (tn', fr', sr') \<and> tn' = 0) \<longleftrightarrow>
     cons_path (HashChildren hash) (unat fn) (unat sn) (unat tn) fr sr ps = Some (fr', sr')"
proof (induction ps arbitrary: fn sn tn fr sr)
  case Nil
  have "tn = 0 \<longleftrightarrow> unat tn = 0" by (simp add: u64_eq_iff)
  then show ?case by auto
next
  case (Cons c ps)
  have z: "tn = 0 \<longleftrightarrow> unat tn = 0" "sn AND 1 \<noteq> 0 \<longleftrightarrow> odd (unat sn)"
    by (simp_all add: u64_eq_iff [of tn] u64_and_1_even)
  obtain f s t where s3: "shift3_even fn sn tn = (f, s, t)" by (metis prod_cases3)
  then have n3: "strip3 (unat fn) (unat sn) (unat tn) = (unat f, unat s, unat t)"
    by (simp add: shift3_even_strip3)
  consider "unat tn = 0" | "unat tn \<noteq> 0" "odd (unat sn) \<or> sn = tn"
    | "unat tn \<noteq> 0" "\<not> (odd (unat sn) \<or> sn = tn)" by blast
  then show ?case
  proof cases
    case 1
    then show ?thesis by (simp add: z)
  next
    case 2
    then show ?thesis
      using Cons [of "drop_bit 1 f" "drop_bit 1 s" "drop_bit 1 t"
          "if fn < sn then HashChildren hash c fr else fr" "HashChildren hash c sr"]
      unfolding unat_drop_1 consLoop.simps cons_path.simps z s3 n3 u64_eq_iff [of sn tn] u64_less_iff
      by (simp only: Let_def prod.case if_False if_True simp_thms)
  next
    case 3
    then show ?thesis
      using Cons [of "drop_bit 1 fn" "drop_bit 1 sn" "drop_bit 1 tn" fr "HashChildren hash sr c"]
      unfolding unat_drop_1 consLoop.simps cons_path.simps z u64_eq_iff [of sn tn]
      by (simp only: if_False simp_thms)
  qed
qed

definition run_accepts ::
  "(bytes \<Rightarrow> Hash) \<Rightarrow> nat \<Rightarrow> nat \<Rightarrow> nat \<Rightarrow> nat \<Rightarrow> Hash list \<Rightarrow> Hash \<Rightarrow> Hash \<Rightarrow> bool" where
  "run_accepts hash j s e n proof nodeHash rootHash \<longleftrightarrow>
     (let run = cons_path (HashChildren hash) (s div 2 ^ j) ((e - 1) div 2 ^ j) ((n - 1) div 2 ^ j)
      in if j = bit_len (e - s - 1) then run nodeHash nodeHash proof = Some (nodeHash, rootHash)
         else proof \<noteq> [] \<and> run (hd proof) (hd proof) (tl proof) = Some (nodeHash, rootHash))"

text \<open>The byte strings that \<open>VerifyConsistencyProof\<close> hashes on its way to the root.\<close>

definition consistency_inputs :: "(bytes \<Rightarrow> Hash) \<Rightarrow> u64 \<Rightarrow> u64 \<Rightarrow> u64 \<Rightarrow> Hash list \<Rightarrow> Hash \<Rightarrow> bytes list" where
  "consistency_inputs hash start end n proof nodeHash =
     (let (fn, sn, tn) =
            (if end - 1 = n - 1 then shift_until_equal start (end - 1) (n - 1)
             else shift_while_odd start (end - 1) (n - 1))
      in if fn = sn then path_inputs hash sn tn nodeHash proof
         else (case proof of [] \<Rightarrow> [] | p # ps \<Rightarrow> path_inputs hash sn tn p ps))"

definition run_inputs :: "(bytes \<Rightarrow> Hash) \<Rightarrow> nat \<Rightarrow> nat \<Rightarrow> nat \<Rightarrow> nat \<Rightarrow> Hash list \<Rightarrow> Hash \<Rightarrow> bytes list" where
  "run_inputs hash j s e n proof nodeHash =
     (let inputs = (\<lambda>r ps. map node_input (path_nodes (HashChildren hash) ((e - 1) div 2 ^ j) ((n - 1) div 2 ^ j) r ps))
      in if j = bit_len (e - s - 1) then inputs nodeHash proof
         else (case proof of [] \<Rightarrow> [] | p # ps \<Rightarrow> inputs p ps))"

lemma Verify_run:
  assumes "IsValid start end = Inr True" "end \<le> n"
  obtains j where "chunk (unat n) (unat start) (unat end) j"
    and "\<And>proof nodeHash. consistency_inputs hash start end n proof nodeHash
      = run_inputs hash j (unat start) (unat end) (unat n) proof nodeHash"
    and "\<And>proof nodeHash rootHash.
      VerifyConsistencyProof hash start end n proof nodeHash rootHash = Inr () \<longleftrightarrow>
      run_accepts hash j (unat start) (unat end) (unat n) proof nodeHash rootHash"
proof -
  obtain j where ch: "chunk (unat n) (unat start) (unat end) j"
    and init: "(if end - 1 = n - 1 then shift_until_equal start (end - 1) (n - 1)
        else shift_while_odd start (end - 1) (n - 1))
      = (drop_bit j start, drop_bit j (end - 1), drop_bit j (n - 1))"
    using init_chunk [OF assms] by blast
  have v: "valid_range (unat start) (unat end)" using ch by (simp add: chunk_def)
  have se: "unat start < unat end" using v by (simp add: valid_range_def)
  have e1: "unat (end - 1) = unat end - 1" using se by (subst unat_diff_u64) (simp_all add: u64_le_iff)
  have n1: "unat (n - 1) = unat n - 1"
    using se assms(2) by (subst unat_diff_u64) (simp_all add: u64_le_iff)
  let ?B = "bit_len (unat end - unat start - 1)"
  have fs: "drop_bit j start = drop_bit j (end - 1) \<longleftrightarrow> j = ?B"
    unfolding u64_eq_iff unat_drop_u64 e1 valid_range_shift_eq [OF v]
    using ch by (auto simp: chunk_def)
  let ?run = "cons_path (HashChildren hash) (unat start div 2 ^ j) ((unat end - 1) div 2 ^ j)
    ((unat n - 1) div 2 ^ j)"
  have loop: "rbind (consLoop hash (drop_bit j start) (drop_bit j (end - 1)) (drop_bit j (n - 1)) fr sr ps)
        (\<lambda>(tn', fr', sr').
          if tn' \<noteq> 0 then Inl (Errorf ''tlogx: proof too short (tn != 0 at end)'')
          else if fr' \<noteq> nodeHash then Inl (Errorf ''tlogx: reconstructed subtree hash != node_hash'')
          else if sr' \<noteq> rootHash then Inl (Errorf ''tlogx: reconstructed root hash != root_hash'')
          else Inr ()) = Inr () \<longleftrightarrow> ?run fr sr ps = Some (nodeHash, rootHash)" for fr sr ps nodeHash rootHash
    using consLoop_cons_path [of hash "drop_bit j start" "drop_bit j (end - 1)" "drop_bit j (n - 1)"
        fr sr ps nodeHash rootHash]
    unfolding unat_drop_u64 e1 n1 by (auto simp: rbind_eq_Inr if_Inl_eq_Inr)
  have "consistency_inputs hash start end n hs nodeHash
      = run_inputs hash j (unat start) (unat end) (unat n) hs nodeHash" for hs nodeHash
    unfolding consistency_inputs_def run_inputs_def Let_def init prod.case fs path_inputs_nodes unat_drop_u64 e1 n1 ..
  note inputs = this
  have nle: "\<not> end > n" using assms(2) by (simp add: not_less)
  have "VerifyConsistencyProof hash start end n hs nodeHash rootHash = Inr () \<longleftrightarrow>
      run_accepts hash j (unat start) (unat end) (unat n) hs nodeHash rootHash"
    for hs nodeHash rootHash
  proof -
    define whole where "whole = (j = ?B)"
    note unf = VerifyConsistencyProof_def assms(1) rbind_simps init Let_def prod.case fs
      run_accepts_def whole_def [symmetric] nle loop simp_thms if_True if_False list.case list.sel list.distinct
    show ?thesis
    proof (cases whole)
      case True
      then show ?thesis by (simp only: unf)
    next
      case False
      then show ?thesis by (cases hs) (simp_all only: unf Inl_Inr_False)
    qed
  qed
  with ch inputs show thesis by (rule that)
qed

section \<open>Generation and the reference generator\<close>

text \<open>What the generator relies on: the callback returns the leaf hashes below \<open>N\<close>.\<close>

definition leaves_served :: "(u64 \<Rightarrow> Hash result) \<Rightarrow> (nat \<Rightarrow> Hash) \<Rightarrow> nat \<Rightarrow> bool" where
  "leaves_served leafHash d N \<longleftrightarrow> (\<forall>i. unat i < N \<longrightarrow> leafHash i = Inr (d (unat i)))"

lemma splitPoint_eq: "1 < unat sz \<Longrightarrow> splitPoint sz = largestPowerOfTwoLT sz"
  by (simp add: splitPoint_def largestPowerOfTwoLT_def u64_le_iff)

lemma range_width:
  fixes lo hi :: u64
  assumes "lo < hi"
  shows "hi - lo = 1 \<longleftrightarrow> unat hi - unat lo = 1"
  using assms by (simp add: u64_eq_iff [of "hi - lo"] unat_diff_u64)

lemma split_range:
  fixes lo hi :: u64
  assumes "lo < hi" "hi - lo \<noteq> 1"
  shows "1 < unat hi - unat lo" "lo + splitPoint (hi - lo) = lo + largestPowerOfTwoLT (hi - lo)"
proof -
  show w: "1 < unat hi - unat lo"
    using assms range_width [OF assms(1)] unfolding u64_less_iff by linarith
  then show "lo + splitPoint (hi - lo) = lo + largestPowerOfTwoLT (hi - lo)"
    using assms(1) by (subst splitPoint_eq) (simp_all add: unat_diff_u64)
qed

lemma computeRange_mth:
  assumes served: "leaves_served leafHash d N" and "lo < hi" "unat hi \<le> N"
  shows "computeRange hash lo hi leafHash
    = Inr (mth (HashChildren hash) d (unat lo) (unat hi - unat lo))"
  using assms(2,3)
proof (induction "unat hi - unat lo" arbitrary: lo hi rule: less_induct)
  case less
  let ?M = "mth (HashChildren hash) d"
  show ?case
  proof (cases "hi - lo = 1")
    case True
    then have w: "unat hi - unat lo = 1" using range_width [OF less.prems(1)] by simp
    have "unat lo < N" using less.prems by (simp add: u64_less_iff)
    with served have "leafHash lo = Inr (d (unat lo))" by (simp add: leaves_served_def)
    with True w show ?thesis by (subst computeRange.simps) simp
  next
    case False
    define mid where "mid = lo + splitPoint (hi - lo)"
    note w = split_range [OF less.prems(1) False]
    note sp = split_widths [OF less.prems(1) w(1), folded w(2), folded mid_def]
    have L: "computeRange hash lo mid leafHash = Inr (?M (unat lo) (unat mid - unat lo))"
      using sp(2-5) less.prems(2) by (intro less.hyps) (simp_all add: u64_less_iff)
    have R: "computeRange hash mid hi leafHash = Inr (?M (unat mid) (unat hi - unat mid))"
      using sp(2-5) less.prems(2) by (intro less.hyps) (simp_all add: u64_less_iff)
    have "computeRange hash lo hi leafHash
        = Inr (HashChildren hash (?M (unat lo) (unat mid - unat lo)) (?M (unat mid) (unat hi - unat mid)))"
      by (subst computeRange.simps)
        (simp only: Let_def False if_False mid_def [symmetric] L R rbind_simps)
    then show ?thesis using sp(1) by (simp add: mth_split [OF w(1)] diff_diff_left)
  qed
qed

lemma subtreeSubproof_subproof:
  assumes served: "leaves_served leafHash d N"
    and "lo < hi" "unat hi \<le> N" "tree_range N (unat lo) (unat hi - unat lo)"
    and "valid_range (unat start) (unat end)" "lo \<le> start" "end \<le> hi"
  shows "subtreeSubproof hash start end lo hi known leafHash
    = Inr (subproof (HashChildren hash) d known (unat start) (unat end) (unat lo) (unat hi - unat lo))"
  using assms(2-)
proof (induction "unat hi - unat lo" arbitrary: lo hi start known rule: less_induct)
  case less
  let ?M = "mth (HashChildren hash) d" and ?S = "subproof (HashChildren hash) d"
  define w where "w = unat hi - unat lo"
  have hi: "unat hi = unat lo + w" using less.prems(1) by (simp add: w_def u64_less_iff)
  have se: "unat start < unat end" using less.prems(4) by (simp add: valid_range_def)
  have base: "start = lo \<and> end = hi \<longleftrightarrow> unat start = unat lo \<and> unat end = unat lo + w"
    unfolding u64_eq_iff hi ..
  show ?case
  proof (cases "start = lo \<and> end = hi")
    case True
    then have "?S known (unat start) (unat end) (unat lo) w = (if known then [] else [?M (unat lo) w])"
      using base by (subst subproof.simps) simp
    moreover have "computeRange hash lo hi leafHash = Inr (?M (unat lo) w)"
      unfolding w_def using served less.prems(1,2) by (rule computeRange_mth)
    ultimately show ?thesis
      using True by (subst subtreeSubproof.simps) (simp add: w_def [symmetric])
  next
    case False
    have n1: "hi - lo \<noteq> 1"
    proof
      assume "hi - lo = 1"
      then have "unat hi - unat lo = 1" using range_width [OF less.prems(1)] by simp
      then have "unat start = unat lo \<and> unat end = unat lo + w"
        using se less.prems(5,6) hi unfolding u64_le_iff by linarith
      with False base show False by simp
    qed
    define mid where "mid = lo + splitPoint (hi - lo)"
    note wd = split_range [OF less.prems(1) n1]
    have w1: "1 < w" using wd(1) by (simp add: w_def)
    note sp = split_widths [OF less.prems(1) wd(1), folded wd(2), folded mid_def]
    have k: "unat mid = unat lo + lp2 w" using sp(1) by (simp add: w_def)
    have lp: "lp2 w < w" by (rule lp2_less [OF w1])
    have R: "unat hi - unat mid = w - lp2 w" using k hi by simp
    have tr: "tree_range N (unat lo) w" using less.prems(3) by (simp add: w_def)
    note ts = tree_range_split [OF tr w1, folded k]
    have lm: "lo < mid" "mid < hi" using sp(2,3) by (simp_all add: u64_less_iff)
    have mN: "unat mid \<le> N" using sp(3) less.prems(2) by simp
    have cL: "computeRange hash lo mid leafHash = Inr (?M (unat lo) (lp2 w))"
      using computeRange_mth [OF served lm(1) mN] k by simp
    have cR: "computeRange hash mid hi leafHash = Inr (?M (unat lo + lp2 w) (w - lp2 w))"
      using computeRange_mth [OF served lm(2) less.prems(2)] k R by simp
    have nb: "\<not> (unat start = unat lo \<and> unat end = unat lo + w)" using False base by simp
    note unf = subtreeSubproof.simps [of hash start "end" lo hi known leafHash]
      Let_def False n1 if_False if_True mid_def [symmetric] cL cR rbind_simps
    consider "end \<le> mid" | "\<not> end \<le> mid" "mid \<le> start" | "\<not> end \<le> mid" "\<not> mid \<le> start" by blast
    then show ?thesis
    proof cases
      case 1
      have "subtreeSubproof hash start end lo mid known leafHash
          = Inr (?S known (unat start) (unat end) (unat lo) (unat mid - unat lo))"
        using sp(4) lm mN ts(1) k less.prems(4,5) 1 by (intro less.hyps) simp_all
      moreover have "unat end \<le> unat lo + lp2 w" using 1 k by (simp add: u64_le_iff)
      ultimately show ?thesis
        using 1 k subproof_step [OF w1 nb, of "HashChildren hash" d known] unfolding w_def [symmetric] by (simp only: unf) simp
    next
      case 2
      have "subtreeSubproof hash start end mid hi known leafHash
          = Inr (?S known (unat start) (unat end) (unat mid) (unat hi - unat mid))"
        using sp(5) lm less.prems ts(2) R 2 by (intro less.hyps) simp_all
      moreover have "unat lo + lp2 w < unat end" "unat lo + lp2 w \<le> unat start"
        using 2 k by (simp_all add: u64_le_iff)
      ultimately show ?thesis
        using 2 k R subproof_step [OF w1 nb, of "HashChildren hash" d known] unfolding w_def [symmetric] by (simp only: unf) simp
    next
      case 3
      obtain y where y: "lp2 w = 2 ^ y" using lp2_power by blast
      have sp3: "unat start = unat lo"
        using spanning_start(1) [OF less.prems(4), of "unat lo" y] 3 less.prems(5) ts(3) k
        by (simp add: u64_le_iff y)
      then have sl: "start = lo" by (simp add: u64_eq_iff)
      have eu: "unat end \<le> unat mid + lp2 w"
        using less.prems(6) hi lp2_double [OF w1] k by (simp add: u64_le_iff)
      have "2 ^ y dvd unat lo" using ts(3) unfolding y by (rule dvd_mult_right)
      then have "2 ^ y dvd unat mid" unfolding k y by simp
      then have vm: "valid_range (unat mid) (unat end)"
        using 3(1) eu by (intro valid_rangeI [where k = y]) (simp_all add: u64_le_iff y)
      have ih: "subtreeSubproof hash mid end mid hi False leafHash
          = Inr (?S False (unat mid) (unat end) (unat mid) (unat hi - unat mid))"
        using sp(5) lm less.prems(2,6) ts(2) R vm by (intro less.hyps) simp_all
      have "(start \<noteq> lo) = False" using sl by simp
      then have "subtreeSubproof hash start end lo hi known leafHash
          = Inr (?S False (unat mid) (unat end) (unat mid) (w - lp2 w) @ [?M (unat lo) (lp2 w)])"
        using 3 ih R by (simp only: unf)
      moreover have "\<not> unat end \<le> unat lo + lp2 w" "\<not> unat lo + lp2 w \<le> unat start"
        using 3 k by (simp_all add: u64_le_iff)
      ultimately show ?thesis
        unfolding w_def [symmetric] subproof_step [OF w1 nb] k by (simp only: if_False)
    qed
  qed
qed

section \<open>Generated proofs are accepted, accepted proofs are binding\<close>

lemma run_accepts_subproof:
  assumes "chunk N s e j"
  shows "run_accepts hash j s e N (subproof (HashChildren hash) d True s e 0 N)
    (mth (HashChildren hash) d s (e - s)) (mth (HashChildren hash) d 0 N)"
proof -
  let ?n = "HashChildren hash"
  let ?c = "(e - 1) div 2 ^ j" and ?L = "level ?n d N j"
  have v: "valid_range s e" "e \<le> N" using assms by (simp_all add: chunk_def)
  then have N: "0 < N" by (simp add: valid_range_def)
  have "tree_range N 0 N" using N by (simp add: tree_range_def valid_range_def)
  then have sub: "subproof ?n d True s e 0 N =
      (if j = bit_len (e - s - 1) then [] else [?L ?c]) @ audit ?n ?L 0 (Suc ((N - 1) div 2 ^ j)) ?c"
    using subproof_audit [OF _ level_range_whole [OF N], where lo = 0 and s = s and e = e and node = ?n
        and d = d and known = True] assms v(2) by simp
  note run = cons_path_chunk [OF assms, of ?n d]
  show ?thesis
  proof (cases "j = bit_len (e - s - 1)")
    case True
    have "?L ?c = mth ?n d s (e - s)" using chunk_whole [of N s e ?n d] assms True by (simp only:)
    with run sub True show ?thesis by (simp only: run_accepts_def Let_def simp_thms if_True append_Nil)
  next
    case False
    with run sub show ?thesis
      by (simp only: run_accepts_def Let_def if_False append_Cons append_Nil list.sel list.distinct simp_thms)
  qed
qed

lemma run_accepts_binding:
  assumes a: "run_accepts hash j s e n ps nh rh" and b: "run_accepts hash j s e n qs nh' rh"
  shows "nh = nh' \<and> ps = qs \<or> colliding hash (run_inputs hash j s e n ps nh) (run_inputs hash j s e n qs nh')"
proof -
  let ?run = "cons_path (HashChildren hash) (s div 2 ^ j) ((e - 1) div 2 ^ j) ((n - 1) div 2 ^ j)"
  let ?in = "\<lambda>r ps. map node_input (path_nodes (HashChildren hash) ((e - 1) div 2 ^ j) ((n - 1) div 2 ^ j) r ps)"
  have root: "eval_path (HashChildren hash) ((e - 1) div 2 ^ j) ((n - 1) div 2 ^ j) r xs = Some rh"
    if "?run r r xs = Some (x, rh)" for r x xs
    using cons_path_root [of "HashChildren hash" "s div 2 ^ j" "(e - 1) div 2 ^ j" "(n - 1) div 2 ^ j" r r xs] that by simp
  have bind: "r = r' \<and> xs = ys \<or> colliding hash (?in r xs) (?in r' ys)"
    if "?run r r xs = Some (x, rh)" "?run r' r' ys = Some (y, rh)" for r r' x y xs ys
    using eval_path_binding [OF root [OF that(1)] root [OF that(2)]]
    by (elim disjE) (auto intro: colliding_map [OF _ inj_node_input hash_node_input])
  show ?thesis
  proof (cases "j = bit_len (e - s - 1)")
    case True
    with a b have "?run nh nh ps = Some (nh, rh)" "?run nh' nh' qs = Some (nh', rh)"
      by (simp_all only: run_accepts_def Let_def if_True simp_thms)
    from bind [OF this] show ?thesis using True by (simp only: run_inputs_def Let_def if_True simp_thms)
  next
    case False
    with a b obtain p ps' q qs' where l: "ps = p # ps'" "qs = q # qs'"
      and r: "?run p p ps' = Some (nh, rh)" "?run q q qs' = Some (nh', rh)"
      by (cases ps; cases qs) (auto simp: run_accepts_def Let_def)
    from bind [OF r] r l False show ?thesis
      by (auto simp: run_inputs_def Let_def)
  qed
qed

lemma GenerateConsistencyProof_subproof:
  assumes "leaves_served leafHash d (unat n)" "IsValid start end = Inr True" "end \<le> n"
  shows "GenerateConsistencyProof hash start end n leafHash
    = Inr (subproof (HashChildren hash) d True (unat start) (unat end) 0 (unat n))"
proof -
  have v: "valid_range (unat start) (unat end)" using assms(2) by (rule IsValid_TrueD)
  have pos: "0 < unat n" using v assms(3) by (simp add: valid_range_def u64_le_iff)
  then have n0: "0 < n" by (simp add: u64_less_iff)
  have tr: "tree_range (unat n) (unat (0::u64)) (unat n - unat (0::u64))"
    using pos by (simp add: tree_range_def valid_range_def)
  have gt: "\<not> n < end" using assms(3) by (simp add: not_less)
  have "subtreeSubproof hash start end 0 n True leafHash
      = Inr (subproof (HashChildren hash) d True (unat start) (unat end) 0 (unat n))"
    using subtreeSubproof_subproof [OF assms(1) n0 order_refl tr v _ assms(3), of hash True] by simp
  moreover have "subproof (HashChildren hash) d True 0 (unat n) 0 (unat n) = []"
    by (simp add: subproof.simps)
  ultimately show ?thesis using assms(2) gt by (auto simp: GenerateConsistencyProof_def)
qed

lemma generated_proof_accepted:
  assumes "leaves_served leafHash d (unat n)" "IsValid start end = Inr True" "end \<le> n"
  shows "\<exists>proof. GenerateConsistencyProof hash start end n leafHash = Inr proof \<and>
    VerifyConsistencyProof hash start end n proof
      (mth (HashChildren hash) d (unat start) (unat end - unat start))
      (mth (HashChildren hash) d 0 (unat n)) = Inr ()"
proof -
  obtain j where "chunk (unat n) (unat start) (unat end) j"
    and "\<And>proof nodeHash rootHash.
      VerifyConsistencyProof hash start end n proof nodeHash rootHash = Inr () \<longleftrightarrow>
      run_accepts hash j (unat start) (unat end) (unat n) proof nodeHash rootHash"
    using Verify_run [OF assms(2,3)] by metis
  then show ?thesis
    using GenerateConsistencyProof_subproof [OF assms] run_accepts_subproof by simp
qed

section \<open>Properties\<close>

text \<open>
  C12: completeness. For every valid subtree of a tree of \<open>n\<close> leaves, \<open>GenerateConsistencyProof\<close>
  succeeds (its internal-error branch and its shift panic are unreachable) and
  \<open>VerifyConsistencyProof\<close> accepts the proof for the subtree hash and the root hash.
\<close>

theorem consistency_proof_roundtrip:
  assumes "leaves_served leafHash d (unat n)" "IsValid start end = Inr True" "end \<le> n"
  shows "\<exists>proof. GenerateConsistencyProof hash start end n leafHash = Inr proof \<and>
    VerifyConsistencyProof hash start end n proof
      (mth (HashChildren hash) d (unat start) (unat end - unat start))
      (mth (HashChildren hash) d 0 (unat n)) = Inr ()"
  using assms by (rule generated_proof_accepted)

theorem consistency_proof_roundtrip_witness:
  "\<exists>proof. GenerateConsistencyProof mk_Hash 8 13 14 (\<lambda>i. Inr (mk_Hash [ucast i])) = Inr proof \<and>
    VerifyConsistencyProof mk_Hash 8 13 14 proof
      (mth (HashChildren mk_Hash) (\<lambda>i. mk_Hash [ucast (of_nat i :: u64)]) 8 5)
      (mth (HashChildren mk_Hash) (\<lambda>i. mk_Hash [ucast (of_nat i :: u64)]) 0 14) = Inr ()"
proof -
  have v: "IsValid 8 13 = Inr True" by code_simp
  have "leaves_served (\<lambda>i. Inr (mk_Hash [ucast i])) (\<lambda>i. mk_Hash [ucast (of_nat i :: u64)]) (unat (14::u64))"
    by (simp add: leaves_served_def)
  from consistency_proof_roundtrip [OF this v] show ?thesis by simp
qed

text \<open>
  C6: soundness. When \<open>VerifyConsistencyProof\<close> accepts a proof against the root hash of a tree with
  leaf hashes \<open>d\<close>, the node hash is the hash of the leaves of the subtree, and the proof is the one
  \<open>GenerateConsistencyProof\<close> makes, or a collision can be read off: one of the strings hashed in the check
  of the proof differs from one of those hashed in the check of the generated proof and has the same hash.
\<close>

theorem VerifyConsistencyProof_sound:
  assumes "VerifyConsistencyProof hash start end n proof nodeHash
      (mth (HashChildren hash) d 0 (unat n)) = Inr ()"
  shows "\<exists>gen. GenerateConsistencyProof hash start end n (\<lambda>i. Inr (d (unat i))) = Inr gen \<and>
    (nodeHash = mth (HashChildren hash) d (unat start) (unat end - unat start) \<and> proof = gen \<or>
     (\<exists>x\<in>set (consistency_inputs hash start end n proof nodeHash).
       \<exists>y\<in>set (consistency_inputs hash start end n gen (mth (HashChildren hash) d (unat start) (unat end - unat start))).
         x \<noteq> y \<and> hash x = hash y))"
proof -
  have v: "IsValid start end = Inr True" "end \<le> n"
    using assms by (auto simp: VerifyConsistencyProof_def rbind_eq_Inr if_Inl_eq_Inr not_less)
  obtain j where j: "chunk (unat n) (unat start) (unat end) j"
    and inputs: "\<And>proof nodeHash. consistency_inputs hash start end n proof nodeHash
      = run_inputs hash j (unat start) (unat end) (unat n) proof nodeHash"
    and run: "\<And>proof nodeHash rootHash.
      VerifyConsistencyProof hash start end n proof nodeHash rootHash = Inr () \<longleftrightarrow>
      run_accepts hash j (unat start) (unat end) (unat n) proof nodeHash rootHash"
    using Verify_run [OF v] by blast
  have "leaves_served (\<lambda>i. Inr (d (unat i))) d (unat n)" by (simp add: leaves_served_def)
  note gen = GenerateConsistencyProof_subproof [OF this v]
  from run_accepts_binding [OF assms [unfolded run] run_accepts_subproof [OF j]] show ?thesis
    unfolding inputs gen sum.inject(2) simp_thms colliding_def .
qed

theorem VerifyConsistencyProof_sound_witness:
  "\<exists>gen. GenerateConsistencyProof mk_Hash 0 1 2 (\<lambda>i. Inr (mk_Hash [of_nat (unat i + 3)])) = Inr gen \<and>
    (mk_Hash [3] = mth (HashChildren mk_Hash) (\<lambda>i. mk_Hash [of_nat (i + 3)]) 0 1 \<and> [mk_Hash [4]] = gen \<or>
     (\<exists>x\<in>set (consistency_inputs mk_Hash 0 1 2 [mk_Hash [4]] (mk_Hash [3])).
       \<exists>y\<in>set (consistency_inputs mk_Hash 0 1 2 gen (mth (HashChildren mk_Hash) (\<lambda>i. mk_Hash [of_nat (i + 3)]) 0 1)).
         x \<noteq> y \<and> mk_Hash x = mk_Hash y))"
proof -
  have e: "mth (HashChildren mk_Hash) (\<lambda>i. mk_Hash [of_nat (i + 3)]) 0 2
      = HashChildren mk_Hash (mk_Hash [3]) (mk_Hash [4])"
    by code_simp
  have "VerifyConsistencyProof mk_Hash 0 1 2 [mk_Hash [4]] (mk_Hash [3])
      (HashChildren mk_Hash (mk_Hash [3]) (mk_Hash [4])) = Inr ()"
    by code_simp
  with VerifyConsistencyProof_sound [of mk_Hash 0 1 2 "[mk_Hash [4]]" "mk_Hash [3]"
      "\<lambda>i. mk_Hash [of_nat (i + 3)]"] e
  show ?thesis by simp
qed

end
