(* ===== verification/MirrorServer.thy ===== *)
theory MirrorServer
  imports Follower Consistency
begin

text \<open>
  The sign-subtree endpoint of a mirror (mirror/server.go): the parser of requests, the check of the CA's
  subtree cosignature, and the handler. A response is its status code and body, with the label the
  handler counts the request under. The handler reads the follower twice, and the follower may have
  advanced in between, so the model gives it two states.
\<close>

section \<open>Configuration\<close>

record ServerConfig =
  cfgFollower :: "Follower option"
  cfgSigner :: "signer option"
  cfgCosignerID :: TrustAnchorID
  RequireCASignatureOnSubtree :: bool
  UpstreamCAKey :: "CosignerKey option"

definition NewServer :: "ServerConfig \<Rightarrow> ServerConfig result" where
  "NewServer cfg =
     (case cfgFollower cfg of None \<Rightarrow> Inl (Errorf ''mirror: ServerConfig.Follower required'')
      | Some f \<Rightarrow>
     (case cfgSigner cfg of None \<Rightarrow> Inl (Errorf ''mirror: ServerConfig.Signer required'')
      | Some s \<Rightarrow>
          if cfgCosignerID cfg = [] then Inl (Errorf ''mirror: ServerConfig.CosignerID required'')
          else if SignerAlgorithm s \<noteq> AlgMLDSA44 then Inl (Errorf ''mirror: witness Signer must be ML-DSA-44'')
          else if RequireCASignatureOnSubtree cfg then
            (case UpstreamCAKey cfg of
               None \<Rightarrow> Inl (Errorf ''mirror: UpstreamCAKey required when RequireCASignatureOnSubtree'')
             | Some k \<Rightarrow>
                 if CKAlgorithm k \<noteq> AlgMLDSA44 then Inl (Errorf ''mirror: UpstreamCAKey must be ML-DSA-44'') else Inr cfg)
          else Inr cfg))"

definition MaxRequestBytes :: nat where
  "MaxRequestBytes = 16 * 1024"

section \<open>Requests\<close>

record parsedRequest =
  pstart :: u64
  pend :: u64
  psubtreeHash :: Hash
  psubtreeCosigs :: "noteSignature list"
  pproof :: "Hash list"
  pcheckpointNote :: signedNote
  pcheckpointOrigin :: string
  pcheckpointSize :: u64
  pcheckpointRoot :: Hash

function sectionLoop ::
    "string \<Rightarrow> noteSignature list \<Rightarrow> Hash list \<Rightarrow> bool \<Rightarrow> (noteSignature list \<times> Hash list \<times> string) result" where
  "sectionLoop r cosigs hs sawProof =
     (case readLine r of
        None \<Rightarrow> Inl (Errorf ''request ended before checkpoint'')
      | Some (line, rest) \<Rightarrow>
          if line = [] then Inr (cosigs, hs, rest)
          else if HasPrefix line (emDash @ '' '') then
            if sawProof then Inl (Errorf ''subtree cosignature line after proof line'')
            else if length cosigs \<ge> 8 then Inl (Errorf ''more than 8 subtree cosignature lines'')
            else rbind (rwrap ''subtree cosignature'' (parseNoteSignatureLine line)) (\<lambda>ns.
                   sectionLoop rest (cosigs @ [ns]) hs sawProof)
          else if length hs \<ge> 63 then Inl (Errorf ''more than 63 proof lines'')
          else rbind (rwrap ''proof line'' (decodeHash line)) (\<lambda>h. sectionLoop rest cosigs (hs @ [h]) True))"
  by pat_completeness auto
termination
  by (relation "measure (\<lambda>(r, _). length r)") (auto dest: readLine_shorter)

declare sectionLoop.simps [simp del]

definition nextLine :: "string \<Rightarrow> string \<Rightarrow> (string \<times> string) result" where
  "nextLine what r = (case readLine r of None \<Rightarrow> Inl (wrapf what ioEOF) | Some x \<Rightarrow> Inr x)"

definition parseRequest :: "string \<Rightarrow> parsedRequest result" where
  "parseRequest body =
     rbind (nextLine ''subtree range line'' body) (\<lambda>(rangeLine, r1).
       case split_on (CHR '' '') rangeLine of
         [f0, f1, f2] \<Rightarrow>
           if f0 \<noteq> ''subtree'' then Inl (Errorf ''malformed subtree range line'')
           else
             rbind (rwrap ''subtree start'' (parseCanonicalDecimal f1)) (\<lambda>start.
             rbind (rwrap ''subtree end'' (parseCanonicalDecimal f2)) (\<lambda>fin.
             rbind (nextLine ''subtree hash line'' r1) (\<lambda>(hashLine, r2).
             rbind (rwrap ''subtree hash'' (decodeHash hashLine)) (\<lambda>subtreeHash.
             rbind (sectionLoop r2 [] [] False) (\<lambda>(cosigs, hs, r3).
             rbind (rwrap ''checkpoint note'' (readSignedNote r3)) (\<lambda>(checkpointNote, _).
               if length (nsigs checkpointNote) > 8 then Inl (Errorf ''checkpoint has too many signatures'')
               else (case nbody checkpointNote of
                 [origin, l1, l2] \<Rightarrow>
                   rbind (rwrap ''checkpoint size'' (parseCanonicalDecimal l1)) (\<lambda>cpSize.
                   rbind (rwrap ''checkpoint root'' (decodeHash l2)) (\<lambda>cpRoot.
                     Inr \<lparr>pstart = start, pend = fin, psubtreeHash = subtreeHash, psubtreeCosigs = cosigs,
                          pproof = hs, pcheckpointNote = checkpointNote, pcheckpointOrigin = origin,
                          pcheckpointSize = cpSize, pcheckpointRoot = cpRoot\<rparr>))
               | _ \<Rightarrow> Inl (Errorf ''checkpoint note: body lines, want 3''))))))))
       | _ \<Rightarrow> Inl (Errorf ''malformed subtree range line''))"

section \<open>The CA's cosignature\<close>

text \<open>The first line with the CA's key name and key ID; \<open>None\<close> when there is no such line.\<close>

fun findCosig :: "string \<Rightarrow> bytes \<Rightarrow> noteSignature list \<Rightarrow> bytes option result" where
  "findCosig wantKey wantKeyID [] = Inr None"
| "findCosig wantKey wantKeyID (c # cs) =
     (if nkeyName c \<noteq> wantKey then findCosig wantKey wantKeyID cs
      else if length (sigBytes c) < 4 \<or> take 4 (sigBytes c) \<noteq> wantKeyID then findCosig wantKey wantKeyID cs
      else
        rbind (rwrap ''CA subtree cosignature'' (ParseTimestampedSignature (drop 4 (sigBytes c)))) (\<lambda>(ts, sig).
          if ts \<noteq> 0 then Inl (Errorf ''CA subtree cosignature has non-zero timestamp'') else Inr (Some sig)))"

definition verifyCAOnSubtree ::
    "'pk mldsa \<Rightarrow> (bytes \<Rightarrow> Hash) \<Rightarrow> CosignerKey \<Rightarrow> TrustAnchorID \<Rightarrow> parsedRequest \<Rightarrow> unit result" where
  "verifyCAOnSubtree mlib sha256 key logID p =
     (let wantKey = OIDName (CKID key)
      in rbind (CosignatureKeyID sha256 wantKey (CKAlgorithm key) (CKPublicKey key)) (\<lambda>wantKeyID.
         rbind (findCosig wantKey wantKeyID (psubtreeCosigs p)) (\<lambda>found.
           case found of None \<Rightarrow> Inl (Errorf ''no subtree cosignature'')
           | Some rawSig \<Rightarrow>
               rbind (MarshalSignatureInput (CKID key)
                   \<lparr>SubLogID = logID, SubStart = pstart p, SubEnd = pend p, SubHash = psubtreeHash p\<rparr>) (\<lambda>msg.
                 VerifyMTCSignature mlib key \<lparr>CosignerID = CKID key, Signature = rawSig\<rparr> msg))))"

section \<open>The handler\<close>

record response =
  rlabel :: string
  rcode :: nat
  rbody :: string

definition http_Error :: "string \<Rightarrow> string \<Rightarrow> nat \<Rightarrow> response" where
  "http_Error label msg code = \<lparr>rlabel = label, rcode = code, rbody = msg @ [newline]\<rparr>"

text \<open>
  A panic in a callee ends the handler: net/http closes the connection without an answer, which is code 0
  here, and the deferred count sees the label as it was set first. Any other error is answered.
\<close>

definition dropped :: response where
  "dropped = \<lparr>rlabel = ''ok'', rcode = 0, rbody = []\<rparr>"

definition answerError :: "goerror \<Rightarrow> string \<Rightarrow> string \<Rightarrow> nat \<Rightarrow> response" where
  "answerError e label msg code = (case e of Panic _ \<Rightarrow> dropped | _ \<Rightarrow> http_Error label msg code)"

lemma answerError_ok [simp]: "code \<noteq> 200 \<Longrightarrow> rcode (answerError e label msg code) \<noteq> 200"
  by (simp add: answerError_def dropped_def http_Error_def split: goerror.splits)

text \<open>Steps 7 and 8: the label stays as it was when they fail.\<close>

definition signResponse :: "(bytes \<Rightarrow> Hash) \<Rightarrow> signer \<Rightarrow> TrustAnchorID \<Rightarrow> MTCSubtree \<Rightarrow> response" where
  "signResponse sha256 s cosignerID subtree =
     (case MarshalSignatureInput cosignerID subtree of
        Inl e \<Rightarrow> answerError e ''ok'' ''marshal sig input'' 500
      | Inr msg \<Rightarrow>
     (case Sign s msg of
        Inl e \<Rightarrow> answerError e ''ok'' ''sign'' 500
      | Inr sig \<Rightarrow>
          let kname = OIDName cosignerID
          in (case CosignatureKeyID sha256 kname (SignerAlgorithm s) (SignerPublicKey s) of
                Inl e \<Rightarrow> answerError e ''ok'' ''key id'' 500
              | Inr kid \<Rightarrow>
                  \<lparr>rlabel = ''ok'', rcode = 200,
                   rbody = sigLine kname (kid @ MarshalTimestampedSignature 0 sig) @ [newline]\<rparr>)))"

definition handle ::
    "tlog \<Rightarrow> 'pk mldsa \<Rightarrow> (bytes \<Rightarrow> Hash) \<Rightarrow> ServerConfig \<Rightarrow> Follower \<Rightarrow> Follower \<Rightarrow> string \<Rightarrow> string \<Rightarrow> response" where
  "handle lib mlib sha256 cfg f1 f2 meth body =
     (if meth \<noteq> ''POST'' then http_Error ''method_not_allowed'' ''method not allowed'' 405
      else if length body > MaxRequestBytes then http_Error ''bad_body'' ''read body'' 400
      else case parseRequest body of
        Inl e \<Rightarrow> answerError e ''parse_error'' ''parse request'' 400
      | Inr p \<Rightarrow>
          if pstart p \<ge> pend p \<or> pend p > pcheckpointSize p then
            http_Error ''bad_range'' ''invalid subtree range'' 400
          else if pcheckpointOrigin p \<noteq> OIDName (UpLogID (fup f1)) then
            http_Error ''unknown_origin'' ''unknown checkpoint origin'' 404
          else case (if RequireCASignatureOnSubtree cfg
                     then verifyCAOnSubtree mlib sha256 (the (UpstreamCAKey cfg)) (UpLogID (fup f1)) p else Inr ()) of
            Inl e \<Rightarrow> answerError e ''ca_sig_error'' ''CA signature on subtree'' 403
          | Inr _ \<Rightarrow>
              let (currentSize, currentRoot, currentNote) = Current f1
              in if pcheckpointSize p \<noteq> currentSize \<or> pcheckpointRoot p \<noteq> currentRoot then
                   \<lparr>rlabel = ''checkpoint_conflict'', rcode = 409, rbody = string_of currentNote\<rparr>
                 else case VerifyConsistencyProof sha256 (pstart p) (pend p) currentSize (pproof p)
                             (psubtreeHash p) currentRoot of
                   Inl e \<Rightarrow> answerError e ''consistency_error'' ''consistency proof'' 422
                 | Inr _ \<Rightarrow>
                     (case follower_SubtreeHash lib sha256 f2 (pstart p) (pend p) of
                        Inl e \<Rightarrow> answerError e ''subtree_hash_error'' ''subtree hash'' 500
                      | Inr localHash \<Rightarrow>
                          if localHash \<noteq> psubtreeHash p then
                            http_Error ''subtree_hash_mismatch'' ''subtree hash mismatch'' 400
                          else
                            signResponse sha256 (the (cfgSigner cfg)) (cfgCosignerID cfg)
                              \<lparr>SubLogID = UpLogID (fup f2), SubStart = pstart p, SubEnd = pend p,
                               SubHash = psubtreeHash p\<rparr>))"

section \<open>What is signed\<close>

lemma VerifyConsistencyProof_valid:
  "VerifyConsistencyProof hash start fin n hs nh rh = Inr () \<Longrightarrow> IsValid start fin = Inr True \<and> fin \<le> n"
  by (auto simp: VerifyConsistencyProof_def rbind_eq_Inr if_Inl_eq_Inr not_less)

definition ca_signed :: "'pk mldsa \<Rightarrow> CosignerKey \<Rightarrow> MTCSubtree \<Rightarrow> bool" where
  "ca_signed mlib key st \<longleftrightarrow>
     (\<exists>sig msg. MarshalSignatureInput (CKID key) st = Inr msg \<and>
        VerifyMTCSignature mlib key \<lparr>CosignerID = CKID key, Signature = sig\<rparr> msg = Inr ())"

lemma verifyCAOnSubtree_signed:
  "verifyCAOnSubtree mlib sha256 key logID p = Inr () \<Longrightarrow>
     ca_signed mlib key \<lparr>SubLogID = logID, SubStart = pstart p, SubEnd = pend p, SubHash = psubtreeHash p\<rparr>"
  by (auto simp: verifyCAOnSubtree_def ca_signed_def rbind_eq_Inr Let_def split: option.splits) blast

lemma signResponse_ok:
  assumes "rcode (signResponse sha256 s cID st) = 200"
  obtains msg sig kid where "MarshalSignatureInput cID st = Inr msg" "Sign s msg = Inr sig"
    "CosignatureKeyID sha256 (OIDName cID) (SignerAlgorithm s) (SignerPublicKey s) = Inr kid"
    "signResponse sha256 s cID st =
       \<lparr>rlabel = ''ok'', rcode = 200, rbody = sigLine (OIDName cID) (kid @ MarshalTimestampedSignature 0 sig) @ [newline]\<rparr>"
  using assms by (auto simp: signResponse_def http_Error_def Let_def split: sum.splits)

text \<open>The checks a signed request has passed.\<close>

lemma handle_ok:
  assumes "rcode (handle lib mlib sha256 cfg f1 f2 meth body) = 200"
  obtains p where "meth = ''POST''" "parseRequest body = Inr p" "pstart p < pend p"
    "pcheckpointOrigin p = OIDName (UpLogID (fup f1))"
    "RequireCASignatureOnSubtree cfg \<Longrightarrow> verifyCAOnSubtree mlib sha256 (the (UpstreamCAKey cfg)) (UpLogID (fup f1)) p = Inr ()"
    "pcheckpointSize p = fsize f1" "pcheckpointRoot p = froot f1"
    "VerifyConsistencyProof sha256 (pstart p) (pend p) (fsize f1) (pproof p) (psubtreeHash p) (froot f1) = Inr ()"
    "follower_SubtreeHash lib sha256 f2 (pstart p) (pend p) = Inr (psubtreeHash p)"
    "handle lib mlib sha256 cfg f1 f2 meth body =
       signResponse sha256 (the (cfgSigner cfg)) (cfgCosignerID cfg)
         \<lparr>SubLogID = UpLogID (fup f2), SubStart = pstart p, SubEnd = pend p, SubHash = psubtreeHash p\<rparr>"
  using assms
  by (auto simp: handle_def http_Error_def Current_def Let_def not_le split: if_splits sum.splits)

lemma mth_leaf_prefix:
  assumes "unat fin \<le> length es" "start < (fin :: u64)"
  shows "mth node (leaf_hashes sha256 (es @ es')) (unat start) (unat fin - unat start)
    = mth node (leaf_hashes sha256 es) (unat start) (unat fin - unat start)"
  using assms by (intro mth_cong) (auto simp: leaf_hashes_def nth_append u64_less_iff)

context tlog_laws
begin

text \<open>The hash the follower serves for a range is that of its entries, also after it has advanced.\<close>

lemma follower_SubtreeHash_mth:
  assumes "follower_inv lib mlib sha256 es f1" "polls lib mlib f1 f2" "fsize f2 \<le> 2 ^ 63"
    and "start < fin" "fin \<le> fsize f1"
  shows "follower_SubtreeHash lib sha256 f2 start fin =
    Inr (mth (HashChildren sha256) (leaf_hashes sha256 es) (unat start) (unat fin - unat start))"
proof -
  obtain es' where inv: "follower_inv lib mlib sha256 (es @ es') f2" using polls_inv [OF assms(2,1)] by blast
  have l: "unat (fsize f1) = length es" "unat (fsize f2) = length (es @ es')"
    using assms(1) inv by (simp_all add: follower_inv_def)
  have fin: "unat fin \<le> length es" using assms(5) l(1) by (simp add: u64_le_iff)
  then have ge: "\<not> fsize f2 < fin" using l(2) by (simp add: u64_less_iff)
  have rs: "reader_serves (StoredHashIndex lib) (ReadHashes (fhashes f2)) (HashChildren sha256)
      (leaf_hashes sha256 (es @ es')) (length (es @ es'))"
    using inv by (simp add: follower_inv_def valid_store_def)
  have n: "length (es @ es') \<le> 2 ^ 63" using assms(3) l(2) by (simp add: u64_le_iff)
  show ?thesis
    using subtreeHashFromHR_mth [OF rs n assms(4)] fin ge mth_leaf_prefix [OF fin assms(4)]
    by (simp add: follower_SubtreeHash_def SubtreeHash_def)
qed

lemma polls_up: "polls lib mlib f f' \<Longrightarrow> fup f' = fup f"
proof (induction rule: polls.induct)
  case (poll f1 http f2)
  then show ?case
    using advance_cases [of lib mlib http f1 _ f2]
    by (fastforce simp: poll_def same_log_def extended_def split: if_splits)
qed simp

end

text \<open>
  C5: a mirror only cosigns subtrees of the log it has verified. When the handler answers 200, the request
  named a valid subtree inside the follower's current tree with that tree's size and root, the signed
  message is the signature input for the subtree with the Merkle hash of the mirrored entries in that
  range, also when the follower advances while the request is handled, and, when the server is configured
  so, the CA's signature over the same subtree was verified.
\<close>

theorem mirror_signs_own_log:
  assumes "tlog_laws lib sha256" "follower_inv lib mlib sha256 es f1" "polls lib mlib f1 f2" "fsize f2 \<le> 2 ^ 63"
    and "rcode (handle lib mlib sha256 cfg f1 f2 meth body) = 200"
  shows "\<exists>p msg sig kid. parseRequest body = Inr p \<and> IsValid (pstart p) (pend p) = Inr True \<and> pend p \<le> fsize f1 \<and>
    pcheckpointSize p = fsize f1 \<and> pcheckpointRoot p = froot f1 \<and>
    (let st = \<lparr>SubLogID = UpLogID (fup f1), SubStart = pstart p, SubEnd = pend p,
         SubHash = mth (HashChildren sha256) (leaf_hashes sha256 es) (unat (pstart p)) (unat (pend p) - unat (pstart p))\<rparr>
     in MarshalSignatureInput (cfgCosignerID cfg) st = Inr msg \<and> Sign (the (cfgSigner cfg)) msg = Inr sig \<and>
        rbody (handle lib mlib sha256 cfg f1 f2 meth body) =
          sigLine (OIDName (cfgCosignerID cfg)) (kid @ MarshalTimestampedSignature 0 sig) @ [newline] \<and>
        (RequireCASignatureOnSubtree cfg \<longrightarrow> ca_signed mlib (the (UpstreamCAKey cfg)) st))"
proof -
  obtain p where p: "parseRequest body = Inr p" "pstart p < pend p"
      "RequireCASignatureOnSubtree cfg \<Longrightarrow> verifyCAOnSubtree mlib sha256 (the (UpstreamCAKey cfg)) (UpLogID (fup f1)) p = Inr ()"
      "pcheckpointSize p = fsize f1" "pcheckpointRoot p = froot f1"
      "VerifyConsistencyProof sha256 (pstart p) (pend p) (fsize f1) (pproof p) (psubtreeHash p) (froot f1) = Inr ()"
      "follower_SubtreeHash lib sha256 f2 (pstart p) (pend p) = Inr (psubtreeHash p)"
      "handle lib mlib sha256 cfg f1 f2 meth body =
       signResponse sha256 (the (cfgSigner cfg)) (cfgCosignerID cfg)
         \<lparr>SubLogID = UpLogID (fup f2), SubStart = pstart p, SubEnd = pend p, SubHash = psubtreeHash p\<rparr>"
    using handle_ok [OF assms(5)] by metis
  have v: "IsValid (pstart p) (pend p) = Inr True" "pend p \<le> fsize f1"
    using VerifyConsistencyProof_valid [OF p(6)] by simp_all
  have h: "psubtreeHash p = mth (HashChildren sha256) (leaf_hashes sha256 es) (unat (pstart p)) (unat (pend p) - unat (pstart p))"
    using tlog_laws.follower_SubtreeHash_mth [OF assms(1-4) p(2) v(2)] p(7) by simp
  have u: "fup f2 = fup f1" using tlog_laws.polls_up [OF assms(1,3)] .
  have "rcode (signResponse sha256 (the (cfgSigner cfg)) (cfgCosignerID cfg)
      \<lparr>SubLogID = UpLogID (fup f2), SubStart = pstart p, SubEnd = pend p, SubHash = psubtreeHash p\<rparr>) = 200"
    using assms(5) p(8) by simp
  then obtain msg sig kid where "MarshalSignatureInput (cfgCosignerID cfg)
        \<lparr>SubLogID = UpLogID (fup f1), SubStart = pstart p, SubEnd = pend p, SubHash = psubtreeHash p\<rparr> = Inr msg"
      "Sign (the (cfgSigner cfg)) msg = Inr sig"
      "rbody (handle lib mlib sha256 cfg f1 f2 meth body) =
          sigLine (OIDName (cfgCosignerID cfg)) (kid @ MarshalTimestampedSignature 0 sig) @ [newline]"
    using signResponse_ok u p(8) by (metis response.select_convs(3))
  moreover have "RequireCASignatureOnSubtree cfg \<Longrightarrow> ca_signed mlib (the (UpstreamCAKey cfg))
      \<lparr>SubLogID = UpLogID (fup f1), SubStart = pstart p, SubEnd = pend p, SubHash = psubtreeHash p\<rparr>"
    using verifyCAOnSubtree_signed p(3) by blast
  ultimately show ?thesis using p(1,4,5) v unfolding h Let_def by blast
qed

section \<open>The CA's request is understood\<close>

lemma encoded_line:
  shows "newline \<notin> set (EncodeToString (hash_bytes h))" "EncodeToString (hash_bytes h) \<noteq> []"
    "\<not> HasPrefix (EncodeToString (hash_bytes h)) (emDash @ '' '')"
proof -
  note pl = EncodeToString_plain [of "hash_bytes h"]
  show "newline \<notin> set (EncodeToString (hash_bytes h))" by (rule plain_not_in(1) [OF pl])
  show ne: "EncodeToString (hash_bytes h) \<noteq> []" by simp
  then obtain c cs where c: "EncodeToString (hash_bytes h) = c # cs" by (cases "EncodeToString (hash_bytes h)") auto
  then have "plain_char c" using pl by simp
  then have "c \<noteq> CHR 0xE2" by (auto simp: plain_char_def)
  then show "\<not> HasPrefix (EncodeToString (hash_bytes h)) (emDash @ '' '')"
    unfolding c by (simp add: emDash_def HasPrefix_Cons)
qed

lemma sectionLoop_proof:
  "length hs + length ps \<le> 63 \<Longrightarrow>
     sectionLoop (concat (map (\<lambda>h. EncodeToString (hash_bytes h) @ [newline]) ps) @ newline # r) cosigs hs saw
       = Inr (cosigs, hs @ ps, r)"
proof (induction ps arbitrary: hs saw)
  case Nil
  show ?case by (subst sectionLoop.simps) (simp add: readLine_line [of "[]", simplified])
next
  case (Cons h ps)
  note IH = Cons.IH [of "hs @ [h]" True]
  show ?case
    using Cons.prems IH encoded_line(3) [of h]
    by (subst sectionLoop.simps) (simp add: readLine_line [OF encoded_line(1)])
qed

lemma sectionLoop_cosig:
  assumes "plain name" "length cosigs < 8"
  shows "sectionLoop (sigLine name blob @ newline # r) cosigs hs False
    = sectionLoop r (cosigs @ [\<lparr>nkeyName = name, sigBytes = blob\<rparr>]) hs False"
  using sigLine_props [OF assms(1)] parseNoteSignatureLine_sigLine [OF assms(1)] assms(2)
  by (subst sectionLoop.simps) (simp add: readLine_line)

lemma range_line:
  defines "l a b \<equiv> ''subtree '' @ FormatUint a @ '' '' @ FormatUint b"
  shows "newline \<notin> set (l a b)" "split_on (CHR '' '') (l a b) = [''subtree'', FormatUint a, FormatUint b]"
proof -
  have nl: "newline \<notin> set ''subtree ''" "newline \<noteq> CHR '' ''" by (simp_all add: newline_def)
  show "newline \<notin> set (l a b)" using nl plain_not_in(1) [OF plain_uint] by (simp add: l_def)
  have "l a b = join_with (CHR '' '') [''subtree'', FormatUint a, FormatUint b]" by (simp add: l_def)
  moreover have "split_on (CHR '' '') (join_with (CHR '' '') [''subtree'', FormatUint a, FormatUint b])
      = [''subtree'', FormatUint a, FormatUint b]"
    using plain_not_in(2) [OF plain_uint] by (intro split_join) auto
  ultimately show "split_on (CHR '' '') (l a b) = [''subtree'', FormatUint a, FormatUint b]" by simp
qed

text \<open>The cosignature lines of a request.\<close>

definition request_cosigs :: "(bytes \<Rightarrow> Hash) \<Rightarrow> SubtreeRequest \<Rightarrow> noteSignature list result" where
  "request_cosigs sha256 r =
     (case CASignature r of None \<Rightarrow> Inr []
      | Some s \<Rightarrow> rbind (CosignatureKeyID sha256 (OIDName (CACosignerID r)) AlgMLDSA44 (CACosignerKey r)) (\<lambda>kid.
          Inr [\<lparr>nkeyName = OIDName (CACosignerID r), sigBytes = kid @ MarshalTimestampedSignature 0 (Signature s)\<rparr>]))"

definition expected_request ::
    "SubtreeRequest \<Rightarrow> MTCSubtree \<Rightarrow> noteSignature list \<Rightarrow> signedNote \<Rightarrow> TrustAnchorID \<Rightarrow> u64 \<Rightarrow> Hash \<Rightarrow> parsedRequest" where
  "expected_request r st cosigs nt logID sz rt =
     \<lparr>pstart = SubStart st, pend = SubEnd st, psubtreeHash = SubHash st, psubtreeCosigs = cosigs,
      pproof = ConsistencyProof r, pcheckpointNote = nt, pcheckpointOrigin = OIDName logID,
      pcheckpointSize = sz, pcheckpointRoot = rt\<rparr>"

lemma request_parses:
  assumes "buildSignSubtreeBody sha256 (Some r) = Inr body" "ReqSubtree r = Some st"
    and nt: "buildSignedNote sha256 logID cosignerID sz rt alg pub sig = Inr (CACheckpointBody r)"
    and pl: "plain logID" "plain cosignerID" "plain (CACosignerID r)"
  obtains cosigs kid where "request_cosigs sha256 r = Inr cosigs"
    "CosignatureKeyID sha256 (OIDName cosignerID) alg pub = Inr kid"
    "parseRequest body = Inr (expected_request r st cosigs
       \<lparr>nbody = [OIDName logID, FormatUint sz, EncodeToString (hash_bytes rt)],
        nsigs = [\<lparr>nkeyName = OIDName cosignerID, sigBytes = kid @ MarshalTimestampedSignature 0 sig\<rparr>]\<rparr> logID sz rt)"
proof -
  obtain kid where kid: "CosignatureKeyID sha256 (OIDName cosignerID) alg pub = Inr kid"
    and "CACheckpointBody r \<noteq> []" "last (CACheckpointBody r) = newline"
    using nt by (auto simp: buildSignedNote_eq_Inr)
  note cp = readSignedNote_built [OF kid nt pl(1,2)]
  let ?lines = "concat (map (\<lambda>h. EncodeToString (hash_bytes h) @ [newline]) (ConsistencyProof r))"
  let ?rest = "?lines @ newline # CACheckpointBody r"
  obtain cs where cs: "(case CASignature r of None \<Rightarrow> Inr []
        | Some s \<Rightarrow> cosigLine sha256 (CACosignerID r) (CACosignerKey r) (Signature s)) = Inr cs"
    and body: "body = (''subtree '' @ FormatUint (SubStart st) @ '' '' @ FormatUint (SubEnd st)) @ newline #
      EncodeToString (hash_bytes (SubHash st)) @ newline # cs @ ?rest"
    and len: "length (ConsistencyProof r) \<le> 63"
    using assms(1,2) \<open>CACheckpointBody r \<noteq> []\<close> \<open>last (CACheckpointBody r) = newline\<close>
    by (auto simp: buildSignSubtreeBody_def rbind_eq_Inr Let_def split: if_splits)
  have sec: "sectionLoop ?rest cosigs [] False = Inr (cosigs, ConsistencyProof r, CACheckpointBody r)" for cosigs
    using sectionLoop_proof [of "[]" "ConsistencyProof r"] len by simp
  have "\<exists>cosigs. request_cosigs sha256 r = Inr cosigs \<and>
      sectionLoop (cs @ ?rest) [] [] False = Inr (cosigs, ConsistencyProof r, CACheckpointBody r)"
  proof (cases "CASignature r")
    case None
    then show ?thesis using cs sec by (simp add: request_cosigs_def)
  next
    case (Some s)
    then obtain k where "CosignatureKeyID sha256 (OIDName (CACosignerID r)) AlgMLDSA44 (CACosignerKey r) = Inr k"
        "cs = sigLine (OIDName (CACosignerID r)) (k @ MarshalTimestampedSignature 0 (Signature s)) @ [newline]"
      using cs by (auto simp: cosigLine_def rbind_eq_Inr rwrap_eq_Inr Let_def)
    then show ?thesis
      using Some sec sectionLoop_cosig [OF plain_OIDName [OF pl(3)], of "[]"] by (simp add: request_cosigs_def)
  qed
  then obtain cosigs where c: "request_cosigs sha256 r = Inr cosigs"
      "sectionLoop (cs @ ?rest) [] [] False = Inr (cosigs, ConsistencyProof r, CACheckpointBody r)" by blast
  have "readLine body = Some (''subtree '' @ FormatUint (SubStart st) @ '' '' @ FormatUint (SubEnd st),
      EncodeToString (hash_bytes (SubHash st)) @ newline # cs @ ?rest)"
    unfolding body by (rule readLine_line [OF range_line(1)])
  then have "parseRequest body = Inr (expected_request r st cosigs
       \<lparr>nbody = [OIDName logID, FormatUint sz, EncodeToString (hash_bytes rt)],
        nsigs = [\<lparr>nkeyName = OIDName cosignerID, sigBytes = kid @ MarshalTimestampedSignature 0 sig\<rparr>]\<rparr> logID sz rt)"
    using range_line(2) readLine_line [OF encoded_line(1)] c(2) cp
    by (simp add: parseRequest_def nextLine_def expected_request_def)
  with c(1) kid show ?thesis by (rule that)
qed

section \<open>From the request to the cosignature\<close>

lemma findCosig_own:
  assumes "length kid = 4"
  shows "findCosig name kid [\<lparr>nkeyName = name, sigBytes = kid @ MarshalTimestampedSignature 0 sig\<rparr>] = Inr (Some sig)"
  using assms by (simp add: parse_timestamped)

text \<open>The CA's own signature in a request satisfies a server that asks for it.\<close>

definition request_signed :: "'pk mldsa \<Rightarrow> ServerConfig \<Rightarrow> SubtreeRequest \<Rightarrow> MTCSubtree \<Rightarrow> bool" where
  "request_signed mlib cfg r st \<longleftrightarrow>
     (let key = \<lparr>CKID = CACosignerID r, CKAlgorithm = AlgMLDSA44, CKPublicKey = CACosignerKey r\<rparr>
      in UpstreamCAKey cfg = Some key \<and>
         (\<exists>s msg. CASignature r = Some s \<and> MarshalSignatureInput (CACosignerID r) st = Inr msg \<and>
            VerifyMTCSignature mlib key \<lparr>CosignerID = CACosignerID r, Signature = Signature s\<rparr> msg = Inr ()))"

lemma verifyCAOnSubtree_request:
  assumes "request_signed mlib cfg r st" "request_cosigs sha256 r = Inr cosigs"
    and "st = \<lparr>SubLogID = logID, SubStart = pstart p, SubEnd = pend p, SubHash = psubtreeHash p\<rparr>" "psubtreeCosigs p = cosigs"
  shows "verifyCAOnSubtree mlib sha256 (the (UpstreamCAKey cfg)) logID p = Inr ()"
proof -
  let ?key = "\<lparr>CKID = CACosignerID r, CKAlgorithm = AlgMLDSA44, CKPublicKey = CACosignerKey r\<rparr>"
  obtain s msg where k: "UpstreamCAKey cfg = Some ?key" "CASignature r = Some s"
      "MarshalSignatureInput (CACosignerID r) st = Inr msg"
      "VerifyMTCSignature mlib ?key \<lparr>CosignerID = CACosignerID r, Signature = Signature s\<rparr> msg = Inr ()"
    using assms(1) by (auto simp: request_signed_def Let_def)
  obtain kid where kid: "CosignatureKeyID sha256 (OIDName (CACosignerID r)) AlgMLDSA44 (CACosignerKey r) = Inr kid"
      "cosigs = [\<lparr>nkeyName = OIDName (CACosignerID r), sigBytes = kid @ MarshalTimestampedSignature 0 (Signature s)\<rparr>]"
    using assms(2) k(2) by (auto simp: request_cosigs_def rbind_eq_Inr)
  show ?thesis
    using k kid assms(3,4) findCosig_own [OF CosignatureKeyID_length [OF kid(1)]]
    by (simp add: verifyCAOnSubtree_def del: findCosig.simps)
qed

context tlog_laws
begin

lemma handle_signs:
  assumes inv: "follower_inv lib mlib sha256 es f1" "polls lib mlib f1 f2" "fsize f2 \<le> 2 ^ 63"
    and p: "parseRequest body = Inr p" "length body \<le> MaxRequestBytes"
      "pcheckpointOrigin p = OIDName (UpLogID (fup f1))" "pcheckpointSize p = fsize f1" "pcheckpointRoot p = froot f1"
    and st: "IsValid (pstart p) (pend p) = Inr True" "pend p \<le> fsize f1"
      "psubtreeHash p = mth (HashChildren sha256) (leaf_hashes sha256 es) (unat (pstart p)) (unat (pend p) - unat (pstart p))"
    and pr: "leaves_served leafHash (leaf_hashes sha256 es) (length es)"
      "GenerateConsistencyProof sha256 (pstart p) (pend p) (fsize f1) leafHash = Inr (pproof p)"
    and ca: "RequireCASignatureOnSubtree cfg \<Longrightarrow>
      verifyCAOnSubtree mlib sha256 (the (UpstreamCAKey cfg)) (UpLogID (fup f1)) p = Inr ()"
  shows "handle lib mlib sha256 cfg f1 f2 ''POST'' body =
    signResponse sha256 (the (cfgSigner cfg)) (cfgCosignerID cfg)
      \<lparr>SubLogID = UpLogID (fup f1), SubStart = pstart p, SubEnd = pend p, SubHash = psubtreeHash p\<rparr>"
proof -
  have v: "pstart p < pend p" using IsValid_TrueD [OF st(1)] by (simp add: valid_range_def u64_less_iff)
  have n: "unat (fsize f1) = length es" using inv(1) by (simp add: follower_inv_def)
  have "0 < length es" using v st(2) n unfolding u64_less_iff u64_le_iff by linarith
  then have rt: "froot f1 = mth (HashChildren sha256) (leaf_hashes sha256 es) 0 (unat (fsize f1))"
    using inv(1) n by (simp add: follower_inv_def)
  have cp: "VerifyConsistencyProof sha256 (pstart p) (pend p) (fsize f1) (pproof p) (psubtreeHash p) (froot f1) = Inr ()"
    using generated_proof_accepted [OF pr(1) [folded n] st(1,2), of sha256] pr(2) unfolding rt st(3) by simp
  have sh: "follower_SubtreeHash lib sha256 f2 (pstart p) (pend p) = Inr (psubtreeHash p)"
    using follower_SubtreeHash_mth [OF inv v st(2)] st(3) by simp
  show ?thesis
    using p v st(2) ca cp sh polls_up [OF inv(2)]
    by (simp add: handle_def Current_def not_le not_less)
qed

end

lemma handle_answers:
  assumes "tlog_laws lib sha256" "follower_inv lib mlib sha256 es f1" "polls lib mlib f1 f2" "fsize f2 \<le> 2 ^ 63"
    and req: "ReqSubtree r = Some st" "buildSignSubtreeBody sha256 (Some r) = Inr body" "length body \<le> MaxRequestBytes"
      "buildSignedNote sha256 (UpLogID (fup f1)) caID (fsize f1) (froot f1) AlgMLDSA44 caPub caSig = Inr (CACheckpointBody r)"
    and names: "plain (UpLogID (fup f1))" "plain caID" "plain (CACosignerID r)"
    and st: "SubLogID st = UpLogID (fup f1)" "IsValid (SubStart st) (SubEnd st) = Inr True" "SubEnd st \<le> fsize f1"
      "SubHash st = mth (HashChildren sha256) (leaf_hashes sha256 es) (unat (SubStart st)) (unat (SubEnd st) - unat (SubStart st))"
    and pr: "leaves_served leafHash (leaf_hashes sha256 es) (length es)"
      "GenerateConsistencyProof sha256 (SubStart st) (SubEnd st) (fsize f1) leafHash = Inr (ConsistencyProof r)"
    and ca: "RequireCASignatureOnSubtree cfg \<longrightarrow> request_signed mlib cfg r st"
    and srv: "NewServer cfg = Inr cfg" "cfgSigner cfg = Some s"
      "CosignatureKeyID sha256 (OIDName (cfgCosignerID cfg)) AlgMLDSA44 (SignerPublicKey s) = Inr kid"
    and sig: "MarshalSignatureInput (cfgCosignerID cfg) st = Inr msg" "Sign s msg = Inr sig"
  shows "handle lib mlib sha256 cfg f1 f2 ''POST'' body =
      \<lparr>rlabel = ''ok'', rcode = 200, rbody = sigLine (OIDName (cfgCosignerID cfg)) (kid @ MarshalTimestampedSignature 0 sig) @ [newline]\<rparr>"
proof -
  obtain cosigs nt where c: "request_cosigs sha256 r = Inr cosigs"
      "parseRequest body = Inr (expected_request r st cosigs nt (UpLogID (fup f1)) (fsize f1) (froot f1))"
    using request_parses [OF req(2,1,4) names(1-3)] by blast
  let ?p = "expected_request r st cosigs nt (UpLogID (fup f1)) (fsize f1) (froot f1)"
  have p: "pstart ?p = SubStart st" "pend ?p = SubEnd st" "psubtreeHash ?p = SubHash st" "pproof ?p = ConsistencyProof r"
      "pcheckpointOrigin ?p = OIDName (UpLogID (fup f1))" "pcheckpointSize ?p = fsize f1" "pcheckpointRoot ?p = froot f1"
      "psubtreeCosigs ?p = cosigs"
    by (simp_all add: expected_request_def)
  have st': "st = \<lparr>SubLogID = UpLogID (fup f1), SubStart = pstart ?p, SubEnd = pend ?p, SubHash = psubtreeHash ?p\<rparr>"
    unfolding p using st(1) by (cases st) simp
  have "handle lib mlib sha256 cfg f1 f2 ''POST'' body = signResponse sha256 (the (cfgSigner cfg)) (cfgCosignerID cfg)
      \<lparr>SubLogID = UpLogID (fup f1), SubStart = pstart ?p, SubEnd = pend ?p, SubHash = psubtreeHash ?p\<rparr>"
    by (rule tlog_laws.handle_signs [OF assms(1-4) c(2) req(3) p(5-7) _ _ _ pr(1)])
      (use st(2-4) pr(2) ca verifyCAOnSubtree_request [OF _ c(1) st' p(8)] in \<open>simp_all add: p\<close>)
  then have "handle lib mlib sha256 cfg f1 f2 ''POST'' body = signResponse sha256 s (cfgCosignerID cfg) st"
    unfolding st' [symmetric] srv(2) by simp
  moreover have "SignerAlgorithm s = AlgMLDSA44"
    using srv(1,2) by (auto simp: NewServer_def split: option.splits if_splits)
  ultimately show "handle lib mlib sha256 cfg f1 f2 ''POST'' body =
      \<lparr>rlabel = ''ok'', rcode = 200, rbody = sigLine (OIDName (cfgCosignerID cfg)) (kid @ MarshalTimestampedSignature 0 sig) @ [newline]\<rparr>"
    using sig(1,2) srv(3) by (simp add: signResponse_def)
qed

text \<open>
  C16: an honest CA gets the cosignature of an honest mirror. When the mirror holds the log, the CA's
  checkpoint is the mirror's current one, the subtree is valid with the log's hash for it and the proof is
  the generated one, the CA's signature is present where the server asks for it, and the mirror's signer
  makes signatures that verify under the key the CA has for it, then the CA's request to the mirror's
  handler returns that signature, also when the mirror advances meanwhile.
\<close>

theorem cosignature_end_to_end:
  assumes "tlog_laws lib sha256" "follower_inv lib mlib sha256 es f1" "polls lib mlib f1 f2" "fsize f2 \<le> 2 ^ 63"
    and req: "ReqSubtree r = Some st" "buildSignSubtreeBody sha256 (Some r) = Inr body" "length body \<le> MaxRequestBytes"
      "buildSignedNote sha256 (UpLogID (fup f1)) caID (fsize f1) (froot f1) AlgMLDSA44 caPub caSig = Inr (CACheckpointBody r)"
    and names: "plain (UpLogID (fup f1))" "plain caID" "plain (CACosignerID r)" "plain (cfgCosignerID cfg)"
    and st: "SubLogID st = UpLogID (fup f1)" "IsValid (SubStart st) (SubEnd st) = Inr True" "SubEnd st \<le> fsize f1"
      "SubHash st = mth (HashChildren sha256) (leaf_hashes sha256 es) (unat (SubStart st)) (unat (SubEnd st) - unat (SubStart st))"
    and pr: "leaves_served leafHash (leaf_hashes sha256 es) (length es)"
      "GenerateConsistencyProof sha256 (SubStart st) (SubEnd st) (fsize f1) leafHash = Inr (ConsistencyProof r)"
    and ca: "RequireCASignatureOnSubtree cfg \<longrightarrow> request_signed mlib cfg r st"
    and srv: "NewServer cfg = Inr cfg" "cfgSigner cfg = Some s"
      "MKey m = \<lparr>CKID = cfgCosignerID cfg, CKAlgorithm = AlgMLDSA44, CKPublicKey = SignerPublicKey s\<rparr>"
      "CosignatureKeyID sha256 (OIDName (cfgCosignerID cfg)) AlgMLDSA44 (SignerPublicKey s) = Inr kid"
    and sig: "MarshalSignatureInput (cfgCosignerID cfg) st = Inr msg" "Sign s msg = Inr sig"
      "VerifyMTCSignature mlib (MKey m) \<lparr>CosignerID = cfgCosignerID cfg, Signature = sig\<rparr> msg = Inr ()"
      "length (sigLine (OIDName (cfgCosignerID cfg)) (kid @ MarshalTimestampedSignature 0 sig)) < maxResponse"
  shows "requestOne mlib sha256 (\<lambda>_ b. let resp = handle lib mlib sha256 cfg f1 f2 ''POST'' b in Inr (rcode resp, rbody resp))
      m body st = Inr \<lparr>CosignerID = cfgCosignerID cfg, Signature = sig\<rparr>"
proof -
  have "handle lib mlib sha256 cfg f1 f2 ''POST'' body =
      \<lparr>rlabel = ''ok'', rcode = 200, rbody = sigLine (OIDName (cfgCosignerID cfg)) (kid @ MarshalTimestampedSignature 0 sig) @ [newline]\<rparr>"
    by (rule handle_answers [OF assms(1-4) req names(1-3) st pr ca srv(1,2,4) sig(1,2)])
  then show ?thesis
    using requestOne_accepts [of m sha256 kid
        "\<lambda>_ b. let resp = handle lib mlib sha256 cfg f1 f2 ''POST'' b in Inr (rcode resp, rbody resp)" body sig st msg mlib]
      srv names(4) sig by simp
qed

text \<open>A server for the log of one entry, and the request for its only subtree.\<close>

definition sample_pub :: bytes where
  "sample_pub = replicate 1312 0"

definition sample_signer :: signer where
  "sample_signer = \<lparr>SignerAlgorithm = AlgMLDSA44, SignerPublicKey = sample_pub, Sign = (\<lambda>_. Inr [9])\<rparr>"

definition sample_cfg :: ServerConfig where
  "sample_cfg = \<lparr>cfgFollower = Some sample_follower, cfgSigner = Some sample_signer, cfgCosignerID = ''3'',
     RequireCASignatureOnSubtree = True,
     UpstreamCAKey = Some \<lparr>CKID = ''2'', CKAlgorithm = AlgMLDSA44, CKPublicKey = sample_pub\<rparr>\<rparr>"

definition sample_subtree1 :: MTCSubtree where
  "sample_subtree1 = \<lparr>SubLogID = ''1'', SubStart = 0, SubEnd = 1, SubHash = sample_root\<rparr>"

definition sample_note :: "string result" where
  "sample_note = buildSignedNote mk_Hash ''1'' ''2'' 1 sample_root AlgMLDSA44 sample_pub [9]"

definition sample_request :: "string \<Rightarrow> SubtreeRequest" where
  "sample_request nt = \<lparr>ReqSubtree = Some sample_subtree1, CACheckpointBody = nt, ConsistencyProof = [],
     CASignature = Some \<lparr>CosignerID = ''2'', Signature = [9]\<rparr>, CACosignerID = ''2'', CACosignerKey = sample_pub\<rparr>"

definition sample_endpoint :: MirrorEndpoint where
  "sample_endpoint = \<lparr>MURL = [], MKey = \<lparr>CKID = ''3'', CKAlgorithm = AlgMLDSA44, CKPublicKey = sample_pub\<rparr>\<rparr>"

lemma sample_key_id: "CosignatureKeyID mk_Hash (OIDName ID) AlgMLDSA44 sample_pub = Inr (bytes_of ''oid/'')"
  by (simp add: CosignatureKeyID_def sample_pub_def hash_bytes_mk_Hash_raw OIDName_def OIDNamePrefix_def bytes_of_def eval_nat_numeral)

lemma length_EncodeToString: "length (EncodeToString b) = 4 * ((length b + 2) div 3)"
proof (induction b rule: EncodeToString.induct)
  case (4 a b c r)
  have "(length (a # b # c # r) + 2) div 3 = Suc ((length r + 2) div 3)" by simp
  with 4 show ?case by (simp add: b64chars_def)
qed (simp_all add: b64chars_def)

lemma sample_body_ok:
  "\<exists>nt body. sample_note = Inr nt \<and> buildSignSubtreeBody mk_Hash (Some (sample_request nt)) = Inr body \<and> length body \<le> MaxRequestBytes"
proof -
  obtain nt where nt: "sample_note = Inr nt" using sample_key_id by (auto simp: sample_note_def buildSignedNote_eq_Inr)
  then have len: "nt \<noteq> []" "length nt \<le> 500"
    using sample_key_id [of "''2''"]
    by (auto simp: sample_note_def buildSignedNote_eq_Inr sigLine_def emDash_def OIDName_def OIDNamePrefix_def
        TrustAnchorOIDBase_def length_EncodeToString FormatUint_def decimal.simps [of "Suc 0"] decimal.simps [of 1]
        MarshalTimestampedSignature_def timestampedSigTimestampLen_def)
  obtain body where b: "buildSignSubtreeBody mk_Hash (Some (sample_request nt)) = Inr body"
    using len(1) sample_key_id [of "''2''"]
    by (simp add: buildSignSubtreeBody_def sample_request_def sample_subtree1_def cosigLine_def)
  then have "length body \<le> 1000"
    using len sample_key_id [of "''2''"]
    by (auto simp: buildSignSubtreeBody_def sample_request_def sample_subtree1_def cosigLine_def sigLine_def emDash_def
        OIDName_def OIDNamePrefix_def TrustAnchorOIDBase_def length_EncodeToString FormatUint_def decimal.simps [of "Suc 0"]
        decimal.simps [of 1] decimal.simps [of 0] MarshalTimestampedSignature_def timestampedSigTimestampLen_def)
  with nt b show ?thesis by (auto simp: MaxRequestBytes_def)
qed

lemma sample_msg3: "\<exists>msg. MarshalSignatureInput ID sample_subtree1 = Inr msg" if "length ID < 100"
  using that by (simp add: MarshalSignatureInput_eq sample_subtree1_def OIDName_def OIDNamePrefix_def TrustAnchorOIDBase_def)

lemma sample_verify:
  "VerifyMTCSignature sample_mldsa \<lparr>CKID = ID, CKAlgorithm = AlgMLDSA44, CKPublicKey = pub\<rparr> \<lparr>CosignerID = ID, Signature = [9]\<rparr> msg = Inr ()"
  by (simp add: VerifyMTCSignature_def verifyMLDSA_def sample_mldsa_def)

text \<open>The mirrored log of the sample follower.\<close>

lemma sample_log:
  "\<exists>f es. polls (ref_tlog mk_Hash) sample_mldsa sample_follower f \<and> follower_inv (ref_tlog mk_Hash) sample_mldsa mk_Hash es f \<and>
     fsize f = 1 \<and> froot f = sample_root \<and> length es = 1 \<and> mth (HashChildren mk_Hash) (leaf_hashes mk_Hash es) 0 1 = sample_root \<and>
     fup f = sample_up"
proof -
  obtain f where f: "polls (ref_tlog mk_Hash) sample_mldsa sample_follower f" "fsize f = 1" "froot f = sample_root"
    using sample_polls by blast
  obtain es where es: "follower_inv (ref_tlog mk_Hash) sample_mldsa mk_Hash es f"
    using ref.polls_inv [OF f(1) ref.new_follower_inv [OF sample_new]] by auto
  have "fup f = sample_up" using ref.polls_up [OF f(1)] by (simp add: sample_follower_def)
  then show ?thesis using f es by (intro exI [of _ f] exI [of _ es]) (auto simp: follower_inv_def)
qed

definition sample_situation :: "Follower \<Rightarrow> bytes list \<Rightarrow> string \<Rightarrow> string \<Rightarrow> bytes \<Rightarrow> bool" where
  "sample_situation f es nt body msg \<longleftrightarrow>
     follower_inv (ref_tlog mk_Hash) sample_mldsa mk_Hash es f \<and> fsize f = 1 \<and> froot f = sample_root \<and>
     mth (HashChildren mk_Hash) (leaf_hashes mk_Hash es) 0 1 = sample_root \<and> UpLogID (fup f) = ''1'' \<and>
     sample_note = Inr nt \<and> buildSignSubtreeBody mk_Hash (Some (sample_request nt)) = Inr body \<and> length body \<le> MaxRequestBytes \<and>
     MarshalSignatureInput ''3'' sample_subtree1 = Inr msg \<and>
     request_signed sample_mldsa sample_cfg (sample_request nt) sample_subtree1"

lemma sample_situation_ex: "\<exists>f es nt body msg. sample_situation f es nt body msg"
proof -
  obtain f es where f: "follower_inv (ref_tlog mk_Hash) sample_mldsa mk_Hash es f" "fsize f = 1" "froot f = sample_root"
      "mth (HashChildren mk_Hash) (leaf_hashes mk_Hash es) 0 1 = sample_root" "fup f = sample_up"
    using sample_log by blast
  obtain nt body where b: "sample_note = Inr nt" "buildSignSubtreeBody mk_Hash (Some (sample_request nt)) = Inr body"
      "length body \<le> MaxRequestBytes"
    using sample_body_ok by blast
  obtain msg2 msg3 where m: "MarshalSignatureInput ''2'' sample_subtree1 = Inr msg2" "MarshalSignatureInput ''3'' sample_subtree1 = Inr msg3"
    using sample_msg3 [of "''2''"] sample_msg3 [of "''3''"] by auto
  have "request_signed sample_mldsa sample_cfg (sample_request nt) sample_subtree1"
    using m(1) sample_verify by (simp add: request_signed_def sample_cfg_def sample_request_def)
  moreover have "UpLogID (fup f) = ''1''" by (simp add: f(5) sample_up_def)
  ultimately show ?thesis using f b m unfolding sample_situation_def by blast
qed

lemma sample_valid: "IsValid 0 1 = Inr True"
  by code_simp

lemma sample_proof: "GenerateConsistencyProof mk_Hash 0 1 1 lh = Inr []"
  using sample_valid by (simp add: GenerateConsistencyProof_def)

lemma sample_server: "NewServer sample_cfg = Inr sample_cfg"
  by (simp add: NewServer_def sample_cfg_def sample_signer_def)

lemma sample_leaves: "leaves_served (\<lambda>i. Inr (d (unat i))) d n"
  by (simp add: leaves_served_def)

lemmas sample_simps = sample_request_def sample_note_def sample_cfg_def sample_signer_def sample_endpoint_def
  sample_subtree1_def plain_char_def

lemma sample_handle:
  assumes "sample_situation f es nt body msg"
  shows "rcode (handle (ref_tlog mk_Hash) sample_mldsa mk_Hash sample_cfg f f ''POST'' body) = 200"
proof -
  note a = assms [unfolded sample_situation_def]
  have "handle (ref_tlog mk_Hash) sample_mldsa mk_Hash sample_cfg f f ''POST'' body =
      \<lparr>rlabel = ''ok'', rcode = 200,
       rbody = sigLine (OIDName (cfgCosignerID sample_cfg)) (bytes_of ''oid/'' @ MarshalTimestampedSignature 0 [9]) @ [newline]\<rparr>"
    by (rule handle_answers [of "ref_tlog mk_Hash" mk_Hash sample_mldsa es f f "sample_request nt" sample_subtree1 body "''2''"
          sample_pub "[9]" "\<lambda>i. Inr (leaf_hashes mk_Hash es (unat i))" sample_cfg sample_signer "bytes_of ''oid/''" msg,
          OF ref.tlog_laws_axioms _ polls.none])
      (use a sample_valid sample_proof sample_leaves sample_server sample_key_id in \<open>simp_all add: sample_simps\<close>)
  then show ?thesis by simp
qed

theorem cosignature_end_to_end_witness:
  "\<exists>f body. requestOne sample_mldsa mk_Hash
     (\<lambda>_ b. let resp = handle (ref_tlog mk_Hash) sample_mldsa mk_Hash sample_cfg f f ''POST'' b in Inr (rcode resp, rbody resp))
     sample_endpoint body sample_subtree1 = Inr \<lparr>CosignerID = cfgCosignerID sample_cfg, Signature = [9]\<rparr>"
proof -
  obtain f es nt body msg where "sample_situation f es nt body msg" using sample_situation_ex by blast
  note a = this [unfolded sample_situation_def]
  have len: "length (sigLine (OIDName ''3'') (bytes_of ''oid/'' @ MarshalTimestampedSignature 0 [9])) < maxResponse"
    by (simp add: sigLine_def emDash_def OIDName_def OIDNamePrefix_def TrustAnchorOIDBase_def length_EncodeToString
        MarshalTimestampedSignature_def timestampedSigTimestampLen_def maxResponse_def)
  show ?thesis
    by (intro exI, rule cosignature_end_to_end [of "ref_tlog mk_Hash" mk_Hash sample_mldsa es f f "sample_request nt" sample_subtree1 body "''2''"
          sample_pub "[9]" sample_cfg "\<lambda>i. Inr (leaf_hashes mk_Hash es (unat i))" sample_signer sample_endpoint "bytes_of ''oid/''" msg,
          OF ref.tlog_laws_axioms _ polls.none])
      (use a sample_valid sample_proof sample_leaves sample_server sample_key_id sample_verify len in \<open>simp_all add: sample_simps\<close>)
qed

theorem mirror_signs_own_log_witness:
  "\<exists>f es nt body msg p. sample_situation f es nt body msg \<and> parseRequest body = Inr p \<and>
     IsValid (pstart p) (pend p) = Inr True \<and> pend p \<le> fsize f"
proof -
  obtain f es nt body msg where s: "sample_situation f es nt body msg" using sample_situation_ex by blast
  then have f: "follower_inv (ref_tlog mk_Hash) sample_mldsa mk_Hash es f" "fsize f \<le> 2 ^ 63"
    by (simp_all add: sample_situation_def)
  from mirror_signs_own_log [OF ref.tlog_laws_axioms f(1) polls.none f(2) sample_handle [OF s]] s
  show ?thesis by blast
qed

end
