(* ===== verification/Asn1.thy ===== *)
theory Asn1
  imports Entry
begin

text \<open>
  The part of Go's encoding/asn1 that the certificate code uses: \<open>asn1.Unmarshal\<close> of a raw value, a
  BIT STRING, an INTEGER and an OBJECT IDENTIFIER, with the strict DER checks on tags and lengths, and
  \<open>asn1.Marshal\<close> of an OCTET STRING. The reader of a DER element accepts exactly the encodings the
  writer of log entries makes, and what it accepts is determined by tag and contents.
\<close>

section \<open>The decoder\<close>

record RawValue =
  rvClass :: nat
  rvTag :: nat
  IsCompound :: bool
  rvBytes :: bytes
  FullBytes :: bytes

text \<open>\<open>parseBase128Int\<close>: the octets read so far and their value.\<close>

fun parseBase128Int :: "nat \<Rightarrow> nat \<Rightarrow> bytes \<Rightarrow> (nat \<times> bytes) result" where
  "parseBase128Int shifted acc [] = Inl (Errorf ''asn1: truncated base 128 integer'')"
| "parseBase128Int shifted acc (b # bs) =
     (if shifted = 5 then Inl (Errorf ''asn1: base 128 integer too large'')
      else if shifted = 0 \<and> b = 0x80 then Inl (Errorf ''asn1: integer is not minimally encoded'')
      else let v = acc * 128 + unat (b AND 0x7f)
           in if b AND 0x80 = 0 then
                (if v > 2 ^ 31 - 1 then Inl (Errorf ''asn1: base 128 integer too large'') else Inr (v, bs))
              else parseBase128Int (shifted + 1) v bs)"

text \<open>The loop over the octets of a long length.\<close>

fun lengthLoop :: "nat \<Rightarrow> nat \<Rightarrow> bytes \<Rightarrow> (nat \<times> bytes) result" where
  "lengthLoop 0 len bs = Inr (len, bs)"
| "lengthLoop (Suc n) len [] = Inl (Errorf ''asn1: truncated tag or length'')"
| "lengthLoop (Suc n) len (b # bs) =
     (if len \<ge> 2 ^ 23 then Inl (Errorf ''asn1: length too large'')
      else let l = len * 256 + unat b
           in if l = 0 then Inl (Errorf ''asn1: superfluous leading zeros in length'') else lengthLoop n l bs)"

lemma lengthLoop_code [code]:
  "lengthLoop n len bs =
     (if n = 0 then Inr (len, bs)
      else case bs of [] \<Rightarrow> Inl (Errorf ''asn1: truncated tag or length'')
        | b # r \<Rightarrow>
            if len \<ge> 2 ^ 23 then Inl (Errorf ''asn1: length too large'')
            else let l = len * 256 + unat b
                 in if l = 0 then Inl (Errorf ''asn1: superfluous leading zeros in length'') else lengthLoop (n - 1) l r)"
  by (cases n; cases bs) simp_all

record tagAndLength =
  tlClass :: nat
  tlTag :: nat
  tlLength :: nat
  tlCompound :: bool

definition parseTag :: "byte \<Rightarrow> bytes \<Rightarrow> (nat \<times> bytes) result" where
  "parseTag b bs =
     (if b AND 0x1f = 0x1f then
        rbind (parseBase128Int 0 0 bs) (\<lambda>(t, r).
          if t < 0x1f then Inl (Errorf ''asn1: non-minimal tag'') else Inr (t, r))
      else Inr (unat (b AND 0x1f), bs))"

definition parseLength :: "bytes \<Rightarrow> (nat \<times> bytes) result" where
  "parseLength bs =
     (case bs of [] \<Rightarrow> Inl (Errorf ''asn1: truncated tag or length'')
      | b # r \<Rightarrow>
          if b AND 0x80 = 0 then Inr (unat (b AND 0x7f), r)
          else if b AND 0x7f = 0 then Inl (Errorf ''asn1: indefinite length found (not DER)'')
          else rbind (lengthLoop (unat (b AND 0x7f)) 0 r) (\<lambda>(l, r').
                 if l < 0x80 then Inl (Errorf ''asn1: non-minimal length'') else Inr (l, r')))"

definition parseTagAndLength :: "bytes \<Rightarrow> (tagAndLength \<times> bytes) result" where
  "parseTagAndLength bs =
     (case bs of [] \<Rightarrow> Inl (Errorf ''asn1: sequence truncated'')
      | b # r \<Rightarrow>
          rbind (parseTag b r) (\<lambda>(t, r1).
          rbind (parseLength r1) (\<lambda>(l, r2).
            Inr (\<lparr>tlClass = unat b div 64, tlTag = t, tlLength = l, tlCompound = (b AND 0x20 = 0x20)\<rparr>, r2))))"

text \<open>
  \<open>parseField\<close>: the element at the front, whose class, tag and form must be the expected ones when the
  Go type of the target has some, and what follows it.
\<close>

definition parseField :: "(nat \<times> nat \<times> bool) option \<Rightarrow> bytes \<Rightarrow> (RawValue \<times> bytes) result" where
  "parseField expected bs =
     rbind (parseTagAndLength bs) (\<lambda>(t, r).
       if (case expected of None \<Rightarrow> False
           | Some (c, g, cmp) \<Rightarrow> tlClass t \<noteq> c \<or> tlTag t \<noteq> g \<or> tlCompound t \<noteq> cmp) then
         Inl (Errorf ''asn1: tags don't match'')
       else if length r < tlLength t then Inl (Errorf ''asn1: data truncated'')
       else
         let rest = drop (tlLength t) r
         in Inr (\<lparr>rvClass = tlClass t, rvTag = tlTag t, IsCompound = tlCompound t, rvBytes = take (tlLength t) r,
                 FullBytes = take (length bs - length rest) bs\<rparr>, rest))"

abbreviation unmarshalRaw :: "bytes \<Rightarrow> (RawValue \<times> bytes) result" where
  "unmarshalRaw \<equiv> parseField None"

text \<open>The contents of a BIT STRING, its octets and the number of unused bits.\<close>

definition parseBitString :: "bytes \<Rightarrow> (bytes \<times> nat) result" where
  "parseBitString bs =
     (case bs of [] \<Rightarrow> Inl (Errorf ''asn1: zero length BIT STRING'')
      | p # r \<Rightarrow>
          if unat p > 7 \<or> (r = [] \<and> unat p > 0) \<or> last bs AND (push_bit (unat p) 1 - 1) \<noteq> 0 then
            Inl (Errorf ''asn1: invalid padding bits in BIT STRING'')
          else Inr (r, unat p))"

definition unmarshalBitString :: "bytes \<Rightarrow> ((bytes \<times> nat) \<times> bytes) result" where
  "unmarshalBitString bs =
     rbind (parseField (Some (0, 3, False)) bs) (\<lambda>(rv, rest).
     rbind (parseBitString (rvBytes rv)) (\<lambda>b. Inr (b, rest)))"

text \<open>\<open>parseBigInt\<close>: two's complement of any length, minimally encoded.\<close>

definition parseBigInt :: "bytes \<Rightarrow> int result" where
  "parseBigInt bs =
     (if bs = [] then Inl (Errorf ''asn1: empty integer'')
      else if length bs > 1 \<and> ((bs ! 0 = 0 \<and> bs ! 1 AND 0x80 = 0) \<or> (bs ! 0 = 0xff \<and> bs ! 1 AND 0x80 = 0x80)) then
        Inl (Errorf ''asn1: integer not minimally-encoded'')
      else Inr (int (unbe bs) - (if bs ! 0 AND 0x80 = 0x80 then 256 ^ length bs else 0)))"

definition unmarshalBigInt :: "bytes \<Rightarrow> (int \<times> bytes) result" where
  "unmarshalBigInt bs =
     rbind (parseField (Some (0, 2, False)) bs) (\<lambda>(rv, rest).
     rbind (parseBigInt (rvBytes rv)) (\<lambda>i. Inr (i, rest)))"

lemma parseBase128Int_shorter: "parseBase128Int n acc bs = Inr (v, r) \<Longrightarrow> length r < length bs"
  by (induction n acc bs rule: parseBase128Int.induct) (fastforce simp: Let_def split: if_splits)+

function oidLoop :: "bytes \<Rightarrow> nat list result" where
  "oidLoop bs =
     (if bs = [] then Inr []
      else case parseBase128Int 0 0 bs of
        Inl e \<Rightarrow> Inl e
      | Inr (v, r) \<Rightarrow> rbind (oidLoop r) (\<lambda>vs. Inr (v # vs)))"
  by pat_completeness auto
termination
  by (relation "measure length") (auto dest: parseBase128Int_shorter)

declare oidLoop.simps [simp del]

definition parseObjectIdentifier :: "bytes \<Rightarrow> nat list result" where
  "parseObjectIdentifier bs =
     (if bs = [] then Inl (Errorf ''asn1: zero length OBJECT IDENTIFIER'')
      else rbind (parseBase128Int 0 0 bs) (\<lambda>(v, r).
           rbind (oidLoop r) (\<lambda>vs.
             Inr ((if v < 80 then [v div 40, v mod 40] else [2, v - 80]) @ vs))))"

definition unmarshalOID :: "bytes \<Rightarrow> (nat list \<times> bytes) result" where
  "unmarshalOID bs =
     rbind (parseField (Some (0, 6, False)) bs) (\<lambda>(rv, rest).
     rbind (parseObjectIdentifier (rvBytes rv)) (\<lambda>v. Inr (v, rest)))"

text \<open>\<open>asn1.Marshal\<close> of a byte slice.\<close>

definition marshalOctets :: "bytes \<Rightarrow> bytes" where
  "marshalOctets b = appendDERLength [0x04] (length b) @ b"

section \<open>Elements\<close>

text \<open>The DER element with a one-octet tag.\<close>

definition tlv :: "byte \<Rightarrow> bytes \<Rightarrow> bytes" where
  "tlv t b = appendDERLength [t] (length b) @ b"

lemma tlv_Cons: "tlv t b = t # appendDERLength [] (length b) @ b"
  unfolding tlv_def by (subst appendDERLength_append) simp

lemma wrapSequence_tlv: "wrapSequence b = tlv 0x30 b"
  by (simp add: wrapSequence_def tlv_def)

lemma marshalOctets_tlv: "marshalOctets b = tlv 0x04 b"
  by (simp add: marshalOctets_def tlv_def)

lemma unbe_Cons: "unbe (b # bs) = unat b * 256 ^ length bs + unbe bs"
proof (induction bs rule: rev_induct)
  case Nil
  then show ?case by (simp add: unbe_def)
next
  case (snoc c bs)
  have "unbe (b # bs @ [c]) = unbe (b # bs) * 256 + unat c" using unbe_snoc [of "b # bs" c] by simp
  then show ?case using snoc by (simp add: algebra_simps)
qed

lemma lengthLoop_unbe:
  "len * 256 ^ length bs + unbe bs < 2 ^ 31 \<Longrightarrow> len \<noteq> 0 \<or> bs = [] \<or> 256 ^ (length bs - 1) \<le> unbe bs \<Longrightarrow>
     lengthLoop (length bs) len (bs @ r) = Inr (len * 256 ^ length bs + unbe bs, r)"
proof (induction bs arbitrary: len)
  case (Cons b bs)
  let ?l = "len * 256 + unat b"
  have v: "len * 256 ^ length (b # bs) + unbe (b # bs) = ?l * 256 ^ length bs + unbe bs"
    by (simp add: unbe_Cons algebra_simps)
  have one: "(1 :: nat) \<le> 256 ^ length bs" by simp
  have "?l \<le> ?l * 256 ^ length bs" using mult_le_mono2 [OF one, of ?l] by simp
  then have "?l < 2 ^ 31" using Cons.prems(1) unfolding v by (meson le_add1 le_less_trans le_trans)
  then have lt: "len < 2 ^ 23" by simp
  have nz: "?l \<noteq> 0"
  proof
    assume "?l = 0"
    then have "len = 0" "unat b = 0" by simp_all
    with Cons.prems(2) have "256 ^ length bs \<le> unbe bs" by (simp add: unbe_Cons)
    then show False using unbe_less [of bs] by simp
  qed
  have "lengthLoop (length bs) ?l (bs @ r) = Inr (?l * 256 ^ length bs + unbe bs, r)"
    using Cons.IH [of ?l] Cons.prems(1) nz unfolding v by blast
  then show ?case using v lt nz by (simp add: Let_def not_le)
qed simp

lemma der_length_octets:
  assumes "0x80 \<le> n" "n < 2 ^ 31"
  obtains k where "1 \<le> k" "k \<le> 4" "appendDERLength [] n = (0x80 + of_nat k) # be k n" "n < 256 ^ k" "256 ^ (k - 1) \<le> n"
proof -
  consider "n \<le> 0xff" | "0xff < n" "n \<le> 0xffff" | "0xffff < n" "n \<le> 0xffffff" | "0xffffff < n"
    by linarith
  then show thesis
  proof cases
    case 1
    with assms that [of 1] show thesis by (simp add: appendDERLength_def be_unfold)
  next
    case 2
    with assms that [of 2] show thesis by (simp add: appendDERLength_def be_unfold)
  next
    case 3
    with assms that [of 3] show thesis by (simp add: appendDERLength_def be_unfold)
  next
    case 4
    with assms that [of 4] show thesis by (simp add: appendDERLength_def be_unfold)
  qed
qed

lemma byte_and_7f: "unat ((b :: byte) AND 0x7f) = unat b mod 128"
  unfolding mask7(1) take_bit_eq_mask [symmetric] unsigned_take_bit_eq by (simp add: take_bit_eq_mod)

lemma parseLength_der:
  assumes "n < 2 ^ 31"
  shows "parseLength (appendDERLength [] n @ r) = Inr (n, r)"
proof (cases "n < 0x80")
  case True
  have "(of_nat n :: byte) AND 0x80 = 0"
    unfolding byte_and_high byte_bit_7 unat_of_nat_byte using True by simp
  moreover have "unat ((of_nat n :: byte) AND 0x7f) = n"
    using True by (simp add: byte_and_7f unat_of_nat_byte)
  ultimately show ?thesis using True by (simp add: parseLength_def der_length_short unat_of_nat_byte)
next
  case False
  then obtain k where k: "1 \<le> k" "k \<le> 4" and h: "appendDERLength [] n = (0x80 + of_nat k) # be k n"
    and lt: "n < 256 ^ k" "256 ^ (k - 1) \<le> n"
    using der_length_octets [of n] assms by auto
  have "k = 1 \<or> k = 2 \<or> k = 3 \<or> k = 4" using k by linarith
  then have hi: "(0x80 + of_nat k :: byte) AND 0x80 \<noteq> 0" "unat ((0x80 + of_nat k :: byte) AND 0x7f) = k"
      "(0x80 + of_nat k :: byte) AND 0x7f \<noteq> 0"
    by auto
  have "lengthLoop k 0 (be k n @ r) = Inr (n, r)"
    using lengthLoop_unbe [of 0 "be k n" r] unbe_be [OF lt(1)] lt(2) assms by simp
  then show ?thesis using hi False by (simp add: parseLength_def h)
qed

lemma parseTagAndLength_tlv:
  assumes "t AND 0x1f \<noteq> 0x1f" "length b < 2 ^ 31"
  shows "parseTagAndLength (tlv t b @ r) = Inr (\<lparr>tlClass = unat t div 64, tlTag = unat (t AND 0x1f), tlLength = length b,
    tlCompound = (t AND 0x20 = 0x20)\<rparr>, b @ r)"
  using assms parseLength_der [of "length b" "b @ r"] by (simp add: tlv_Cons parseTagAndLength_def parseTag_def)

definition element :: "byte \<Rightarrow> bytes \<Rightarrow> RawValue" where
  "element t b = \<lparr>rvClass = unat t div 64, rvTag = unat (t AND 0x1f), IsCompound = (t AND 0x20 = 0x20), rvBytes = b,
     FullBytes = tlv t b\<rparr>"

lemma element_fields [simp]:
  "rvClass (element t b) = unat t div 64" "rvTag (element t b) = unat (t AND 0x1f)" "IsCompound (element t b) = (t AND 0x20 = 0x20)"
  "rvBytes (element t b) = b" "FullBytes (element t b) = tlv t b"
  by (simp_all add: element_def)

lemma parseField_tlv:
  assumes "t AND 0x1f \<noteq> 0x1f" "length b < 2 ^ 31"
    and "\<And>c g cmp. ex = Some (c, g, cmp) \<Longrightarrow> c = unat t div 64 \<and> g = unat (t AND 0x1f) \<and> cmp = (t AND 0x20 = 0x20)"
  shows "parseField ex (tlv t b @ r) = Inr (element t b, r)"
proof -
  consider "ex = None" | "ex = Some (unat t div 64, unat (t AND 0x1f), t AND 0x20 = 0x20)"
    using assms(3) by (cases ex) auto
  then show ?thesis
    using parseTagAndLength_tlv [OF assms(1,2), of r] by cases (simp_all add: parseField_def element_def Let_def)
qed

section \<open>Locality\<close>

text \<open>A parser is local when its result depends only on the octets it consumes.\<close>

definition local_parser :: "(bytes \<Rightarrow> ('a \<times> bytes) result) \<Rightarrow> bool" where
  "local_parser f \<longleftrightarrow> (\<forall>bs v r. f bs = Inr (v, r) \<longrightarrow> (\<exists>p. bs = p @ r \<and> (\<forall>x. f (p @ x) = Inr (v, x))))"

lemma local_parserD: "local_parser f \<Longrightarrow> f bs = Inr (v, r) \<Longrightarrow> \<exists>p. bs = p @ r \<and> (\<forall>x. f (p @ x) = Inr (v, x))"
  by (simp add: local_parser_def)

lemma local_parserI: "(\<And>bs v r. f bs = Inr (v, r) \<Longrightarrow> \<exists>p. bs = p @ r \<and> (\<forall>x. f (p @ x) = Inr (v, x))) \<Longrightarrow> local_parser f"
  by (simp add: local_parser_def)

lemma local_bind:
  assumes "local_parser f" "\<And>v. local_parser (g v)"
  shows "local_parser (\<lambda>bs. rbind (f bs) (\<lambda>(v, r). g v r))"
proof (rule local_parserI)
  fix bs w r
  assume "rbind (f bs) (\<lambda>(v, r). g v r) = Inr (w, r)"
  then obtain v r1 where f: "f bs = Inr (v, r1)" and g: "g v r1 = Inr (w, r)" by (auto simp: rbind_eq_Inr)
  obtain p q where p: "bs = p @ r1" "\<forall>x. f (p @ x) = Inr (v, x)" and q: "r1 = q @ r" "\<forall>x. g v (q @ x) = Inr (w, x)"
    using local_parserD [OF assms(1) f] local_parserD [OF assms(2) g] by blast
  show "\<exists>p. bs = p @ r \<and> (\<forall>x. rbind (f (p @ x)) (\<lambda>(v, r). g v r) = Inr (w, x))"
    using p q by (intro exI [of _ "p @ q"]) simp
qed

lemma local_pure: "local_parser (\<lambda>r. Inr (v, r))" "local_parser (\<lambda>r. Inl e)"
  by (auto simp: local_parser_def)

lemma local_if: "local_parser f \<Longrightarrow> local_parser g \<Longrightarrow> local_parser (\<lambda>r. if b then f r else g r)"
  by (cases b) simp_all

lemma local_base128: "local_parser (parseBase128Int n acc)"
proof (rule local_parserI)
  fix bs v r
  show "parseBase128Int n acc bs = Inr (v, r) \<Longrightarrow> \<exists>p. bs = p @ r \<and> (\<forall>x. parseBase128Int n acc (p @ x) = Inr (v, x))"
  proof (induction n acc bs rule: parseBase128Int.induct)
    case (2 n acc b bs)
    show ?case
    proof (cases "b AND 0x80 = 0")
      case True
      then show ?thesis using "2.prems" by (intro exI [of _ "[b]"]) (auto simp: Let_def split: if_splits)
    next
      case False
      then obtain p where "bs = p @ r" "\<forall>x. parseBase128Int (n + 1) (acc * 128 + unat (b AND 0x7f)) (p @ x) = Inr (v, x)"
        using 2 by (auto simp: Let_def split: if_splits)
      then show ?thesis using "2.prems" False by (intro exI [of _ "b # p"]) (auto simp: Let_def split: if_splits)
    qed
  qed simp
qed

lemma local_lengthLoop: "local_parser (lengthLoop n len)"
proof (rule local_parserI)
  fix bs v r
  show "lengthLoop n len bs = Inr (v, r) \<Longrightarrow> \<exists>p. bs = p @ r \<and> (\<forall>x. lengthLoop n len (p @ x) = Inr (v, x))"
  proof (induction n len bs rule: lengthLoop.induct)
    case (3 n len b bs)
    then obtain p where "bs = p @ r" "\<forall>x. lengthLoop n (len * 256 + unat b) (p @ x) = Inr (v, x)"
      by (auto simp: Let_def split: if_splits)
    then show ?case using "3.prems" by (intro exI [of _ "b # p"]) (auto simp: Let_def split: if_splits)
  qed simp_all
qed

lemma local_head: "(\<And>b. local_parser (f b)) \<Longrightarrow> local_parser (\<lambda>bs. case bs of [] \<Rightarrow> Inl e | b # r \<Rightarrow> f b r)"
proof (rule local_parserI)
  fix bs v r
  assume f: "\<And>b. local_parser (f b)" and "(case bs of [] \<Rightarrow> Inl e | b # r \<Rightarrow> f b r) = Inr (v, r)"
  then obtain b bs' where b: "bs = b # bs'" "f b bs' = Inr (v, r)" by (auto split: list.splits)
  then obtain p where "bs' = p @ r" "\<forall>x. f b (p @ x) = Inr (v, x)" using local_parserD [OF f b(2)] by blast
  then show "\<exists>p. bs = p @ r \<and> (\<forall>x. (case p @ x of [] \<Rightarrow> Inl e | b # r \<Rightarrow> f b r) = Inr (v, x))"
    using b(1) by (intro exI [of _ "b # p"]) simp
qed

lemma local_tag: "local_parser parseTagAndLength"
proof -
  have t: "local_parser (parseTag b)" for b
    unfolding parseTag_def by (intro local_if local_bind local_base128 local_pure)
  have l: "local_parser parseLength"
    unfolding parseLength_def by (intro local_head local_if local_bind local_lengthLoop local_pure)
  show ?thesis unfolding parseTagAndLength_def by (intro local_head local_bind t l local_pure)
qed

text \<open>An element read from some input is read the same from its own octets followed by anything.\<close>

lemma parseField_local:
  assumes "parseField ex bs = Inr (rv, r)"
  shows "bs = FullBytes rv @ r" "FullBytes rv \<noteq> []" "parseField ex (FullBytes rv @ x) = Inr (rv, x)"
proof -
  obtain t b where t: "parseTagAndLength bs = Inr (t, b)" and len: "tlLength t \<le> length b" "r = drop (tlLength t) b"
    and ex: "\<not> (case ex of None \<Rightarrow> False | Some (c, g, cmp) \<Rightarrow> tlClass t \<noteq> c \<or> tlTag t \<noteq> g \<or> tlCompound t \<noteq> cmp)"
    and rv: "rv = \<lparr>rvClass = tlClass t, rvTag = tlTag t, IsCompound = tlCompound t, rvBytes = take (tlLength t) b,
        FullBytes = take (length bs - length r) bs\<rparr>"
    using assms by (auto simp: parseField_def rbind_eq_Inr Let_def not_less split: if_splits)
  obtain p where p: "bs = p @ b" "\<And>x. parseTagAndLength (p @ x) = Inr (t, x)" using local_parserD [OF local_tag t] by blast
  have "b = take (tlLength t) b @ r" using len(2) by simp
  then have full: "FullBytes rv = p @ take (tlLength t) b" using rv p(1) len by (simp add: rv)
  show "bs = FullBytes rv @ r" using full p(1) len(2) by simp
  have "parseTagAndLength [] = Inl (Errorf ''asn1: sequence truncated'')" by (simp add: parseTagAndLength_def)
  then have "p \<noteq> []" using p(2) [of "[]"] by auto
  then show "FullBytes rv \<noteq> []" using full by simp
  have "parseField ex (p @ (take (tlLength t) b @ x)) = Inr (rv, x)"
    using p(2) [of "take (tlLength t) b @ x"] ex len(1) full rv unfolding parseField_def by (simp add: Let_def min_absorb2)
  then show "parseField ex (FullBytes rv @ x) = Inr (rv, x)" using full by simp
qed

lemma parseField_shorter: "parseField ex bs = Inr (rv, r) \<Longrightarrow> length r < length bs"
  using parseField_local(1,2) [of ex bs rv r] by (cases "FullBytes rv") auto

lemma parseField_bytes: "parseField ex bs = Inr (rv, r) \<Longrightarrow> length (rvBytes rv) \<le> length bs"
proof -
  assume "parseField ex bs = Inr (rv, r)"
  then obtain t b where t: "parseTagAndLength bs = Inr (t, b)" and rv: "rvBytes rv = take (tlLength t) b"
    by (auto simp: parseField_def rbind_eq_Inr Let_def split: if_splits)
  from local_parserD [OF local_tag t] rv show ?thesis by auto
qed

section \<open>The DER writer of cryptobyte\<close>

text \<open>
  The builder of golang.org/x/crypto/cryptobyte is not part of the repository: what each call appends,
  or the error that the builder then holds. The laws are its documentation: an ASN.1 element with the
  given tag (whose number is below 31, so that it fits its octet) and contents, an INTEGER and a BIT STRING with no unused bits, in DER.
\<close>

record cryptobyte =
  AddASN1 :: "byte \<Rightarrow> bytes \<Rightarrow> bytes result"
  AddASN1Int64 :: "int \<Rightarrow> bytes result"
  AddASN1BigInt :: "int \<Rightarrow> bytes result"
  AddASN1BitString :: "bytes \<Rightarrow> bytes result"

locale cryptobyte_laws =
  fixes cb :: cryptobyte
  assumes add_asn1: "t AND 0x1f \<noteq> 0x1f \<Longrightarrow> length b < 2 ^ 31 \<Longrightarrow> AddASN1 cb t b = Inr (tlv t b)"
    and add_asn1_octets: "AddASN1 cb t b = Inr x \<Longrightarrow> x = tlv t b"
    and add_int64: "0 \<le> i \<Longrightarrow> i < 128 \<Longrightarrow> AddASN1Int64 cb i = Inr (tlv 0x02 [of_int i])"
    and add_bigint: "0 \<le> i \<Longrightarrow> i < 2 ^ 64 \<Longrightarrow>
      \<exists>b. AddASN1BigInt cb i = Inr (tlv 0x02 b) \<and> parseBigInt b = Inr i \<and> length b \<le> 9"
    and add_bits: "length b < 2 ^ 30 \<Longrightarrow> AddASN1BitString cb b = Inr (tlv 0x03 (0 # b))"
begin

lemma read_bits:
  assumes "length b < 2 ^ 30"
  shows "\<exists>e. AddASN1BitString cb b = Inr e \<and> unmarshalBitString (e @ r) = Inr ((b, 0), r)"
proof -
  have "parseField (Some (0, 3, False)) (tlv 0x03 (0 # b) @ r) = Inr (element 0x03 (0 # b), r)"
    using assms by (intro parseField_tlv) auto
  moreover have "parseBitString (0 # b) = Inr (b, 0)" by (simp add: parseBitString_def)
  ultimately show ?thesis using add_bits [OF assms] by (simp add: unmarshalBitString_def)
qed

lemma read_bigint:
  assumes "0 \<le> i" "i < 2 ^ 64"
  shows "\<exists>b. AddASN1BigInt cb i = Inr (tlv 0x02 b) \<and> length b \<le> 9 \<and> (\<forall>r. unmarshalBigInt (tlv 0x02 b @ r) = Inr (i, r))"
proof -
  obtain b where b: "AddASN1BigInt cb i = Inr (tlv 0x02 b)" "parseBigInt b = Inr i" "length b \<le> 9"
    using add_bigint [OF assms] by blast
  have "parseField (Some (0, 2, False)) (tlv 0x02 b @ r) = Inr (element 0x02 b, r)" for r
    using b(3) by (intro parseField_tlv) auto
  with b show ?thesis by (intro exI [of _ b]) (simp add: unmarshalBigInt_def)
qed

end

text \<open>An implementation of the laws.\<close>

fun int_octets :: "nat \<Rightarrow> bytes" where
  "int_octets n = (if n < 128 then [of_nat n] else int_octets (n div 256) @ [of_nat n])"

declare int_octets.simps [simp del]

definition ref_cryptobyte :: cryptobyte where
  "ref_cryptobyte = \<lparr>AddASN1 = (\<lambda>t b. Inr (tlv t b)), AddASN1Int64 = (\<lambda>i. Inr (tlv 0x02 (int_octets (nat i)))),
     AddASN1BigInt = (\<lambda>i. Inr (tlv 0x02 (int_octets (nat i)))), AddASN1BitString = (\<lambda>b. Inr (tlv 0x03 (0 # b)))\<rparr>"

lemma int_octets_not_Nil: "int_octets n \<noteq> []"
  by (simp add: int_octets.simps [of n])

lemma int_octets_unbe: "unbe (int_octets n) = n"
proof (induction n rule: int_octets.induct)
  case (1 n)
  show ?case
  proof (cases "n < 128")
    case True
    then show ?thesis by (simp add: int_octets.simps [of n] unbe_Cons unat_of_nat_byte)
  next
    case False
    then show ?thesis using 1 by (simp add: int_octets.simps [of n] unat_of_nat_byte)
  qed
qed

lemma int_octets_head:
  "unat (int_octets n ! 0) < 128 \<and> (length (int_octets n) > 1 \<longrightarrow> unat (int_octets n ! 0) = 0 \<longrightarrow> 128 \<le> unat (int_octets n ! 1))"
proof (induction n rule: int_octets.induct)
  case (1 n)
  show ?case
  proof (cases "n < 128")
    case True
    then show ?thesis by (simp add: int_octets.simps [of n] unat_of_nat_byte)
  next
    case False
    let ?m = "n div 256"
    note ne = int_octets_not_Nil [of ?m]
    have e: "int_octets n = int_octets ?m @ [of_nat n]" using False by (simp add: int_octets.simps [of n])
    have h: "int_octets n ! 0 = int_octets ?m ! 0" using ne by (simp add: e nth_append)
    show ?thesis
    proof (cases "length (int_octets ?m) = 1")
      case True
      then have m: "?m < 128" by (simp add: int_octets.simps [of ?m] int_octets_not_Nil split: if_splits)
      then have "int_octets n ! 0 = of_nat ?m" "int_octets n ! 1 = of_nat n" using True e by (simp_all add: int_octets.simps [of ?m])
      moreover have "n mod 256 = n" if "?m = 0" using that by (simp add: div_eq_0_iff)
      ultimately show ?thesis using m False by (auto simp: unat_of_nat_byte)
    next
      case l: False
      with ne have "1 < length (int_octets ?m)" by (cases "int_octets ?m") auto
      then have "int_octets n ! 1 = int_octets ?m ! 1" by (simp add: e nth_append)
      then show ?thesis using 1 False h \<open>1 < length (int_octets ?m)\<close> by simp
    qed
  qed
qed

lemma length_int_octets: "n < 128 * 256 ^ k \<Longrightarrow> length (int_octets n) \<le> k + 1"
proof (induction k arbitrary: n)
  case (Suc k)
  show ?case
  proof (cases "n < 128")
    case False
    have "n div 256 < 128 * 256 ^ k" using Suc.prems by (simp add: less_mult_imp_div_less mult.commute mult.left_commute)
    then show ?thesis using Suc.IH False by (simp add: int_octets.simps [of n])
  qed (simp add: int_octets.simps [of n])
next
  case 0
  then show ?case by (simp add: int_octets.simps [of n])
qed

lemma parseBigInt_int_octets: "parseBigInt (int_octets n) = Inr (int n)"
proof -
  note h = int_octets_head [of n] and ne = int_octets_not_Nil [of n]
  have "int_octets n ! 0 AND 0x80 = 0" "int_octets n ! 0 \<noteq> 0xff"
    using h byte_and_high byte_bit_7 by auto
  moreover have "int_octets n ! 1 AND 0x80 \<noteq> 0" if "length (int_octets n) > 1" "int_octets n ! 0 = 0"
    using h that byte_and_high byte_bit_7 by auto
  ultimately show ?thesis using ne by (auto simp: parseBigInt_def int_octets_unbe)
qed

interpretation refcb: cryptobyte_laws ref_cryptobyte
proof unfold_locales
  show "\<exists>b. AddASN1BigInt ref_cryptobyte i = Inr (tlv 0x02 b) \<and> parseBigInt b = Inr i \<and> length b \<le> 9"
    if "0 \<le> i" "i < 2 ^ 64" for i
    using that parseBigInt_int_octets [of "nat i"] length_int_octets [of "nat i" 8]
    by (intro exI [of _ "int_octets (nat i)"]) (simp add: ref_cryptobyte_def nat_less_iff)
qed (auto simp: ref_cryptobyte_def int_octets.simps nat_less_iff of_nat_nat)

end
