(* ===== verification/Validator.thy ===== *)
theory Validator
  imports GoTime Asn1
begin

text \<open>
  The checks on a certificate request (ca/validator.go) and the CA's name (cert/dn.go). A parsed request
  is the record of the fields of \<open>x509.CertificateRequest\<close> that the validator reads; the outcome of its
  signature check is one of them. DNS names are ASCII, as the parser of requests ensures, and IP addresses
  are in their text form. A zero time of an order is absent.
\<close>

section \<open>Library: asn1.Marshal\<close>

fun base128_hi :: "nat \<Rightarrow> bytes" where
  "base128_hi n = (if n = 0 then [] else base128_hi (n div 128) @ [of_nat (n mod 128 + 128)])"

declare base128_hi.simps [simp del]

definition base128 :: "nat \<Rightarrow> bytes" where
  "base128 n = base128_hi (n div 128) @ [of_nat (n mod 128)]"

definition marshalOID :: "nat list \<Rightarrow> bytes result" where
  "marshalOID oid =
     (case oid of
        a # b # r \<Rightarrow>
          if a > 2 \<or> (a < 2 \<and> b \<ge> 40) then Inl (Errorf ''asn1: invalid object identifier'')
          else Inr (tlv 0x06 (base128 (a * 40 + b) @ concat (map base128 r)))
      | _ \<Rightarrow> Inl (Errorf ''asn1: invalid object identifier''))"

section \<open>Library: strings and times\<close>

definition lower_char :: "char \<Rightarrow> char" where
  "lower_char c = (if (of_char c :: nat) \<in> {65..90} then char_of (of_char c + 32 :: nat) else c)"

definition ToLower :: "string \<Rightarrow> string" where
  "ToLower s = map lower_char s"

lemma div_pred_int: "0 < (k :: int) \<Longrightarrow> y div k = (y - 1) div k + (if k dvd y then 1 else 0)"
proof -
  assume k: "0 < k"
  let ?q = "y div k" and ?r = "y mod k"
  have y: "y = k * ?q + ?r" by simp
  have r: "0 \<le> ?r" "?r < k" using k by simp_all
  show ?thesis
  proof (cases "?r = 0")
    case True
    then have "k dvd y" by presburger
    moreover have "(y - 1) div k = ?q - 1"
      by (rule int_div_pos_eq [of _ _ _ "k - 1"]) (use True y k in \<open>simp_all add: algebra_simps\<close>)
    ultimately show ?thesis by simp
  next
    case False
    then have "\<not> k dvd y" by (simp add: dvd_eq_mod_eq_0)
    moreover have "(y - 1) div k = ?q"
      by (rule int_div_pos_eq [of _ _ _ "?r - 1"]) (use False y r in \<open>auto simp: algebra_simps\<close>)
    ultimately show ?thesis by simp
  qed
qed

lemma day_number_Suc: "day_number (y + 1) 1 1 = day_number y 1 1 + (if is_leap y then 366 else 365)"
proof -
  have d: "100 dvd y" if "400 dvd y" using that by (rule dvd_trans [rotated]) simp
  have e: "4 dvd y" if "100 dvd y" using that by (rule dvd_trans [rotated]) simp
  have a: "day_number (y + 1) 1 1 = 365 * (y + 1) + y div 4 - y div 100 + y div 400 + 1"
    and b: "day_number y 1 1 = 365 * y + (y - 1) div 4 - (y - 1) div 100 + (y - 1) div 400 + 1"
    by (simp_all add: day_number_def)
  have q: "y div 4 = (y - 1) div 4 + (if 4 dvd y then 1 else 0)" "y div 100 = (y - 1) div 100 + (if 100 dvd y then 1 else 0)"
      "y div 400 = (y - 1) div 400 + (if 400 dvd y then 1 else 0)"
    by (rule div_pred_int, simp)+
  show ?thesis unfolding a b q is_leap_def using d e by (cases "4 dvd y"; cases "100 dvd y"; cases "400 dvd y") simp_all
qed

text \<open>The civil date of a day number: the year, then the month within it.\<close>

function yearLoop :: "int \<Rightarrow> int \<Rightarrow> int" where
  "yearLoop y d = (if day_number (y + 1) 1 1 \<le> d then yearLoop (y + 1) d else y)"
  by pat_completeness auto
termination
  by (relation "measure (\<lambda>(y, d). nat (d - day_number y 1 1))") (auto simp: day_number_Suc simp del: One_nat_def split: if_splits)

declare yearLoop.simps [simp del]

function monthLoop :: "int \<Rightarrow> nat \<Rightarrow> nat \<Rightarrow> nat \<times> nat" where
  "monthLoop y m d =
     (if m < 12 \<and> days_in_month y m < d then monthLoop y (m + 1) (d - days_in_month y m) else (m, d))"
  by pat_completeness auto
termination
  by (relation "measure (\<lambda>(_, m, _). 12 - m)") auto

declare monthLoop.simps [simp del]

definition civil :: "int \<Rightarrow> int \<times> nat \<times> nat" where
  "civil d = (let y = yearLoop (d div 366) d in (y, monthLoop y 1 (nat (d - day_number y 1 1 + 1))))"

definition of_instant :: "int \<Rightarrow> Time" where
  "of_instant i =
     (let s = i div 10 ^ 9; (y, m, d) = civil (s div 86400)
      in \<lparr>Year = y, Month = m, Day = d, Hour = nat (s mod 86400 div 3600), Minute = nat (s mod 3600 div 60),
          Second = nat (s mod 60), Nanosecond = nat (i mod 10 ^ 9)\<rparr>)"

text \<open>\<open>t.Add(dur)\<close> and \<open>t.After(u)\<close>.\<close>

definition AddDuration :: "Time \<Rightarrow> int \<Rightarrow> Time" where
  "AddDuration t dur = of_instant (instant t + dur)"

definition After :: "Time \<Rightarrow> Time \<Rightarrow> bool" where
  "After t u = (instant t > instant u)"

section \<open>The CA name\<close>

definition OIDRDNATrustAnchorID :: "nat list" where
  "OIDRDNATrustAnchorID = [1, 3, 6, 1, 4, 1, 44363, 47, 1]"

definition BuildCAName :: "string \<Rightarrow> bytes result" where
  "BuildCAName caID =
     (if caID = [] then Inl (Errorf ''caID empty'')
      else
        rbind (rwrap ''marshal AttributeTypeAndValue''
            (rbind (marshalOID OIDRDNATrustAnchorID) (\<lambda>oid. Inr (tlv 0x30 (oid @ tlv 0x0c (bytes_of caID)))))) (\<lambda>atv.
          Inr (tlv 0x30 (tlv 0x31 atv))))"

section \<open>Requests and orders\<close>

record pkixExtension =
  xID :: "nat list"
  xCritical :: bool
  xValue :: bytes

record CertificateRequest =
  CheckSignature :: "unit result"
  DNSNames :: "string list"
  IPAddresses :: "string list"
  RawSubject :: bytes
  RawSubjectPublicKeyInfo :: bytes
  csrExtensions :: "pkixExtension list"

record OrderInput =
  AuthorizedDNSNames :: "string list"
  AuthorizedIPs :: "string list"
  ONotBefore :: "Time option"
  ONotAfter :: "Time option"

record Validated =
  VSubject :: bytes
  VSubjectPublicKeyInfo :: bytes
  VSubjectPublicKeyAlgID :: bytes
  VExtensions :: "bytes option"
  VNotBefore :: Time
  VNotAfter :: Time

record Validator =
  DefaultLifetime :: int
  Now :: Time

definition NewValidator :: "Time \<Rightarrow> Validator" where
  "NewValidator now = \<lparr>DefaultLifetime = 7 * 24 * 3600 * 10 ^ 9, Now = now\<rparr>"

definition ErrBadCSR :: goerror where
  "ErrBadCSR = Sentinel ''badCSR''"

definition extractFirstElement :: "bytes \<Rightarrow> bytes result" where
  "extractFirstElement data =
     rbind (unmarshalRaw data) (\<lambda>(inner, _).
       if \<not> IsCompound inner then Inl (Errorf ''expected outer SEQUENCE'')
       else rbind (unmarshalRaw (rvBytes inner)) (\<lambda>(first, _). Inr (FullBytes first)))"

definition oidExtSubjectAltName :: "nat list" where
  "oidExtSubjectAltName = [2, 5, 29, 17]"

definition leafExtensionAllowSet :: "nat list list" where
  "leafExtensionAllowSet = [oidExtSubjectAltName, [2, 5, 29, 15], [2, 5, 29, 37]]"

definition leafExtensionAllowed :: "nat list \<Rightarrow> bool" where
  "leafExtensionAllowed ID = list_ex (\<lambda>a. a = ID) leafExtensionAllowSet"

fun oidLess :: "nat list \<Rightarrow> nat list \<Rightarrow> bool" where
  "oidLess (a # as) (b # bs) = (if a \<noteq> b then a < b else oidLess as bs)"
| "oidLess as bs = (length as < length bs)"

text \<open>The loop over the extensions of the request: the identifiers seen, those kept, and whether one was the alternative name.\<close>

fun extLoop :: "bool \<Rightarrow> nat list list \<Rightarrow> pkixExtension list \<Rightarrow> bool \<Rightarrow> pkixExtension list \<Rightarrow> (pkixExtension list \<times> bool) result" where
  "extLoop subjectEmpty seen exts sawSAN [] = Inr (exts, sawSAN)"
| "extLoop subjectEmpty seen exts sawSAN (e # es) =
     (if xID e \<in> set seen then Inl (wrapf ''duplicate extension'' ErrBadCSR)
      else if \<not> leafExtensionAllowed (xID e) then extLoop subjectEmpty (xID e # seen) exts sawSAN es
      else
        let isSAN = (xID e = oidExtSubjectAltName)
        in extLoop subjectEmpty (xID e # seen) (exts @ [e\<lparr>xCritical := xCritical e \<or> (isSAN \<and> subjectEmpty)\<rparr>]) (sawSAN \<or> isSAN) es)"

text \<open>This package's own copy of the DER length and SEQUENCE helpers.\<close>

definition ca_appendDERLength :: "bytes \<Rightarrow> nat \<Rightarrow> bytes" where
  "ca_appendDERLength b n =
     (if n < 0x80 then b @ [of_nat n]
      else if n \<le> 0xff then b @ [0x81, of_nat n]
      else if n \<le> 0xffff then b @ [0x82, of_nat (n div 2 ^ 8), of_nat n]
      else if n \<le> 0xffffff then b @ [0x83, of_nat (n div 2 ^ 16), of_nat (n div 2 ^ 8), of_nat n]
      else b @ [0x84, of_nat (n div 2 ^ 24), of_nat (n div 2 ^ 16), of_nat (n div 2 ^ 8), of_nat n])"

definition ca_wrapSequence :: "bytes \<Rightarrow> bytes" where
  "ca_wrapSequence body = ca_appendDERLength [0x30] (length body) @ body"

lemma ca_appendDERLength_eq: "ca_appendDERLength = appendDERLength"
  by (simp add: ca_appendDERLength_def appendDERLength_def fun_eq_iff)

lemma ca_wrapSequence_tlv: "ca_wrapSequence body = tlv 0x30 body"
  by (simp add: ca_wrapSequence_def ca_appendDERLength_eq tlv_def)

definition marshalExtensionDER :: "pkixExtension \<Rightarrow> bytes result" where
  "marshalExtensionDER e =
     rbind (marshalOID (xID e)) (\<lambda>oid.
       Inr (tlv 0x30 (oid @ (if xCritical e then tlv 0x01 [0xff] else []) @ marshalOctets (xValue e))))"

definition buildExtensionsFromCSR :: "CertificateRequest \<Rightarrow> bool \<Rightarrow> bytes option result" where
  "buildExtensionsFromCSR csr subjectEmpty =
     (if csrExtensions csr = [] then
        (if subjectEmpty then Inl (wrapf ''empty subject requires a subjectAltName extension'' ErrBadCSR) else Inr None)
      else
        rbind (extLoop subjectEmpty [] [] False (csrExtensions csr)) (\<lambda>(exts, sawSAN).
          if subjectEmpty \<and> \<not> sawSAN then Inl (wrapf ''empty subject requires a subjectAltName extension'' ErrBadCSR)
          else
            rbind (rmap marshalExtensionDER (stable_sort (\<lambda>a b. oidLess (xID a) (xID b)) exts)) (\<lambda>ders.
              Inr (Some (ca_wrapSequence (concat ders))))))"

definition Validate :: "Validator \<Rightarrow> CertificateRequest \<Rightarrow> OrderInput \<Rightarrow> Validated result" where
  "Validate v csr order =
     (case CheckSignature csr of
        Inl _ \<Rightarrow> Inl (wrapf ''csr signature'' ErrBadCSR)
      | Inr _ \<Rightarrow>
        if \<not> (\<forall>n\<in>set (DNSNames csr). ToLower n \<in> ToLower ` set (AuthorizedDNSNames order)) then
          Inl (wrapf ''CSR DNSName not authorized by order'' ErrBadCSR)
        else if \<not> (\<forall>ip\<in>set (IPAddresses csr). ip \<in> set (AuthorizedIPs order)) then
          Inl (wrapf ''CSR IPAddress not authorized by order'' ErrBadCSR)
        else if length (DNSNames csr) + length (IPAddresses csr) = 0 then Inl (wrapf ''CSR has no SAN entries'' ErrBadCSR)
        else
          let notBefore = (case ONotBefore order of None \<Rightarrow> Now v | Some t \<Rightarrow> t);
              notAfter = (case ONotAfter order of None \<Rightarrow> AddDuration notBefore (DefaultLifetime v) | Some t \<Rightarrow> t)
          in if \<not> After notAfter notBefore then Inl (Errorf ''validity window has zero or negative duration'')
             else
               let subjectDER = (if RawSubject csr = [] then [0x30, 0x00] else RawSubject csr)
               in rbind (rwrap ''extract SPKI algorithm'' (extractFirstElement (RawSubjectPublicKeyInfo csr))) (\<lambda>algID.
                  rbind (rwrap ''build extensions'' (buildExtensionsFromCSR csr (RawSubject csr = []))) (\<lambda>extensions.
                    Inr \<lparr>VSubject = subjectDER, VSubjectPublicKeyInfo = RawSubjectPublicKeyInfo csr, VSubjectPublicKeyAlgID = algID,
                         VExtensions = extensions, VNotBefore = notBefore, VNotAfter = notAfter\<rparr>)))"

text \<open>\<open>BuildLogEntry\<close>: the entry, its DER and its contents octets.\<close>

definition BuildLogEntry :: "(bytes \<Rightarrow> Hash) \<Rightarrow> Validated \<Rightarrow> bytes \<Rightarrow> (TBSCertificateLogEntry \<times> bytes \<times> bytes) result" where
  "BuildLogEntry sha256 v issuerDN =
     (if VSubjectPublicKeyInfo v = [] then Inl (Errorf ''SubjectPublicKeyInfo missing'')
      else if issuerDN = [] then Inl (Errorf ''issuer DN missing'')
      else
        let entry = \<lparr>Version = 2, IssuerDN = issuerDN, NotBefore = UTCTime.truncate (VNotBefore v), NotAfter = UTCTime.truncate (VNotAfter v),
              SubjectDN = VSubject v, SubjectPublicKeyAlgorithm = VSubjectPublicKeyAlgID v,
              SubjectPublicKeyInfoHash = hash_bytes (sha256 (VSubjectPublicKeyInfo v)),
              IssuerUniqueID = None, SubjectUniqueID = None, Extensions = VExtensions v\<rparr>
        in rbind (MarshalDER entry) (\<lambda>der.
           rbind (MarshalContents entry) (\<lambda>contents. Inr (entry, der, contents))))"

section \<open>Times\<close>

lemma yearLoop_bounds:
  assumes "day_number y 1 1 \<le> d"
  shows "day_number (yearLoop y d) 1 1 \<le> d \<and> d < day_number (yearLoop y d + 1) 1 1"
  using assms
proof (induction y d rule: yearLoop.induct)
  case (1 y d)
  show ?case
  proof (cases "day_number (y + 1) 1 1 \<le> d")
    case True
    with 1 show ?thesis by (simp add: yearLoop.simps [of y])
  qed (use 1 in \<open>simp add: yearLoop.simps [of y]\<close>)
qed

lemma day_number_month:
  "1 \<le> m \<Longrightarrow> day_number y m d = day_number y 1 1 + int (\<Sum>k\<leftarrow>[1..<m]. days_in_month y k) + int d - 1"
  by (simp add: day_number_def)

lemma monthLoop_day_number:
  assumes "1 \<le> m"
  shows "case monthLoop y m d of (m', d') \<Rightarrow> 1 \<le> m' \<and> day_number y m' d' = day_number y m d"
  using assms
proof (induction y m d rule: monthLoop.induct)
  case (1 y m d)
  show ?case
  proof (cases "m < 12 \<and> days_in_month y m < d")
    case True
    have "[1..<m + 1] = [1..<m] @ [m]" using 1(2) by simp
    then have "day_number y (m + 1) (d - days_in_month y m) = day_number y m d"
      using True 1(2) day_number_month [of m y d] day_number_month [of "m + 1" y "d - days_in_month y m"]
      by (simp del: upt_Suc One_nat_def)
    then show ?thesis using 1 True by (simp add: monthLoop.simps [of y m d])
  next
    case False
    then show ?thesis using 1(2) by (subst monthLoop.simps) auto
  qed
qed

lemma day_number_low: "0 \<le> y \<Longrightarrow> day_number y 1 1 \<le> 366 * y"
proof (induction y rule: int_ge_induct)
  case base
  then show ?case by (simp add: day_number_def)
next
  case (step y)
  then show ?case by (simp add: day_number_Suc del: One_nat_def)
qed

lemma civil_day_number:
  assumes "0 \<le> d"
  shows "case civil d of (y, m, k) \<Rightarrow> day_number y m k = d"
proof -
  have "0 \<le> d div 366" "366 * (d div 366) \<le> d" using assms by (simp_all add: pos_imp_zdiv_nonneg_iff)
  then have "day_number (d div 366) 1 1 \<le> d" using day_number_low [of "d div 366"] by linarith
  note y = yearLoop_bounds [OF this]
  let ?y = "yearLoop (d div 366) d"
  have "day_number ?y 1 (nat (d - day_number ?y 1 1 + 1)) = d"
    using y day_number_month [of 1 ?y "nat (d - day_number ?y 1 1 + 1)"] by simp
  then show ?thesis
    using monthLoop_day_number [of 1 ?y "nat (d - day_number ?y 1 1 + 1)"] by (auto simp: civil_def Let_def)
qed

lemma hms: "(((x :: int) div 86400 * 24 + x mod 86400 div 3600) * 60 + x mod 3600 div 60) * 60 + x mod 60 = x"
proof -
  have "x mod (3600 * 24) = 3600 * (x div 3600 mod 24) + x mod 3600" by (rule zmod_zmult2_eq) simp
  then have a1: "x mod 86400 = 3600 * (x div 3600 mod 24) + x mod 3600" by simp
  have "x mod (60 * 60) = 60 * (x div 60 mod 60) + x mod 60" by (rule zmod_zmult2_eq) simp
  then have a2: "x mod 3600 = 60 * (x div 60 mod 60) + x mod 60" by simp
  have "x div (3600 * 24) = x div 3600 div 24" by (rule zdiv_zmult2_eq) simp
  then have a3: "x div 86400 = x div 3600 div 24" by simp
  have "x div (60 * 60) = x div 60 div 60" by (rule zdiv_zmult2_eq) simp
  then have a4: "x div 3600 = x div 60 div 60" by simp
  have b: "x mod 86400 div 3600 = x div 3600 mod 24" unfolding a1 by simp
  have c: "x mod 3600 div 60 = x div 60 mod 60" unfolding a2 by simp
  have d: "x div 86400 * 24 + x div 3600 mod 24 = x div 3600" unfolding a3 by simp
  have e: "x div 3600 * 60 + x div 60 mod 60 = x div 60" unfolding a4 by simp
  show ?thesis unfolding b c d e by simp
qed

lemma instant_of_instant:
  assumes "0 \<le> i"
  shows "instant (of_instant i) = i"
proof -
  define s where "s = i div 10 ^ 9"
  obtain y m k where c: "civil (s div 86400) = (y, m, k)" by (cases "civil (s div 86400)")
  have "0 \<le> s" using assms by (simp add: s_def pos_imp_zdiv_nonneg_iff)
  then have "0 \<le> s div 86400" by (simp add: pos_imp_zdiv_nonneg_iff)
  then have d: "day_number y m k = s div 86400" using civil_day_number c by force
  have n: "int (nat (s mod 86400 div 3600)) = s mod 86400 div 3600" "int (nat (s mod 3600 div 60)) = s mod 3600 div 60"
      "int (nat (s mod 60)) = s mod 60" "int (nat (i mod 10 ^ 9)) = i mod 10 ^ 9"
    by (simp_all add: pos_imp_zdiv_nonneg_iff)
  have "instant (of_instant i) =
      (((s div 86400 * 24 + s mod 86400 div 3600) * 60 + s mod 3600 div 60) * 60 + s mod 60) * 10 ^ 9 + i mod 10 ^ 9"
    unfolding of_instant_def Let_def s_def [symmetric] c prod.case instant_def
      UTCTime.select_convs Time.select_convs n d by (rule refl)
  also have "\<dots> = i" unfolding hms s_def by simp
  finally show ?thesis .
qed

section \<open>What a validated request has\<close>

definition kept :: "bool \<Rightarrow> pkixExtension list \<Rightarrow> pkixExtension \<Rightarrow> bool" where
  "kept subjectEmpty es e \<longleftrightarrow> leafExtensionAllowed (xID e) \<and>
     (\<exists>e0\<in>set es. xID e = xID e0 \<and> xValue e = xValue e0 \<and>
        (xCritical e \<longleftrightarrow> xCritical e0 \<or> (xID e = oidExtSubjectAltName \<and> subjectEmpty)))"

lemma extLoop_ok:
  "extLoop se seen exts saw es = Inr (r, saw') \<Longrightarrow>
     distinct (map xID es) \<and> set (map xID es) \<inter> set seen = {} \<and>
     (\<exists>new. r = exts @ new \<and> map xID new = filter leafExtensionAllowed (map xID es) \<and> (\<forall>e\<in>set new. kept se es e) \<and>
       (saw' \<longleftrightarrow> saw \<or> (\<exists>e\<in>set new. xID e = oidExtSubjectAltName)))"
proof (induction se seen exts saw es rule: extLoop.induct)
  case (2 se seen exts saw e es)
  have n: "xID e \<notin> set seen" using "2.prems" by (auto split: if_splits)
  show ?case
  proof (cases "leafExtensionAllowed (xID e)")
    case False
    have "extLoop se (xID e # seen) exts saw es = Inr (r, saw')" using "2.prems" n False by simp
    from "2.IH"(1) [OF n False this] show ?thesis using n False by (auto simp: kept_def)
  next
    case True
    let ?e = "e\<lparr>xCritical := xCritical e \<or> (xID e = oidExtSubjectAltName \<and> se)\<rparr>"
    have "extLoop se (xID e # seen) (exts @ [?e]) (saw \<or> xID e = oidExtSubjectAltName) es = Inr (r, saw')"
      using "2.prems" n True by (simp add: Let_def)
    from "2.IH"(2) [OF n _ refl this] True obtain new where
      d: "distinct (map xID es)" "set (map xID es) \<inter> set (xID e # seen) = {}"
      and new: "r = (exts @ [?e]) @ new" "map xID new = filter leafExtensionAllowed (map xID es)" "\<forall>e\<in>set new. kept se es e"
        "saw' \<longleftrightarrow> (saw \<or> xID e = oidExtSubjectAltName) \<or> (\<exists>e\<in>set new. xID e = oidExtSubjectAltName)"
      by auto
    have "kept se (e # es) ?e" using True by (simp add: kept_def)
    moreover have "\<forall>x\<in>set new. kept se (e # es) x" using new(3) by (auto simp: kept_def)
    ultimately show ?thesis using d new True n by (intro conjI exI [of _ "?e # new"]) auto
  qed
qed simp

lemma oidLess_asym: "oidLess a b \<Longrightarrow> \<not> oidLess b a"
  by (induction a b rule: oidLess.induct) (auto split: if_splits)

text \<open>
  C19: a validated request is authorized. When \<open>Validate\<close> succeeds the request is signed by its key, names
  at least one DNS name or address, and each is authorized by the order (up to case); the validity
  window is not empty; only extensions of the allow list are carried, each once and with the value of the
  request, sorted by identifier; and with an empty subject the alternative name is there and critical.
\<close>

theorem validate_authorized:
  assumes "Validate v csr order = Inr w"
  shows "CheckSignature csr = Inr () \<and> DNSNames csr @ IPAddresses csr \<noteq> [] \<and>
    (\<forall>n\<in>set (DNSNames csr). \<exists>a\<in>set (AuthorizedDNSNames order). ToLower n = ToLower a) \<and>
    set (IPAddresses csr) \<subseteq> set (AuthorizedIPs order) \<and>
    instant (VNotBefore w) < instant (VNotAfter w) \<and> VSubjectPublicKeyInfo w = RawSubjectPublicKeyInfo csr \<and>
    distinct (map xID (csrExtensions csr)) \<and>
    (case VExtensions w of
       None \<Rightarrow> csrExtensions csr = [] \<and> RawSubject csr \<noteq> []
     | Some der \<Rightarrow> \<exists>exts ders. rmap marshalExtensionDER exts = Inr ders \<and> der = ca_wrapSequence (concat ders) \<and>
         distinct (map xID exts) \<and> xID ` set exts = {ID \<in> xID ` set (csrExtensions csr). leafExtensionAllowed ID} \<and>
         (\<forall>e\<in>set exts. kept (RawSubject csr = []) (csrExtensions csr) e) \<and>
         no_descent (\<lambda>a b. oidLess (xID a) (xID b)) exts \<and>
         (RawSubject csr = [] \<longrightarrow> (\<exists>e\<in>set exts. xID e = oidExtSubjectAltName \<and> xCritical e)))"
proof -
  obtain x where x: "buildExtensionsFromCSR csr (RawSubject csr = []) = Inr x" "VExtensions w = x"
    and rest: "CheckSignature csr = Inr ()" "DNSNames csr @ IPAddresses csr \<noteq> []"
      "\<forall>n\<in>set (DNSNames csr). ToLower n \<in> ToLower ` set (AuthorizedDNSNames order)"
      "\<forall>ip\<in>set (IPAddresses csr). ip \<in> set (AuthorizedIPs order)"
      "instant (VNotBefore w) < instant (VNotAfter w)" "VSubjectPublicKeyInfo w = RawSubjectPublicKeyInfo csr"
    using assms by (auto simp: Validate_def rbind_eq_Inr Let_def After_def split: sum.splits if_splits)
  have "\<forall>n\<in>set (DNSNames csr). \<exists>a\<in>set (AuthorizedDNSNames order). ToLower n = ToLower a"
      "set (IPAddresses csr) \<subseteq> set (AuthorizedIPs order)"
    using rest(3,4) by (blast, blast)
  note rest = rest(1,2,5,6) this
  show ?thesis
  proof (cases "csrExtensions csr = []")
    case True
    then have "x = None" "RawSubject csr \<noteq> []" using x(1) by (auto simp: buildExtensionsFromCSR_def split: if_splits)
    then show ?thesis using rest x(2) True by simp
  next
    case False
    let ?lt = "\<lambda>a b. oidLess (xID a) (xID b)"
    obtain exts saw ders where l: "extLoop (RawSubject csr = []) [] [] False (csrExtensions csr) = Inr (exts, saw)"
      and san: "RawSubject csr = [] \<longrightarrow> saw" and d: "rmap marshalExtensionDER (stable_sort ?lt exts) = Inr ders"
      and xs: "x = Some (ca_wrapSequence (concat ders))"
      using x(1) False by (auto simp: buildExtensionsFromCSR_def rbind_eq_Inr split: if_splits)
    note o = extLoop_ok [OF l]
    then have k: "map xID exts = filter leafExtensionAllowed (map xID (csrExtensions csr))"
        "\<forall>e\<in>set exts. kept (RawSubject csr = []) (csrExtensions csr) e"
        "saw \<longleftrightarrow> (\<exists>e\<in>set exts. xID e = oidExtSubjectAltName)" "distinct (map xID (csrExtensions csr))"
      by auto
    have "distinct (map xID exts)" using k(1,4) by simp
    then have "card (xID ` set exts) = length exts" using distinct_card [of "map xID exts"] by simp
    then have m: "distinct (map xID (stable_sort ?lt exts))" by (intro card_distinct) simp
    have i: "xID ` set exts = {ID \<in> xID ` set (csrExtensions csr). leafExtensionAllowed ID}"
      using arg_cong [OF k(1), of set] by auto
    have s: "no_descent ?lt (stable_sort ?lt exts)"
      by (rule stable_sort_no_descent) (auto dest: oidLess_asym)
    have "\<exists>e\<in>set exts. xID e = oidExtSubjectAltName \<and> xCritical e" if "RawSubject csr = []"
      using k(2,3) san that by (auto simp: kept_def)
    then show ?thesis
      using rest x(2) xs d m s k(2,4) i by (auto intro!: exI [of _ "stable_sort ?lt exts"])
  qed
qed

definition sample_csr :: CertificateRequest where
  "sample_csr = \<lparr>CheckSignature = Inr (), DNSNames = [''A.example''], IPAddresses = [], RawSubject = [],
     RawSubjectPublicKeyInfo = tlv 0x30 (tlv 0x30 []), csrExtensions =
       [\<lparr>xID = [2, 5, 29, 19], xCritical = True, xValue = [0x30, 0]\<rparr>, \<lparr>xID = [2, 5, 29, 37], xCritical = False, xValue = [0x30, 0]\<rparr>,
        \<lparr>xID = [2, 5, 29, 17], xCritical = False, xValue = [0x30, 0]\<rparr>]\<rparr>"

definition sample_order :: OrderInput where
  "sample_order = \<lparr>AuthorizedDNSNames = [''a.example''], AuthorizedIPs = [], ONotBefore = None, ONotAfter = None\<rparr>"

definition sample_validator :: Validator where
  "sample_validator = NewValidator \<lparr>Year = 2026, Month = 12, Day = 28, Hour = 1, Minute = 2, Second = 3, Nanosecond = 4\<rparr>"

theorem validate_authorized_witness:
  "\<exists>w. Validate sample_validator sample_csr sample_order = Inr w \<and> instant (VNotBefore w) < instant (VNotAfter w)"
proof -
  have "\<not> isl (Validate sample_validator sample_csr sample_order)" by code_simp
  then obtain w where w: "Validate sample_validator sample_csr sample_order = Inr w"
    by (cases "Validate sample_validator sample_csr sample_order") auto
  from validate_authorized [OF w] w show ?thesis by blast
qed

end
