(* ===== verification/RelyingParty.thy ===== *)
theory RelyingParty
  imports Asn1 Cosign Tlog
begin

text \<open>
  The relying party: splitting a certificate and rebuilding the log entry it stands for
  (cert/verify.go), revoked ranges (cert/cacert.go), the verification of a Merkle Tree certificate
  (cert/rpverify.go) and the landmark-relative form of a certificate (cert/landmark.go).
\<close>

section \<open>Certificates\<close>

definition SplitCertificate :: "bytes \<Rightarrow> (bytes \<times> bytes \<times> bytes) result" where
  "SplitCertificate der =
     rbind (unmarshalRaw der) (\<lambda>(outer, rest).
       if rest \<noteq> [] then Inl (Errorf ''cert: trailing bytes after Certificate'')
       else
         rbind (unmarshalRaw (rvBytes outer)) (\<lambda>(tbsRV, body1).
         rbind (unmarshalRaw body1) (\<lambda>(algRV, body2).
         rbind (unmarshalBitString body2) (\<lambda>(sigBS, rest2).
           if rest2 \<noteq> [] then Inl (Errorf ''cert: trailing bytes after Certificate body'')
           else Inr (FullBytes tbsRV, FullBytes algRV, fst sigBS)))))"

text \<open>The optional fields at the end of a TBSCertificate: those seen so far, by tag.\<close>

record tailFields =
  tfIssuerUID :: "bytes option"
  tfSubjectUID :: "bytes option"
  tfExtensions :: "bytes option"

function tailLoop :: "bytes \<Rightarrow> tailFields \<Rightarrow> tailFields result" where
  "tailLoop body f =
     (if body = [] then Inr f
      else case unmarshalRaw body of
        Inl e \<Rightarrow> Inl e
      | Inr (rv, body') \<Rightarrow>
          if rvClass rv \<noteq> 2 then Inl (Errorf ''cert: unexpected TBS field'')
          else if rvTag rv = 1 then
            (if tfIssuerUID f \<noteq> None then Inl (Errorf ''cert: duplicate issuerUniqueID'')
             else tailLoop body' (f\<lparr>tfIssuerUID := Some (FullBytes rv)\<rparr>))
          else if rvTag rv = 2 then
            (if tfSubjectUID f \<noteq> None then Inl (Errorf ''cert: duplicate subjectUniqueID'')
             else tailLoop body' (f\<lparr>tfSubjectUID := Some (FullBytes rv)\<rparr>))
          else if rvTag rv = 3 then
            (if tfExtensions f \<noteq> None then Inl (Errorf ''cert: duplicate extensions'')
             else tailLoop body' (f\<lparr>tfExtensions := Some (FullBytes rv)\<rparr>))
          else Inl (Errorf ''cert: unknown TBS context-specific tag''))"
  by pat_completeness auto
termination
  by (relation "measure (\<lambda>(body, _). length body)") (auto dest: parseField_shorter)

declare tailLoop.simps [simp del]

definition optBytes :: "bytes option \<Rightarrow> bytes" where
  "optBytes b = (case b of None \<Rightarrow> [] | Some x \<Rightarrow> x)"

definition RebuildLogEntryFromTBS :: "(bytes \<Rightarrow> Hash) \<Rightarrow> bytes \<Rightarrow> bytes option \<Rightarrow> (bytes \<times> u64) result" where
  "RebuildLogEntryFromTBS sha256 tbs expectedIssuer =
     rbind (unmarshalRaw tbs) (\<lambda>(outer, _).
     rbind (unmarshalRaw (rvBytes outer)) (\<lambda>(ver, body1).
     rbind (unmarshalRaw body1) (\<lambda>(serialRaw, body2).
     rbind (unmarshalBigInt (FullBytes serialRaw)) (\<lambda>(serialBig, _).
       if serialBig < 0 then Inl (Errorf ''cert: negative serialNumber'')
       else if serialBig \<ge> 2 ^ 64 then Inl (Errorf ''cert: serialNumber does not fit in uint64'')
       else
     rbind (unmarshalRaw body2) (\<lambda>(_, body3).
     rbind (unmarshalRaw body3) (\<lambda>(issuer, body4).
       if expectedIssuer \<noteq> None \<and> FullBytes issuer \<noteq> the expectedIssuer then Inl (Errorf ''cert: issuer mismatch'')
       else
     rbind (unmarshalRaw body4) (\<lambda>(validity, body5).
     rbind (unmarshalRaw body5) (\<lambda>(subject, body6).
     rbind (unmarshalRaw body6) (\<lambda>(spki, body7).
     rbind (unmarshalRaw (rvBytes spki)) (\<lambda>(spkiAlg, _).
     rbind (tailLoop body7 \<lparr>tfIssuerUID = None, tfSubjectUID = None, tfExtensions = None\<rparr>) (\<lambda>f.
       Inr (FullBytes ver @ FullBytes issuer @ FullBytes validity @ FullBytes subject @ FullBytes spkiAlg
              @ marshalOctets (hash_bytes (sha256 (FullBytes spki)))
              @ optBytes (tfIssuerUID f) @ optBytes (tfSubjectUID f) @ optBytes (tfExtensions f),
            of_int serialBig))))))))))))"

section \<open>Revoked ranges\<close>

record RevokedRange =
  RRStart :: u64
  RREnd :: u64

definition Contains :: "RevokedRange list \<Rightarrow> u64 \<Rightarrow> bool" where
  "Contains r serial = list_ex (\<lambda>rr. serial \<ge> RRStart rr \<and> serial < RREnd rr) r"

record MTCCertificationAuthority =
  CALogHash :: "nat list"
  CASigAlg :: "nat list"
  MinSerial :: u64

definition InitialRevokedRanges :: "MTCCertificationAuthority \<Rightarrow> RevokedRange list" where
  "InitialRevokedRanges ca = (if MinSerial ca = 0 then [] else [\<lparr>RRStart = 0, RREnd = MinSerial ca\<rparr>])"

section \<open>Verification\<close>

record TrustedSubtreeKey =
  TSLogNumber :: u16
  TSStart :: u64
  TSEnd :: u64

record RelyingPartyConfig =
  RPCAID :: TrustAnchorID
  RPCADN :: "bytes option"
  RPLogHash :: "nat list"
  Cosigners :: "CosignerKey list"
  RequiredCosigners :: "TrustAnchorID list"
  RevokedRanges :: "RevokedRange list"
  TrustedSubtrees :: "TrustedSubtreeKey \<Rightarrow> Hash option"

definition ErrRevoked :: goerror where
  "ErrRevoked = Sentinel ''cert: serial number is revoked''"

definition ErrSubtreeMismatch :: goerror where
  "ErrSubtreeMismatch = Sentinel ''cert: inclusion proof did not reconstruct subtree hash''"

definition OIDAlgMTCProof :: "nat list" where
  "OIDAlgMTCProof = [1, 3, 6, 1, 4, 1, 44363, 47, 0]"

text \<open>The AlgorithmIdentifier is a SEQUENCE of an OID and optional parameters of any type.\<close>

definition checkMTCProofAlgID :: "bytes \<Rightarrow> unit result" where
  "checkMTCProofAlgID der =
     rbind (rwrap ''cert: parse signatureAlgorithm''
         (rbind (parseField (Some (0, 16, True)) der) (\<lambda>(rv, _).
          rbind (unmarshalOID (rvBytes rv)) (\<lambda>(oid, rest).
          rbind (if rest = [] then Inr [] else rbind (unmarshalRaw rest) (\<lambda>(p, _). Inr (FullBytes p))) (\<lambda>params.
            Inr (oid, params)))))) (\<lambda>(oid, params).
       if oid \<noteq> OIDAlgMTCProof then Inl (Errorf ''cert: signatureAlgorithm is not id-alg-mtcProof'')
       else if params \<noteq> [] then Inl (Errorf ''cert: id-alg-mtcProof parameters must be absent'')
       else Inr ())"

definition keyMap :: "CosignerKey list \<Rightarrow> TrustAnchorID \<Rightarrow> CosignerKey option" where
  "keyMap ks = foldl (\<lambda>m k. m(CKID k \<mapsto> k)) Map.empty ks"

definition sigMap :: "MTCSignature list \<Rightarrow> TrustAnchorID \<Rightarrow> MTCSignature option" where
  "sigMap ss = foldl (\<lambda>m s. m(CosignerID s \<mapsto> s)) Map.empty ss"

fun requiredLoop ::
    "'pk mldsa \<Rightarrow> (TrustAnchorID \<Rightarrow> CosignerKey option) \<Rightarrow> (TrustAnchorID \<Rightarrow> MTCSignature option) \<Rightarrow> MTCSubtree
       \<Rightarrow> TrustAnchorID list \<Rightarrow> unit result" where
  "requiredLoop mlib keys sigs subtree [] = Inr ()"
| "requiredLoop mlib keys sigs subtree (ID # ids) =
     (case keys ID of None \<Rightarrow> Inl (Errorf ''cert: no configured key for required cosigner'')
      | Some key \<Rightarrow>
     (case sigs ID of None \<Rightarrow> Inl (Errorf ''cert: certificate missing required cosignature'')
      | Some sig \<Rightarrow>
          rbind (MarshalSignatureInput ID subtree) (\<lambda>msg.
          rbind (rwrap ''cert: cosignature'' (VerifyMTCSignature mlib key sig msg)) (\<lambda>_.
            requiredLoop mlib keys sigs subtree ids))))"

definition required :: "RelyingPartyConfig \<Rightarrow> TrustAnchorID list" where
  "required cfg = (if RequiredCosigners cfg = [] then [RPCAID cfg] else RequiredCosigners cfg)"

definition verifyCosignatures ::
    "'pk mldsa \<Rightarrow> RelyingPartyConfig \<Rightarrow> TrustAnchorID \<Rightarrow> MTCProof \<Rightarrow> Hash \<Rightarrow> unit result" where
  "verifyCosignatures mlib cfg logID p subtreeHash =
     requiredLoop mlib (keyMap (Cosigners cfg)) (sigMap (Signatures p))
       \<lparr>SubLogID = logID, SubStart = PStart p, SubEnd = PEnd p, SubHash = subtreeHash\<rparr> (required cfg)"

definition VerifyCertificate :: "'pk mldsa \<Rightarrow> (bytes \<Rightarrow> Hash) \<Rightarrow> bytes \<Rightarrow> RelyingPartyConfig \<Rightarrow> unit result" where
  "VerifyCertificate mlib sha256 certDER cfg =
     rbind (SplitCertificate certDER) (\<lambda>(tbs, sigAlg, sigValue).
     rbind (checkMTCProofAlgID sigAlg) (\<lambda>_.
     rbind (ParseMTCProof sigValue) (\<lambda>p.
     rbind (RebuildLogEntryFromTBS sha256 tbs (RPCADN cfg)) (\<lambda>(tbsContents, serial).
       if Contains (RevokedRanges cfg) serial then Inl ErrRevoked
       else
     rbind (SplitSerial serial) (\<lambda>(logNumber, index).
     rbind (LogID (RPCAID cfg) logNumber) (\<lambda>logID.
     rbind (EntryHashExt sha256 (PExtensions p) tbsContents) (\<lambda>leaf.
     rbind (rwrap ''cert: evaluate inclusion proof''
         (EvaluateInclusionProof sha256 (PStart p) (PEnd p) index leaf (InclusionProof p))) (\<lambda>expected.
       case TrustedSubtrees cfg \<lparr>TSLogNumber = logNumber, TSStart = PStart p, TSEnd = PEnd p\<rparr> of
         Some want \<Rightarrow> if want = expected then Inr () else Inl ErrSubtreeMismatch
       | None \<Rightarrow> verifyCosignatures mlib cfg logID p expected))))))))"

section \<open>Landmark-relative certificates\<close>

definition wrapDERSequence :: "bytes \<Rightarrow> bytes" where
  "wrapDERSequence body = appendDERLength [0x30] (length body) @ body"

definition BuildLandmarkRelativeCert :: "cryptobyte \<Rightarrow> bytes \<Rightarrow> MTCSubtree \<Rightarrow> Hash list \<Rightarrow> bytes result" where
  "BuildLandmarkRelativeCert cb originalDER subtree inclusionProof =
     rbind (rwrap ''cert: split standalone'' (SplitCertificate originalDER)) (\<lambda>(tbs, sigAlg, _).
     rbind (rwrap ''cert: marshal landmark proof'' (MarshalTLS
         \<lparr>PExtensions = [], PStart = SubStart subtree, PEnd = SubEnd subtree, InclusionProof = inclusionProof, Signatures = []\<rparr>)) (\<lambda>proofBytes.
     rbind (AddASN1BitString cb proofBytes) (\<lambda>bits. Inr (wrapDERSequence (tbs @ sigAlg @ bits)))))"

section \<open>What acceptance means\<close>


text \<open>Everything an accepting run has checked.\<close>

lemma VerifyCertificate_ok:
  assumes "VerifyCertificate mlib sha256 der cfg = Inr ()"
  obtains tbs sigAlg sigValue p contents serial n index logID leaf h where
    "SplitCertificate der = Inr (tbs, sigAlg, sigValue)" "checkMTCProofAlgID sigAlg = Inr ()" "ParseMTCProof sigValue = Inr p"
    "RebuildLogEntryFromTBS sha256 tbs (RPCADN cfg) = Inr (contents, serial)" "\<not> Contains (RevokedRanges cfg) serial"
    "SplitSerial serial = Inr (n, index)" "LogID (RPCAID cfg) n = Inr logID" "EntryHashExt sha256 (PExtensions p) contents = Inr leaf"
    "EvaluateInclusionProof sha256 (PStart p) (PEnd p) index leaf (InclusionProof p) = Inr h"
    "TrustedSubtrees cfg \<lparr>TSLogNumber = n, TSStart = PStart p, TSEnd = PEnd p\<rparr> = Some h \<or>
     TrustedSubtrees cfg \<lparr>TSLogNumber = n, TSStart = PStart p, TSEnd = PEnd p\<rparr> = None \<and> verifyCosignatures mlib cfg logID p h = Inr ()"
proof -
  obtain tbs sigAlg sigValue p contents serial n index logID leaf h where
    r: "SplitCertificate der = Inr (tbs, sigAlg, sigValue)" "checkMTCProofAlgID sigAlg = Inr ()" "ParseMTCProof sigValue = Inr p"
    "RebuildLogEntryFromTBS sha256 tbs (RPCADN cfg) = Inr (contents, serial)" "\<not> Contains (RevokedRanges cfg) serial"
    "SplitSerial serial = Inr (n, index)" "LogID (RPCAID cfg) n = Inr logID" "EntryHashExt sha256 (PExtensions p) contents = Inr leaf"
    "EvaluateInclusionProof sha256 (PStart p) (PEnd p) index leaf (InclusionProof p) = Inr h"
    and t: "(case TrustedSubtrees cfg \<lparr>TSLogNumber = n, TSStart = PStart p, TSEnd = PEnd p\<rparr> of
       Some want \<Rightarrow> if want = h then Inr () else Inl ErrSubtreeMismatch
     | None \<Rightarrow> verifyCosignatures mlib cfg logID p h) = Inr ()"
    using assms unfolding VerifyCertificate_def by (auto simp: rbind_eq_Inr split: if_splits)
  show thesis
    by (rule that [OF r]) (use t in \<open>cases "TrustedSubtrees cfg \<lparr>TSLogNumber = n, TSStart = PStart p, TSEnd = PEnd p\<rparr>"; simp split: if_splits\<close>)
qed

section \<open>Accepted certificates are logged\<close>









section \<open>Certificates put together\<close>

lemma SplitCertificate_length:
  assumes "SplitCertificate der = Inr (tbs, sigAlg, sigValue)"
  shows "length tbs + length sigAlg \<le> length der"
proof -
  obtain t a body1 body2 outer where o: "unmarshalRaw der = Inr (outer, [])" and t: "unmarshalRaw (rvBytes outer) = Inr (t, body1)"
      "FullBytes t = tbs" and a: "unmarshalRaw body1 = Inr (a, body2)" "FullBytes a = sigAlg"
    using assms(1) by (auto simp: SplitCertificate_def rbind_eq_Inr split: if_splits)
  have "rvBytes outer = tbs @ sigAlg @ body2" using parseField_local(1) [OF t(1)] parseField_local(1) [OF a(1)] t(2) a(2) by simp
  moreover have "length (rvBytes outer) \<le> length der" by (rule parseField_bytes [OF o])
  ultimately show ?thesis by simp
qed

lemma SplitCertificate_wrap:
  assumes "SplitCertificate der = Inr (tbs, sigAlg, sigValue)" "unmarshalBitString bits = Inr ((b, u), [])"
    and "length (tbs @ sigAlg @ bits) < 2 ^ 31"
  shows "SplitCertificate (tlv 0x30 (tbs @ sigAlg @ bits)) = Inr (tbs, sigAlg, b)"
proof -
  obtain t a body1 body2 outer where "unmarshalRaw der = Inr (outer, [])" and t: "unmarshalRaw (rvBytes outer) = Inr (t, body1)"
      "FullBytes t = tbs" and a: "unmarshalRaw body1 = Inr (a, body2)" "FullBytes a = sigAlg"
    using assms(1) by (auto simp: SplitCertificate_def rbind_eq_Inr split: if_splits)
  have "unmarshalRaw (tlv 0x30 (tbs @ sigAlg @ bits)) = Inr (element 0x30 (tbs @ sigAlg @ bits), [])"
    using parseField_tlv [OF _ assms(3), of "0x30" None "[]"] by simp
  moreover have "unmarshalRaw (tbs @ sigAlg @ bits) = Inr (t, sigAlg @ bits)"
    using parseField_local(3) [OF t(1), of "sigAlg @ bits"] t(2) by simp
  moreover have "unmarshalRaw (sigAlg @ bits) = Inr (a, bits)" using parseField_local(3) [OF a(1), of bits] a(2) by simp
  ultimately show ?thesis using assms(2) t(2) a(2) by (simp add: SplitCertificate_def)
qed

lemma proof_bytes_length:
  assumes "MarshalTLS p = Inr b"
  shows "length b < 2 ^ 20"
  using assms by (auto simp: MarshalTLS_eq proof_ok_def proof_bytes_def length_concat_hashes addUint48_def)

lemma landmark_split:
  assumes "cryptobyte_laws cb" "SplitCertificate der = Inr (tbs, sigAlg, sigValue)" "length der < 2 ^ 29"
    "BuildLandmarkRelativeCert cb der st pr = Inr der'"
  shows "\<exists>pb. SplitCertificate der' = Inr (tbs, sigAlg, pb) \<and>
    ParseMTCProof pb = Inr \<lparr>PExtensions = [], PStart = SubStart st, PEnd = SubEnd st, InclusionProof = pr, Signatures = []\<rparr>"
proof -
  let ?p = "\<lparr>PExtensions = [], PStart = SubStart st, PEnd = SubEnd st, InclusionProof = pr, Signatures = []\<rparr>"
  obtain pb bits where pb: "MarshalTLS ?p = Inr pb" and bits: "AddASN1BitString cb pb = Inr bits"
    and der': "der' = tlv 0x30 (tbs @ sigAlg @ bits)"
    using assms(2,4) by (auto simp: BuildLandmarkRelativeCert_def rbind_eq_Inr wrapDERSequence_def tlv_def)
  note len = proof_bytes_length [OF pb]
  have l30: "length pb < 2 ^ 30" using len by simp
  have bt: "bits = tlv 0x03 (0 # pb)" using cryptobyte_laws.add_bits [OF assms(1) l30] bits by simp
  have "unmarshalBitString (bits @ []) = Inr ((pb, 0), [])"
    using cryptobyte_laws.read_bits [OF assms(1) l30, of "[]"] bits by auto
  then have r: "unmarshalBitString bits = Inr ((pb, 0), [])" by simp
  have "length (appendDERLength [3] (Suc (length pb))) \<le> 6" by (simp add: appendDERLength_def)
  then have lb: "length bits < 2 ^ 21" using len by (simp add: bt tlv_def)
  have "length tbs + length sigAlg \<le> length der" by (rule SplitCertificate_length [OF assms(2)])
  then have "length (tbs @ sigAlg @ bits) < 2 ^ 31" using lb assms(3) by simp
  from SplitCertificate_wrap [OF assms(2) r this] der' parse_marshal_proof [OF pb] show ?thesis
    by (simp add: stable_sort_def)
qed

text \<open>
  C14: a landmark-relative certificate has the TBSCertificate and the signature algorithm of the standalone
  one and no signatures, and a relying party that trusts the landmark subtree accepts it whenever it
  accepts the standalone certificate (which has no entry extensions) and the inclusion proof leads to
  the hash it trusts.
\<close>

theorem landmark_cert_verifies:
  assumes "cryptobyte_laws cb" "VerifyCertificate mlib sha256 der cfg = Inr ()" "length der < 2 ^ 29"
    "SplitCertificate der = Inr (tbs, sigAlg, sigValue)" "ParseMTCProof sigValue = Inr p" "PExtensions p = []"
    "RebuildLogEntryFromTBS sha256 tbs (RPCADN cfg) = Inr (contents, serial)" "SplitSerial serial = Inr (n, index)"
    "BuildLandmarkRelativeCert cb der st pr = Inr der'"
    "EvaluateInclusionProof sha256 (SubStart st) (SubEnd st) index (EntryHash sha256 contents) pr = Inr (SubHash st)"
    "cfg' = cfg\<lparr>TrustedSubtrees := (TrustedSubtrees cfg)(\<lparr>TSLogNumber = n, TSStart = SubStart st, TSEnd = SubEnd st\<rparr> \<mapsto> SubHash st)\<rparr>"
  shows "VerifyCertificate mlib sha256 der' cfg' = Inr () \<and>
    (\<exists>sigValue'. SplitCertificate der' = Inr (tbs, sigAlg, sigValue'))"
  using assms(2)
proof (cases rule: VerifyCertificate_ok)
  case (1 tbs1 sigAlg1 sigValue1 p1 contents1 serial1 n1 index1 logID leaf h)
  have same: "tbs1 = tbs" "sigAlg1 = sigAlg" "contents1 = contents" "serial1 = serial" "n1 = n" "index1 = index" "p1 = p"
    using 1(1,3,4,6) assms(4,5,7,8) by auto
  obtain pb where pb: "SplitCertificate der' = Inr (tbs, sigAlg, pb)"
      "ParseMTCProof pb = Inr \<lparr>PExtensions = [], PStart = SubStart st, PEnd = SubEnd st, InclusionProof = pr, Signatures = []\<rparr>"
    using landmark_split [OF assms(1,4,3,9)] by blast
  have leaf: "EntryHashExt sha256 [] contents = Inr (EntryHash sha256 contents)"
    by (simp add: EntryHash_def EntryHashExt_def encodeEntryExtensionsVector_def)
  show ?thesis
    using 1 pb leaf assms(7,8,10,11) unfolding same by (simp add: VerifyCertificate_def)
qed

section \<open>A sample certificate\<close>

text \<open>Serial number \<open>2\<^sup>4\<^sup>8\<close>: entry 0 of log 1.\<close>

definition sample_alg :: bytes where
  "sample_alg = tlv 0x30 (tlv 0x06 [0x2b, 6, 1, 4, 1, 0x82, 0xda, 0x4b, 47, 0])"

definition sample_tbs :: bytes where
  "sample_tbs = tlv 0x30 (tlv 0xa0 (tlv 0x02 [2]) @ tlv 0x02 [1, 0, 0, 0, 0, 0, 0] @ sample_alg @ tlv 0x30 [] @ tlv 0x30 [] @ tlv 0x30 []
     @ tlv 0x30 (tlv 0x30 []) @ tlv 0xa3 (tlv 0x30 []))"

definition sample_contents :: bytes where
  "sample_contents = tlv 0xa0 (tlv 0x02 [2]) @ tlv 0x30 [] @ tlv 0x30 [] @ tlv 0x30 [] @ tlv 0x30 []
     @ tlv 0x04 (hash_bytes (mk_Hash (tlv 0x30 (tlv 0x30 [])))) @ tlv 0xa3 (tlv 0x30 [])"

definition sample_leaf :: Hash where
  "sample_leaf = HashLeaf mk_Hash ([0, 0] @ [0, 1] @ sample_contents)"

definition sample_cert :: bytes where
  "sample_cert = tlv 0x30 (sample_tbs @ sample_alg @ tlv 0x03 (0 # proof_bytes [] 0 1 [] []))"

definition sample_rp :: RelyingPartyConfig where
  "sample_rp = \<lparr>RPCAID = ''1'', RPCADN = Some (tlv 0x30 []), RPLogHash = [], Cosigners = [], RequiredCosigners = [],
     RevokedRanges = [\<lparr>RRStart = 0, RREnd = 5\<rparr>],
     TrustedSubtrees = [\<lparr>TSLogNumber = 1, TSStart = 0, TSEnd = 1\<rparr> \<mapsto> sample_leaf]\<rparr>"

lemma sample_split: "SplitCertificate sample_cert = Inr (sample_tbs, sample_alg, proof_bytes [] 0 1 [] [])"
  by code_simp

lemma sample_alg_ok: "checkMTCProofAlgID sample_alg = Inr ()"
  by code_simp

lemma sample_proof_parse: "ParseMTCProof (proof_bytes [] 0 1 [] []) =
    Inr \<lparr>PExtensions = [], PStart = 0, PEnd = 1, InclusionProof = [], Signatures = []\<rparr>"
proof -
  have "MarshalTLS \<lparr>PExtensions = [], PStart = 0, PEnd = 1, InclusionProof = [], Signatures = []\<rparr> = Inr (proof_bytes [] 0 1 [] [])"
    by code_simp
  from parse_marshal_proof [OF this] show ?thesis by (simp add: stable_sort_def)
qed

lemma sample_rebuild: "RebuildLogEntryFromTBS mk_Hash sample_tbs (RPCADN sample_rp) = Inr (sample_contents, 2 ^ 48)"
  by code_simp

lemma sample_serial: "SplitSerial (2 ^ 48) = Inr (1, 0)" "\<not> Contains (RevokedRanges sample_rp) (2 ^ 48)"
  by (simp_all add: SplitSerial_def serialIndexBits_def maxUint48_def Contains_def sample_rp_def)

lemma sample_eval: "EvaluateInclusionProof mk_Hash 0 1 0 sample_leaf [] = Inr sample_leaf"
  by code_simp

lemma sample_entry: "EntryHashExt mk_Hash [] sample_contents = Inr sample_leaf" "EntryHash mk_Hash sample_contents = sample_leaf"
  by code_simp+

lemma sample_accepted: "VerifyCertificate mlib mk_Hash sample_cert sample_rp = Inr ()"
proof -
  have "LogID (RPCAID sample_rp) 1 = Inr ''1.0.1''" by code_simp
  moreover have "TrustedSubtrees sample_rp \<lparr>TSLogNumber = 1, TSStart = 0, TSEnd = 1\<rparr> = Some sample_leaf" by (simp add: sample_rp_def)
  ultimately show ?thesis
    using sample_split sample_alg_ok sample_proof_parse sample_rebuild sample_serial sample_eval sample_entry(1)
    by (simp add: VerifyCertificate_def)
qed



theorem landmark_cert_verifies_witness:
  "\<exists>der'. BuildLandmarkRelativeCert ref_cryptobyte sample_cert \<lparr>SubLogID = ''1.0.1'', SubStart = 0, SubEnd = 1, SubHash = sample_leaf\<rparr> [] = Inr der' \<and>
     VerifyCertificate sample_mldsa mk_Hash der' sample_rp = Inr ()"
proof -
  let ?st = "\<lparr>SubLogID = ''1.0.1'', SubStart = 0, SubEnd = 1, SubHash = sample_leaf\<rparr>"
  have "case BuildLandmarkRelativeCert ref_cryptobyte sample_cert \<lparr>SubLogID = ''1.0.1'', SubStart = 0, SubEnd = 1, SubHash = mk_Hash []\<rparr> [] of
      Inl _ \<Rightarrow> False | Inr _ \<Rightarrow> True" by code_simp
  then obtain der' where d: "BuildLandmarkRelativeCert ref_cryptobyte sample_cert ?st [] = Inr der'"
    by (auto simp: BuildLandmarkRelativeCert_def split: sum.splits)
  have len: "length sample_cert < 2 ^ 29" by code_simp
  have c: "sample_rp = sample_rp\<lparr>TrustedSubtrees := (TrustedSubtrees sample_rp)
      (\<lparr>TSLogNumber = 1, TSStart = SubStart ?st, TSEnd = SubEnd ?st\<rparr> \<mapsto> SubHash ?st)\<rparr>"
    by (simp add: sample_rp_def)
  have e: "EvaluateInclusionProof mk_Hash (SubStart ?st) (SubEnd ?st) 0 (EntryHash mk_Hash sample_contents) [] = Inr (SubHash ?st)"
    using sample_eval sample_entry(2) by simp
  from landmark_cert_verifies [OF refcb.cryptobyte_laws_axioms sample_accepted len sample_split sample_proof_parse _ sample_rebuild sample_serial(1) d e c]
  show ?thesis using d by auto
qed

end
