(* ===== verification/LogProof.thy ===== *)
theory LogProof
  imports Inclusion
begin

text \<open>
  The helper functions of log/log.go that compute subtree hashes and inclusion proofs for the issuance
  log. They repeat those of tlogx/inclusion.go with loops of their own; the loop of
  \<open>largestPowerOfTwoLT\<close> shifts past the end of the word for arguments above \<open>2 ^ 63\<close> and then never ends,
  so what may not return is \<open>None\<close>.
\<close>

section \<open>The code\<close>

partial_function (option) pow2Loop :: "u64 \<Rightarrow> u64 \<Rightarrow> u64 option" where
  "pow2Loop n k = (if push_bit 1 k < n then pow2Loop n (push_bit 1 k) else Some k)"

definition log_largestPowerOfTwoLT :: "u64 \<Rightarrow> u64 option" where
  "log_largestPowerOfTwoLT n = (if n \<le> 1 then Some 0 else pow2Loop n 1)"

lemma shift_less: "0 < x \<Longrightarrow> unat (drop_bit 1 (x :: u64)) < unat x"
  by (simp add: unat_drop_u64 u64_less_iff)

function bitsLen :: "u64 \<Rightarrow> nat" where
  "bitsLen x = (if x > 0 then Suc (bitsLen (drop_bit 1 x)) else 0)"
  by pat_completeness auto
termination
  by (relation "measure unat") (use shift_less in auto)

declare bitsLen.simps [simp del]

partial_function (option) log_subtreeHashFromHR ::
    "(bytes \<Rightarrow> Hash) \<Rightarrow> stored_hash_index \<Rightarrow> hash_reader \<Rightarrow> u64 \<Rightarrow> u64 \<Rightarrow> Hash result option" where
  "log_subtreeHashFromHR sha256 shi hr start fin =
     (if start \<ge> fin then Some (Inl (Errorf ''empty subtree''))
      else
        let width = fin - start in
        if width AND (width - 1) = 0 \<and> start mod width = 0 then
          let level = bitsLen width - 1; n = start div width; idx = shi level (sint n)
          in Some (rbind (hr [idx]) first_hash)
        else
          Option.bind (log_largestPowerOfTwoLT width) (\<lambda>k.
            let mid = start + k in
            Option.bind (log_subtreeHashFromHR sha256 shi hr start mid) (\<lambda>left.
              case left of Inl e \<Rightarrow> Some (Inl e)
              | Inr l \<Rightarrow> Option.bind (log_subtreeHashFromHR sha256 shi hr mid fin) (\<lambda>right.
                  case right of Inl e \<Rightarrow> Some (Inl e) | Inr r \<Rightarrow> Some (Inr (HashChildren sha256 l r))))))"

partial_function (option) walkLoop ::
    "(bytes \<Rightarrow> Hash) \<Rightarrow> stored_hash_index \<Rightarrow> hash_reader \<Rightarrow> u64 \<Rightarrow> u64 \<Rightarrow> u64 \<Rightarrow> Hash list \<Rightarrow> Hash list result option" where
  "walkLoop sha256 shi hr start fin index hs =
     (if fin - start > 1 then
        Option.bind (log_largestPowerOfTwoLT (fin - start)) (\<lambda>k.
          let mid = start + k in
          if index < mid then
            Option.bind (log_subtreeHashFromHR sha256 shi hr mid fin) (\<lambda>sib.
              case sib of Inl e \<Rightarrow> Some (Inl e) | Inr s \<Rightarrow> walkLoop sha256 shi hr start mid index (hs @ [s]))
          else
            Option.bind (log_subtreeHashFromHR sha256 shi hr start mid) (\<lambda>sib.
              case sib of Inl e \<Rightarrow> Some (Inl e) | Inr s \<Rightarrow> walkLoop sha256 shi hr mid fin index (hs @ [s])))
      else Some (Inr hs))"

declare pow2Loop.simps [code] log_subtreeHashFromHR.simps [code] walkLoop.simps [code]

definition walkInclusionProof ::
    "(bytes \<Rightarrow> Hash) \<Rightarrow> stored_hash_index \<Rightarrow> u64 \<Rightarrow> u64 \<Rightarrow> u64 \<Rightarrow> hash_reader \<Rightarrow> Hash list result option" where
  "walkInclusionProof sha256 shi start fin index hr =
     (case IsValid start fin of
        Inl e \<Rightarrow> Some (Inl e)
      | Inr ok \<Rightarrow>
          if \<not> ok then Some (Inl (Errorf ''invalid subtree''))
          else if index < start \<or> index \<ge> fin then Some (Inl (Errorf ''index outside''))
          else map_option (\<lambda>r. rbind r (\<lambda>hs. Inr (rev hs))) (walkLoop sha256 shi hr start fin index []))"

section \<open>Equivalence with package tlogx\<close>

lemma bitsLen_Len64: "bitsLen x = Len64 x"
proof (induction x rule: bitsLen.induct)
  case (1 x)
  then show ?case
    by (subst bitsLen.simps) (auto simp: Len64_def bit_len.simps [of "unat x"] unat_drop_u64 u64_less_iff simp del: drop_bit_eq_div)
qed

lemma pow2Loop_power:
  assumes "2 ^ j < unat n" "unat n \<le> 2 ^ 63"
  shows "pow2Loop n (2 ^ j) = Some (of_nat (lp2 (unat n)))"
  using assms(1)
proof (induction "63 - j" arbitrary: j)
  case 0
  then have "(2::nat) ^ 63 \<le> 2 ^ j" by (intro power_increasing) simp_all
  then show ?case using 0 assms(2) by simp
next
  case (Suc d)
  then have j: "j < 63" by simp
  have sh: "push_bit 1 ((2 :: u64) ^ j) = 2 ^ Suc j" by (simp add: push_bit_eq_mult mult.commute)
  have "unat (push_bit (Suc j) (1 :: u64)) = 2 ^ Suc j" using j unat_2pow [of "Suc j"] by simp
  then have u: "unat ((2 :: u64) ^ Suc j) = 2 ^ Suc j" by (simp add: push_bit_eq_mult)
  show ?case
  proof (cases "2 ^ Suc j < unat n")
    case True
    then have "(2 :: u64) ^ Suc j < n" using u by (simp only: u64_less_iff)
    moreover have "pow2Loop n (2 ^ Suc j) = Some (of_nat (lp2 (unat n)))"
      by (rule Suc.hyps(1)) (use Suc.hyps(2) True in simp_all)
    ultimately show ?thesis by (subst pow2Loop.simps) (simp only: sh if_True)
  next
    case False
    then have "\<not> (2 :: u64) ^ Suc j < n" using u by (simp only: u64_less_iff not_False_eq_True)
    moreover have "lp2 (unat n) = 2 ^ j" using Suc.prems False by (intro lp2_unique) simp_all
    ultimately show ?thesis by (subst pow2Loop.simps) (simp only: sh if_False of_nat_power of_nat_numeral)
  qed
qed

lemma log_largestPowerOfTwoLT_eq:
  assumes "1 < unat n" "unat n \<le> 2 ^ 63"
  shows "log_largestPowerOfTwoLT n = Some (largestPowerOfTwoLT n)"
proof -
  have "pow2Loop n (2 ^ 0) = Some (of_nat (lp2 (unat n)))" using assms by (intro pow2Loop_power) simp_all
  moreover have "\<not> n \<le> 1" using assms(1) by (simp add: u64_le_iff)
  moreover have "of_nat (lp2 (unat n)) = largestPowerOfTwoLT n"
    by (simp flip: largestPowerOfTwoLT_lp2 [OF assms(1)])
  ultimately show ?thesis by (simp add: log_largestPowerOfTwoLT_def)
qed

lemma log_subtreeHashFromHR_eq:
  assumes "unat fin - unat start \<le> 2 ^ 63"
  shows "log_subtreeHashFromHR sha256 shi hr start fin = Some (subtreeHashFromHR sha256 shi hr start fin)"
  using assms
proof (induction sha256 shi hr start fin rule: subtreeHashFromHR.induct)
  case (1 sha256 shi hr start fin)
  let ?w = "fin - start"
  show ?case
  proof (cases "start \<ge> fin \<or> (?w AND (?w - 1) = 0 \<and> start mod ?w = 0)")
    case True
    then show ?thesis
      by (subst log_subtreeHashFromHR.simps, subst subtreeHashFromHR.simps) (auto simp: Let_def bitsLen_Len64)
  next
    case False
    then have lt: "start < fin" and np: "\<not> (?w AND (?w - 1) = 0 \<and> start mod ?w = 0)" by (auto simp: not_le)
    have w: "1 < unat fin - unat start" using width_not_pow2 [OF lt np] .
    have uw: "unat ?w = unat fin - unat start" using lt by (simp add: unat_diff_u64)
    have k: "log_largestPowerOfTwoLT ?w = Some (largestPowerOfTwoLT ?w)"
      using w 1(3) uw by (intro log_largestPowerOfTwoLT_eq) simp_all
    note sp = split_widths [OF lt w]
    let ?mid = "start + largestPowerOfTwoLT ?w"
    have l: "log_subtreeHashFromHR sha256 shi hr start ?mid = Some (subtreeHashFromHR sha256 shi hr start ?mid)"
      using 1(1) lt np sp(4) 1(3) by (simp add: not_le)
    have r: "log_subtreeHashFromHR sha256 shi hr ?mid fin = Some (subtreeHashFromHR sha256 shi hr ?mid fin)"
      if "subtreeHashFromHR sha256 shi hr start ?mid = Inr x" for x
      using 1(2) lt np sp(5) 1(3) that by (simp add: not_le)
    show ?thesis
      by (subst log_subtreeHashFromHR.simps, subst subtreeHashFromHR.simps)
        (use lt np k l r in \<open>auto simp: Let_def not_le rbind_def split: sum.splits\<close>)
  qed
qed

lemma walkLoop_eq:
  assumes "start < fin" "unat fin - unat start \<le> 2 ^ 63"
  shows "walkLoop sha256 shi hr start fin index hs = Some (genLoop sha256 shi hr start fin index hs)"
  using assms
proof (induction sha256 shi hr start fin index hs rule: genLoop.induct)
  case (1 sha256 shi hr start fin index hs)
  let ?w = "fin - start"
  have uw: "unat ?w = unat fin - unat start" using 1(3) by (simp add: unat_diff_u64)
  show ?case
  proof (cases "?w > 1")
    case False
    then show ?thesis by (subst walkLoop.simps, subst genLoop.simps) simp
  next
    case True
    then have w: "1 < unat fin - unat start" using uw by (simp add: u64_less_iff)
    have k: "log_largestPowerOfTwoLT ?w = Some (largestPowerOfTwoLT ?w)"
      using w 1(4) uw by (intro log_largestPowerOfTwoLT_eq) simp_all
    note sp = split_widths [OF 1(3) w]
    let ?mid = "start + largestPowerOfTwoLT ?w"
    have lt: "start < ?mid" "?mid < fin" using sp(2,3) by (simp_all add: u64_less_iff)
    have b: "unat ?mid - unat start \<le> 2 ^ 63" "unat fin - unat ?mid \<le> 2 ^ 63" using sp(4,5) 1(4) by linarith+
    note e = log_subtreeHashFromHR_eq [OF b(1), of sha256 shi hr] log_subtreeHashFromHR_eq [OF b(2), of sha256 shi hr]
    have l: "walkLoop sha256 shi hr start ?mid index (hs @ [s]) = Some (genLoop sha256 shi hr start ?mid index (hs @ [s]))"
      if "index < ?mid" "subtreeHashFromHR sha256 shi hr ?mid fin = Inr s" for s
      by (rule 1(1) [OF True refl refl that(1)]) (use lt b that(2) in simp_all)
    have r: "walkLoop sha256 shi hr ?mid fin index (hs @ [s]) = Some (genLoop sha256 shi hr ?mid fin index (hs @ [s]))"
      if "\<not> index < ?mid" "subtreeHashFromHR sha256 shi hr start ?mid = Inr s" for s
      by (rule 1(2) [OF True refl refl that(1)]) (use lt b that(2) in simp_all)
    show ?thesis
      by (subst walkLoop.simps, subst genLoop.simps)
        (use True k e l r in \<open>auto simp: Let_def rbind_def split: sum.splits\<close>)
  qed
qed

lemma walkInclusionProof_eq:
  assumes "IsValid start fin = Inr True"
  shows "\<exists>r. walkInclusionProof sha256 shi start fin index hr = Some r \<and>
    (\<forall>hs. r = Inr hs \<longleftrightarrow> GenerateInclusionProof sha256 shi start fin index hr = Inr hs)"
proof -
  have "start < fin" using IsValid_TrueD(1) [OF assms] by (simp add: valid_range_def u64_less_iff)
  then have "walkLoop sha256 shi hr start fin index [] = Some (genLoop sha256 shi hr start fin index [])"
    using IsValid_TrueD(2) [OF assms] by (rule walkLoop_eq)
  then show ?thesis using assms by (auto simp: walkInclusionProof_def GenerateInclusionProof_def)
qed

text \<open>
  C30: the log's own routines for subtree hashes and inclusion proofs, although written with loops that
  can run forever, always return where the log calls them and compute what package tlogx computes: the
  subtree hash of every range of at most \<open>2 ^ 63\<close> entries, and for every range and index the same
  inclusion proof, or an error exactly where tlogx reports one.
\<close>

theorem log_proofs_equal_tlogx:
  "(unat fin - unat start \<le> 2 ^ 63 \<longrightarrow>
     log_subtreeHashFromHR sha256 shi hr start fin = Some (SubtreeHash sha256 shi start fin hr)) \<and>
   (\<exists>r. walkInclusionProof sha256 shi start fin index hr = Some r \<and>
      (\<forall>hs. r = Inr hs \<longleftrightarrow> GenerateInclusionProof sha256 shi start fin index hr = Inr hs))"
proof (intro conjI impI)
  assume "unat fin - unat start \<le> 2 ^ 63"
  then show "log_subtreeHashFromHR sha256 shi hr start fin = Some (SubtreeHash sha256 shi start fin hr)"
    by (simp add: log_subtreeHashFromHR_eq SubtreeHash_def)
next
  show "\<exists>r. walkInclusionProof sha256 shi start fin index hr = Some r \<and>
      (\<forall>hs. r = Inr hs \<longleftrightarrow> GenerateInclusionProof sha256 shi start fin index hr = Inr hs)"
  proof (cases "IsValid start fin = Inr True")
    case True
    then show ?thesis by (rule walkInclusionProof_eq)
  next
    case False
    then show ?thesis
      by (cases "IsValid start fin") (auto simp: walkInclusionProof_def GenerateInclusionProof_def)
  qed
qed

theorem log_proofs_equal_tlogx_witness:
  "log_subtreeHashFromHR mk_Hash sample_index (sample_reader (HashChildren mk_Hash) (\<lambda>i. mk_Hash [of_nat i])) 3 7 =
     Some (SubtreeHash mk_Hash sample_index 3 7 (sample_reader (HashChildren mk_Hash) (\<lambda>i. mk_Hash [of_nat i])))"
  using log_proofs_equal_tlogx [where fin = 7 and start = 3] by simp

end
