(* ===== verification/Log.thy ===== *)
theory Log
  imports LogProof Consistency Cosign Tilewriter
begin

text \<open>
  The issuance log (log/log.go): the pool of submissions and their indices, the flush that appends them,
  signs the checkpoint and the covering subtrees and publishes both, the mirror signatures attached
  afterwards, the proofs handed to issuance, and the start from disk. Every operation runs under the
  mutex of the log, so each is one step on its state. The notify channel, closed and made anew at each
  flush, is a counter. The storage of the log is that of its tile writer. Metrics, the logger and the
  callback to the landmark allocator are not part of the state.
\<close>

section \<open>State\<close>

record Issued =
  IIndex :: u64
  ISubtree :: MTCSubtree
  IProof :: "Hash list"
  ISignatures :: "MTCSignature list"

record Checkpoint =
  CPSize :: u64
  CPRoot :: Hash
  CPNote :: bytes

record LogConfig =
  lLogID :: TrustAnchorID
  lCosignerID :: TrustAnchorID
  lSigner :: signer
  lFlushPeriod :: int
  lMirrors :: bool
  lWaitForCosigners :: int

record poolItem =
  pentry :: bytes
  pidemKey :: Hash

record signedSubtree =
  ssub :: MTCSubtree
  ssigs :: "MTCSignature list"
  scommittedAt :: Time

record committedCheckpoint =
  csize :: u64
  croot :: Hash
  csubtrees :: "signedSubtree list"
  cnote :: bytes
  chashes :: "Hash list"

record Log =
  lcfg :: LogConfig
  ltw :: TileWriter
  lpool :: "poolItem list"
  ldedup :: "Hash \<Rightarrow> u64 option"
  lcommitted :: "committedCheckpoint option"
  lnotify :: nat
  lrequests :: "signedSubtree list"

text \<open>Ten minutes in nanoseconds.\<close>

definition subtreeRetention :: int where
  "subtreeRetention = 10 * 60 * 10 ^ 9"

section \<open>Submitting\<close>

definition Append :: "bytes \<Rightarrow> Hash \<Rightarrow> Log \<Rightarrow> u64 \<times> Log" where
  "Append entry idemKey l =
     (case ldedup l idemKey of
        Some idx \<Rightarrow> (idx, l)
      | None \<Rightarrow>
          let pendingIdx = of_nat (wsize (ltw l)) + of_nat (length (lpool l))
          in (pendingIdx, l\<lparr>lpool := lpool l @ [\<lparr>pentry = entry, pidemKey = idemKey\<rparr>],
                ldedup := (ldedup l)(idemKey := Some pendingIdx)\<rparr>))"

section \<open>Flushing\<close>

definition signSubtree :: "LogConfig \<Rightarrow> MTCSubtree \<Rightarrow> MTCSignature result" where
  "signSubtree cfg st =
     rbind (MarshalSignatureInput (lCosignerID cfg) st) (\<lambda>msg.
     rbind (Sign (lSigner cfg) msg) (\<lambda>sig. Inr \<lparr>CosignerID = lCosignerID cfg, Signature = sig\<rparr>))"

definition checkpointPath :: string where
  "checkpointPath = ''log/checkpoint''"

definition persistCheckpoint :: "FS \<Rightarrow> string \<Rightarrow> unit result \<times> FS" where
  "persistCheckpoint fs note = Put fs checkpointPath (bytes_of note) False"

definition subtreeHashFromTW :: "tlog \<Rightarrow> (bytes \<Rightarrow> Hash) \<Rightarrow> TileWriter \<Rightarrow> u64 \<Rightarrow> u64 \<Rightarrow> Hash result option" where
  "subtreeHashFromTW lib sha256 w start fin =
     log_subtreeHashFromHR sha256 (StoredHashIndex lib) (ReadHashes (whashes w)) start fin"

fun signCovers ::
    "tlog \<Rightarrow> (bytes \<Rightarrow> Hash) \<Rightarrow> LogConfig \<Rightarrow> TileWriter \<Rightarrow> Time \<Rightarrow> Subtree list \<Rightarrow> signedSubtree list result option" where
  "signCovers lib sha256 cfg w now [] = Some (Inr [])"
| "signCovers lib sha256 cfg w now (s # ss) =
     (case subtreeHashFromTW lib sha256 w (Start s) (End s) of
        None \<Rightarrow> None
      | Some (Inl e) \<Rightarrow> Some (Inl (wrapf ''flush subtree hash'' e))
      | Some (Inr h) \<Rightarrow>
          let st = \<lparr>SubLogID = lLogID cfg, SubStart = Start s, SubEnd = End s, SubHash = h\<rparr>
          in (case signSubtree cfg st of
                Inl e \<Rightarrow> Some (Inl (wrapf ''flush sign subtree'' e))
              | Inr caSig \<Rightarrow>
                  map_option (\<lambda>r. rbind r (\<lambda>subs. Inr (\<lparr>ssub = st, ssigs = [caSig], scommittedAt = now\<rparr> # subs)))
                    (signCovers lib sha256 cfg w now ss)))"

definition carried :: "Time \<Rightarrow> committedCheckpoint option \<Rightarrow> signedSubtree list" where
  "carried now c = (case c of None \<Rightarrow> []
     | Some cc \<Rightarrow> [s \<leftarrow> csubtrees cc. Sub now (scommittedAt s) < subtreeRetention])"

definition coverSubtrees ::
    "tlog \<Rightarrow> (bytes \<Rightarrow> Hash) \<Rightarrow> LogConfig \<Rightarrow> TileWriter \<Rightarrow> Time \<Rightarrow> u64 \<Rightarrow> u64 \<Rightarrow> signedSubtree list result option" where
  "coverSubtrees lib sha256 cfg w now prevSize newSize =
     (if newSize > prevSize then
        (case FindSubtrees prevSize newSize of
           Inl e \<Rightarrow> Some (Inl e)
         | Inr covers \<Rightarrow> signCovers lib sha256 cfg w now covers)
      else Some (Inr []))"

text \<open>The part of \<open>flush\<close> after the entries are in the tree.\<close>

definition publish :: "tlog \<Rightarrow> (bytes \<Rightarrow> Hash) \<Rightarrow> Time \<Rightarrow> u64 \<Rightarrow> Log \<Rightarrow> (unit result \<times> Log) option" where
  "publish lib sha256 now prevSize l =
     (let cfg = lcfg l; w = ltw l; newSize = of_nat (wsize w)
      in case RootHash lib sha256 w of
           Inl e \<Rightarrow> Some (Inl (wrapf ''flush root'' e), l)
         | Inr rt \<Rightarrow>
        (case signSubtree cfg \<lparr>SubLogID = lLogID cfg, SubStart = 0, SubEnd = newSize, SubHash = rt\<rparr> of
           Inl e \<Rightarrow> Some (Inl (wrapf ''flush sign checkpoint'' e), l)
         | Inr cpSig \<Rightarrow>
        (case buildSignedNote sha256 (lLogID cfg) (lCosignerID cfg) newSize rt (SignerAlgorithm (lSigner cfg))
                (SignerPublicKey (lSigner cfg)) (Signature cpSig) of
           Inl e \<Rightarrow> Some (Inl (wrapf ''flush build note'' e), l)
         | Inr note \<Rightarrow>
        (case coverSubtrees lib sha256 cfg w now prevSize newSize of
           None \<Rightarrow> None
         | Some (Inl e) \<Rightarrow> Some (Inl e, l)
         | Some (Inr subs) \<Rightarrow>
        (case persistCheckpoint (wfs w) note of
           (Inl e, fs') \<Rightarrow> Some (Inl (wrapf ''flush persist'' e), l\<lparr>ltw := w\<lparr>wfs := fs'\<rparr>\<rparr>)
         | (Inr _, fs') \<Rightarrow>
             Some (Inr (), l\<lparr>ltw := w\<lparr>wfs := fs'\<rparr>,
               lcommitted := Some \<lparr>csize = newSize, croot = rt, csubtrees = subs @ carried now (lcommitted l),
                 cnote = bytes_of note, chashes = whashes w\<rparr>,
               lnotify := lnotify l + 1,
               lrequests := lrequests l @ (if lMirrors cfg then subs else [])\<rparr>))))))"

text \<open>A panic leaves \<open>flush\<close> before the pool is put back.\<close>

definition flush :: "tlog \<Rightarrow> (bytes \<Rightarrow> Hash) \<Rightarrow> Time \<Rightarrow> Log \<Rightarrow> (unit result \<times> Log) option" where
  "flush lib sha256 now l =
     (let prevSize = of_nat (wsize (ltw l)); pool = lpool l
      in if pool = [] \<and> (case lcommitted l of None \<Rightarrow> False | Some c \<Rightarrow> csize c = prevSize) then
           Some (Inr (), l)
         else
           (case TWAppend lib (map pentry pool) (ltw l) of
              (Inl (Panic m), w') \<Rightarrow> Some (Inl (Panic m), l\<lparr>ltw := w', lpool := []\<rparr>)
            | (Inl e, w') \<Rightarrow> Some (Inl (wrapf ''flush append'' e), l\<lparr>ltw := w'\<rparr>)
            | (Inr _, w') \<Rightarrow> publish lib sha256 now prevSize (l\<lparr>ltw := w', lpool := []\<rparr>)))"

section \<open>Mirror signatures\<close>

fun attachSigs :: "MTCSubtree \<Rightarrow> MTCSignature list \<Rightarrow> signedSubtree list \<Rightarrow> (signedSubtree list) option" where
  "attachSigs st sigs [] = None"
| "attachSigs st sigs (cs # css) =
     (if SubStart (ssub cs) = SubStart st \<and> SubEnd (ssub cs) = SubEnd st then
        Some (cs\<lparr>ssigs := ssigs cs @ sigs\<rparr> # css)
      else map_option (\<lambda>r. cs # r) (attachSigs st sigs css))"

definition attachMirrorSigs :: "MTCSubtree \<Rightarrow> MTCSignature list \<Rightarrow> Log \<Rightarrow> Log" where
  "attachMirrorSigs st sigs l =
     (case lcommitted l of None \<Rightarrow> l
      | Some c \<Rightarrow> (case attachSigs st sigs (csubtrees c) of None \<Rightarrow> l
          | Some ss \<Rightarrow> l\<lparr>lcommitted := Some (c\<lparr>csubtrees := ss\<rparr>), lnotify := lnotify l + 1\<rparr>))"

text \<open>One round of the collector: the requester is asked about a subtree and its answer attached.\<close>

definition collectOne ::
    "(MTCSubtree \<Rightarrow> MTCSignature \<Rightarrow> MTCSignature list result) \<Rightarrow> signedSubtree \<Rightarrow> Log \<Rightarrow> Log" where
  "collectOne requester s l =
     (case requester (ssub s) (hd (ssigs s)) of
        Inl _ \<Rightarrow> l
      | Inr mirrorSigs \<Rightarrow> if mirrorSigs = [] then l else attachMirrorSigs (ssub s) mirrorSigs l)"

definition collectMirrorSigs ::
    "(MTCSubtree \<Rightarrow> MTCSignature \<Rightarrow> MTCSignature list result) \<Rightarrow> signedSubtree list \<Rightarrow> Log \<Rightarrow> Log" where
  "collectMirrorSigs requester subs l = foldl (\<lambda>l s. collectOne requester s l) l subs"

section \<open>Issuing\<close>

definition issueFrom ::
    "tlog \<Rightarrow> (bytes \<Rightarrow> Hash) \<Rightarrow> Hash list \<Rightarrow> u64 \<Rightarrow> MTCSubtree \<Rightarrow> MTCSignature list \<Rightarrow> string \<Rightarrow> Issued result option" where
  "issueFrom lib sha256 hashes index st sigs what =
     map_option (\<lambda>r. rbind (rwrap what r) (\<lambda>hs.
         Inr \<lparr>IIndex = index, ISubtree = st, IProof = hs, ISignatures = sigs\<rparr>))
       (walkInclusionProof sha256 (StoredHashIndex lib) (SubStart st) (SubEnd st) index (ReadHashes hashes))"

definition buildIssued :: "tlog \<Rightarrow> (bytes \<Rightarrow> Hash) \<Rightarrow> Log \<Rightarrow> u64 \<Rightarrow> Issued result option" where
  "buildIssued lib sha256 l index =
     (case lcommitted l of None \<Rightarrow> Some (Inl (Errorf ''log: index not yet committed''))
      | Some c \<Rightarrow>
          if index \<ge> csize c then Some (Inl (Errorf ''log: index not yet committed''))
          else case [s \<leftarrow> csubtrees c. index \<ge> SubStart (ssub s) \<and> index < SubEnd (ssub s)] of
            s # _ \<Rightarrow> issueFrom lib sha256 (chashes c) index (ssub s) (ssigs s) ''inclusion proof''
          | [] \<Rightarrow> issueFrom lib sha256 (chashes c) index
                   \<lparr>SubLogID = lLogID (lcfg l), SubStart = 0, SubEnd = csize c, SubHash = croot c\<rparr> []
                   ''whole-tree inclusion proof'')"

text \<open>One round of \<open>Wait\<close>: the issuance, or no value when it has to wait for the next notification.\<close>

definition Wait :: "tlog \<Rightarrow> (bytes \<Rightarrow> Hash) \<Rightarrow> Log \<Rightarrow> u64 \<Rightarrow> Issued option result option" where
  "Wait lib sha256 l index =
     (case lcommitted l of None \<Rightarrow> Some (Inr None)
      | Some c \<Rightarrow>
          if index < csize c then
            map_option (\<lambda>r. rbind r (\<lambda>iss.
                if lWaitForCosigners (lcfg l) > 0 \<and> int (length (ISignatures iss)) < lWaitForCosigners (lcfg l)
                then Inr None else Inr (Some iss)))
              (buildIssued lib sha256 l index)
          else Some (Inr None))"

definition SubtreeProof :: "tlog \<Rightarrow> (bytes \<Rightarrow> Hash) \<Rightarrow> Log \<Rightarrow> u64 \<Rightarrow> u64 \<Rightarrow> u64 \<Rightarrow> (Hash \<times> Hash list) result" where
  "SubtreeProof lib sha256 l start fin index =
     (let hr = ReadHashes (whashes (ltw l))
      in rbind (SubtreeHash sha256 (StoredHashIndex lib) start fin hr) (\<lambda>hash.
         rbind (GenerateInclusionProof sha256 (StoredHashIndex lib) start fin index hr) (\<lambda>hs. Inr (hash, hs))))"

definition log_ConsistencyProof :: "tlog \<Rightarrow> (bytes \<Rightarrow> Hash) \<Rightarrow> Log \<Rightarrow> u64 \<Rightarrow> u64 \<Rightarrow> u64 \<Rightarrow> Hash list result" where
  "log_ConsistencyProof lib sha256 l start fin treeSize =
     (let hr = ReadHashes (whashes (ltw l))
      in GenerateConsistencyProof sha256 start fin treeSize
           (\<lambda>i. rbind (hr [StoredHashIndex lib 0 (sint i)]) first_hash))"

definition CurrentCheckpoint :: "Log \<Rightarrow> Checkpoint" where
  "CurrentCheckpoint l =
     (case lcommitted l of None \<Rightarrow> \<lparr>CPSize = 0, CPRoot = mk_Hash [], CPNote = []\<rparr>
      | Some c \<Rightarrow> \<lparr>CPSize = csize c, CPRoot = croot c, CPNote = cnote c\<rparr>)"

section \<open>Starting\<close>

definition verifyLoadedCheckpointSig ::
    "'pk mldsa \<Rightarrow> (bytes \<Rightarrow> Hash) \<Rightarrow> LogConfig \<Rightarrow> u64 \<Rightarrow> Hash \<Rightarrow> parsedNoteSig list \<Rightarrow> unit result" where
  "verifyLoadedCheckpointSig mlib sha256 cfg sz rt sigs =
     (let cosignerKeyName = OIDName (lCosignerID cfg); s = lSigner cfg
      in rbind (rwrap ''checkpoint cosigner key ID''
             (CosignatureKeyID sha256 cosignerKeyName (SignerAlgorithm s) (SignerPublicKey s))) (\<lambda>wantKeyID.
           case [g \<leftarrow> sigs. keyName g = cosignerKeyName \<and> keyID g = wantKeyID] of
             [] \<Rightarrow> Inl (Errorf ''no signature from cosigner found'')
           | sig # _ \<Rightarrow>
               rbind (rwrap ''build signature input'' (MarshalSignatureInput (lCosignerID cfg)
                   \<lparr>SubLogID = lLogID cfg, SubStart = 0, SubEnd = sz, SubHash = rt\<rparr>)) (\<lambda>msg.
                 VerifyMTCSignature mlib
                   \<lparr>CKID = lCosignerID cfg, CKAlgorithm = SignerAlgorithm s, CKPublicKey = SignerPublicKey s\<rparr>
                   \<lparr>CosignerID = lCosignerID cfg, Signature = nsig sig\<rparr> msg)))"

definition loadCheckpoint :: "'pk mldsa \<Rightarrow> (bytes \<Rightarrow> Hash) \<Rightarrow> Log \<Rightarrow> Log result" where
  "loadCheckpoint mlib sha256 l =
     (case Get (wfs (ltw l)) checkpointPath of
        Inl e \<Rightarrow> if errors_Is e ''file does not exist'' then Inr l else Inl e
      | Inr data \<Rightarrow>
          rbind (rwrap ''parse stored checkpoint'' (parseSignedNoteFull (string_of data) (lLogID (lcfg l)))) (\<lambda>(sz, rt, sigs).
            if of_nat (wsize (ltw l)) < sz then Inl (Errorf ''checkpoint size > tilewriter size'')
            else
              rbind (rwrap ''verify stored checkpoint'' (verifyLoadedCheckpointSig mlib sha256 (lcfg l) sz rt sigs)) (\<lambda>_.
                Inr (l\<lparr>lcommitted := Some \<lparr>csize = sz, croot = rt, csubtrees = [], cnote = data,
                  chashes = whashes (ltw l)\<rparr>\<rparr>))))"

definition NewLog :: "tlog \<Rightarrow> 'pk mldsa \<Rightarrow> (bytes \<Rightarrow> Hash) \<Rightarrow> LogConfig \<Rightarrow> Time \<Rightarrow> FS \<Rightarrow> Log result option" where
  "NewLog lib mlib sha256 cfg now fs =
     (if lFlushPeriod cfg \<le> 0 then Some (Inl (Errorf ''log: cfg.FlushPeriod must be > 0''))
      else case NewTileWriter lib fs of
        Inl e \<Rightarrow> Some (Inl (wrapf ''log: tilewriter.New'' e))
      | Inr w \<Rightarrow>
          (case loadCheckpoint mlib sha256 \<lparr>lcfg = cfg, ltw = w, lpool = [], ldedup = (\<lambda>_. None), lcommitted = None,
                  lnotify = 0, lrequests = []\<rparr> of
             Inl e \<Rightarrow> Some (Inl e)
           | Inr l \<Rightarrow>
               if lcommitted l = None then
                 (case flush lib sha256 now l of
                    None \<Rightarrow> None
                  | Some (Inl e, _) \<Rightarrow> Some (Inl (wrapf ''log: initial flush'' e))
                  | Some (Inr _, l') \<Rightarrow> Some (Inr l'))
               else Some (Inr l)))"

section \<open>The tree in memory\<close>

lemma persistHashTiles_mem:
  "whashes (snd (persistHashTiles lib ts w)) = whashes w \<and> wsize (snd (persistHashTiles lib ts w)) = wsize w"
  by (induction lib ts w rule: persistHashTiles.induct) (auto split: sum.splits prod.splits)

lemma persistDataTiles_mem:
  "whashes (snd (persistDataTiles idx es w)) = whashes w \<and> wsize (snd (persistDataTiles idx es w)) = wsize w"
  by (induction idx es w rule: persistDataTiles.induct) (auto simp: Let_def split: sum.splits prod.splits)

lemma persistAfterAppend_mem:
  assumes "persistAfterAppend lib old new w = (r, w')"
  shows "whashes w' = whashes w \<and> wsize w' = wsize w"
  using assms persistHashTiles_mem [of lib "NewTiles lib TileHeight old (wsize w)" w] persistDataTiles_mem
  by (auto simp: persistAfterAppend_def split: prod.splits sum.splits) (metis snd_conv)+

lemma loadTiles_length:
  "loadTiles fs sz n es = Inr r \<Longrightarrow> length es = min (n * 256) sz \<Longrightarrow> length r = sz"
proof (induction fs sz n es rule: loadTiles.induct)
  case (1 fs sz n es)
  show ?case
  proof (cases "n * EntriesPerDataTile < sz")
    case True
    let ?rec = "if (n + 1) * EntriesPerDataTile > sz then sz - n * EntriesPerDataTile else EntriesPerDataTile"
    obtain raw xs where x: "rwrap ''read'' (Get fs (dataTilePath n ?rec)) = Inr raw" "rwrap ''parse'' (SplitDataTile raw) = Inr xs"
        "length xs = ?rec" "loadTiles fs sz (n + 1) (es @ xs) = Inr r"
      using 1(2) True by (subst (asm) loadTiles.simps) (auto simp: Let_def rbind_eq_Inr split: if_splits)
    have "length (es @ xs) = min ((n + 1) * 256) sz" using 1(3) True x(3) by (auto split: if_splits)
    with 1(1) [OF True refl x(1,2) _ x(4)] x(3) show ?thesis by simp
  next
    case False
    then show ?thesis using 1(2,3) by (subst (asm) loadTiles.simps) simp
  qed
qed

context tlog_laws
begin

lemma TWAppend_mem:
  assumes "valid_store lib sha256 es (whashes w)" "wsize w = length es" "TWAppend lib new w = (r, w')" "\<forall>m. r \<noteq> Inl (Panic m)"
  shows "r = Inr idx \<Longrightarrow> valid_store lib sha256 (es @ new) (whashes w') \<and> wsize w' = length (es @ new)"
    and "r = Inl e \<Longrightarrow> whashes w' = whashes w \<and> wsize w' = wsize w"
proof -
  obtain n where n: "hashLoop lib (length es) (whashes w) [] new = Inr n" "valid_store lib sha256 (es @ new) (whashes w @ n)"
    using hashLoop_valid [OF assms(1)] by blast
  have cnt: "length (whashes w) = StoredHashCount lib (length es)" using assms(1) by (simp add: valid_store_def)
  let ?w1 = "w\<lparr>whashes := whashes w @ n, wsize := length es + length new\<rparr>"
  obtain q w2 where q: "persistAfterAppend lib (length es) new ?w1 = (q, w2)"
    by (cases "persistAfterAppend lib (length es) new ?w1")
  note m = persistAfterAppend_mem [OF q]
  show "valid_store lib sha256 (es @ new) (whashes w') \<and> wsize w' = length (es @ new)" if "r = Inr idx"
    using assms n m q that
    by (auto simp: TWAppend_def Let_def split: if_splits sum.splits goerror.splits)
  show "whashes w' = whashes w \<and> wsize w' = wsize w" if "r = Inl e"
    using assms n m q cnt that
    by (auto simp: TWAppend_def Let_def split: if_splits sum.splits goerror.splits)
qed

end

section \<open>The invariant\<close>

abbreviation leaf_mth :: "(bytes \<Rightarrow> Hash) \<Rightarrow> bytes list \<Rightarrow> nat \<Rightarrow> nat \<Rightarrow> Hash" where
  "leaf_mth sha256 es \<equiv> mth (HashChildren sha256) (leaf_hashes sha256 es)"

text \<open>A published subtree: a valid range of the entries with their hash, signed first by the CA.\<close>

definition sub_ok :: "(bytes \<Rightarrow> Hash) \<Rightarrow> LogConfig \<Rightarrow> bytes list \<Rightarrow> nat \<Rightarrow> signedSubtree \<Rightarrow> bool" where
  "sub_ok sha256 cfg es n s \<longleftrightarrow>
     SubLogID (ssub s) = lLogID cfg \<and> IsValid (SubStart (ssub s)) (SubEnd (ssub s)) = Inr True \<and> unat (SubEnd (ssub s)) \<le> n \<and>
     SubHash (ssub s) = leaf_mth sha256 es (unat (SubStart (ssub s))) (unat (SubEnd (ssub s)) - unat (SubStart (ssub s))) \<and>
     ssigs s \<noteq> [] \<and> signSubtree cfg (ssub s) = Inr (hd (ssigs s))"

definition sub_range :: "signedSubtree \<Rightarrow> u64 \<times> u64" where
  "sub_range s = (SubStart (ssub s), SubEnd (ssub s))"

definition committed_ok :: "tlog \<Rightarrow> (bytes \<Rightarrow> Hash) \<Rightarrow> LogConfig \<Rightarrow> bytes list \<Rightarrow> committedCheckpoint \<Rightarrow> bool" where
  "committed_ok lib sha256 cfg es c \<longleftrightarrow>
     (\<exists>ces rest. es = ces @ rest \<and> valid_store lib sha256 ces (chashes c) \<and> unat (csize c) \<le> length ces) \<and>
     (\<forall>s\<in>set (csubtrees c). sub_ok sha256 cfg es (unat (csize c)) s) \<and> distinct (map sub_range (csubtrees c))"

definition log_inv :: "tlog \<Rightarrow> (bytes \<Rightarrow> Hash) \<Rightarrow> bytes list \<Rightarrow> Log \<Rightarrow> bool" where
  "log_inv lib sha256 es l \<longleftrightarrow>
     wsize (ltw l) = length es \<and> length es < 2 ^ 63 \<and> valid_store lib sha256 es (whashes (ltw l)) \<and>
     (\<forall>c. lcommitted l = Some c \<longrightarrow> committed_ok lib sha256 (lcfg l) es c)"

text \<open>The log as its clients see it: the entries in the tree and those in the pool.\<close>

definition all_entries :: "bytes list \<Rightarrow> Log \<Rightarrow> bytes list" where
  "all_entries es l = es @ map pentry (lpool l)"

lemma leaf_mth_append:
  "unat fin \<le> length es \<Longrightarrow> start < (fin :: u64) \<Longrightarrow>
     leaf_mth sha256 (es @ es') (unat start) (unat fin - unat start) = leaf_mth sha256 es (unat start) (unat fin - unat start)"
  by (intro mth_cong) (auto simp: leaf_hashes_def nth_append u64_less_iff)

lemma IsValid_less: "IsValid a b = Inr True \<Longrightarrow> a < b"
  by (auto simp: IsValid_def split: if_splits)

lemma sub_ok_append:
  assumes "sub_ok sha256 cfg es n s" "n \<le> length es" "n \<le> m"
  shows "sub_ok sha256 cfg (es @ es') m s"
proof -
  have b: "unat (SubEnd (ssub s)) \<le> length es" "SubStart (ssub s) < SubEnd (ssub s)"
    using assms IsValid_less by (auto simp: sub_ok_def)
  show ?thesis using assms(1,3) leaf_mth_append [OF b, of sha256 es'] by (simp add: sub_ok_def)
qed

lemma committed_ok_append: "committed_ok lib sha256 cfg es c \<Longrightarrow> committed_ok lib sha256 cfg (es @ es') c"
  unfolding committed_ok_def using sub_ok_append [of sha256 cfg es "unat (csize c)" _ "unat (csize c)" es'] by fastforce

section \<open>Publishing\<close>

lemma publish_cases:
  assumes "publish lib sha256 now prevSize l = Some (r, l')"
  obtains (error) e fs' where "r = Inl e" "l' = l\<lparr>ltw := (ltw l)\<lparr>wfs := fs'\<rparr>\<rparr>"
  | (ok) rt sig nt subs fs' where "r = Inr ()" "RootHash lib sha256 (ltw l) = Inr rt"
    "signSubtree (lcfg l) \<lparr>SubLogID = lLogID (lcfg l), SubStart = 0, SubEnd = of_nat (wsize (ltw l)), SubHash = rt\<rparr> = Inr sig"
    "buildSignedNote sha256 (lLogID (lcfg l)) (lCosignerID (lcfg l)) (of_nat (wsize (ltw l))) rt
       (SignerAlgorithm (lSigner (lcfg l))) (SignerPublicKey (lSigner (lcfg l))) (Signature sig) = Inr nt"
    "coverSubtrees lib sha256 (lcfg l) (ltw l) now prevSize (of_nat (wsize (ltw l))) = Some (Inr subs)"
    "persistCheckpoint (wfs (ltw l)) nt = (Inr (), fs')"
    "l' = l\<lparr>ltw := (ltw l)\<lparr>wfs := fs'\<rparr>,
       lcommitted := Some \<lparr>csize = of_nat (wsize (ltw l)), croot = rt, csubtrees = subs @ carried now (lcommitted l),
         cnote = bytes_of nt, chashes = whashes (ltw l)\<rparr>,
       lnotify := lnotify l + 1, lrequests := lrequests l @ (if lMirrors (lcfg l) then subs else [])\<rparr>"
proof -
  have same: thesis if "r = Inl e" "l' = l" for e
    using error [OF that(1), of "wfs (ltw l)"] that(2) by simp
  show thesis
    using assms unfolding publish_def Let_def
    by (auto split: sum.splits option.splits prod.splits intro: same error ok)
qed

lemma covering_cases:
  assumes "covering ts a b"
  obtains t where "ts = [t]" "IsValid (Start t) (End t) = Inr True" "a < End t" "End t = b"
  | t u where "ts = [t, u]" "IsValid (Start t) (End t) = Inr True" "IsValid (Start u) (End u) = Inr True"
    "a < End t" "End t = Start u" "End u = b"
proof -
  from assms have "ts \<noteq> []" "length ts \<le> 2" by (simp_all add: covering_def)
  then consider t where "ts = [t]" | t u where "ts = [t, u]"
    by (cases ts; cases "tl ts") (auto simp: Suc_le_eq)
  then show thesis using assms that by cases (auto simp: covering_def)
qed

lemma covering_ranges:
  assumes "covering ts a b" "t \<in> set ts"
  shows "IsValid (Start t) (End t) = Inr True" "a < End t" "End t \<le> b"
  using assms(1) by (cases rule: covering_cases; use assms(2) IsValid_less in \<open>fastforce\<close>)+

lemma covering_distinct: "covering ts a b \<Longrightarrow> distinct (map (\<lambda>t. (Start t, End t)) ts)"
  by (erule covering_cases) (auto dest: IsValid_less)

lemma signCovers_ranges:
  "signCovers lib sha256 cfg w now ts = Some (Inr subs) \<Longrightarrow> map sub_range subs = map (\<lambda>t. (Start t, End t)) ts"
  by (induction lib sha256 cfg w now ts arbitrary: subs rule: signCovers.induct)
    (auto simp: sub_range_def rbind_eq_Inr Let_def split: option.splits sum.splits)

context tlog_laws
begin

lemma signCovers_ok:
  assumes "signCovers lib sha256 cfg w now ts = Some (Inr subs)" "valid_store lib sha256 es (whashes w)" "length es \<le> 2 ^ 63"
    and "\<forall>t\<in>set ts. IsValid (Start t) (End t) = Inr True \<and> unat (End t) \<le> length es"
  shows "\<forall>s\<in>set subs. sub_ok sha256 cfg es (length es) s"
  using assms(1,4)
proof (induction ts arbitrary: subs)
  case (Cons t ts)
  have t: "IsValid (Start t) (End t) = Inr True" "unat (End t) \<le> length es" using Cons.prems(2) by simp_all
  have "reader_serves (StoredHashIndex lib) (ReadHashes (whashes w)) (HashChildren sha256) (leaf_hashes sha256 es) (length es)"
    using assms(2) by (simp add: valid_store_def)
  then have h: "subtreeHashFromTW lib sha256 w (Start t) (End t) = Some (Inr (leaf_mth sha256 es (unat (Start t)) (unat (End t) - unat (Start t))))"
    using subtreeHashFromHR_mth assms(3) t IsValid_less [OF t(1)] IsValid_TrueD(2) [OF t(1)]
    by (simp add: subtreeHashFromTW_def log_subtreeHashFromHR_eq)
  obtain sig ss where "signSubtree cfg \<lparr>SubLogID = lLogID cfg, SubStart = Start t, SubEnd = End t,
        SubHash = leaf_mth sha256 es (unat (Start t)) (unat (End t) - unat (Start t))\<rparr> = Inr sig"
      "signCovers lib sha256 cfg w now ts = Some (Inr ss)"
      "subs = \<lparr>ssub = \<lparr>SubLogID = lLogID cfg, SubStart = Start t, SubEnd = End t,
        SubHash = leaf_mth sha256 es (unat (Start t)) (unat (End t) - unat (Start t))\<rparr>, ssigs = [sig], scommittedAt = now\<rparr> # ss"
    using Cons.prems(1) h by (auto simp: rbind_eq_Inr Let_def split: sum.splits)
  with Cons t show ?case by (simp add: sub_ok_def)
qed simp

lemma coverSubtrees_ok:
  assumes "coverSubtrees lib sha256 cfg w now prevSize (of_nat (length es)) = Some (Inr subs)"
    "valid_store lib sha256 es (whashes w)" "length es < 2 ^ 63"
  shows "(\<forall>s\<in>set subs. sub_ok sha256 cfg es (length es) s \<and> prevSize < SubEnd (ssub s)) \<and> distinct (map sub_range subs)"
proof (cases "of_nat (length es) > prevSize")
  case True
  obtain ts where ts: "FindSubtrees prevSize (of_nat (length es)) = Inr ts" "covering ts prevSize (of_nat (length es))"
    using FindSubtrees_covering [OF True] by blast
  have u: "unat (of_nat (length es) :: u64) = length es" using assms(3) by (intro unat_of_nat64) simp
  have sc: "signCovers lib sha256 cfg w now ts = Some (Inr subs)" using assms(1) True ts(1) by (simp add: coverSubtrees_def)
  have "\<forall>t\<in>set ts. IsValid (Start t) (End t) = Inr True \<and> unat (End t) \<le> length es"
    using covering_ranges [OF ts(2)] u by (auto simp: u64_le_iff)
  then have "\<forall>s\<in>set subs. sub_ok sha256 cfg es (length es) s" using signCovers_ok [OF sc assms(2)] assms(3) by simp
  moreover have r: "map sub_range subs = map (\<lambda>t. (Start t, End t)) ts" by (rule signCovers_ranges [OF sc])
  moreover have "prevSize < SubEnd (ssub s)" if "s \<in> set subs" for s
  proof -
    have "sub_range s \<in> set (map sub_range subs)" using that by simp
    then obtain t where "t \<in> set ts" "SubEnd (ssub s) = End t" unfolding r by (auto simp: sub_range_def)
    then show ?thesis using covering_ranges(2) [OF ts(2)] by simp
  qed
  ultimately show ?thesis using covering_distinct [OF ts(2)] by simp
qed (use assms(1) in \<open>simp add: coverSubtrees_def\<close>)

lemma carried_ok:
  assumes "log_inv lib sha256 es l" "n \<le> length es" "\<And>c. lcommitted l = Some c \<Longrightarrow> unat (csize c) \<le> n"
  shows "(\<forall>s\<in>set (carried now (lcommitted l)). sub_ok sha256 (lcfg l) es (length es) s \<and> unat (SubEnd (ssub s)) \<le> n) \<and>
    distinct (map sub_range (carried now (lcommitted l)))"
proof (cases "lcommitted l")
  case (Some c)
  then have ok: "committed_ok lib sha256 (lcfg l) es c" "unat (csize c) \<le> n"
    using assms by (simp_all add: log_inv_def)
  have "sub_ok sha256 (lcfg l) es (length es) s" if "s \<in> set (csubtrees c)" for s
    using sub_ok_append [of sha256 "lcfg l" es "unat (csize c)" s "length es" "[]"] ok assms(2) that
    by (simp add: committed_ok_def)
  moreover have "unat (SubEnd (ssub s)) \<le> n" if "s \<in> set (csubtrees c)" for s
    using ok that by (auto simp: committed_ok_def sub_ok_def intro: le_trans)
  moreover have "distinct (map sub_range (carried now (lcommitted l)))"
    using Some ok(1) by (simp add: carried_def committed_ok_def distinct_map_filter)
  ultimately show ?thesis using Some by (simp add: carried_def)
qed (simp add: carried_def)

lemma publish_inv:
  assumes "publish lib sha256 now (of_nat n) l = Some (r, l')" "log_inv lib sha256 es l" "n \<le> length es"
    and old: "\<And>c. lcommitted l = Some c \<Longrightarrow> unat (csize c) \<le> n"
  shows "log_inv lib sha256 es l' \<and> lpool l' = lpool l \<and> ldedup l' = ldedup l \<and> lcfg l' = lcfg l"
  using assms(1)
proof (cases rule: publish_cases)
  case (error e fs')
  then show ?thesis using assms(2) by (simp add: log_inv_def)
next
  case (ok rt sig nt subs fs')
  have inv: "wsize (ltw l) = length es" "length es < 2 ^ 63" "valid_store lib sha256 es (whashes (ltw l))"
    using assms(2) by (simp_all add: log_inv_def)
  have u: "unat (of_nat (length es) :: u64) = length es" "unat (of_nat n :: u64) = n"
    using inv(2) assms(3) by (intro unat_of_nat64; simp)+
  have subs: "(\<forall>s\<in>set subs. sub_ok sha256 (lcfg l) es (length es) s \<and> of_nat n < SubEnd (ssub s)) \<and> distinct (map sub_range subs)"
    using ok(5) inv by (intro coverSubtrees_ok) simp_all
  have car: "\<forall>s\<in>set (carried now (lcommitted l)). sub_ok sha256 (lcfg l) es (length es) s \<and> SubEnd (ssub s) \<le> of_nat n"
    and dc: "distinct (map sub_range (carried now (lcommitted l)))"
    using carried_ok [of es l n now] assms(2,3) old u(2) by (auto simp: u64_le_iff)
  let ?c = "\<lparr>csize = of_nat (length es), croot = rt, csubtrees = subs @ carried now (lcommitted l),
         cnote = bytes_of nt, chashes = whashes (ltw l)\<rparr>"
  have "sub_range ` set subs \<inter> sub_range ` set (carried now (lcommitted l)) = {}"
    using subs car by (fastforce simp: sub_range_def)
  then have "distinct (map sub_range (subs @ carried now (lcommitted l)))" using subs dc by simp
  then have "committed_ok lib sha256 (lcfg l) es ?c"
    unfolding committed_ok_def using inv(3) subs car u(1) by (intro conjI exI [of _ es] exI [of _ "[]"]) auto
  then show ?thesis using inv ok(7) by (simp add: log_inv_def)
qed

text \<open>A flush moves the pool into the tree or leaves both as they were.\<close>

lemma flush_inv:
  assumes "flush lib sha256 now l = Some (r, l')" "\<forall>m. r \<noteq> Inl (Panic m)" "log_inv lib sha256 es l"
    and "length (all_entries es l) < 2 ^ 63"
  shows "\<exists>es'. log_inv lib sha256 es' l' \<and> all_entries es' l' = all_entries es l \<and> ldedup l' = ldedup l \<and> lcfg l' = lcfg l"
proof -
  have inv: "wsize (ltw l) = length es" "valid_store lib sha256 es (whashes (ltw l))"
    using assms(3) by (simp_all add: log_inv_def)
  obtain q w where q: "TWAppend lib (map pentry (lpool l)) (ltw l) = (q, w)" by (cases "TWAppend lib (map pentry (lpool l)) (ltw l)")
  consider "l' = l" | e where "q = Inl e" "\<forall>m. e \<noteq> Panic m" "l' = l\<lparr>ltw := w\<rparr>"
    | idx where "q = Inr idx" "publish lib sha256 now (of_nat (length es)) (l\<lparr>ltw := w, lpool := []\<rparr>) = Some (r, l')"
    using assms(1,2) q inv(1) by (auto simp: flush_def Let_def split: if_splits sum.splits goerror.splits)
  then show ?thesis
  proof cases
    case 1
    then show ?thesis using assms(3) by blast
  next
    case (2 e)
    then have "whashes w = whashes (ltw l) \<and> wsize w = wsize (ltw l)"
      using TWAppend_mem(2) [OF inv(2,1) q] by simp
    then show ?thesis using assms(3) 2(3) by (intro exI [of _ es]) (simp add: log_inv_def all_entries_def)
  next
    case (3 idx)
    let ?es = "all_entries es l" and ?l = "l\<lparr>ltw := w, lpool := []\<rparr>"
    have "valid_store lib sha256 ?es (whashes w) \<and> wsize w = length ?es"
      using TWAppend_mem(1) [OF inv(2,1) q, of idx] 3(1) by (simp add: all_entries_def)
    then have "log_inv lib sha256 ?es ?l"
      using assms(3,4) committed_ok_append [of lib sha256 "lcfg l" es _ "map pentry (lpool l)"]
      by (simp add: log_inv_def) (simp add: all_entries_def)
    moreover have "unat (csize c) \<le> length es" if "lcommitted ?l = Some c" for c
      using assms(3) that by (auto simp: log_inv_def committed_ok_def)
    ultimately have "log_inv lib sha256 ?es l' \<and> lpool l' = [] \<and> ldedup l' = ldedup l \<and> lcfg l' = lcfg l"
      using publish_inv [OF 3(2), of ?es] by (simp add: all_entries_def)
    then show ?thesis by (intro exI [of _ ?es]) (simp add: all_entries_def)
  qed
qed

end

section \<open>Mirror signatures\<close>

lemma attachSigs_cases:
  "attachSigs st sigs ss = Some ss' \<Longrightarrow> list_all2 (\<lambda>s s'. ssub s' = ssub s \<and> (\<exists>more. ssigs s' = ssigs s @ more)) ss ss'"
proof (induction ss arbitrary: ss')
  case (Cons cs css)
  then show ?case by (auto split: if_splits intro: list_all2_refl)
qed simp

lemma attach_ranges:
  "list_all2 (\<lambda>s s'. ssub s' = ssub s \<and> (\<exists>more. ssigs s' = ssigs s @ more)) ss ss' \<Longrightarrow> map sub_range ss' = map sub_range ss"
  by (induction rule: list_all2_induct) (simp_all add: sub_range_def)

lemma attach_committed:
  assumes "attachSigs st sigs (csubtrees c) = Some ss" "committed_ok lib sha256 cfg es c"
  shows "committed_ok lib sha256 cfg es (c\<lparr>csubtrees := ss\<rparr>)"
proof -
  note r = attachSigs_cases [OF assms(1)]
  have m: "map sub_range ss = map sub_range (csubtrees c)"
    using r by (rule attach_ranges)
  have "sub_ok sha256 cfg es (unat (csize c)) s" if s: "s \<in> set ss" for s
  proof -
    obtain s0 where s0: "s0 \<in> set (csubtrees c)" "ssub s = ssub s0" "\<exists>more. ssigs s = ssigs s0 @ more"
      using r s unfolding list_all2_conv_all_nth in_set_conv_nth by metis
    then show ?thesis using assms(2) by (auto simp: committed_ok_def sub_ok_def)
  qed
  then show ?thesis using assms(2) m by (simp add: committed_ok_def)
qed

lemma collectOne_inv:
  assumes "log_inv lib sha256 es l"
  shows "log_inv lib sha256 es (collectOne requester s l) \<and> lpool (collectOne requester s l) = lpool l \<and>
    ldedup (collectOne requester s l) = ldedup l \<and> lcfg (collectOne requester s l) = lcfg l"
  using assms attach_committed
  by (auto simp: collectOne_def attachMirrorSigs_def log_inv_def split: sum.splits option.splits)

section \<open>Runs\<close>

inductive log_steps :: "tlog \<Rightarrow> (bytes \<Rightarrow> Hash) \<Rightarrow> Log \<Rightarrow> Log \<Rightarrow> bool" for lib sha256 l where
  start: "log_steps lib sha256 l l"
| append: "log_steps lib sha256 l l1 \<Longrightarrow> log_steps lib sha256 l (snd (Append entry key l1))"
| flush: "log_steps lib sha256 l l1 \<Longrightarrow> wsize (ltw l1) + length (lpool l1) < 2 ^ 63 \<Longrightarrow>
    flush lib sha256 now l1 = Some (r, l2) \<Longrightarrow> \<forall>m. r \<noteq> Inl (Panic m) \<Longrightarrow> log_steps lib sha256 l l2"
| collect: "log_steps lib sha256 l l1 \<Longrightarrow> log_steps lib sha256 l (collectOne requester s l1)"

lemma Append_inv:
  assumes "log_inv lib sha256 es l"
  shows "log_inv lib sha256 es (snd (Append entry key l))"
    "\<exists>more. all_entries es (snd (Append entry key l)) = all_entries es l @ more"
    "ldedup l k = Some i \<Longrightarrow> ldedup (snd (Append entry key l)) k = Some i" "lcfg (snd (Append entry key l)) = lcfg l"
  using assms by (auto simp: Append_def log_inv_def all_entries_def Let_def split: option.splits)

context tlog_laws
begin

lemma log_steps_inv:
  assumes "log_steps lib sha256 l l'" "log_inv lib sha256 es l"
  shows "\<exists>es' more. log_inv lib sha256 es' l' \<and> all_entries es' l' = all_entries es l @ more \<and>
    (\<forall>k i. ldedup l k = Some i \<longrightarrow> ldedup l' k = Some i) \<and> lcfg l' = lcfg l"
  using assms
proof (induction rule: log_steps.induct)
  case start
  then show ?case by (intro exI [of _ es] exI [of _ "[]"]) simp
next
  case (append l1 entry key)
  then obtain es1 more where i: "log_inv lib sha256 es1 l1" "all_entries es1 l1 = all_entries es l @ more"
      "\<forall>k i. ldedup l k = Some i \<longrightarrow> ldedup l1 k = Some i" "lcfg l1 = lcfg l" by blast
  note a = Append_inv [OF i(1), where entry = entry and key = key]
  obtain m2 where "all_entries es1 (snd (Append entry key l1)) = all_entries es l @ more @ m2" using a(2) i(2) by auto
  then show ?case using a(1,3,4) i(3,4) by (intro exI [of _ es1] exI [of _ "more @ m2"]) auto
next
  case (flush l1 now r l2)
  then obtain es1 more where i: "log_inv lib sha256 es1 l1" "all_entries es1 l1 = all_entries es l @ more"
      "\<forall>k i. ldedup l k = Some i \<longrightarrow> ldedup l1 k = Some i" "lcfg l1 = lcfg l" by blast
  have "length (all_entries es1 l1) < 2 ^ 63" using flush.hyps(2) i(1) by (simp add: all_entries_def log_inv_def)
  from flush_inv [OF flush.hyps(3,4) i(1) this] i show ?case by metis
next
  case (collect l1 requester s)
  then show ?case using collectOne_inv [of lib sha256 _ l1 requester s] by (metis all_entries_def)
qed

lemma new_tilewriter_valid:
  assumes "NewTileWriter lib fs = Inr w"
  shows "\<exists>es. wsize w = length es \<and> length es < 2 ^ 63 \<and> valid_store lib sha256 es (whashes w)"
proof -
  from assms consider "wsize w = 0" "whashes w = []"
    | sz es hr where "sz < 2 ^ 63" "loadTiles fs sz 0 [] = Inr es" "hashLoop lib 0 [] [] es = Inr hr" "wsize w = sz" "whashes w = hr"
  proof (cases "Get fs treeSizePath")
    case (Inr data)
    let ?sz = "sint (of_nat (unbe data) :: u64)"
    have b: "nat ?sz < 2 ^ 63" using sint_lt [of "of_nat (unbe data) :: u64"] by (simp add: nat_less_iff)
    show ?thesis
      using assms Inr that(1) that(2) [OF b]
      by (auto simp: NewTileWriter_def loadFromDisk_def rbind_eq_Inr Let_def nat_less_iff split: if_splits)
  qed (auto simp: NewTileWriter_def loadFromDisk_def split: if_splits)
  then show ?thesis
  proof cases
    case 1
    then show ?thesis using valid_empty by (intro exI [of _ "[]"]) simp
  next
    case (2 sz es hr)
    have "length es = sz" using loadTiles_length [OF 2(2)] by simp
    then show ?thesis using 2 hashLoop_valid [OF valid_empty, of es] by (intro exI [of _ es]) auto
  qed
qed

lemma committed_loaded:
  assumes "valid_store lib sha256 es (chashes c)" "unat (csize c) \<le> length es" "csubtrees c = []"
  shows "committed_ok lib sha256 cfg es c"
  unfolding committed_ok_def using assms by (intro conjI exI [of _ es] exI [of _ "[]"]) simp_all

lemma new_log_inv:
  assumes "NewLog lib mlib sha256 cfg now fs = Some (Inr l)"
  shows "\<exists>es. log_inv lib sha256 es l \<and> lcfg l = cfg"
proof -
  obtain w where w: "NewTileWriter lib fs = Inr w"
    using assms by (auto simp: NewLog_def split: if_splits sum.splits)
  obtain es where es: "wsize w = length es" "length es < 2 ^ 63" "valid_store lib sha256 es (whashes w)"
    using new_tilewriter_valid [OF w] by blast
  let ?l0 = "\<lparr>lcfg = cfg, ltw = w, lpool = [], ldedup = (\<lambda>_. None), lcommitted = None, lnotify = 0, lrequests = []\<rparr>"
  obtain l1 where l1: "loadCheckpoint mlib sha256 ?l0 = Inr l1"
    and l: "l = l1 \<or> (lcommitted l1 = None \<and> (\<exists>u. flush lib sha256 now l1 = Some (Inr u, l)))"
    using assms w by (auto simp: NewLog_def split: if_splits sum.splits option.splits prod.splits)
  have u: "unat (of_nat (length es) :: u64) = length es" using es(2) by (intro unat_of_nat64) simp
  have "log_inv lib sha256 es l1 \<and> lcfg l1 = cfg \<and> lpool l1 = []"
    using l1 es u
    by (auto simp: loadCheckpoint_def log_inv_def rbind_eq_Inr not_less u64_le_iff split: sum.splits if_splits
        intro!: committed_loaded)
  then show ?thesis using l flush_inv [of now l1 _ l es] es(2) by (auto simp: all_entries_def)
qed

section \<open>Issuing\<close>

lemma issueFrom_ok:
  assumes "valid_store lib sha256 es hs" "length es \<le> 2 ^ 63" "IsValid (SubStart st) (SubEnd st) = Inr True"
    and "unat (SubEnd st) \<le> length es" "SubStart st \<le> index" "index < SubEnd st"
  shows "\<exists>pr. issueFrom lib sha256 hs index st sigs what = Some (Inr \<lparr>IIndex = index, ISubtree = st, IProof = pr, ISignatures = sigs\<rparr>) \<and>
    EvaluateInclusionProof sha256 (SubStart st) (SubEnd st) index (leaf_hashes sha256 es (unat index)) pr =
      Inr (leaf_mth sha256 es (unat (SubStart st)) (unat (SubEnd st) - unat (SubStart st)))"
proof -
  have rs: "reader_serves (StoredHashIndex lib) (ReadHashes hs) (HashChildren sha256) (leaf_hashes sha256 es) (length es)"
    using assms(1) by (simp add: valid_store_def)
  let ?pr = "audit (HashChildren sha256) (leaf_hashes sha256 es) (unat (SubStart st)) (unat (SubEnd st) - unat (SubStart st))
    (unat index - unat (SubStart st))"
  have "walkInclusionProof sha256 (StoredHashIndex lib) (SubStart st) (SubEnd st) index (ReadHashes hs) = Some (Inr ?pr)"
    using walkInclusionProof_eq [OF assms(3), of sha256 "StoredHashIndex lib" index "ReadHashes hs"]
      GenerateInclusionProof_audit [OF rs assms(2,3,5,6,4)] by metis
  then show ?thesis
    using EvaluateInclusionProof_audit [OF assms(3,5,6), of sha256 "leaf_hashes sha256 es"] by (simp add: issueFrom_def)
qed

lemma buildIssued_verifies:
  assumes "log_inv lib sha256 es l" "buildIssued lib sha256 l index = Some (Inr iss)" "ISignatures iss \<noteq> []"
  shows "unat index < length es \<and> IIndex iss = index \<and> SubLogID (ISubtree iss) = lLogID (lcfg l) \<and>
    EvaluateInclusionProof sha256 (SubStart (ISubtree iss)) (SubEnd (ISubtree iss)) index (HashLeaf sha256 (es ! unat index)) (IProof iss)
      = Inr (SubHash (ISubtree iss)) \<and>
    signSubtree (lcfg l) (ISubtree iss) = Inr (hd (ISignatures iss))"
proof -
  obtain c where c: "lcommitted l = Some c" "index < csize c"
    using assms(2) by (auto simp: buildIssued_def split: option.splits if_splits)
  then obtain ces rest where ces: "es = ces @ rest" "valid_store lib sha256 ces (chashes c)" "unat (csize c) \<le> length ces"
    and ok: "\<forall>s\<in>set (csubtrees c). sub_ok sha256 (lcfg l) es (unat (csize c)) s"
    using assms(1) by (auto simp: log_inv_def committed_ok_def)
  obtain s where s: "s \<in> set (csubtrees c)" "SubStart (ssub s) \<le> index" "index < SubEnd (ssub s)"
    and iss: "issueFrom lib sha256 (chashes c) index (ssub s) (ssigs s) ''inclusion proof'' = Some (Inr iss)"
  proof (cases "[s \<leftarrow> csubtrees c. index \<ge> SubStart (ssub s) \<and> index < SubEnd (ssub s)]")
    case Nil
    then have "issueFrom lib sha256 (chashes c) index \<lparr>SubLogID = lLogID (lcfg l), SubStart = 0, SubEnd = csize c, SubHash = croot c\<rparr> []
        ''whole-tree inclusion proof'' = Some (Inr iss)"
      using assms(2) c Nil by (simp add: buildIssued_def not_le [symmetric])
    then have "ISignatures iss = []" by (auto simp: issueFrom_def rbind_eq_Inr)
    then show ?thesis using assms(3) by simp
  next
    case (Cons s ss)
    then have "s \<in> set [s \<leftarrow> csubtrees c. index \<ge> SubStart (ssub s) \<and> index < SubEnd (ssub s)]" by simp
    moreover have "issueFrom lib sha256 (chashes c) index (ssub s) (ssigs s) ''inclusion proof'' = Some (Inr iss)"
      using assms(2) c Cons by (simp add: buildIssued_def not_le [symmetric])
    ultimately show ?thesis using that [of s] by simp
  qed
  have so: "sub_ok sha256 (lcfg l) es (unat (csize c)) s" using ok s(1) by blast
  have v: "IsValid (SubStart (ssub s)) (SubEnd (ssub s)) = Inr True" "unat (SubEnd (ssub s)) \<le> length ces"
    using so ces(3) by (simp_all add: sub_ok_def)
  have len: "length ces \<le> 2 ^ 63" using assms(1) ces(1) by (simp add: log_inv_def)
  have i: "unat index < length ces" using c(2) ces(3) by (simp add: u64_less_iff)
  have "leaf_hashes sha256 ces (unat index) = HashLeaf sha256 (es ! unat index)"
    using i ces(1) by (simp add: leaf_hashes_def nth_append)
  moreover have "leaf_mth sha256 ces (unat (SubStart (ssub s))) (unat (SubEnd (ssub s)) - unat (SubStart (ssub s))) = SubHash (ssub s)"
    using leaf_mth_append [OF v(2) IsValid_less [OF v(1)], of sha256 rest] so ces(1) by (simp add: sub_ok_def)
  ultimately show ?thesis
    using issueFrom_ok [OF ces(2) len v s(2,3), of "ssigs s" "''inclusion proof''"] iss so i ces(1) by (auto simp: sub_ok_def)
qed

end

end
