(* ===== verification/Issuance.thy ===== *)
theory Issuance
  imports Log MirrorServer
begin

text \<open>
  What the issuance log promises its clients: an index handed out by \<open>Append\<close> stays the position of the
  entry, \<open>Wait\<close> answers with a proof of inclusion and the CA's signature over the covering subtree, a
  flush publishes the checkpoint of the entries and makes progress, a restart finds it again, and a
  flush that fails half-way loses the signature of the entries it had appended.
\<close>

section \<open>Indices\<close>

definition log_total :: "Log \<Rightarrow> nat" where
  "log_total l = wsize (ltw l) + length (lpool l)"

definition dedup_ok :: "Log \<Rightarrow> bool" where
  "dedup_ok l \<longleftrightarrow> inj_on (ldedup l) (dom (ldedup l)) \<and> (\<forall>k i. ldedup l k = Some i \<longrightarrow> unat i < log_total l)"

lemma publish_dedup: "publish lib sha256 now n l = Some (r, l') \<Longrightarrow> ldedup l' = ldedup l"
  by (erule publish_cases) simp_all

lemma flush_dedup: "flush lib sha256 now l = Some (r, l') \<Longrightarrow> ldedup l' = ldedup l"
  by (auto simp: flush_def Let_def split: if_splits prod.splits sum.splits goerror.splits dest: publish_dedup)

lemma total_entries: "log_inv lib sha256 es l \<Longrightarrow> log_total l = length (all_entries es l)"
  by (simp add: log_total_def all_entries_def log_inv_def)

lemma Append_fresh:
  assumes "ldedup l key = None" "Append entry key l = (i, l')"
  shows "i = of_nat (log_total l)" "log_total l' = log_total l + 1" "ldedup l' = (ldedup l)(key \<mapsto> i)"
    "all_entries es l' = all_entries es l @ [entry]"
  using assms by (auto simp: Append_def log_total_def all_entries_def Let_def)

lemma Append_again: "ldedup l key = Some i \<Longrightarrow> Append entry key l = (i, l)"
  by (simp add: Append_def)

lemma Append_dedup_ok:
  assumes "dedup_ok l" "log_total (snd (Append entry key l)) < 2 ^ 63"
  shows "dedup_ok (snd (Append entry key l))"
proof (cases "ldedup l key")
  case None
  obtain i l' where a: "Append entry key l = (i, l')" by (cases "Append entry key l")
  note f = Append_fresh [OF None a]
  have u: "unat i = log_total l" using assms(2) f(1,2) a by (simp add: unat_of_nat64)
  have n: "ldedup l k \<noteq> Some i" for k using assms(1) u unfolding dedup_ok_def by (metis less_irrefl)
  have "inj_on (ldedup l') (dom (ldedup l'))"
  proof (rule inj_onI)
    fix x y
    assume xy: "x \<in> dom (ldedup l')" "y \<in> dom (ldedup l')" "ldedup l' x = ldedup l' y"
    show "x = y"
      using xy n [of x] n [of y] assms(1) unfolding dedup_ok_def f(3)
      by (auto split: if_splits dest: inj_onD)
  qed
  then show ?thesis using a assms(1) u unfolding dedup_ok_def
    by (auto simp: f(2,3) less_Suc_eq)
qed (use assms(1) in \<open>simp add: Append_again\<close>)

context tlog_laws
begin

lemma log_steps_total:
  assumes "log_steps lib sha256 l l'" "log_inv lib sha256 es l"
  shows "log_total l \<le> log_total l'"
  using log_steps_inv [OF assms] total_entries [OF assms(2)] by (metis total_entries length_append le_add1)

lemma log_steps_dedup:
  assumes "log_steps lib sha256 l l'" "log_inv lib sha256 es l" "dedup_ok l" "log_total l' < 2 ^ 63"
  shows "dedup_ok l'"
  using assms(1,4)
proof (induction rule: log_steps.induct)
  case start
  then show ?case by (simp add: assms(3))
next
  case (append l1 entry key)
  have "log_total l1 \<le> log_total (snd (Append entry key l1))"
    by (cases "ldedup l1 key") (auto simp: Append_def log_total_def Let_def)
  then show ?case using append by (intro Append_dedup_ok) simp_all
next
  case (flush l1 now r l2)
  obtain es1 where es1: "log_inv lib sha256 es1 l1" using log_steps_inv [OF flush.hyps(1) assms(2)] by blast
  then obtain es2 where es2: "log_inv lib sha256 es2 l2" "all_entries es2 l2 = all_entries es1 l1"
    using flush_inv [OF flush.hyps(3,4)] flush.hyps(2) by (auto simp: total_entries [symmetric] log_total_def)
  have "log_total l2 = log_total l1" using es2 by (simp add: total_entries [OF es1] total_entries [OF es2(1)])
  then show ?case using flush flush_dedup [OF flush.hyps(3)] by (simp add: dedup_ok_def)
next
  case (collect l1 requester s)
  obtain es1 where es1: "log_inv lib sha256 es1 l1" using log_steps_inv [OF collect.hyps(1) assms(2)] by blast
  note c = collectOne_inv [OF es1, of requester s]
  have "log_total (collectOne requester s l1) = log_total l1"
    using c total_entries [OF es1] total_entries [of lib sha256 es1] by (simp add: all_entries_def)
  then show ?case using collect c by (simp add: dedup_ok_def)
qed

end

lemma new_log_dedup:
  assumes "NewLog lib mlib sha256 cfg now fs = Some (Inr l)"
  shows "ldedup l = (\<lambda>_. None)"
proof -
  let ?l0 = "\<lambda>w. \<lparr>lcfg = cfg, ltw = w, lpool = [], ldedup = (\<lambda>_. None), lcommitted = None, lnotify = 0, lrequests = []\<rparr>"
  have ld: "ldedup l1 = (\<lambda>_. None)" if "loadCheckpoint mlib sha256 (?l0 w) = Inr l1" for w l1
    using that by (auto simp: loadCheckpoint_def rbind_eq_Inr split: sum.splits if_splits)
  show ?thesis
    using assms
    by (auto simp: NewLog_def ld split: if_splits sum.splits option.splits prod.splits dest!: flush_dedup ld)
qed

text \<open>
  C25: an index is a promise. In every run of the log that stays below \<open>2\<^sup>6\<^sup>3\<close> entries, different
  idempotency keys have different indices, all of them positions of submitted entries, and a key that
  was given an index is given the same one again whatever happened in between, without changing the log.
\<close>

theorem log_indices:
  assumes "tlog_laws lib sha256" "NewLog lib mlib sha256 cfg now fs = Some (Inr l0)" "log_steps lib sha256 l0 l"
    "wsize (ltw l) + length (lpool l) < 2 ^ 63"
  shows "inj_on (ldedup l) (dom (ldedup l)) \<and>
    (\<forall>key i. ldedup l key = Some i \<longrightarrow> unat i < wsize (ltw l) + length (lpool l) \<and>
      (\<forall>l' entry. log_steps lib sha256 l l' \<longrightarrow> Append entry key l' = (i, l')))"
proof -
  obtain es0 where e0: "log_inv lib sha256 es0 l0" using tlog_laws.new_log_inv [OF assms(1,2)] by blast
  obtain es where es: "log_inv lib sha256 es l" using tlog_laws.log_steps_inv [OF assms(1,3) e0] by blast
  have "dedup_ok l0" using new_log_dedup [OF assms(2)] by (simp add: dedup_ok_def)
  then have ok: "dedup_ok l" using tlog_laws.log_steps_dedup [OF assms(1,3) e0] assms(4) by (simp add: log_total_def)
  moreover have "Append entry key l' = (i, l')" if "ldedup l key = Some i" "log_steps lib sha256 l l'" for key i l' entry
    using tlog_laws.log_steps_inv [OF assms(1) that(2) es] that(1) Append_again by blast
  ultimately show ?thesis by (auto simp: dedup_ok_def log_total_def)
qed

section \<open>Issuing\<close>

lemma Wait_issued:
  assumes "Wait lib sha256 l index = Some (Inr (Some iss))"
  shows "buildIssued lib sha256 l index = Some (Inr iss)"
    "0 < lWaitForCosigners (lcfg l) \<longrightarrow> lWaitForCosigners (lcfg l) \<le> int (length (ISignatures iss))"
  using assms by (auto simp: Wait_def rbind_eq_Inr split: option.splits if_splits)

lemma issued_verified:
  assumes "tlog_laws lib sha256" "NewLog lib mlib sha256 cfg now fs = Some (Inr l0)" "log_steps lib sha256 l0 l1"
    "ldedup l1 key = None" "wsize (ltw l1) + length (lpool l1) < 2 ^ 63" "Append entry key l1 = (index, l2)"
    "log_steps lib sha256 l2 l3" "Wait lib sha256 l3 index = Some (Inr (Some iss))" "ISignatures iss \<noteq> []"
  shows "IIndex iss = index \<and> SubLogID (ISubtree iss) = lLogID cfg \<and>
    EvaluateInclusionProof sha256 (SubStart (ISubtree iss)) (SubEnd (ISubtree iss)) index (HashLeaf sha256 entry) (IProof iss)
      = Inr (SubHash (ISubtree iss)) \<and>
    signSubtree cfg (ISubtree iss) = Inr (hd (ISignatures iss)) \<and>
    (0 < lWaitForCosigners cfg \<longrightarrow> lWaitForCosigners cfg \<le> int (length (ISignatures iss)))"
proof -
  obtain es0 where e0: "log_inv lib sha256 es0 l0" "lcfg l0 = cfg" using tlog_laws.new_log_inv [OF assms(1,2)] by blast
  obtain es1 where e1: "log_inv lib sha256 es1 l1" "lcfg l1 = cfg"
    using tlog_laws.log_steps_inv [OF assms(1,3) e0(1)] e0(2) by auto
  note f = Append_fresh [OF assms(4,6)]
  have e2: "log_inv lib sha256 es1 l2" "lcfg l2 = cfg"
    using Append_inv(1,4) [OF e1(1), of entry key] assms(6) e1(2) by simp_all
  obtain es3 more where e3: "log_inv lib sha256 es3 l3" "lcfg l3 = cfg" "all_entries es3 l3 = all_entries es1 l1 @ entry # more"
    using tlog_laws.log_steps_inv [OF assms(1,7) e2(1)] e2(2) f(4) by auto
  note w = Wait_issued [OF assms(8)]
  note b = tlog_laws.buildIssued_verifies [OF assms(1) e3(1) w(1) assms(9)]
  have u: "unat index = length (all_entries es1 l1)"
    using assms(5) unfolding f(1) log_total_def [symmetric] by (simp add: unat_of_nat64 total_entries [OF e1(1)])
  have "es3 ! unat index = all_entries es3 l3 ! unat index" using b by (simp add: all_entries_def nth_append)
  then have "es3 ! unat index = entry" using e3(3) u by simp
  then show ?thesis using b w(2) e3(2) by simp
qed

text \<open>
  C4: issuance. The index \<open>Append\<close> returns for a new key and the answer of \<open>Wait\<close> for it, after any
  further submissions, flushes (also failing ones) and mirror answers: when the answer carries
  signatures, the first is the CA's own signature over the subtree, there are as many as
  \<open>WaitForCosigners\<close> asks for, and the inclusion proof leads from the leaf hash of exactly the submitted
  entry to the subtree hash that is signed.
\<close>

theorem issuance_sound:
  assumes "tlog_laws lib sha256" "NewLog lib mlib sha256 cfg now fs = Some (Inr l0)" "log_steps lib sha256 l0 l1"
    "ldedup l1 key = None" "wsize (ltw l1) + length (lpool l1) < 2 ^ 63" "Append entry key l1 = (index, l2)"
    "log_steps lib sha256 l2 l3" "Wait lib sha256 l3 index = Some (Inr (Some iss))" "ISignatures iss \<noteq> []"
  shows "IIndex iss = index \<and> SubLogID (ISubtree iss) = lLogID cfg \<and>
    EvaluateInclusionProof sha256 (SubStart (ISubtree iss)) (SubEnd (ISubtree iss)) index (HashLeaf sha256 entry) (IProof iss)
      = Inr (SubHash (ISubtree iss)) \<and>
    signSubtree cfg (ISubtree iss) = Inr (hd (ISignatures iss)) \<and>
    (0 < lWaitForCosigners cfg \<longrightarrow> lWaitForCosigners cfg \<le> int (length (ISignatures iss)))"
  using assms by (rule issued_verified)

section \<open>Publishing\<close>

text \<open>The root a checkpoint commits to.\<close>

definition tree_root :: "(bytes \<Rightarrow> Hash) \<Rightarrow> bytes list \<Rightarrow> Hash" where
  "tree_root sha256 es = (if es = [] then sha256 [] else leaf_mth sha256 es 0 (length es))"

definition idle :: "Log \<Rightarrow> bool" where
  "idle l \<longleftrightarrow> lpool l = [] \<and> (case lcommitted l of None \<Rightarrow> False | Some c \<Rightarrow> csize c = of_nat (wsize (ltw l)))"

lemma flush_cases:
  assumes "flush lib sha256 now l = Some (r, l')" "\<not> idle l" "\<forall>m. r \<noteq> Inl (Panic m)"
  obtains (append_error) e w where "TWAppend lib (map pentry (lpool l)) (ltw l) = (Inl e, w)" "\<forall>m. e \<noteq> Panic m"
    "r = Inl (wrapf ''flush append'' e)" "l' = l\<lparr>ltw := w\<rparr>"
  | (appended) idx w where "TWAppend lib (map pentry (lpool l)) (ltw l) = (Inr idx, w)"
    "publish lib sha256 now (of_nat (wsize (ltw l))) (l\<lparr>ltw := w, lpool := []\<rparr>) = Some (r, l')"
proof -
  obtain q w where q: "TWAppend lib (map pentry (lpool l)) (ltw l) = (q, w)" by (cases "TWAppend lib (map pentry (lpool l)) (ltw l)")
  have c: "(lpool l = [] \<and> (case lcommitted l of None \<Rightarrow> False | Some c \<Rightarrow> csize c = of_nat (wsize (ltw l)))) = False"
    using assms(2) by (simp add: idle_def)
  note run = assms(1) [unfolded flush_def Let_def c if_False q prod.case]
  show thesis
  proof (cases q)
    case (Inl e)
    then show thesis using run assms(3) append_error [OF q [unfolded Inl]] by (cases e) auto
  next
    case (Inr idx)
    then show thesis using run appended [OF q [unfolded Inr]] by simp
  qed
qed

context tlog_laws
begin

lemma RootHash_tree:
  assumes "valid_store lib sha256 es (whashes w)" "wsize w = length es"
  shows "RootHash lib sha256 w = Inr (tree_root sha256 es)"
  using assms tree_hash [OF assms(1)] by (simp add: RootHash_def tree_root_def)

lemma flush_appended:
  assumes "log_inv lib sha256 es l" "TWAppend lib (map pentry (lpool l)) (ltw l) = (Inr idx, w)" "length (all_entries es l) < 2 ^ 63"
  shows "log_inv lib sha256 (all_entries es l) (l\<lparr>ltw := w, lpool := []\<rparr>)"
    "wsize (ltw l) \<le> length (all_entries es l)" "lcommitted l = Some c \<Longrightarrow> unat (csize c) \<le> wsize (ltw l)"
proof -
  have inv: "wsize (ltw l) = length es" "valid_store lib sha256 es (whashes (ltw l))" using assms(1) by (simp_all add: log_inv_def)
  have "valid_store lib sha256 (all_entries es l) (whashes w) \<and> wsize w = length (all_entries es l)"
    using TWAppend_mem(1) [OF inv(2,1) assms(2), of idx] by (simp add: all_entries_def)
  then show "log_inv lib sha256 (all_entries es l) (l\<lparr>ltw := w, lpool := []\<rparr>)"
    using assms(1,3) committed_ok_append [of lib sha256 "lcfg l" es _ "map pentry (lpool l)"]
    by (simp add: log_inv_def) (simp add: all_entries_def)
  show "wsize (ltw l) \<le> length (all_entries es l)" using inv by (simp add: all_entries_def)
  show "lcommitted l = Some c \<Longrightarrow> unat (csize c) \<le> wsize (ltw l)"
    using assms(1) by (auto simp: log_inv_def committed_ok_def)
qed

lemma publish_committed:
  assumes "publish lib sha256 now n l = Some (Inr u, l')" "log_inv lib sha256 es l" "plain (lLogID (lcfg l))" "plain (lCosignerID (lcfg l))"
  shows "\<exists>nt k sig. CosignatureKeyID sha256 (OIDName (lCosignerID (lcfg l))) (SignerAlgorithm (lSigner (lcfg l)))
        (SignerPublicKey (lSigner (lcfg l))) = Inr k \<and>
      CurrentCheckpoint l' = \<lparr>CPSize = of_nat (length es), CPRoot = tree_root sha256 es, CPNote = bytes_of nt\<rparr> \<and>
      files (wfs (ltw l')) = (files (wfs (ltw l)))(checkpointPath \<mapsto> bytes_of nt) \<and>
      parseSignedNoteFull nt (lLogID (lcfg l)) = Inr (of_nat (length es), tree_root sha256 es,
        [\<lparr>keyName = OIDName (lCosignerID (lcfg l)), keyID = k, nsig = sig\<rparr>]) \<and>
      signSubtree (lcfg l) \<lparr>SubLogID = lLogID (lcfg l), SubStart = 0, SubEnd = of_nat (length es), SubHash = tree_root sha256 es\<rparr>
        = Inr \<lparr>CosignerID = lCosignerID (lcfg l), Signature = sig\<rparr> \<and>
      ltw l' = (ltw l)\<lparr>wfs := wfs (ltw l')\<rparr> \<and> get_faults (wfs (ltw l')) = get_faults (wfs (ltw l)) \<and> lpool l' = lpool l \<and> lcfg l' = lcfg l"
  using assms(1)
proof (cases rule: publish_cases)
  case (ok rt sig nt subs fs')
  have inv: "wsize (ltw l) = length es" "valid_store lib sha256 es (whashes (ltw l))"
    using assms(2) by (simp_all add: log_inv_def)
  have rt: "rt = tree_root sha256 es" using ok(2) RootHash_tree [OF inv(2,1)] by simp
  obtain k where k: "CosignatureKeyID sha256 (OIDName (lCosignerID (lcfg l))) (SignerAlgorithm (lSigner (lcfg l)))
        (SignerPublicKey (lSigner (lcfg l))) = Inr k"
    using ok(4) by (auto simp: buildSignedNote_eq_Inr)
  note parse = parseSignedNoteFull_built [OF k ok(4) assms(3,4)]
  have s: "sig = \<lparr>CosignerID = lCosignerID (lcfg l), Signature = Signature sig\<rparr>"
    using ok(3) by (auto simp: signSubtree_def rbind_eq_Inr)
  note pf = Put_files [OF ok(6) [unfolded persistCheckpoint_def]]
  show ?thesis
    using k parse s ok(3,7) rt inv(1) pf(1,3)
    by (intro exI [of _ nt] exI [of _ k] exI [of _ "Signature sig"]) (simp add: CurrentCheckpoint_def)
qed simp

end

text \<open>
  C23: a flush either publishes everything submitted so far or keeps the checkpoint. On success the
  current checkpoint has the size and the Merkle root of all entries of the tree and the pool, its note
  parses back to them with one signature line of the cosigner, that signature is the CA's signature over
  the range from 0, the note is the stored checkpoint file, and the pool is empty. On an error the
  current checkpoint, which is the one served, is unchanged.
\<close>

theorem flush_publishes:
  assumes "tlog_laws lib sha256" "log_inv lib sha256 es l" "flush lib sha256 now l = Some (r, l')" "\<forall>m. r \<noteq> Inl (Panic m)"
    "\<not> idle l" "length (all_entries es l) < 2 ^ 63" "plain (lLogID (lcfg l))" "plain (lCosignerID (lcfg l))"
  shows "case r of
      Inl _ \<Rightarrow> CurrentCheckpoint l' = CurrentCheckpoint l
    | Inr _ \<Rightarrow> lpool l' = [] \<and> log_inv lib sha256 (all_entries es l) l' \<and>
        (\<exists>nt k sig. CurrentCheckpoint l' = \<lparr>CPSize = of_nat (length (all_entries es l)),
              CPRoot = tree_root sha256 (all_entries es l), CPNote = bytes_of nt\<rparr> \<and>
           files (wfs (ltw l')) checkpointPath = Some (bytes_of nt) \<and>
           parseSignedNoteFull nt (lLogID (lcfg l)) = Inr (of_nat (length (all_entries es l)), tree_root sha256 (all_entries es l),
             [\<lparr>keyName = OIDName (lCosignerID (lcfg l)), keyID = k, nsig = sig\<rparr>]) \<and>
           signSubtree (lcfg l) \<lparr>SubLogID = lLogID (lcfg l), SubStart = 0, SubEnd = of_nat (length (all_entries es l)),
             SubHash = tree_root sha256 (all_entries es l)\<rparr> = Inr \<lparr>CosignerID = lCosignerID (lcfg l), Signature = sig\<rparr>)"
  using assms(3,5,4)
proof (cases rule: flush_cases)
  case (append_error e w)
  then show ?thesis by (simp add: CurrentCheckpoint_def)
next
  case (appended idx w)
  let ?l = "l\<lparr>ltw := w, lpool := []\<rparr>" and ?es = "all_entries es l"
  note i = tlog_laws.flush_appended [OF assms(1,2) appended(1) assms(6)]
  show ?thesis
  proof (cases r)
    case (Inl e)
    with appended(2) show ?thesis by (auto elim!: publish_cases simp: CurrentCheckpoint_def)
  next
    case (Inr u)
    note p = tlog_laws.publish_committed [OF assms(1) appended(2) [unfolded Inr] i(1)]
    have "log_inv lib sha256 ?es l'" using tlog_laws.publish_inv [OF assms(1) appended(2)] i assms(2)
      by (simp add: log_inv_def)
    then show ?thesis using p assms(7,8) Inr by fastforce
  qed
qed

section \<open>Progress\<close>

definition covers :: "u64 \<Rightarrow> signedSubtree \<Rightarrow> bool" where
  "covers index s \<longleftrightarrow> SubStart (ssub s) \<le> index \<and> index < SubEnd (ssub s)"

text \<open>A configuration under which signing never fails.\<close>

definition signer_ready :: "(bytes \<Rightarrow> Hash) \<Rightarrow> LogConfig \<Rightarrow> bool" where
  "signer_ready sha256 cfg \<longleftrightarrow> lLogID cfg \<noteq> [] \<and> length (OIDName (lLogID cfg)) \<le> 255 \<and> length (OIDName (lCosignerID cfg)) \<le> 255 \<and>
     (\<exists>k. CosignatureKeyID sha256 (OIDName (lCosignerID cfg)) (SignerAlgorithm (lSigner cfg)) (SignerPublicKey (lSigner cfg)) = Inr k) \<and>
     (\<forall>msg. \<exists>sig. Sign (lSigner cfg) msg = Inr sig)"

lemma signSubtree_ready:
  assumes "signer_ready sha256 cfg" "SubLogID st = lLogID cfg"
  shows "\<exists>sig. signSubtree cfg st = Inr sig"
proof -
  obtain msg where "MarshalSignatureInput (lCosignerID cfg) st = Inr msg"
    using assms by (simp add: MarshalSignatureInput_eq signer_ready_def)
  moreover obtain sig where "Sign (lSigner cfg) msg = Inr sig" using assms(1) by (auto simp: signer_ready_def)
  ultimately show ?thesis by (simp add: signSubtree_def)
qed

lemma covering_all:
  assumes "covering ts a b" "a \<le> i" "i < b"
  shows "\<exists>t\<in>set ts. Start t \<le> i \<and> i < End t"
proof -
  have s: "Start (hd ts) \<le> a" using assms(1) by (simp add: covering_def)
  from assms(1) show ?thesis
    by (cases rule: covering_cases) (use s assms(2,3) in \<open>auto simp: not_less [symmetric]\<close>)
qed

context tlog_laws
begin

lemma signCovers_progress:
  assumes "signer_ready sha256 cfg" "valid_store lib sha256 es (whashes w)" "length es \<le> 2 ^ 63"
    and "\<forall>t\<in>set ts. IsValid (Start t) (End t) = Inr True \<and> unat (End t) \<le> length es"
  shows "\<exists>subs. signCovers lib sha256 cfg w now ts = Some (Inr subs)"
  using assms(4)
proof (induction ts)
  case (Cons t ts)
  then obtain subs where subs: "signCovers lib sha256 cfg w now ts = Some (Inr subs)" by auto
  have t: "IsValid (Start t) (End t) = Inr True" "unat (End t) \<le> length es" using Cons.prems by simp_all
  have "reader_serves (StoredHashIndex lib) (ReadHashes (whashes w)) (HashChildren sha256) (leaf_hashes sha256 es) (length es)"
    using assms(2) by (simp add: valid_store_def)
  then obtain h where h: "subtreeHashFromTW lib sha256 w (Start t) (End t) = Some (Inr h)"
    using subtreeHashFromHR_mth assms(3) t IsValid_less [OF t(1)] IsValid_TrueD(2) [OF t(1)]
    by (simp add: subtreeHashFromTW_def log_subtreeHashFromHR_eq)
  obtain sig where "signSubtree cfg \<lparr>SubLogID = lLogID cfg, SubStart = Start t, SubEnd = End t, SubHash = h\<rparr> = Inr sig"
    using signSubtree_ready [OF assms(1)] by fastforce
  with h subs show ?case by simp
qed simp

lemma coverSubtrees_progress:
  assumes "signer_ready sha256 cfg" "valid_store lib sha256 es (whashes w)" "length es < 2 ^ 63"
  shows "\<exists>subs. coverSubtrees lib sha256 cfg w now n (of_nat (length es)) = Some (Inr subs) \<and>
    (\<forall>i. n \<le> i \<and> i < of_nat (length es) \<longrightarrow> (\<exists>s\<in>set subs. covers i s))"
proof (cases "of_nat (length es) > n")
  case True
  obtain ts where ts: "FindSubtrees n (of_nat (length es)) = Inr ts" "covering ts n (of_nat (length es))"
    using FindSubtrees_covering [OF True] by blast
  have u: "unat (of_nat (length es) :: u64) = length es" using assms(3) by (intro unat_of_nat64) simp
  have "\<forall>t\<in>set ts. IsValid (Start t) (End t) = Inr True \<and> unat (End t) \<le> length es"
    using covering_ranges [OF ts(2)] u by (auto simp: u64_le_iff)
  then obtain subs where sc: "signCovers lib sha256 cfg w now ts = Some (Inr subs)"
    using signCovers_progress [OF assms(1,2)] assms(3) by fastforce
  have "\<exists>s\<in>set subs. covers i s" if i: "n \<le> i" "i < of_nat (length es)" for i
  proof -
    obtain t where t: "t \<in> set ts" "Start t \<le> i" "i < End t" using covering_all [OF ts(2) i] by blast
    then have "(Start t, End t) \<in> set (map sub_range subs)" unfolding signCovers_ranges [OF sc] by simp
    then show ?thesis using t by (auto simp: covers_def sub_range_def)
  qed
  with sc ts(1) True show ?thesis by (simp add: coverSubtrees_def)
qed (auto simp: coverSubtrees_def dest: le_less_trans)

lemma publish_progress:
  assumes "signer_ready sha256 (lcfg l)" "log_inv lib sha256 es l" "faultless (wfs (ltw l))"
  shows "\<exists>l' c. publish lib sha256 now n l = Some (Inr (), l') \<and> lcommitted l' = Some c \<and> csize c = of_nat (length es) \<and>
    faultless (wfs (ltw l')) \<and> (\<forall>i. n \<le> i \<and> i < of_nat (length es) \<longrightarrow> (\<exists>s\<in>set (csubtrees c). covers i s))"
proof -
  have inv: "wsize (ltw l) = length es" "length es < 2 ^ 63" "valid_store lib sha256 es (whashes (ltw l))"
    using assms(2) by (simp_all add: log_inv_def)
  let ?st = "\<lparr>SubLogID = lLogID (lcfg l), SubStart = 0, SubEnd = of_nat (length es), SubHash = tree_root sha256 es\<rparr>"
  obtain sig where sig: "signSubtree (lcfg l) ?st = Inr sig" using signSubtree_ready [OF assms(1)] by fastforce
  obtain nt where nt: "buildSignedNote sha256 (lLogID (lcfg l)) (lCosignerID (lcfg l)) (of_nat (length es)) (tree_root sha256 es)
       (SignerAlgorithm (lSigner (lcfg l))) (SignerPublicKey (lSigner (lcfg l))) (Signature sig) = Inr nt"
    using assms(1) by (auto simp: signer_ready_def buildSignedNote_eq_Inr)
  obtain subs where subs: "coverSubtrees lib sha256 (lcfg l) (ltw l) now n (of_nat (length es)) = Some (Inr subs)"
      "\<forall>i. n \<le> i \<and> i < of_nat (length es) \<longrightarrow> (\<exists>s\<in>set subs. covers i s)"
    using coverSubtrees_progress [OF assms(1) inv(3,2)] by blast
  obtain fs' where fs: "persistCheckpoint (wfs (ltw l)) nt = (Inr (), fs')" "faultless fs'"
    using Put_faultless [OF assms(3)] by (auto simp: persistCheckpoint_def)
  show ?thesis
    using RootHash_tree [OF inv(3,1)] sig nt subs fs unfolding publish_def Let_def inv(1)
    by auto
qed

lemma buildIssued_total:
  assumes "log_inv lib sha256 es l" "lcommitted l = Some c" "index < csize c"
  shows "\<exists>iss. buildIssued lib sha256 l index = Some (Inr iss) \<and> (ISignatures iss \<noteq> [] \<longleftrightarrow> (\<exists>s\<in>set (csubtrees c). covers index s))"
proof -
  obtain ces rest where ces: "es = ces @ rest" "valid_store lib sha256 ces (chashes c)" "unat (csize c) \<le> length ces"
    and ok: "\<forall>s\<in>set (csubtrees c). sub_ok sha256 (lcfg l) es (unat (csize c)) s"
    using assms(1,2) by (auto simp: log_inv_def committed_ok_def)
  have len: "length ces \<le> 2 ^ 63" "length ces < 2 ^ 63" using assms(1) ces(1) by (simp_all add: log_inv_def)
  note issue = issueFrom_ok [OF ces(2) len(1)]
  have b: "buildIssued lib sha256 l index = (case [s \<leftarrow> csubtrees c. covers index s] of
      s # _ \<Rightarrow> issueFrom lib sha256 (chashes c) index (ssub s) (ssigs s) ''inclusion proof''
    | [] \<Rightarrow> issueFrom lib sha256 (chashes c) index
        \<lparr>SubLogID = lLogID (lcfg l), SubStart = 0, SubEnd = csize c, SubHash = croot c\<rparr> [] ''whole-tree inclusion proof'')"
    using assms(2,3) by (simp add: buildIssued_def covers_def not_le [symmetric])
  show ?thesis
  proof (cases "[s \<leftarrow> csubtrees c. covers index s]")
    case Nil
    then have n: "\<not> (\<exists>s\<in>set (csubtrees c). covers index s)" by (simp add: filter_empty_conv)
    have "IsValid 0 (csize c) = Inr True"
      using assms(3) ces(3) len(2) by (intro IsValid_rangeI [where k = 63]) (auto simp: u64_less_iff)
    then show ?thesis using b Nil n issue [of "\<lparr>SubLogID = lLogID (lcfg l), SubStart = 0, SubEnd = csize c, SubHash = croot c\<rparr>" index "[]"]
        assms(3) ces(3) by fastforce
  next
    case (Cons s ss)
    then have "s \<in> set [s \<leftarrow> csubtrees c. covers index s]" by simp
    then have s: "s \<in> set (csubtrees c)" "covers index s" by simp_all
    then have so: "sub_ok sha256 (lcfg l) es (unat (csize c)) s" using ok by blast
    then obtain pr where "issueFrom lib sha256 (chashes c) index (ssub s) (ssigs s) ''inclusion proof'' =
        Some (Inr \<lparr>IIndex = index, ISubtree = ssub s, IProof = pr, ISignatures = ssigs s\<rparr>)"
      using issue [of "ssub s" index "ssigs s"] s(2) ces(3) unfolding sub_ok_def covers_def by fastforce
    then show ?thesis using b Cons s so by (auto simp: sub_ok_def)
  qed
qed

end

lemma flush_progress:
  assumes "tlog_laws lib sha256" "log_inv lib sha256 es l" "tw_inv lib es (ltw l)" "signer_ready sha256 (lcfg l)"
    "put_faults (wfs (ltw l)) = []" "\<forall>n. \<not> get_faults (wfs (ltw l)) n" "\<forall>p\<in>set (lpool l). length (pentry p) \<le> 0xffff"
    "lpool l \<noteq> []" "length (all_entries es l) < 2 ^ 63" "lWaitForCosigners (lcfg l) \<le> 1"
  shows "\<exists>l'. flush lib sha256 now l = Some (Inr (), l') \<and> lpool l' = [] \<and>
    (\<forall>index. length es \<le> unat index \<and> unat index < length (all_entries es l) \<longrightarrow>
      (\<exists>iss. Wait lib sha256 l' index = Some (Inr (Some iss)) \<and> ISignatures iss \<noteq> []))"
proof -
  have se: "\<forall>e\<in>set (map pentry (lpool l)). short_entry e" using assms(7) by (simp add: short_entry_def)
  have "faultless (wfs (ltw l))" using assms(5,6) by (simp add: faultless_def)
  then obtain idx w where w: "TWAppend lib (map pentry (lpool l)) (ltw l) = (Inr idx, w)" "faultless (wfs w)"
    using tlog_laws.append_progress [OF assms(1,3) se] by blast
  let ?l = "l\<lparr>ltw := w, lpool := []\<rparr>" and ?es = "all_entries es l"
  note a = tlog_laws.flush_appended [OF assms(1,2) w(1) assms(9)]
  obtain l' c where p: "publish lib sha256 now (of_nat (length es)) ?l = Some (Inr (), l')" "lcommitted l' = Some c"
      "csize c = of_nat (length ?es)" "\<forall>i. of_nat (length es) \<le> i \<and> i < of_nat (length ?es) \<longrightarrow> (\<exists>s\<in>set (csubtrees c). covers i s)"
    using tlog_laws.publish_progress [OF assms(1) _ a(1), of now "of_nat (length es)"] w(2) assms(4) by auto
  have sz: "wsize (ltw l) = length es" using assms(2) by (simp add: log_inv_def)
  have f: "flush lib sha256 now l = Some (Inr (), l')" using assms(8) w(1) p(1) by (simp add: flush_def Let_def sz)
  have i: "log_inv lib sha256 ?es l' \<and> lpool l' = [] \<and> lcfg l' = lcfg l"
    using tlog_laws.publish_inv [OF assms(1) p(1) a(1)] a(2,3) sz by simp
  have u: "unat (of_nat (length es) :: u64) = length es" "unat (of_nat (length ?es) :: u64) = length ?es"
    using assms(9) by (intro unat_of_nat64; simp add: all_entries_def)+
  have "\<exists>iss. Wait lib sha256 l' index = Some (Inr (Some iss)) \<and> ISignatures iss \<noteq> []"
    if x: "length es \<le> unat index" "unat index < length ?es" for index
  proof -
    have "of_nat (length es) \<le> index" "index < csize c" using x u p(3) by (simp_all add: u64_le_iff u64_less_iff)
    then obtain iss where iss: "buildIssued lib sha256 l' index = Some (Inr iss)" "ISignatures iss \<noteq> []"
      using tlog_laws.buildIssued_total [OF assms(1) conjunct1 [OF i] p(2)] p(3,4) by auto
    then have "1 \<le> int (length (ISignatures iss))" by (cases "ISignatures iss") simp_all
    then show ?thesis using iss i p(2) \<open>index < csize c\<close> assms(10) by (auto simp: Wait_def)
  qed
  with f i show ?thesis by blast
qed

text \<open>
  issuance makes progress. With a working store and signer the next flush succeeds for any pool of
  entries of at most 65535 bytes, and afterwards \<open>Wait\<close> answers every pending index at once, with a
  signed subtree, when no mirror signatures are required.
\<close>

theorem issuance_progress:
  assumes "tlog_laws lib sha256" "log_inv lib sha256 es l" "tw_inv lib es (ltw l)" "signer_ready sha256 (lcfg l)"
    "put_faults (wfs (ltw l)) = []" "\<forall>n. \<not> get_faults (wfs (ltw l)) n" "\<forall>p\<in>set (lpool l). length (pentry p) \<le> 0xffff"
    "lpool l \<noteq> []" "length (all_entries es l) < 2 ^ 63" "lWaitForCosigners (lcfg l) \<le> 1"
  shows "\<exists>l'. flush lib sha256 now l = Some (Inr (), l') \<and> lpool l' = [] \<and>
    (\<forall>index. length es \<le> unat index \<and> unat index < length (all_entries es l) \<longrightarrow>
      (\<exists>iss. Wait lib sha256 l' index = Some (Inr (Some iss)) \<and> ISignatures iss \<noteq> []))"
  using assms by (rule flush_progress)

section \<open>Restart\<close>

lemma checkpointPath_other: "checkpointPath \<noteq> treeSizePath" "checkpointPath \<noteq> dataTilePath n r"
  by (simp_all add: checkpointPath_def dataTilePath_eq treeSizePath_def)

lemma tw_inv_checkpoint:
  assumes "tw_inv lib es w" "files fs' = (files (wfs w))(checkpointPath \<mapsto> d)"
  shows "tw_inv lib es (w\<lparr>wfs := fs'\<rparr>)"
  using assms checkpointPath_other checkpointPath_other [symmetric] by (auto simp: tw_inv_def size_on_disk_def tiles_on_disk_def)

text \<open>The signature scheme accepts what the signer signs.\<close>

definition signs_verifiably :: "'pk mldsa \<Rightarrow> LogConfig \<Rightarrow> bool" where
  "signs_verifiably mlib cfg \<longleftrightarrow> (\<forall>msg sig. Sign (lSigner cfg) msg = Inr sig \<longrightarrow>
     VerifyMTCSignature mlib \<lparr>CKID = lCosignerID cfg, CKAlgorithm = SignerAlgorithm (lSigner cfg), CKPublicKey = SignerPublicKey (lSigner cfg)\<rparr>
       \<lparr>CosignerID = lCosignerID cfg, Signature = sig\<rparr> msg = Inr ())"

lemma verifyLoaded_own:
  assumes "signs_verifiably mlib cfg"
    and "CosignatureKeyID sha256 (OIDName (lCosignerID cfg)) (SignerAlgorithm (lSigner cfg)) (SignerPublicKey (lSigner cfg)) = Inr k"
    and "signSubtree cfg \<lparr>SubLogID = lLogID cfg, SubStart = 0, SubEnd = sz, SubHash = rt\<rparr> = Inr \<lparr>CosignerID = lCosignerID cfg, Signature = sig\<rparr>"
  shows "verifyLoadedCheckpointSig mlib sha256 cfg sz rt [\<lparr>keyName = OIDName (lCosignerID cfg), keyID = k, nsig = sig\<rparr>] = Inr ()"
  using assms by (auto simp: verifyLoadedCheckpointSig_def signs_verifiably_def signSubtree_def rbind_eq_Inr Let_def)

text \<open>
  C24: restart. After a flush that published, from a tile writer whose memory and files agree, a log started again from the same store with the same
  configuration (readable files, a signature scheme that accepts its own signatures) has the same
  current checkpoint, the same tree, and an empty pool; the covering subtrees and the idempotency keys
  are not restored.
\<close>

theorem log_restart:
  assumes "tlog_laws lib sha256" "log_inv lib sha256 es l" "tw_inv lib es (ltw l)" "flush lib sha256 now l = Some (Inr u, l')"
    "\<not> idle l" "length (all_entries es l) < 2 ^ 63" "plain (lLogID (lcfg l))" "plain (lCosignerID (lcfg l))"
    "\<forall>p\<in>set (lpool l). length (pentry p) \<le> 0xffff" "\<forall>n. \<not> get_faults (wfs (ltw l)) n" "signs_verifiably mlib (lcfg l)"
    "0 < lFlushPeriod (lcfg l)"
  shows "\<exists>l''. NewLog lib mlib sha256 (lcfg l) now' (wfs (ltw l')) = Some (Inr l'') \<and>
    CurrentCheckpoint l'' = CurrentCheckpoint l' \<and> wsize (ltw l'') = wsize (ltw l') \<and> whashes (ltw l'') = whashes (ltw l') \<and>
    lpool l'' = [] \<and> ldedup l'' = (\<lambda>_. None) \<and> map_option csubtrees (lcommitted l'') = Some []"
proof -
  have "\<forall>m. Inr u \<noteq> (Inl (Panic m) :: unit result)" by simp
  with assms(4,5) obtain idx w where appended: "TWAppend lib (map pentry (lpool l)) (ltw l) = (Inr idx, w)"
      "publish lib sha256 now (of_nat (wsize (ltw l))) (l\<lparr>ltw := w, lpool := []\<rparr>) = Some (Inr u, l')"
    by (cases rule: flush_cases) auto
  let ?es = "all_entries es l" and ?l = "l\<lparr>ltw := w, lpool := []\<rparr>"
  have se: "\<forall>e\<in>set (map pentry (lpool l)). short_entry e" using assms(9) by (simp add: short_entry_def)
  have tw: "tw_inv lib ?es w" and gf: "get_faults (wfs w) = get_faults (wfs (ltw l))"
    using tlog_laws.append_run(1) [OF assms(1,3) se appended(1) refl] tlog_laws.append_run(3) [OF assms(1,3) se appended(1)]
    by (simp_all add: all_entries_def)
  note a = tlog_laws.flush_appended [OF assms(1,2) appended(1) assms(6)]
  obtain nt k sig where k: "CosignatureKeyID sha256 (OIDName (lCosignerID (lcfg l))) (SignerAlgorithm (lSigner (lcfg l)))
        (SignerPublicKey (lSigner (lcfg l))) = Inr k"
      and cp: "CurrentCheckpoint l' = \<lparr>CPSize = of_nat (length ?es), CPRoot = tree_root sha256 ?es, CPNote = bytes_of nt\<rparr>"
      and fl: "files (wfs (ltw l')) = (files (wfs w))(checkpointPath \<mapsto> bytes_of nt)"
      and parse: "parseSignedNoteFull nt (lLogID (lcfg l)) = Inr (of_nat (length ?es), tree_root sha256 ?es,
        [\<lparr>keyName = OIDName (lCosignerID (lcfg l)), keyID = k, nsig = sig\<rparr>])"
      and sg: "signSubtree (lcfg l) \<lparr>SubLogID = lLogID (lcfg l), SubStart = 0, SubEnd = of_nat (length ?es), SubHash = tree_root sha256 ?es\<rparr>
        = Inr \<lparr>CosignerID = lCosignerID (lcfg l), Signature = sig\<rparr>"
      and fr: "ltw l' = w\<lparr>wfs := wfs (ltw l')\<rparr>" "get_faults (wfs (ltw l')) = get_faults (wfs w)"
    using tlog_laws.publish_committed [OF assms(1) appended(2) a(1)] assms(7,8) by auto
  have "tw_inv lib ?es (ltw l')" using tw_inv_checkpoint [OF tw fl] fr(1) by simp
  then have t: "wsize (ltw l') = length ?es" "NewTileWriter lib (wfs (ltw l')) =
      Inr \<lparr>wfs = wfs (ltw l'), wsize = length ?es, whashes = whashes (ltw l'), dataTiles = (\<lambda>_. None)\<rparr>"
    using reload [of "wfs (ltw l')" ?es lib "whashes (ltw l')"] assms(6,10) fr(2) gf by (auto simp: tw_inv_def)
  have g: "Get (wfs (ltw l')) checkpointPath = Inr (bytes_of nt)" using fl fr(2) gf assms(10) by (simp add: Get_def)
  show ?thesis
    using assms(12) t g parse verifyLoaded_own [OF assms(11) k sg] cp
    by (simp add: NewLog_def loadCheckpoint_def CurrentCheckpoint_def)
qed

section \<open>A flush that fails half-way\<close>

text \<open>
  C39: when a flush has appended the pool but fails to publish (signing or writing the checkpoint
  fails), the next flush that succeeds signs no subtree for those entries: \<open>Wait\<close> then answers each of
  their indices with an empty list of signatures.
\<close>

theorem failed_publish_unsigned:
  assumes "tlog_laws lib sha256" "log_inv lib sha256 es l" "lpool l \<noteq> []" "length (all_entries es l) < 2 ^ 63"
    "flush lib sha256 now l = Some (Inl e, l1)" "\<forall>m. e \<noteq> Panic m" "lpool l1 = []"
    "flush lib sha256 now' l1 = Some (Inr u, l2)" "lWaitForCosigners (lcfg l) \<le> 0"
    "length es \<le> unat index" "unat index < length (all_entries es l)"
  shows "\<exists>iss. Wait lib sha256 l2 index = Some (Inr (Some iss)) \<and> ISignatures iss = []"
proof -
  let ?es = "all_entries es l"
  have ni: "\<not> idle l" using assms(3) by (simp add: idle_def)
  have "\<forall>m. Inl e \<noteq> (Inl (Panic m) :: unit result)" using assms(6) by simp
  with assms(5) ni obtain idx w where w: "TWAppend lib (map pentry (lpool l)) (ltw l) = (Inr idx, w)"
      "publish lib sha256 now (of_nat (wsize (ltw l))) (l\<lparr>ltw := w, lpool := []\<rparr>) = Some (Inl e, l1)"
    by (cases rule: flush_cases) (use assms(3,7) in auto)
  note a = tlog_laws.flush_appended [OF assms(1,2) w(1) assms(4)]
  from w(2) obtain fs1 where l1: "l1 = l\<lparr>lpool := [], ltw := w\<lparr>wfs := fs1\<rparr>\<rparr>" by (cases rule: publish_cases) auto
  have i1: "log_inv lib sha256 ?es l1" using a(1) by (simp add: l1 log_inv_def)
  have sz: "wsize (ltw l1) = length ?es" "wsize (ltw l) = length es" using i1 assms(2) by (simp_all add: log_inv_def)
  have u: "unat (of_nat (length ?es) :: u64) = length ?es" using assms(4) by (intro unat_of_nat64) simp
  have small: "unat (csize c) \<le> length es" if "lcommitted l1 = Some c" for c
    using a(3) [of c] that sz(2) by (simp add: l1)
  have "\<not> idle l1" using small u assms(10,11) sz(1) by (auto simp: idle_def split: option.splits)
  with assms(8) obtain w2 idx2 where "TWAppend lib [] (ltw l1) = (Inr idx2, w2)"
      "publish lib sha256 now' (of_nat (wsize (ltw l1))) (l1\<lparr>ltw := w2, lpool := []\<rparr>) = Some (Inr u, l2)"
    by (cases rule: flush_cases) (auto simp: assms(7))
  then have p: "publish lib sha256 now' (of_nat (length ?es)) l1 = Some (Inr u, l2)"
    using assms(7) sz(1) by (cases l) (simp add: TWAppend_def l1)
  have l2: "log_inv lib sha256 ?es l2 \<and> lcfg l2 = lcfg l1"
    using tlog_laws.publish_inv [OF assms(1) p i1] small sz by (simp add: all_entries_def) (meson le_trans le_add1)
  from p obtain c where c: "lcommitted l2 = Some c" "csize c = of_nat (length ?es)" "csubtrees c = carried now' (lcommitted l1)"
    by (cases rule: publish_cases) (auto simp: coverSubtrees_def sz(1))
  have "\<not> covers index s" if "s \<in> set (csubtrees c)" for s
    using tlog_laws.carried_ok [OF assms(1) i1 _ small, of now'] that c(3) assms(10) le_trans
    by (fastforce simp: covers_def u64_less_iff all_entries_def)
  moreover have ix: "index < csize c" using assms(11) c(2) u by (simp add: u64_less_iff)
  ultimately obtain iss where "buildIssued lib sha256 l2 index = Some (Inr iss)" "ISignatures iss = []"
    using tlog_laws.buildIssued_total [OF assms(1) conjunct1 [OF l2] c(1)] by blast
  then show ?thesis using l2 c(1) ix assms(9) by (simp add: Wait_def l1)
qed

section \<open>Samples\<close>

lemma flush_new: "lcommitted l = None \<Longrightarrow> lpool l = [] \<Longrightarrow> flush lib sha256 now l = publish lib sha256 now (of_nat (wsize (ltw l))) l"
  by (cases l) (simp add: flush_def TWAppend_def Let_def)

context tlog_laws
begin

lemma fresh_log:
  assumes "signer_ready sha256 cfg" "plain (lLogID cfg)" "plain (lCosignerID cfg)" "0 < lFlushPeriod cfg"
  shows "\<exists>l0. NewLog lib mlib sha256 cfg now (empty_store []) = Some (Inr l0) \<and> log_inv lib sha256 [] l0 \<and> tw_inv lib [] (ltw l0) \<and>
    faultless (wfs (ltw l0)) \<and> lpool l0 = [] \<and> ldedup l0 = (\<lambda>_. None) \<and> lcfg l0 = cfg"
proof -
  let ?l = "\<lparr>lcfg = cfg, ltw = empty_writer [], lpool = [], ldedup = (\<lambda>_. None), lcommitted = None, lnotify = 0, lrequests = []\<rparr>"
  have w: "NewTileWriter lib (empty_store []) = Inr (empty_writer [])"
    by (simp add: NewTileWriter_def loadFromDisk_def empty_store_def empty_writer_def Get_def ErrNotExist_def)
  have ld: "loadCheckpoint mlib sha256 ?l = Inr ?l"
    by (simp add: loadCheckpoint_def empty_store_def empty_writer_def Get_def ErrNotExist_def)
  have i: "log_inv lib sha256 [] ?l" using valid_empty by (simp add: log_inv_def empty_writer_def)
  have "faultless (wfs (empty_writer []))" by (simp add: faultless_def empty_writer_def empty_store_def)
  then obtain l0 c where p: "publish lib sha256 now (of_nat 0) ?l = Some (Inr (), l0)" "lcommitted l0 = Some c" "faultless (wfs (ltw l0))"
    using publish_progress [OF _ i, of now "of_nat 0"] assms(1) by auto
  have z: "wsize (ltw ?l) = 0" by (simp add: empty_writer_def)
  have f: "flush lib sha256 now ?l = Some (Inr (), l0)" using flush_new [of ?l lib sha256 now] p(1) z by simp
  have k: "log_inv lib sha256 [] l0 \<and> lpool l0 = [] \<and> ldedup l0 = (\<lambda>_. None) \<and> lcfg l0 = cfg"
    using publish_inv [OF p(1) i] by simp
  obtain nt where "files (wfs (ltw l0)) = (files (wfs (empty_writer [])))(checkpointPath \<mapsto> bytes_of nt)"
      "ltw l0 = (empty_writer [])\<lparr>wfs := wfs (ltw l0)\<rparr>"
    using publish_committed [OF p(1) i] assms(2,3) by auto
  then have "tw_inv lib [] (ltw l0)" using tw_inv_checkpoint [OF empty_writer_inv] by metis
  with f k p(3) w ld assms(4) show ?thesis by (simp add: NewLog_def)
qed

lemma publish_fault:
  assumes "signer_ready sha256 (lcfg l)" "log_inv lib sha256 es l" "put_faults (wfs (ltw l)) = True # r"
  shows "\<exists>e. publish lib sha256 now n l = Some (Inl e, l\<lparr>ltw := (ltw l)\<lparr>wfs := (wfs (ltw l))\<lparr>put_faults := r\<rparr>\<rparr>\<rparr>) \<and> (\<forall>m. e \<noteq> Panic m)"
proof -
  have inv: "wsize (ltw l) = length es" "length es < 2 ^ 63" "valid_store lib sha256 es (whashes (ltw l))"
    using assms(2) by (simp_all add: log_inv_def)
  let ?st = "\<lparr>SubLogID = lLogID (lcfg l), SubStart = 0, SubEnd = of_nat (length es), SubHash = tree_root sha256 es\<rparr>"
  obtain sig where sig: "signSubtree (lcfg l) ?st = Inr sig" using signSubtree_ready [OF assms(1)] by fastforce
  obtain nt where nt: "buildSignedNote sha256 (lLogID (lcfg l)) (lCosignerID (lcfg l)) (of_nat (length es)) (tree_root sha256 es)
       (SignerAlgorithm (lSigner (lcfg l))) (SignerPublicKey (lSigner (lcfg l))) (Signature sig) = Inr nt"
    using assms(1) by (auto simp: signer_ready_def buildSignedNote_eq_Inr)
  obtain subs where subs: "coverSubtrees lib sha256 (lcfg l) (ltw l) now n (of_nat (length es)) = Some (Inr subs)"
    using coverSubtrees_progress [OF assms(1) inv(3,2)] by blast
  show ?thesis
    using RootHash_tree [OF inv(3,1)] sig nt subs assms(3)
    by (simp add: publish_def Let_def inv(1) persistCheckpoint_def Put_def next_fault_def wrapf_def)
qed

end

definition sample_log_cfg :: LogConfig where
  "sample_log_cfg = \<lparr>lLogID = ''1'', lCosignerID = ''2'', lSigner = sample_signer, lFlushPeriod = 1, lMirrors = False, lWaitForCosigners = 0\<rparr>"

lemma sample_ready:
  "signer_ready mk_Hash sample_log_cfg" "plain (lLogID sample_log_cfg)" "plain (lCosignerID sample_log_cfg)" "0 < lFlushPeriod sample_log_cfg"
  using sample_key_id [of "''2''"]
  by (simp_all add: signer_ready_def sample_log_cfg_def sample_signer_def OIDName_def OIDNamePrefix_def TrustAnchorOIDBase_def plain_char_def)

lemma sample_verifiable: "signs_verifiably sample_mldsa sample_log_cfg"
  by (simp add: signs_verifiably_def sample_log_cfg_def sample_signer_def sample_verify)

definition sample_now :: Time where
  "sample_now = \<lparr>Year = 2026, Month = 1, Day = 1, Hour = 0, Minute = 0, Second = 0, Nanosecond = 0\<rparr>"

text \<open>A fresh log, one submission, one flush.\<close>

definition sample_run :: "Log \<Rightarrow> Log \<Rightarrow> bool" where
  "sample_run l0 l \<longleftrightarrow> NewLog (ref_tlog mk_Hash) sample_mldsa mk_Hash sample_log_cfg sample_now (empty_store []) = Some (Inr l0) \<and>
     Append [1, 2] (mk_Hash [5]) l0 = (0, l) \<and> lcfg l = sample_log_cfg \<and> wsize (ltw l0) + length (lpool l0) = 0 \<and>
     ldedup l0 = (\<lambda>_. None) \<and> ldedup l (mk_Hash [5]) = Some 0 \<and>
     log_inv (ref_tlog mk_Hash) mk_Hash [] l \<and> tw_inv (ref_tlog mk_Hash) [] (ltw l) \<and> faultless (wfs (ltw l)) \<and>
     lpool l = [\<lparr>pentry = [1, 2], pidemKey = mk_Hash [5]\<rparr>]"

lemma sample_run_ex: "\<exists>l0 l. sample_run l0 l"
proof -
  obtain l0 where l0: "NewLog (ref_tlog mk_Hash) sample_mldsa mk_Hash sample_log_cfg sample_now (empty_store []) = Some (Inr l0)"
      "log_inv (ref_tlog mk_Hash) mk_Hash [] l0" "tw_inv (ref_tlog mk_Hash) [] (ltw l0)" "faultless (wfs (ltw l0))"
      "lpool l0 = []" "ldedup l0 = (\<lambda>_. None)" "lcfg l0 = sample_log_cfg"
    using ref.fresh_log [OF sample_ready] by blast
  have "wsize (ltw l0) = 0" using l0(2) by (simp add: log_inv_def)
  with l0 show ?thesis
    by (intro exI [of _ l0] exI [of _ "snd (Append [1, 2] (mk_Hash [5]) l0)"])
      (simp add: sample_run_def Append_def log_inv_def)
qed

lemma sample_run_inv:
  assumes "sample_run l0 l"
  shows "log_inv (ref_tlog mk_Hash) mk_Hash [] l" "tw_inv (ref_tlog mk_Hash) [] (ltw l)" "signer_ready mk_Hash (lcfg l)"
    "put_faults (wfs (ltw l)) = []" "\<forall>n. \<not> get_faults (wfs (ltw l)) n" "\<forall>p\<in>set (lpool l). length (pentry p) \<le> 0xffff"
    "lpool l \<noteq> []" "length (all_entries [] l) < 2 ^ 63" "lWaitForCosigners (lcfg l) \<le> 1" "length (all_entries [] l) = 1"
  using assms sample_ready by (simp_all add: sample_run_def faultless_def all_entries_def sample_log_cfg_def)

lemma sample_flush:
  assumes "sample_run l0 l"
  shows "\<exists>l' iss. flush (ref_tlog mk_Hash) mk_Hash sample_now l = Some (Inr (), l') \<and> log_steps (ref_tlog mk_Hash) mk_Hash l l' \<and>
    Wait (ref_tlog mk_Hash) mk_Hash l' 0 = Some (Inr (Some iss)) \<and> ISignatures iss \<noteq> []"
proof -
  note r = assms [unfolded sample_run_def]
  have w: "wsize (ltw l) = 0" using r by (simp add: log_inv_def)
  note i = sample_run_inv [OF assms]
  obtain l' where l': "flush (ref_tlog mk_Hash) mk_Hash sample_now l = Some (Inr (), l')"
      "\<forall>index. length ([] :: bytes list) \<le> unat index \<and> unat index < length (all_entries [] l) \<longrightarrow>
        (\<exists>iss. Wait (ref_tlog mk_Hash) mk_Hash l' index = Some (Inr (Some iss)) \<and> ISignatures iss \<noteq> [])"
    using flush_progress [OF ref.tlog_laws_axioms i(1-9), of sample_now] by blast
  then obtain iss where f: "flush (ref_tlog mk_Hash) mk_Hash sample_now l = Some (Inr (), l')"
      "Wait (ref_tlog mk_Hash) mk_Hash l' 0 = Some (Inr (Some iss))" "ISignatures iss \<noteq> []"
    using i(10) by (metis le0 less_one list.size(3) unat_0)
  have "log_steps (ref_tlog mk_Hash) mk_Hash l l'"
    by (rule log_steps.flush [OF log_steps.start _ f(1)]) (use r w in simp_all)
  with f show ?thesis by blast
qed

theorem log_indices_witness:
  "\<exists>l0 l. sample_run l0 l \<and> inj_on (ldedup l) (dom (ldedup l)) \<and> Append [3] (mk_Hash [5]) l = (0, l)"
proof -
  obtain l0 l where s: "sample_run l0 l" using sample_run_ex by blast
  note r = s [unfolded sample_run_def]
  have st: "log_steps (ref_tlog mk_Hash) mk_Hash l0 l"
    using log_steps.append [OF log_steps.start, of "ref_tlog mk_Hash" mk_Hash l0 "[1, 2]" "mk_Hash [5]"] r by simp
  have "wsize (ltw l) + length (lpool l) < 2 ^ 63" using r by (simp add: log_inv_def)
  from log_indices [OF ref.tlog_laws_axioms _ st this, of sample_mldsa sample_log_cfg sample_now "empty_store []"] r s
  show ?thesis using log_steps.start by blast
qed

theorem issuance_sound_witness:
  "\<exists>l0 l l' iss. sample_run l0 l \<and> Wait (ref_tlog mk_Hash) mk_Hash l' 0 = Some (Inr (Some iss)) \<and>
     EvaluateInclusionProof mk_Hash (SubStart (ISubtree iss)) (SubEnd (ISubtree iss)) 0 (HashLeaf mk_Hash [1, 2]) (IProof iss)
       = Inr (SubHash (ISubtree iss)) \<and> signSubtree sample_log_cfg (ISubtree iss) = Inr (hd (ISignatures iss))"
proof -
  obtain l0 l where s: "sample_run l0 l" using sample_run_ex by blast
  note r = s [unfolded sample_run_def]
  obtain l' iss where f: "log_steps (ref_tlog mk_Hash) mk_Hash l l'"
      "Wait (ref_tlog mk_Hash) mk_Hash l' 0 = Some (Inr (Some iss))" "ISignatures iss \<noteq> []"
    using sample_flush [OF s] by blast
  have n: "ldedup l0 (mk_Hash [5]) = None" "wsize (ltw l0) + length (lpool l0) < 2 ^ 63" using r by simp_all
  from r have "NewLog (ref_tlog mk_Hash) sample_mldsa mk_Hash sample_log_cfg sample_now (empty_store []) = Some (Inr l0)"
      "Append [1, 2] (mk_Hash [5]) l0 = (0, l)" by simp_all
  from issuance_sound [OF ref.tlog_laws_axioms this(1) log_steps.start n this(2) f] s f(2) show ?thesis by blast
qed

theorem flush_publishes_witness:
  "\<exists>l0 l l'. sample_run l0 l \<and> flush (ref_tlog mk_Hash) mk_Hash sample_now l = Some (Inr (), l') \<and>
     CPSize (CurrentCheckpoint l') = 1 \<and> CPRoot (CurrentCheckpoint l') = tree_root mk_Hash [[1, 2]]"
proof -
  obtain l0 l where s: "sample_run l0 l" using sample_run_ex by blast
  note r = s [unfolded sample_run_def]
  obtain l' where f: "flush (ref_tlog mk_Hash) mk_Hash sample_now l = Some (Inr (), l')" using sample_flush [OF s] by blast
  have a: "all_entries [] l = [[1, 2]]" "\<not> idle l" using r by (simp_all add: all_entries_def idle_def)
  have i: "log_inv (ref_tlog mk_Hash) mk_Hash [] l" using r by simp
  from flush_publishes [OF ref.tlog_laws_axioms i f _ a(2)] r s f a(1) sample_ready show ?thesis by fastforce
qed

theorem issuance_progress_witness:
  "\<exists>l0 l l' iss. sample_run l0 l \<and> flush (ref_tlog mk_Hash) mk_Hash sample_now l = Some (Inr (), l') \<and>
     Wait (ref_tlog mk_Hash) mk_Hash l' 0 = Some (Inr (Some iss)) \<and> ISignatures iss \<noteq> []"
proof -
  obtain l0 l where s: "sample_run l0 l" using sample_run_ex by blast
  note i = sample_run_inv [OF s]
  obtain l' where "flush (ref_tlog mk_Hash) mk_Hash sample_now l = Some (Inr (), l')"
      "\<forall>index. length ([] :: bytes list) \<le> unat index \<and> unat index < length (all_entries [] l) \<longrightarrow>
        (\<exists>iss. Wait (ref_tlog mk_Hash) mk_Hash l' index = Some (Inr (Some iss)) \<and> ISignatures iss \<noteq> [])"
    using issuance_progress [OF ref.tlog_laws_axioms i(1-9), of sample_now] by blast
  then show ?thesis using s i(10) by (metis le0 less_one list.size(3) unat_0)
qed

theorem log_restart_witness:
  "\<exists>l0 l l' l''. sample_run l0 l \<and> flush (ref_tlog mk_Hash) mk_Hash sample_now l = Some (Inr (), l') \<and>
     NewLog (ref_tlog mk_Hash) sample_mldsa mk_Hash sample_log_cfg sample_now (wfs (ltw l')) = Some (Inr l'') \<and>
     CurrentCheckpoint l'' = CurrentCheckpoint l' \<and> ldedup l'' = (\<lambda>_. None)"
proof -
  obtain l0 l where s: "sample_run l0 l" using sample_run_ex by blast
  note r = s [unfolded sample_run_def]
  obtain l' where f: "flush (ref_tlog mk_Hash) mk_Hash sample_now l = Some (Inr (), l')" using sample_flush [OF s] by blast
  have i: "log_inv (ref_tlog mk_Hash) mk_Hash [] l" "tw_inv (ref_tlog mk_Hash) [] (ltw l)" "\<not> idle l" "length (all_entries [] l) < 2 ^ 63"
      "plain (lLogID (lcfg l))" "plain (lCosignerID (lcfg l))" "\<forall>p\<in>set (lpool l). length (pentry p) \<le> 0xffff"
      "\<forall>n. \<not> get_faults (wfs (ltw l)) n" "signs_verifiably sample_mldsa (lcfg l)" "0 < lFlushPeriod (lcfg l)"
    using r sample_ready sample_verifiable by (simp_all add: faultless_def all_entries_def idle_def)
  from log_restart [OF ref.tlog_laws_axioms i(1,2) f i(3-10), of sample_now] s f r show ?thesis by metis
qed

text \<open>The same submission on a store whose fourth write, the checkpoint, fails.\<close>

definition faulty_log :: Log where
  "faulty_log = \<lparr>lcfg = sample_log_cfg, ltw = empty_writer [False, False, False, True],
     lpool = [\<lparr>pentry = [1], pidemKey = mk_Hash [5]\<rparr>], ldedup = (\<lambda>_. None), lcommitted = None, lnotify = 0, lrequests = []\<rparr>"

lemma faulty_append:
  "\<exists>w. TWAppend (ref_tlog mk_Hash) [[1]] (empty_writer [False, False, False, True]) = (Inr [0], w) \<and> put_faults (wfs w) = [True]"
proof -
  define a where "a = TWAppend (ref_tlog mk_Hash) [[1]] (empty_writer [False, False, False, True])"
  have "fst a = Inr [0]" "put_faults (wfs (snd a)) = [True]" unfolding a_def by code_simp+
  then show ?thesis unfolding a_def by (metis prod.collapse)
qed

lemma faulty_run:
  "\<exists>e l1 l2. flush (ref_tlog mk_Hash) mk_Hash sample_now faulty_log = Some (Inl e, l1) \<and> (\<forall>m. e \<noteq> Panic m) \<and> lpool l1 = [] \<and>
     flush (ref_tlog mk_Hash) mk_Hash sample_now l1 = Some (Inr (), l2) \<and> log_inv (ref_tlog mk_Hash) mk_Hash [] faulty_log"
proof -
  obtain w where w: "TWAppend (ref_tlog mk_Hash) [[1]] (empty_writer [False, False, False, True]) = (Inr [0], w)" "put_faults (wfs w) = [True]"
    using faulty_append by blast
  have i: "log_inv (ref_tlog mk_Hash) mk_Hash [] faulty_log"
    using ref.valid_empty by (simp add: log_inv_def faulty_log_def empty_writer_def)
  have a: "TWAppend (ref_tlog mk_Hash) (map pentry (lpool faulty_log)) (ltw faulty_log) = (Inr [0], w)" using w by (simp add: faulty_log_def)
  let ?l = "faulty_log\<lparr>ltw := w, lpool := []\<rparr>"
  have i1: "log_inv (ref_tlog mk_Hash) mk_Hash [[1]] ?l"
    using ref.flush_appended(1) [OF i a] by (simp add: all_entries_def faulty_log_def)
  define l1 where "l1 = ?l\<lparr>ltw := (ltw ?l)\<lparr>wfs := (wfs (ltw ?l))\<lparr>put_faults := []\<rparr>\<rparr>\<rparr>"
  obtain e where e: "publish (ref_tlog mk_Hash) mk_Hash sample_now 0 ?l = Some (Inl e, l1)" "\<forall>m. e \<noteq> Panic m"
    using ref.publish_fault [OF _ i1, of "[]" sample_now 0] w(2) sample_ready(1) unfolding l1_def by (auto simp: faulty_log_def)
  have f1: "flush (ref_tlog mk_Hash) mk_Hash sample_now faulty_log = Some (Inl e, l1)"
    using e(1) w(1) by (simp add: flush_def Let_def faulty_log_def empty_writer_def)
  have i2: "log_inv (ref_tlog mk_Hash) mk_Hash [[1]] l1" using i1 by (simp add: l1_def log_inv_def)
  have gf: "get_faults (wfs w) = (\<lambda>_. False)"
    using ref.append_run(3) [OF empty_writer_inv _ w(1)] by (simp add: short_entry_def empty_writer_def empty_store_def)
  then have fl: "faultless (wfs (ltw l1))" by (simp add: l1_def faultless_def)
  have l1: "lcommitted l1 = None" "lpool l1 = []" "lcfg l1 = sample_log_cfg" by (simp_all add: l1_def faulty_log_def)
  have "\<exists>l2. publish (ref_tlog mk_Hash) mk_Hash sample_now (of_nat (wsize (ltw l1))) l1 = Some (Inr (), l2)"
    using ref.publish_progress [OF _ i2 fl, of sample_now "of_nat (wsize (ltw l1))"] sample_ready(1) l1(3) by auto
  then obtain l2 where "flush (ref_tlog mk_Hash) mk_Hash sample_now l1 = Some (Inr (), l2)"
    using flush_new [OF l1(1,2)] by auto
  with f1 e(2) l1(2) i show ?thesis by blast
qed

theorem failed_publish_unsigned_witness:
  "\<exists>e l1 l2 iss. flush (ref_tlog mk_Hash) mk_Hash sample_now faulty_log = Some (Inl e, l1) \<and>
     flush (ref_tlog mk_Hash) mk_Hash sample_now l1 = Some (Inr (), l2) \<and>
     Wait (ref_tlog mk_Hash) mk_Hash l2 0 = Some (Inr (Some iss)) \<and> ISignatures iss = []"
proof -
  obtain e l1 l2 where r: "flush (ref_tlog mk_Hash) mk_Hash sample_now faulty_log = Some (Inl e, l1)" "\<forall>m. e \<noteq> Panic m" "lpool l1 = []"
      "flush (ref_tlog mk_Hash) mk_Hash sample_now l1 = Some (Inr (), l2)" "log_inv (ref_tlog mk_Hash) mk_Hash [] faulty_log"
    using faulty_run by blast
  have p: "lpool faulty_log \<noteq> []" "length (all_entries [] faulty_log) < 2 ^ 63" "lWaitForCosigners (lcfg faulty_log) \<le> 0"
      "length [] \<le> unat (0 :: u64)" "unat (0 :: u64) < length (all_entries [] faulty_log)"
    by (simp_all add: faulty_log_def all_entries_def sample_log_cfg_def)
  from failed_publish_unsigned [OF ref.tlog_laws_axioms r(5) p(1,2) r(1-4) p(3-5)] r show ?thesis by blast
qed

end
