(* ===== verification/Issuer.thy ===== *)
theory Issuer
  imports Validator RelyingParty Issuance
begin

text \<open>
  The issuer (ca/issuer.go): it validates a request, logs the entry, waits for the signed subtree and
  puts the certificate together. The theory ends with the agreement of the two ends of the system: a
  relying party accepts every certificate that the issuer returns.
\<close>

section \<open>The log as the issuer sees it\<close>

text \<open>
  The interface \<open>LogAPI\<close>. Both calls work on the state of the log; other clients and the flush loop
  change it while \<open>Wait\<close> blocks.
\<close>

record 's LogAPI =
  apiAppend :: "bytes \<Rightarrow> Hash \<Rightarrow> 's \<Rightarrow> u64 result \<times> 's"
  apiWait :: "u64 \<Rightarrow> 's \<Rightarrow> Issued result \<times> 's"

record 's Issuer =
  IValidator :: Validator
  ILog :: "'s LogAPI"
  CADN :: bytes
  LogNumber :: u16

definition NewIssuer :: "'s LogAPI option \<Rightarrow> Time \<Rightarrow> string \<Rightarrow> u16 \<Rightarrow> 's Issuer result" where
  "NewIssuer log now caID logNumber =
     (case log of None \<Rightarrow> Inl (Errorf ''ca: log required'')
      | Some api \<Rightarrow>
          if logNumber = 0 then Inl (Errorf ''ca: log number must be >= 1'')
          else rbind (rwrap ''ca: CA ID DN'' (BuildCAName caID)) (\<lambda>dn.
            Inr \<lparr>IValidator = NewValidator now, ILog = api, CADN = dn, LogNumber = logNumber\<rparr>))"

section \<open>Assembling the certificate\<close>

record certInputs =
  ciSerialNumber :: u64
  ciIssuerDN :: bytes
  ciNotBefore :: Time
  ciNotAfter :: Time
  ciSubjectDN :: bytes
  ciSubjectPublicKeyInfo :: bytes
  ciExtensions :: bytes
  ciMTCProof :: bytes

definition encodeMTCProofAlgID :: "bytes result" where
  "encodeMTCProofAlgID = rbind (marshalOID OIDAlgMTCProof) (\<lambda>oid. Inr (tlv 0x30 oid))"

definition ca_encodeRFC5280Time :: "Time \<Rightarrow> bytes result" where
  "ca_encodeRFC5280Time t =
     (let year = Year t
      in if year < 1950 \<or> year > 9999 then Inl (Errorf ''validity year out of range'')
         else if year < 2050 then
           let s = pad2 (nat (year mod 100)) @ pad2 (Month t) @ pad2 (Day t) @ pad2 (Hour t) @ pad2 (Minute t) @ pad2 (Second t) @ ''Z''
           in Inr (ca_appendDERLength [0x17] (length s) @ bytes_of s)
         else
           let s = pad4 (nat year) @ pad2 (Month t) @ pad2 (Day t) @ pad2 (Hour t) @ pad2 (Minute t) @ pad2 (Second t) @ ''Z''
           in Inr (ca_appendDERLength [0x18] (length s) @ bytes_of s))"

definition ca_encodeValidity :: "Time \<Rightarrow> Time \<Rightarrow> bytes result" where
  "ca_encodeValidity notBefore notAfter =
     rbind (ca_encodeRFC5280Time notBefore) (\<lambda>nb.
     rbind (ca_encodeRFC5280Time notAfter) (\<lambda>na. Inr (ca_wrapSequence (nb @ na))))"

text \<open>The builder keeps its first error until \<open>Bytes\<close> is called; that of \<open>encodeValidity\<close> is returned at once.\<close>

definition assembleCertificate :: "cryptobyte \<Rightarrow> certInputs \<Rightarrow> bytes result" where
  "assembleCertificate cb i =
     rbind encodeMTCProofAlgID (\<lambda>algID.
       let b1 = rbind (AddASN1Int64 cb 2) (AddASN1 cb 0xa0);
           b2 = badd b1 (AddASN1BigInt cb (uint (ciSerialNumber i)));
           b3 = badd b2 (Inr (algID @ ciIssuerDN i))
       in rbind (ca_encodeValidity (ciNotBefore i) (ciNotAfter i)) (\<lambda>validityDER.
            let b4 = badd b3 (Inr (validityDER @ ciSubjectDN i @ ciSubjectPublicKeyInfo i));
                b5 = (if length (ciExtensions i) > 0 then badd b4 (AddASN1 cb 0xa3 (ciExtensions i)) else b4)
            in rbind b5 (\<lambda>tbsBody.
               rbind (badd (Inr (ca_wrapSequence tbsBody @ algID)) (AddASN1BitString cb (ciMTCProof i))) (\<lambda>outerBody.
                 Inr (ca_wrapSequence outerBody)))))"

section \<open>Issuing\<close>

text \<open>The end of \<open>Issue\<close>, once the log has answered.\<close>

definition finishIssue :: "cryptobyte \<Rightarrow> 's Issuer \<Rightarrow> Validated \<Rightarrow> u64 \<Rightarrow> Issued \<Rightarrow> bytes result" where
  "finishIssue cb i v idx issued =
     (if IIndex issued \<noteq> idx then Inl (Errorf ''ca: index mismatch'')
      else if ISignatures issued = [] then Inl (Errorf ''ca: log returned no cosigner signatures'')
      else
        rbind (rwrap ''ca: marshal proof'' (MarshalTLS
            \<lparr>PExtensions = [], PStart = SubStart (ISubtree issued), PEnd = SubEnd (ISubtree issued),
             InclusionProof = IProof issued, Signatures = ISignatures issued\<rparr>)) (\<lambda>proofBytes.
        rbind (rwrap ''ca: compose serial'' (ComposeSerial (LogNumber i) idx)) (\<lambda>serial.
          rwrap ''ca: assemble cert'' (assembleCertificate cb
            \<lparr>ciSerialNumber = serial, ciIssuerDN = CADN i, ciNotBefore = VNotBefore v, ciNotAfter = VNotAfter v,
             ciSubjectDN = VSubject v, ciSubjectPublicKeyInfo = VSubjectPublicKeyInfo v,
             ciExtensions = optBytes (VExtensions v), ciMTCProof = proofBytes\<rparr>))))"

definition Issue ::
    "cryptobyte \<Rightarrow> (bytes \<Rightarrow> Hash) \<Rightarrow> 's Issuer \<Rightarrow> CertificateRequest \<Rightarrow> OrderInput \<Rightarrow> 's \<Rightarrow> bytes result \<times> 's" where
  "Issue cb sha256 i csr order s =
     (case Validate (IValidator i) csr order of
        Inl e \<Rightarrow> (Inl (wrapf ''ca: validate'' e), s)
      | Inr v \<Rightarrow>
     (case BuildLogEntry sha256 v (CADN i) of
        Inl e \<Rightarrow> (Inl (wrapf ''ca: build log entry'' e), s)
      | Inr (_, _, tbsContents) \<Rightarrow>
     (case apiAppend (ILog i) (EncodeTBSCertEntry tbsContents) (sha256 tbsContents) s of
        (Inl e, s1) \<Rightarrow> (Inl (wrapf ''ca: log append'' e), s1)
      | (Inr idx, s1) \<Rightarrow>
     (case apiWait (ILog i) idx s1 of
        (Inl e, s2) \<Rightarrow> (Inl (wrapf ''ca: log wait'' e), s2)
      | (Inr issued, s2) \<Rightarrow> (finishIssue cb i v idx issued, s2)))))"

section \<open>DER elements\<close>

definition is_element :: "bytes \<Rightarrow> bool" where
  "is_element b \<longleftrightarrow> (case unmarshalRaw b of Inl _ \<Rightarrow> False | Inr (_, r) \<Rightarrow> r = [])"

lemma is_elementE:
  assumes "is_element b"
  obtains rv where "FullBytes rv = b" "\<And>x. unmarshalRaw (b @ x) = Inr (rv, x)"
proof -
  obtain rv where rv: "unmarshalRaw b = Inr (rv, [])" using assms by (auto simp: is_element_def split: sum.splits)
  show thesis using parseField_local [OF rv] that by auto
qed

lemma tlv_element: "t AND 0x1f \<noteq> 0x1f \<Longrightarrow> length b < 2 ^ 31 \<Longrightarrow> unmarshalRaw (tlv t b @ x) = Inr (element t b, x)"
  by (rule parseField_tlv) simp_all

lemma BuildCAName_element:
  assumes "BuildCAName caID = Inr dn" "length dn < 2 ^ 31"
  shows "is_element dn"
proof -
  obtain b where b: "dn = tlv 0x30 b" using assms(1) by (auto simp: BuildCAName_def rbind_eq_Inr split: if_splits)
  then have "length b < 2 ^ 31" using assms(2) by (simp add: tlv_def)
  then show ?thesis using tlv_element [of "0x30" b "[]"] b by (simp add: is_element_def)
qed

section \<open>The two copies of the encoders agree\<close>

lemma ca_encodeRFC5280Time_eq: "ca_encodeRFC5280Time t = encodeRFC5280Time (UTCTime.truncate t)"
  by (simp add: ca_encodeRFC5280Time_def encodeRFC5280Time_def ca_appendDERLength_eq UTCTime.truncate_def Let_def)

lemma ca_encodeValidity_eq: "ca_encodeValidity a b = encodeValidity (UTCTime.truncate a) (UTCTime.truncate b)"
  by (simp add: ca_encodeValidity_def encodeValidity_def ca_encodeRFC5280Time_eq ca_wrapSequence_tlv wrapSequence_tlv)

lemma validity_element:
  assumes "encodeValidity a b = Inr v" "length v < 2 ^ 31"
  shows "is_element v"
proof -
  obtain x where x: "v = tlv 0x30 x" using assms(1) by (auto simp: encodeValidity_def rbind_eq_Inr wrapSequence_tlv)
  then have "length x < 2 ^ 31" using assms(2) by (simp add: tlv_def)
  then show ?thesis using tlv_element [of "0x30" x "[]"] x by (simp add: is_element_def)
qed

lemma alg_octets: "encodeMTCProofAlgID = Inr sample_alg"
  by code_simp

lemma alg_element: "is_element sample_alg"
  by code_simp

section \<open>Reading an assembled certificate\<close>

definition explicit_ext :: "bytes \<Rightarrow> bytes" where
  "explicit_ext x = (if x = [] then [] else tlv 0xa3 x)"

definition version3 :: bytes where
  "version3 = tlv 0xa0 (tlv 0x02 [2])"

lemma version3_element: "unmarshalRaw (version3 @ x) = Inr (element 0xa0 (tlv 0x02 [2]), x)" "FullBytes (element 0xa0 (tlv 0x02 [2])) = version3"
  unfolding version3_def by (rule tlv_element) (simp_all add: tlv_def appendDERLength_def)

definition tbs_body :: "bytes \<Rightarrow> bytes \<Rightarrow> certInputs \<Rightarrow> bytes" where
  "tbs_body sb val i = version3 @ tlv 0x02 sb @ sample_alg @ ciIssuerDN i @ val @ ciSubjectDN i @ ciSubjectPublicKeyInfo i
     @ explicit_ext (ciExtensions i)"

lemma badd_eq_Inr: "badd x y = Inr z \<longleftrightarrow> (\<exists>a b. x = Inr a \<and> y = Inr b \<and> z = a @ b)"
  by (auto simp: badd_def rbind_eq_Inr)

lemma assembled:
  assumes "cryptobyte_laws cb" "assembleCertificate cb i = Inr der" "length (ciMTCProof i) < 2 ^ 30"
  obtains sb val where "\<And>r. unmarshalBigInt (tlv 0x02 sb @ r) = Inr (uint (ciSerialNumber i), r)" "length sb \<le> 9"
    "encodeValidity (UTCTime.truncate (ciNotBefore i)) (UTCTime.truncate (ciNotAfter i)) = Inr val"
    "der = tlv 0x30 (tlv 0x30 (tbs_body sb val i) @ sample_alg @ tlv 0x03 (0 # ciMTCProof i))"
proof -
  obtain val b where v: "encodeValidity (UTCTime.truncate (ciNotBefore i)) (UTCTime.truncate (ciNotAfter i)) = Inr val"
    and b: "(if length (ciExtensions i) > 0 then badd (badd (badd (badd (rbind (AddASN1Int64 cb 2) (AddASN1 cb 0xa0))
        (AddASN1BigInt cb (uint (ciSerialNumber i)))) (Inr (sample_alg @ ciIssuerDN i)))
        (Inr (val @ ciSubjectDN i @ ciSubjectPublicKeyInfo i))) (AddASN1 cb 0xa3 (ciExtensions i))
      else badd (badd (badd (rbind (AddASN1Int64 cb 2) (AddASN1 cb 0xa0))
        (AddASN1BigInt cb (uint (ciSerialNumber i)))) (Inr (sample_alg @ ciIssuerDN i)))
        (Inr (val @ ciSubjectDN i @ ciSubjectPublicKeyInfo i))) = Inr b"
    and der: "rbind (badd (Inr (tlv 0x30 b @ sample_alg)) (AddASN1BitString cb (ciMTCProof i))) (\<lambda>outerBody. Inr (tlv 0x30 outerBody)) = Inr der"
    using assms(2) by (auto simp: assembleCertificate_def alg_octets rbind_eq_Inr Let_def ca_encodeValidity_eq ca_wrapSequence_tlv)
  obtain sb where sb: "AddASN1BigInt cb (uint (ciSerialNumber i)) = Inr (tlv 0x02 sb)" "length sb \<le> 9"
      "\<And>r. unmarshalBigInt (tlv 0x02 sb @ r) = Inr (uint (ciSerialNumber i), r)"
    using cryptobyte_laws.read_bigint [OF assms(1), of "uint (ciSerialNumber i)"] uint_lt2p [of "ciSerialNumber i"] by auto
  have ver: "rbind (AddASN1Int64 cb 2) (AddASN1 cb 0xa0) = Inr version3"
    using cryptobyte_laws.add_int64 [OF assms(1), of 2] cryptobyte_laws.add_asn1 [OF assms(1), of "0xa0" "tlv 2 [2]"]
    by (simp add: version3_def tlv_def appendDERLength_def)
  have "b = tbs_body sb val i"
    using b sb(1) ver cryptobyte_laws.add_asn1_octets [OF assms(1), of "0xa3" "ciExtensions i"]
    by (auto simp: tbs_body_def explicit_ext_def badd_eq_Inr split: if_splits)
  then have "der = tlv 0x30 (tlv 0x30 (tbs_body sb val i) @ sample_alg @ tlv 0x03 (0 # ciMTCProof i))"
    using der cryptobyte_laws.add_bits [OF assms(1,3)] by (auto simp: rbind_eq_Inr badd_eq_Inr)
  from that [OF sb(3,2) v this] show thesis .
qed

lemma SplitCertificate_parts:
  assumes "length (tlv 0x30 (tlv 0x30 body @ alg @ tlv 0x03 (0 # pb))) < 2 ^ 31" "is_element alg"
  shows "SplitCertificate (tlv 0x30 (tlv 0x30 body @ alg @ tlv 0x03 (0 # pb))) = Inr (tlv 0x30 body, alg, pb)"
proof -
  let ?in = "tlv 0x30 body @ alg @ tlv 0x03 (0 # pb)"
  have len: "length ?in < 2 ^ 31" "length body < 2 ^ 31" "length (0 # pb) < 2 ^ 31" using assms(1) by (simp_all add: tlv_def)
  obtain a where a: "FullBytes a = alg" "\<And>x. unmarshalRaw (alg @ x) = Inr (a, x)" using assms(2) by (rule is_elementE) blast
  have "unmarshalRaw (tlv 0x30 ?in @ []) = Inr (element 0x30 ?in, [])" using len(1) by (intro tlv_element) simp_all
  moreover have "unmarshalRaw ?in = Inr (element 0x30 body, alg @ tlv 0x03 (0 # pb))" using len(2) by (intro tlv_element) simp_all
  moreover have "unmarshalBitString (tlv 0x03 (0 # pb)) = Inr ((pb, 0), [])"
    using parseField_tlv [of "0x03" "0 # pb" "Some (0, 3, False)" "[]"] len(3) by (simp add: unmarshalBitString_def parseBitString_def)
  ultimately show ?thesis using a by (simp add: SplitCertificate_def)
qed

lemma tailLoop_ext:
  assumes "length x < 2 ^ 31"
  shows "tailLoop (explicit_ext x) \<lparr>tfIssuerUID = None, tfSubjectUID = None, tfExtensions = None\<rparr> =
    Inr \<lparr>tfIssuerUID = None, tfSubjectUID = None, tfExtensions = (if x = [] then None else Some (tlv 0xa3 x))\<rparr>"
proof -
  have "unmarshalRaw (tlv 0xa3 x) = Inr (element 0xa3 x, [])" using tlv_element [of "0xa3" x "[]"] assms by simp
  moreover have "tlv 0xa3 x \<noteq> []" by (simp add: tlv_Cons)
  ultimately show ?thesis by (simp add: explicit_ext_def tailLoop.simps [of "[]"] tailLoop.simps [of "tlv 0xa3 x"])
qed

lemma Rebuild_parts:
  assumes "length (tbs_body sb val i) < 2 ^ 31" "\<And>r. unmarshalBigInt (tlv 0x02 sb @ r) = Inr (uint (ciSerialNumber i), r)"
    and "is_element (ciIssuerDN i)" "is_element val" "is_element (ciSubjectDN i)" "is_element (ciSubjectPublicKeyInfo i)"
    and "extractFirstElement (ciSubjectPublicKeyInfo i) = Inr alg"
  shows "RebuildLogEntryFromTBS sha256 (tlv 0x30 (tbs_body sb val i)) (Some (ciIssuerDN i)) =
    Inr (version3 @ ciIssuerDN i @ val @ ciSubjectDN i @ alg @ marshalOctets (hash_bytes (sha256 (ciSubjectPublicKeyInfo i)))
      @ explicit_ext (ciExtensions i), ciSerialNumber i)"
proof -
  obtain iss where iss: "FullBytes iss = ciIssuerDN i" "\<And>x. unmarshalRaw (ciIssuerDN i @ x) = Inr (iss, x)" using assms(3) by (rule is_elementE) blast
  obtain va where va: "FullBytes va = val" "\<And>x. unmarshalRaw (val @ x) = Inr (va, x)" using assms(4) by (rule is_elementE) blast
  obtain su where su: "FullBytes su = ciSubjectDN i" "\<And>x. unmarshalRaw (ciSubjectDN i @ x) = Inr (su, x)" using assms(5) by (rule is_elementE) blast
  obtain sp where sp: "FullBytes sp = ciSubjectPublicKeyInfo i" "\<And>x. unmarshalRaw (ciSubjectPublicKeyInfo i @ x) = Inr (sp, x)"
    using assms(6) by (rule is_elementE) blast
  obtain a r where al: "unmarshalRaw (rvBytes sp) = Inr (a, r)" "FullBytes a = alg"
    using assms(7) sp(2) [of "[]"] by (auto simp: extractFirstElement_def rbind_eq_Inr split: if_splits)
  have len: "length sb < 2 ^ 31" "length (ciExtensions i) < 2 ^ 31"
    using assms(1) by (auto simp: tbs_body_def explicit_ext_def tlv_def split: if_splits)
  have out: "unmarshalRaw (tlv 0x30 (tbs_body sb val i)) = Inr (element 0x30 (tbs_body sb val i), [])"
    using tlv_element [of "0x30" "tbs_body sb val i" "[]"] assms(1) by simp
  have ser: "unmarshalRaw (tlv 0x02 sb @ x) = Inr (element 0x02 sb, x)" for x using len(1) by (intro tlv_element) simp_all
  have alg: "unmarshalRaw (sample_alg @ x) = Inr (element 0x30 (tlv 0x06 [0x2b, 6, 1, 4, 1, 0x82, 0xda, 0x4b, 47, 0]), x)" for x
    unfolding sample_alg_def by (intro tlv_element) (simp_all add: tlv_def appendDERLength_def)
  have big: "unmarshalBigInt (tlv 0x02 sb) = Inr (uint (ciSerialNumber i), [])" using assms(2) [of "[]"] by simp
  have u: "uint (ciSerialNumber i) < 2 ^ 64" using uint_lt2p [of "ciSerialNumber i"] by simp
  have b: "rvBytes (element 0x30 (tbs_body sb val i)) = version3 @ tlv 0x02 sb @ sample_alg @ ciIssuerDN i @ val @ ciSubjectDN i
      @ ciSubjectPublicKeyInfo i @ explicit_ext (ciExtensions i)"
    by (simp add: tbs_body_def)
  show ?thesis
    unfolding RebuildLogEntryFromTBS_def out rbind_simps prod.case b version3_element(1) ser alg iss(2) va(2) su(2) sp(2) al(1)
      element_fields(5) big iss(1) va(1) su(1) sp(1) al(2) tailLoop_ext [OF len(2)] 
    using u by (simp add: version3_def optBytes_def explicit_ext_def)
qed

lemma write_octets: "WriteASN1OctetString b p = b @ tlv 0x04 p"
  unfolding WriteASN1OctetString_def tlv_def by (subst (1 2) appendDERLength_append) simp

lemma write_explicit: "WriteExplicit b 3 p = b @ tlv 0xa3 p"
  unfolding WriteExplicit_def tlv_def by (subst (1 2) appendDERLength_append) simp

lemma BuildLogEntry_contents:
  assumes "BuildLogEntry sha256 v dn = Inr (e, d, contents)" "VExtensions v \<noteq> Some []"
    and "encodeValidity (UTCTime.truncate (VNotBefore v)) (UTCTime.truncate (VNotAfter v)) = Inr val"
    and c: "c = version3 @ dn @ val @ VSubject v @ VSubjectPublicKeyAlgID v
      @ marshalOctets (hash_bytes (sha256 (VSubjectPublicKeyInfo v))) @ explicit_ext (optBytes (VExtensions v))" "length c < 2 ^ 32"
  shows "contents = c"
proof -
  have "MarshalDER e = Inr (wrapSequence c)" "MarshalContents e = Inr contents"
  proof -
    show "MarshalContents e = Inr contents" using assms(1) by (auto simp: BuildLogEntry_def rbind_eq_Inr Let_def split: if_splits)
    have w: "WriteExplicit [] 0 (WriteASN1Int [] 2) = version3" by code_simp
    have e: "e = \<lparr>Version = 2, IssuerDN = dn, NotBefore = UTCTime.truncate (VNotBefore v), NotAfter = UTCTime.truncate (VNotAfter v),
              SubjectDN = VSubject v, SubjectPublicKeyAlgorithm = VSubjectPublicKeyAlgID v,
              SubjectPublicKeyInfoHash = hash_bytes (sha256 (VSubjectPublicKeyInfo v)),
              IssuerUniqueID = None, SubjectUniqueID = None, Extensions = VExtensions v\<rparr>"
      using assms(1) by (auto simp: BuildLogEntry_def rbind_eq_Inr Let_def split: if_splits)
    show "MarshalDER e = Inr (wrapSequence c)"
      unfolding e MarshalDER_def Let_def TBSCertificateLogEntry.select_convs assms(3) rbind_simps
      using assms(2) w
      by (cases "VExtensions v")
        (simp_all add: c(1) write_octets write_explicit marshalOctets_tlv explicit_ext_def optBytes_def)
  qed
  then show ?thesis using stripDERHeader_wrapSequence [OF c(2)] by (simp add: MarshalContents_def)
qed

section \<open>Cosigner IDs of a marshalled proof\<close>

lemma lexLess_trans: "lexLess a b \<Longrightarrow> lexLess b c \<Longrightarrow> lexLess a c"
proof (induction a b arbitrary: c rule: lexLess.induct)
  case (4 a as b bs)
  then show ?case by (cases c) auto
qed (auto elim: lexLess.elims)

lemma lexLess_total: "a \<noteq> b \<Longrightarrow> \<not> lexLess b a \<Longrightarrow> lexLess a b"
  by (induction a b rule: lexLess.induct) auto

lemma cosignerIDLess_trans: "cosignerIDLess a b \<Longrightarrow> cosignerIDLess b c \<Longrightarrow> cosignerIDLess a c"
  using lexLess_trans by (auto simp: cosignerIDLess_def split: if_splits)

lemma cosignerIDLess_total: "a \<noteq> b \<Longrightarrow> \<not> cosignerIDLess b a \<Longrightarrow> cosignerIDLess a b"
  using lexLess_total by (auto simp: cosignerIDLess_def split: if_splits)

lemma ordered_sorted: "ordered (Some p) ws \<Longrightarrow> sorted_wrt cosignerIDLess (p # map fst ws)"
proof (induction ws arbitrary: p)
  case (Cons w ws)
  then have "cosignerIDLess p (fst w)" "sorted_wrt cosignerIDLess (fst w # map fst ws)" by (auto intro: cosignerIDLess_total)
  then show ?case by (auto intro: cosignerIDLess_trans)
qed simp

lemma sorted_distinct: "sorted_wrt cosignerIDLess xs \<Longrightarrow> distinct xs"
  using cosignerIDLess_asym by (induction xs) fastforce+

lemma distinct_stable_sort: "distinct (map f (stable_sort lt xs)) \<longleftrightarrow> distinct (map f xs)"
proof -
  have "distinct (map f ys) \<longleftrightarrow> card (f ` set ys) = length ys" for ys
    using distinct_card [of "map f ys"] card_distinct [of "map f ys"] by auto
  then show ?thesis by simp
qed

text \<open>A proof that is marshalled has at most one signature of each cosigner.\<close>

lemma MarshalTLS_distinct:
  assumes "MarshalTLS p = Inr b"
  shows "distinct (map CosignerID (Signatures p))"
proof -
  obtain ws where ws: "rmap toWire (Signatures p) = Inr ws" "noDuplicateIDs (sort_wire ws)"
    using assms unfolding MarshalTLS_eq proof_ok_def by blast
  have "ordered None (sort_wire ws)"
    using ws(2) stable_sort_no_descent [of "\<lambda>a b. cosignerIDLess (fst a) (fst b)" ws] cosignerIDLess_asym by (simp add: ordered_iff)
  then have "distinct (map fst (sort_wire ws))"
    using ordered_sorted [THEN sorted_distinct] by (cases "sort_wire ws") auto
  then have "distinct (map fst ws)" by (simp add: distinct_stable_sort)
  then have "distinct (map wireID (Signatures p))" using rmap_toWire_map [OF ws(1)] by (simp add: comp_def)
  then show ?thesis by (auto simp: distinct_map inj_on_def wireID_def)
qed

lemma sigMap_distinct:
  assumes "distinct (map CosignerID ss)" "s \<in> set ss"
  shows "sigMap ss (CosignerID s) = Some s"
  using assms unfolding sigMap_def by (induction ss rule: rev_induct) (auto simp: image_iff)

section \<open>The issuer on the issuance log\<close>

text \<open>
  The log of \<open>log.Log\<close> behind the interface. \<open>env\<close> is what happens to the log while \<open>Wait\<close> blocks;
  a wait that is not answered by then ends with the error of the context.
\<close>

definition log_api :: "tlog \<Rightarrow> (bytes \<Rightarrow> Hash) \<Rightarrow> (Log \<Rightarrow> Log) \<Rightarrow> Log LogAPI" where
  "log_api lib sha256 env =
     \<lparr>apiAppend = (\<lambda>e k l. case Append e k l of (idx, l') \<Rightarrow> (Inr idx, l')),
      apiWait = (\<lambda>idx l. let l' = env l in
        (case Wait lib sha256 l' idx of
           Some (Inl e) \<Rightarrow> Inl e
         | Some (Inr (Some iss)) \<Rightarrow> Inr iss
         | _ \<Rightarrow> Inl (Errorf ''context canceled''), l'))\<rparr>"

text \<open>The subject and the key of a request are DER elements; the parser of requests ensures it.\<close>

definition well_formed :: "CertificateRequest \<Rightarrow> bool" where
  "well_formed csr \<longleftrightarrow> (RawSubject csr \<noteq> [] \<longrightarrow> is_element (RawSubject csr)) \<and> is_element (RawSubjectPublicKeyInfo csr)"

text \<open>No entry with the idempotency key of the request was submitted before.\<close>

definition new_request :: "(bytes \<Rightarrow> Hash) \<Rightarrow> 's Issuer \<Rightarrow> CertificateRequest \<Rightarrow> OrderInput \<Rightarrow> Log \<Rightarrow> bool" where
  "new_request sha256 i csr order l \<longleftrightarrow>
     (case rbind (Validate (IValidator i) csr order) (\<lambda>v. BuildLogEntry sha256 v (CADN i)) of
        Inl _ \<Rightarrow> True | Inr (_, _, contents) \<Rightarrow> ldedup l (sha256 contents) = None)"

text \<open>The cosigner IDs of the signatures are in the form that the binary encoding keeps.\<close>

definition canonical_ids :: "MTCSignature list \<Rightarrow> bool" where
  "canonical_ids ss \<longleftrightarrow> list_all (\<lambda>s. rbind (Binary (CosignerID s)) TrustAnchorIDFromBinary = Inr (CosignerID s)) ss"

text \<open>A relying party configured for the CA: its key, no landmark of this log, none of its serial numbers revoked.\<close>

definition relies_on :: "RelyingPartyConfig \<Rightarrow> LogConfig \<Rightarrow> 's Issuer \<Rightarrow> bool" where
  "relies_on rp cfg i \<longleftrightarrow> RPCAID rp = lCosignerID cfg \<and> RPCADN rp = Some (CADN i) \<and> required rp = [lCosignerID cfg] \<and>
     LogID (lCosignerID cfg) (LogNumber i) = Inr (lLogID cfg) \<and>
     keyMap (Cosigners rp) (lCosignerID cfg) = Some \<lparr>CKID = lCosignerID cfg, CKAlgorithm = SignerAlgorithm (lSigner cfg),
       CKPublicKey = SignerPublicKey (lSigner cfg)\<rparr> \<and>
     (\<forall>s e. TrustedSubtrees rp \<lparr>TSLogNumber = LogNumber i, TSStart = s, TSEnd = e\<rparr> = None) \<and>
     (\<forall>idx serial. ComposeSerial (LogNumber i) idx = Inr serial \<longrightarrow> \<not> Contains (RevokedRanges rp) serial)"

lemma Validate_parts:
  assumes "Validate v csr order = Inr w" "well_formed csr"
  shows "is_element (VSubject w)" "is_element (VSubjectPublicKeyInfo w)"
    "extractFirstElement (VSubjectPublicKeyInfo w) = Inr (VSubjectPublicKeyAlgID w)" "VExtensions w \<noteq> Some []"
proof -
  have e: "is_element [0x30, 0x00]" by code_simp
  obtain x where x: "buildExtensionsFromCSR csr (RawSubject csr = []) = Inr x" "VExtensions w = x"
    and w: "VSubject w = (if RawSubject csr = [] then [0x30, 0x00] else RawSubject csr)" "VSubjectPublicKeyInfo w = RawSubjectPublicKeyInfo csr"
      "extractFirstElement (RawSubjectPublicKeyInfo csr) = Inr (VSubjectPublicKeyAlgID w)"
    using assms(1) by (auto simp: Validate_def rbind_eq_Inr Let_def split: sum.splits if_splits)
  then show "is_element (VSubject w)" "is_element (VSubjectPublicKeyInfo w)"
      "extractFirstElement (VSubjectPublicKeyInfo w) = Inr (VSubjectPublicKeyAlgID w)"
    using e assms(2) by (simp_all add: well_formed_def)
  have "ca_wrapSequence b \<noteq> []" for b by (simp add: ca_wrapSequence_tlv tlv_Cons)
  then show "VExtensions w \<noteq> Some []"
    using x by (auto simp: buildExtensionsFromCSR_def rbind_eq_Inr split: if_splits)
qed

lemma extractFirstElement_length:
  assumes "extractFirstElement d = Inr a"
  shows "length a \<le> length d"
proof -
  obtain inner r first r' where "unmarshalRaw d = Inr (inner, r)" "unmarshalRaw (rvBytes inner) = Inr (first, r')" "a = FullBytes first"
    using assms by (auto simp: extractFirstElement_def rbind_eq_Inr split: if_splits)
  then show ?thesis using parseField_bytes [of None d inner r] parseField_local(1) [of None "rvBytes inner" first r'] by simp
qed

text \<open>What the relying party reads from a certificate that the issuer put together.\<close>

lemma finishIssue_read:
  assumes "cryptobyte_laws cb" "finishIssue cb i v idx iss = Inr der" "length der < 2 ^ 30"
    and "BuildCAName caID = Inr (CADN i)" "is_element (VSubject v)" "is_element (VSubjectPublicKeyInfo v)"
    and "extractFirstElement (VSubjectPublicKeyInfo v) = Inr (VSubjectPublicKeyAlgID v)" "VExtensions v \<noteq> Some []"
    and "BuildLogEntry sha256 v (CADN i) = Inr (e, d, contents)"
  obtains tbs pb serial where "SplitCertificate der = Inr (tbs, sample_alg, pb)"
    "MarshalTLS \<lparr>PExtensions = [], PStart = SubStart (ISubtree iss), PEnd = SubEnd (ISubtree iss), InclusionProof = IProof iss,
       Signatures = ISignatures iss\<rparr> = Inr pb"
    "ComposeSerial (LogNumber i) idx = Inr serial" "RebuildLogEntryFromTBS sha256 tbs (Some (CADN i)) = Inr (contents, serial)"
proof -
  obtain pb serial where pb: "MarshalTLS \<lparr>PExtensions = [], PStart = SubStart (ISubtree iss), PEnd = SubEnd (ISubtree iss),
      InclusionProof = IProof iss, Signatures = ISignatures iss\<rparr> = Inr pb" and ser: "ComposeSerial (LogNumber i) idx = Inr serial"
    and a: "assembleCertificate cb \<lparr>ciSerialNumber = serial, ciIssuerDN = CADN i, ciNotBefore = VNotBefore v, ciNotAfter = VNotAfter v,
             ciSubjectDN = VSubject v, ciSubjectPublicKeyInfo = VSubjectPublicKeyInfo v,
             ciExtensions = optBytes (VExtensions v), ciMTCProof = pb\<rparr> = Inr der"
    (is "assembleCertificate cb ?ci = _")
    using assms(2) by (auto simp: finishIssue_def rbind_eq_Inr split: if_splits)
  have lpb: "length (ciMTCProof ?ci) < 2 ^ 30" using proof_bytes_length [OF pb] by simp
  obtain sb val where sb: "\<And>r. unmarshalBigInt (tlv 0x02 sb @ r) = Inr (uint (ciSerialNumber ?ci), r)"
    and val: "encodeValidity (UTCTime.truncate (VNotBefore v)) (UTCTime.truncate (VNotAfter v)) = Inr val"
    and der: "der = tlv 0x30 (tlv 0x30 (tbs_body sb val ?ci) @ sample_alg @ tlv 0x03 (0 # pb))"
    using assembled [OF assms(1) a lpb] by (metis certInputs.select_convs(3,4,8))
  have lb: "length (tbs_body sb val ?ci) < 2 ^ 30" using assms(3) unfolding der by (simp add: tlv_def)
  then have ve: "is_element val" by (intro validity_element [OF val]) (simp add: tbs_body_def)
  have dn: "is_element (CADN i)" using lb by (intro BuildCAName_element [OF assms(4)]) (simp add: tbs_body_def)
  let ?c = "version3 @ CADN i @ val @ VSubject v @ VSubjectPublicKeyAlgID v
      @ marshalOctets (hash_bytes (sha256 (VSubjectPublicKeyInfo v))) @ explicit_ext (optBytes (VExtensions v))"
  have "length ?c \<le> length (tbs_body sb val ?ci) + 34"
    using extractFirstElement_length [OF assms(7)] by (simp add: tbs_body_def marshalOctets_def appendDERLength_def)
  then have c: "contents = ?c" using BuildLogEntry_contents [OF assms(9,8) val refl] lb by simp
  show thesis
  proof (rule that [OF _ pb ser])
    show "SplitCertificate der = Inr (tlv 0x30 (tbs_body sb val ?ci), sample_alg, pb)"
      unfolding der by (rule SplitCertificate_parts [OF _ alg_element]) (use assms(3) in \<open>simp add: der\<close>)
    show "RebuildLogEntryFromTBS sha256 (tlv 0x30 (tbs_body sb val ?ci)) (Some (CADN i)) = Inr (contents, serial)"
      using Rebuild_parts [of sb val ?ci "VSubjectPublicKeyAlgID v" sha256, OF _ sb] lb ve dn assms(5-7) c by simp
  qed
qed

lemma Issue_cases:
  assumes "Issue cb sha256 i csr order l = (Inr der, l')" "ILog i = log_api lib sha256 env"
  obtains v e d contents idx l2 iss where "Validate (IValidator i) csr order = Inr v"
    "BuildLogEntry sha256 v (CADN i) = Inr (e, d, contents)"
    "Append (EncodeTBSCertEntry contents) (sha256 contents) l = (idx, l2)" "l' = env l2"
    "Wait lib sha256 l' idx = Some (Inr (Some iss))" "finishIssue cb i v idx iss = Inr der"
  using assms by (auto simp: Issue_def log_api_def Let_def split: sum.splits option.splits prod.splits)

lemma finishIssue_signed: "finishIssue cb i v idx iss = Inr der \<Longrightarrow> ISignatures iss \<noteq> []"
  by (auto simp: finishIssue_def split: if_splits)

lemma own_signature_verifies:
  assumes "signSubtree cfg st = Inr s" "signs_verifiably mlib cfg" "keyMap ks (lCosignerID cfg) = Some \<lparr>CKID = lCosignerID cfg,
      CKAlgorithm = SignerAlgorithm (lSigner cfg), CKPublicKey = SignerPublicKey (lSigner cfg)\<rparr>"
    and "distinct (map CosignerID ss)" "s \<in> set ss"
  shows "requiredLoop mlib (keyMap ks) (sigMap ss) st [lCosignerID cfg] = Inr ()"
proof -
  have "CosignerID s = lCosignerID cfg" using assms(1) by (auto simp: signSubtree_def rbind_eq_Inr)
  then have "sigMap ss (lCosignerID cfg) = Some s" using sigMap_distinct [OF assms(4,5)] by simp
  then show ?thesis using assms(1-3) by (auto simp: signSubtree_def signs_verifiably_def rbind_eq_Inr)
qed

lemma issued_accepted:
  assumes "cryptobyte_laws cb" "tlog_laws lib sha256" "NewLog lib mlib sha256 cfg now fs = Some (Inr l0)" "log_steps lib sha256 l0 l1"
    "wsize (ltw l1) + length (lpool l1) < 2 ^ 63" "\<forall>l. log_steps lib sha256 l (env l)"
    "NewIssuer (Some (log_api lib sha256 env)) t caID n = Inr i" "well_formed csr" "new_request sha256 i csr order l1"
    "Issue cb sha256 i csr order l1 = (Inr der, l3)" "length der < 2 ^ 30"
    "\<forall>idx iss. Wait lib sha256 l3 idx = Some (Inr (Some iss)) \<longrightarrow> canonical_ids (ISignatures iss)"
    "relies_on rp cfg i" "signs_verifiably mlib cfg"
  shows "VerifyCertificate mlib sha256 der rp = Inr ()"
proof -
  have i: "ILog i = log_api lib sha256 env" "BuildCAName caID = Inr (CADN i)"
    using assms(7) by (auto simp: NewIssuer_def rbind_eq_Inr split: if_splits)
  obtain v e d contents idx l2 iss where v: "Validate (IValidator i) csr order = Inr v"
    and b: "BuildLogEntry sha256 v (CADN i) = Inr (e, d, contents)"
    and ap: "Append (EncodeTBSCertEntry contents) (sha256 contents) l1 = (idx, l2)" and l3: "l3 = env l2"
    and wa: "Wait lib sha256 l3 idx = Some (Inr (Some iss))" and fi: "finishIssue cb i v idx iss = Inr der"
    by (rule Issue_cases [OF assms(10) i(1)])
  note p = Validate_parts [OF v assms(8)]
  have fresh: "ldedup l1 (sha256 contents) = None" using assms(9) v b by (simp add: new_request_def)
  have st: "log_steps lib sha256 l2 l3" using assms(6) l3 by simp
  note iv = issued_verified [OF assms(2-4) fresh assms(5) ap st wa finishIssue_signed [OF fi]]
  let ?p = "\<lparr>PExtensions = [], PStart = SubStart (ISubtree iss), PEnd = SubEnd (ISubtree iss), InclusionProof = IProof iss,
       Signatures = ISignatures iss\<rparr>"
  obtain tbs pb serial where r: "SplitCertificate der = Inr (tbs, sample_alg, pb)" "MarshalTLS ?p = Inr pb"
      "ComposeSerial (LogNumber i) idx = Inr serial" "RebuildLogEntryFromTBS sha256 tbs (Some (CADN i)) = Inr (contents, serial)"
    by (rule finishIssue_read [OF assms(1) fi assms(11) i(2) p b])
  have parse: "ParseMTCProof pb = Inr (?p\<lparr>Signatures := sort_sigs (ISignatures iss)\<rparr>)"
    using parse_marshal_proof [OF r(2)] assms(12) wa by (simp add: canonical_ids_def list_all_iff)
  note rp = assms(13) [unfolded relies_on_def]
  have split: "SplitSerial serial = Inr (LogNumber i, idx)"
    using serial_roundtrip [of "LogNumber i" idx] r(3) rp by (auto simp: ComposeSerial_def LogID_def split: if_splits)
  have leaf: "EntryHashExt sha256 [] contents = Inr (HashLeaf sha256 (EncodeTBSCertEntry contents))"
    by (simp add: EntryHashExt_def encodeEntryExtensionsVector_def HashLeaf_def EncodeTBSCertEntry_def)
  have d: "distinct (map CosignerID (sort_sigs (ISignatures iss)))"
    using MarshalTLS_distinct [OF r(2)] by (simp add: distinct_stable_sort)
  have "hd (ISignatures iss) \<in> set (sort_sigs (ISignatures iss))" using finishIssue_signed [OF fi] by simp
  then have "requiredLoop mlib (keyMap (Cosigners rp)) (sigMap (sort_sigs (ISignatures iss))) (ISubtree iss) [lCosignerID cfg] = Inr ()"
    using own_signature_verifies [OF _ assms(14) _ d] iv rp by blast
  moreover have "\<lparr>SubLogID = lLogID cfg, SubStart = SubStart (ISubtree iss), SubEnd = SubEnd (ISubtree iss), SubHash = SubHash (ISubtree iss)\<rparr>
      = ISubtree iss" using iv by simp
  ultimately have "verifyCosignatures mlib rp (lLogID cfg) (?p\<lparr>Signatures := sort_sigs (ISignatures iss)\<rparr>) (SubHash (ISubtree iss)) = Inr ()"
    using rp by (simp add: verifyCosignatures_def)
  then show ?thesis using r parse split leaf iv rp sample_alg_ok by (simp add: VerifyCertificate_def)
qed

text \<open>
  C3: the certificate that the issuer returns is accepted. \<open>Issue\<close> runs on a log reached by any run,
  and while it waits the log goes on in any way (\<open>env\<close>); the request is new. Then a relying party
  configured for this CA and log accepts the certificate.
\<close>

theorem issued_certificate_verifies:
  assumes "cryptobyte_laws cb" "tlog_laws lib sha256" "NewLog lib mlib sha256 cfg now fs = Some (Inr l0)" "log_steps lib sha256 l0 l1"
    "wsize (ltw l1) + length (lpool l1) < 2 ^ 63" "\<forall>l. log_steps lib sha256 l (env l)"
    "NewIssuer (Some (log_api lib sha256 env)) t caID n = Inr i" "well_formed csr" "new_request sha256 i csr order l1"
    "Issue cb sha256 i csr order l1 = (Inr der, l3)" "length der < 2 ^ 30"
    "\<forall>idx iss. Wait lib sha256 l3 idx = Some (Inr (Some iss)) \<longrightarrow> canonical_ids (ISignatures iss)"
    "relies_on rp cfg i" "signs_verifiably mlib cfg"
  shows "VerifyCertificate mlib sha256 der rp = Inr ()"
  using assms by (rule issued_accepted)

section \<open>Issuing comes to an end\<close>

lemma strip_le: "snd (strip fn sn) \<le> sn"
  by (induction fn sn rule: strip.induct) (subst strip.simps, auto intro: order.trans [OF _ div_le_dividend])

lemma eval_path_short:
  "eval_path node fn sn r ps = Some x \<Longrightarrow> sn < 2 ^ k \<Longrightarrow> length ps \<le> k"
proof (induction ps arbitrary: fn sn r k)
  case (Cons p ps)
  obtain k' where k: "k = Suc k'" using Cons.prems by (cases k) auto
  obtain fn' sn' r' where e: "eval_path node fn' sn' r' ps = Some x" "sn' \<le> sn div 2"
    using Cons.prems(1) div_le_mono [OF strip_le [of fn sn], of 2] by (auto split: if_splits)
  have "sn' < 2 ^ k'" using e(2) Cons.prems(2) k by simp
  from Cons.IH [OF e(1) this] k show ?case by simp
qed simp

text \<open>A log without mirror signatures: each subtree has the CA's own signature.\<close>

definition own_sigs :: "Log \<Rightarrow> bool" where
  "own_sigs l \<longleftrightarrow> (\<forall>c. lcommitted l = Some c \<longrightarrow> (\<forall>s\<in>set (csubtrees c). \<exists>sig msg.
     ssigs s = [\<lparr>CosignerID = lCosignerID (lcfg l), Signature = sig\<rparr>] \<and> Sign (lSigner (lcfg l)) msg = Inr sig))"

lemma signCovers_own:
  "signCovers lib sha256 cfg w now ts = Some (Inr subs) \<Longrightarrow> s \<in> set subs \<Longrightarrow>
     \<exists>sig msg. ssigs s = [\<lparr>CosignerID = lCosignerID cfg, Signature = sig\<rparr>] \<and> Sign (lSigner cfg) msg = Inr sig"
  by (induction lib sha256 cfg w now ts arbitrary: subs rule: signCovers.induct)
    (auto simp: signSubtree_def rbind_eq_Inr Let_def split: option.splits sum.splits, blast)

lemma publish_own:
  assumes "publish lib sha256 now n l = Some (r, l')" "own_sigs l"
  shows "own_sigs l'"
  using assms(1)
proof (cases rule: publish_cases)
  case (ok rt sig nt subs fs')
  have "s \<in> set subs \<Longrightarrow> \<exists>sig msg. ssigs s = [\<lparr>CosignerID = lCosignerID (lcfg l), Signature = sig\<rparr>] \<and> Sign (lSigner (lcfg l)) msg = Inr sig" for s
    using ok(5) signCovers_own by (auto simp: coverSubtrees_def split: if_splits sum.splits)
  then show ?thesis using ok(7) assms(2) by (auto simp: own_sigs_def carried_def split: option.splits)
qed (use assms(2) in \<open>simp add: own_sigs_def\<close>)

lemma flush_own: "flush lib sha256 now l = Some (r, l') \<Longrightarrow> own_sigs l \<Longrightarrow> own_sigs l'"
  by (auto simp: flush_def Let_def own_sigs_def split: if_splits prod.splits sum.splits goerror.splits dest!: publish_own)

lemma issued_from:
  assumes "buildIssued lib sha256 l idx = Some (Inr iss)" "ISignatures iss \<noteq> []"
  obtains c s where "lcommitted l = Some c" "s \<in> set (csubtrees c)" "ISubtree iss = ssub s" "ISignatures iss = ssigs s"
proof -
  obtain c where c: "lcommitted l = Some c" "idx < csize c" using assms(1) by (auto simp: buildIssued_def split: option.splits if_splits)
  let ?f = "[s \<leftarrow> csubtrees c. idx \<ge> SubStart (ssub s) \<and> idx < SubEnd (ssub s)]"
  have i: "issueFrom lib sha256 hs idx st sigs what = Some (Inr iss) \<Longrightarrow> ISubtree iss = st \<and> ISignatures iss = sigs" for hs st sigs what
    by (auto simp: issueFrom_def rbind_eq_Inr)
  show thesis
  proof (cases ?f)
    case Nil
    then show thesis using assms c by (auto simp: buildIssued_def not_le [symmetric] dest: i)
  next
    case (Cons s ss)
    then have "s \<in> set ?f" by simp
    then have "s \<in> set (csubtrees c)" by simp
    moreover have "issueFrom lib sha256 (chashes c) idx (ssub s) (ssigs s) ''inclusion proof'' = Some (Inr iss)"
      using assms(1) c Cons by (simp add: buildIssued_def not_le [symmetric])
    ultimately show thesis using that [OF c(1)] i by blast
  qed
qed

lemma MarshalTLS_one:
  assumes "toWire s = Inr w" "st \<le> maxUint48" "fin \<le> maxUint48" "length pr \<le> 64" "length (Signature s) \<le> 65000"
  shows "\<exists>pb. MarshalTLS \<lparr>PExtensions = [], PStart = st, PEnd = fin, InclusionProof = pr, Signatures = [s]\<rparr> = Inr pb"
proof -
  have "length (sig_bytes w) \<le> 0xffff" using assms(1,5) by (auto simp: toWire_eq sig_ok_def sig_bytes_def)
  then have "proof_ok [] st fin pr (sort_wire [w])" using assms(2-4) by (simp add: proof_ok_def stable_sort_def)
  then show ?thesis unfolding MarshalTLS_eq using assms(1) by simp
qed

lemma assemble_ok:
  assumes "cryptobyte_laws cb" "encodeValidity (UTCTime.truncate (ciNotBefore i)) (UTCTime.truncate (ciNotAfter i)) = Inr val"
    and "length (ciExtensions i) < 2 ^ 31" "length (ciMTCProof i) < 2 ^ 30"
  shows "\<exists>der. assembleCertificate cb i = Inr der"
proof -
  obtain sb where sb: "AddASN1BigInt cb (uint (ciSerialNumber i)) = Inr (tlv 0x02 sb)"
    using cryptobyte_laws.read_bigint [OF assms(1), of "uint (ciSerialNumber i)"] uint_lt2p [of "ciSerialNumber i"] by auto
  have ver: "rbind (AddASN1Int64 cb 2) (AddASN1 cb 0xa0) = Inr (tlv 0xa0 (tlv 0x02 [2]))"
    using cryptobyte_laws.add_int64 [OF assms(1), of 2] cryptobyte_laws.add_asn1 [OF assms(1), of "0xa0" "tlv 2 [2]"]
    by (simp add: tlv_def appendDERLength_def)
  show ?thesis
    using assms(2) sb ver cryptobyte_laws.add_asn1 [OF assms(1) _ assms(3), of "0xa3"] cryptobyte_laws.add_bits [OF assms(1,4)]
    by (simp add: assembleCertificate_def alg_octets ca_encodeValidity_eq Let_def badd_def)
qed

lemma finishIssue_ok:
  assumes "cryptobyte_laws cb" "IIndex iss = idx" "ISignatures iss = [s]" "toWire s = Inr w" "length (Signature s) \<le> 65000"
    and "idx < SubEnd (ISubtree iss)" "SubStart (ISubtree iss) \<le> idx" "SubEnd (ISubtree iss) \<le> maxUint48" "length (IProof iss) \<le> 64"
    and "BuildLogEntry sha256 v (CADN i) = Inr (e, d, contents)" "length (optBytes (VExtensions v)) < 2 ^ 31"
  shows "\<exists>der. finishIssue cb i v idx iss = Inr der"
proof -
  have le: "SubStart (ISubtree iss) \<le> maxUint48" "idx \<le> maxUint48" using assms(6-8) by (auto intro: order.trans less_imp_le)
  obtain pb where pb: "MarshalTLS \<lparr>PExtensions = [], PStart = SubStart (ISubtree iss), PEnd = SubEnd (ISubtree iss),
      InclusionProof = IProof iss, Signatures = [s]\<rparr> = Inr pb"
    using MarshalTLS_one [OF assms(4) le(1) assms(8,9,5)] by blast
  obtain serial where ser: "ComposeSerial (LogNumber i) idx = Inr serial" using le(2) by (auto simp: ComposeSerial_def not_less [symmetric])
  obtain val where val: "encodeValidity (UTCTime.truncate (VNotBefore v)) (UTCTime.truncate (VNotAfter v)) = Inr val"
    using assms(10) by (auto simp: BuildLogEntry_def MarshalDER_def rbind_eq_Inr Let_def split: if_splits)
  let ?ci = "\<lparr>ciSerialNumber = serial, ciIssuerDN = CADN i, ciNotBefore = VNotBefore v, ciNotAfter = VNotAfter v,
             ciSubjectDN = VSubject v, ciSubjectPublicKeyInfo = VSubjectPublicKeyInfo v,
             ciExtensions = optBytes (VExtensions v), ciMTCProof = pb\<rparr>"
  have "\<exists>der. assembleCertificate cb ?ci = Inr der"
    using assemble_ok [OF assms(1), of ?ci val] val assms(11) proof_bytes_length [OF pb] by simp
  then show ?thesis using assms(2,3) pb ser by (auto simp: finishIssue_def)
qed

text \<open>The log while the issuer waits: one flush.\<close>

definition flush_env :: "tlog \<Rightarrow> (bytes \<Rightarrow> Hash) \<Rightarrow> Time \<Rightarrow> Log \<Rightarrow> Log" where
  "flush_env lib sha256 now l =
     (if wsize (ltw l) + length (lpool l) < 2 ^ 63 then
        (case flush lib sha256 now l of Some (Inr _, l') \<Rightarrow> l' | _ \<Rightarrow> l)
      else l)"

lemma flush_env_steps: "log_steps lib sha256 l (flush_env lib sha256 now l)"
  by (auto simp: flush_env_def split: option.splits sum.splits prod.splits intro: log_steps.start log_steps.flush [OF log_steps.start])

text \<open>The cosigner ID and the signatures of the CA fit a certificate.\<close>

definition signs_short :: "LogConfig \<Rightarrow> bool" where
  "signs_short cfg \<longleftrightarrow> (\<forall>msg sig. Sign (lSigner cfg) msg = Inr sig \<longrightarrow> length sig \<le> 65000) \<and>
     (\<exists>b. Binary (lCosignerID cfg) = Inr b \<and> length b \<in> {1..255})"

lemma Issue_run:
  assumes "Validate (IValidator i) csr order = Inr v" "BuildLogEntry sha256 v (CADN i) = Inr (e, d, contents)"
    "ILog i = log_api lib sha256 env" "Append (EncodeTBSCertEntry contents) (sha256 contents) l = (idx, l2)"
    "Wait lib sha256 (env l2) idx = Some (Inr (Some iss))"
  shows "Issue cb sha256 i csr order l = (finishIssue cb i v idx iss, env l2)"
  using assms by (simp add: Issue_def log_api_def Let_def)

lemma Issue_completes:
  assumes laws: "cryptobyte_laws cb" "tlog_laws lib sha256"
    and inv: "log_inv lib sha256 es l" "tw_inv lib es (ltw l)" "own_sigs l" "faultless (wfs (ltw l))"
    and cfg: "signer_ready sha256 (lcfg l)" "signs_short (lcfg l)" "lWaitForCosigners (lcfg l) \<le> 1"
    and len: "\<forall>p\<in>set (lpool l). length (pentry p) \<le> 0xffff" "wsize (ltw l) + length (lpool l) < 2 ^ 48 - 1"
    and i: "ILog i = log_api lib sha256 (flush_env lib sha256 now)"
    and v: "Validate (IValidator i) csr order = Inr v" "BuildLogEntry sha256 v (CADN i) = Inr (e, d, contents)"
      "length contents \<le> 0xffff - 4" "length (optBytes (VExtensions v)) < 2 ^ 31" "ldedup l (sha256 contents) = None"
  shows "\<exists>der l' idx iss. Issue cb sha256 i csr order l = (Inr der, l') \<and> finishIssue cb i v idx iss = Inr der \<and>
    own_sigs l' \<and> lcfg l' = lcfg l"
proof -
  let ?e = "EncodeTBSCertEntry contents"
  obtain idx l2 where ap: "Append ?e (sha256 contents) l = (idx, l2)" by (cases "Append ?e (sha256 contents) l")
  note f = Append_fresh [OF v(5) ap]
  have l2: "l2 = l\<lparr>lpool := lpool l @ [\<lparr>pentry = ?e, pidemKey = sha256 contents\<rparr>], ldedup := (ldedup l)(sha256 contents := Some idx)\<rparr>"
    using ap v(5) by (auto simp: Append_def Let_def)
  have t: "log_total l + 1 < 2 ^ 48" using len(2) by (simp add: log_total_def)
  then have "unat idx = log_total l" unfolding f(1) by (intro unat_of_nat64) simp
  then have n: "length (all_entries es l2) = log_total l + 1" "log_total l + 1 < 2 ^ 48" "unat idx = log_total l" "length es \<le> log_total l"
    using t f(4) [of es] total_entries [OF inv(1)] by (simp_all add: all_entries_def)
  have i2: "log_inv lib sha256 es l2" using Append_inv(1) [OF inv(1), of ?e "sha256 contents"] ap by simp
  obtain l3 where l3: "flush lib sha256 now l2 = Some (Inr (), l3)"
      "\<And>index. length es \<le> unat index \<and> unat index < length (all_entries es l2) \<Longrightarrow>
        \<exists>iss. Wait lib sha256 l3 index = Some (Inr (Some iss)) \<and> ISignatures iss \<noteq> []"
    using flush_progress [OF laws(2) i2, of now] inv(2,4) cfg(1,3) len(1) v(3) n(1,2)
    by (auto simp: l2 faultless_def EncodeTBSCertEntry_def)
  obtain iss where iss: "Wait lib sha256 l3 idx = Some (Inr (Some iss))" "ISignatures iss \<noteq> []" using l3(2) [of idx] n by auto
  have env: "flush_env lib sha256 now l2 = l3"
    using l3(1) f(2) n(2) by (simp add: flush_env_def log_total_def)
  obtain es3 where i3: "log_inv lib sha256 es3 l3" "all_entries es3 l3 = all_entries es l2" "lcfg l3 = lcfg l"
    using tlog_laws.flush_inv [OF laws(2) l3(1) _ i2] n(1,2) by (auto simp: l2)
  have o3: "own_sigs l3" using flush_own [OF l3(1)] inv(3) by (simp add: l2 own_sigs_def)
  note b = Wait_issued(1) [OF iss(1)]
  note bv = tlog_laws.buildIssued_verifies [OF laws(2) i3(1) b iss(2)]
  obtain c s where c: "lcommitted l3 = Some c" "s \<in> set (csubtrees c)" "ISubtree iss = ssub s" "ISignatures iss = ssigs s"
    by (rule issued_from [OF b iss(2)])
  obtain sig msg where sg: "ISignatures iss = [\<lparr>CosignerID = lCosignerID (lcfg l), Signature = sig\<rparr>]" "Sign (lSigner (lcfg l)) msg = Inr sig"
    using o3 c i3(3) unfolding own_sigs_def by fastforce
  obtain w where w: "toWire \<lparr>CosignerID = lCosignerID (lcfg l), Signature = sig\<rparr> = Inr w" "length sig \<le> 65000"
    using cfg(2) sg(2) by (force simp: signs_short_def toWire_def)
  have le3: "length es3 < 2 ^ 48" using arg_cong [OF i3(2), of length] n(1,2) by (simp add: all_entries_def)
  have "unat (SubEnd (ISubtree iss)) \<le> length es3" using i3(1) c unfolding log_inv_def committed_ok_def sub_ok_def by fastforce
  then have e48: "unat (SubEnd (ISubtree iss)) < 2 ^ 48" using le3 by simp
  then have em: "SubEnd (ISubtree iss) \<le> maxUint48" by (simp add: u64_le_iff maxUint48_def)
  have ev: "SubStart (ISubtree iss) \<le> idx" "idx < SubEnd (ISubtree iss)"
      "eval_path (HashChildren sha256) (unat idx - unat (SubStart (ISubtree iss)))
         (unat (SubEnd (ISubtree iss)) - unat (SubStart (ISubtree iss)) - 1) (HashLeaf sha256 (es3 ! unat idx)) (IProof iss)
         = Some (SubHash (ISubtree iss))"
    using bv by (simp_all add: EvaluateInclusionProof_eq_Inr)
  have "length (IProof iss) \<le> 48" using eval_path_short [OF ev(3), of 48] e48 by simp
  then obtain der where "finishIssue cb i v idx iss = Inr der"
    using finishIssue_ok [OF laws(1) _ sg(1) w(1) _ ev(2,1) em _ v(2,4)] bv w(2) by auto
  then show ?thesis using Issue_run [OF v(1,2) i ap] env iss(1) o3 i3(3) by auto
qed

text \<open>
  C11: issuing comes to an end. On a log with a working store and signer and no mirrors to wait for, a valid
  new request whose entry fits a tile is answered with a certificate as soon as the log has flushed.
\<close>

theorem issue_completes:
  assumes "cryptobyte_laws cb" "tlog_laws lib sha256" "log_inv lib sha256 es l" "tw_inv lib es (ltw l)" "own_sigs l" "faultless (wfs (ltw l))"
    "signer_ready sha256 (lcfg l)" "signs_short (lcfg l)" "lWaitForCosigners (lcfg l) \<le> 1"
    "\<forall>p\<in>set (lpool l). length (pentry p) \<le> 0xffff" "wsize (ltw l) + length (lpool l) < 2 ^ 48 - 1"
    "ILog i = log_api lib sha256 (flush_env lib sha256 now)" "Validate (IValidator i) csr order = Inr v"
    "BuildLogEntry sha256 v (CADN i) = Inr (e, d, contents)" "length contents \<le> 0xffff - 4" "length (optBytes (VExtensions v)) < 2 ^ 31"
    "ldedup l (sha256 contents) = None"
  shows "\<exists>der l'. Issue cb sha256 i csr order l = (Inr der, l')"
  using Issue_completes [OF assms] by blast

section \<open>A sample issuance\<close>

lemma new_log_own:
  assumes "NewLog lib mlib sha256 cfg now fs = Some (Inr l)"
  shows "own_sigs l"
proof -
  let ?l0 = "\<lambda>w. \<lparr>lcfg = cfg, ltw = w, lpool = [], ldedup = (\<lambda>_. None), lcommitted = None, lnotify = 0, lrequests = []\<rparr>"
  have ld: "own_sigs l1" if "loadCheckpoint mlib sha256 (?l0 w) = Inr l1" for w l1
    using that by (auto simp: loadCheckpoint_def own_sigs_def rbind_eq_Inr split: sum.splits if_splits)
  show ?thesis
    using assms by (auto simp: NewLog_def ld split: if_splits sum.splits option.splits prod.splits intro: flush_own [OF _ ld])
qed

lemma tlv_length: "length (tlv t b) \<le> length b + 6"
  by (simp add: tlv_def appendDERLength_def)

lemma finishIssue_length:
  assumes "cryptobyte_laws cb" "finishIssue cb i v idx iss = Inr der"
    and "encodeValidity (UTCTime.truncate (VNotBefore v)) (UTCTime.truncate (VNotAfter v)) = Inr val" "length val \<le> 2 ^ 20"
    and "length (CADN i) \<le> 2 ^ 20" "length (VSubject v) \<le> 2 ^ 20" "length (VSubjectPublicKeyInfo v) \<le> 2 ^ 20"
      "length (optBytes (VExtensions v)) \<le> 2 ^ 20"
  shows "length der < 2 ^ 30"
proof -
  obtain pb serial where pb: "MarshalTLS \<lparr>PExtensions = [], PStart = SubStart (ISubtree iss), PEnd = SubEnd (ISubtree iss),
      InclusionProof = IProof iss, Signatures = ISignatures iss\<rparr> = Inr pb"
    and a: "assembleCertificate cb \<lparr>ciSerialNumber = serial, ciIssuerDN = CADN i, ciNotBefore = VNotBefore v, ciNotAfter = VNotAfter v,
             ciSubjectDN = VSubject v, ciSubjectPublicKeyInfo = VSubjectPublicKeyInfo v,
             ciExtensions = optBytes (VExtensions v), ciMTCProof = pb\<rparr> = Inr der"
    (is "assembleCertificate cb ?ci = _")
    using assms(2) by (auto simp: finishIssue_def rbind_eq_Inr split: if_splits)
  have lpb: "length (ciMTCProof ?ci) < 2 ^ 30" "length pb < 2 ^ 20" using proof_bytes_length [OF pb] by simp_all
  obtain sb where sb: "length sb \<le> 9" and der: "der = tlv 0x30 (tlv 0x30 (tbs_body sb val ?ci) @ sample_alg @ tlv 0x03 (0 # pb))"
    using assembled [OF assms(1) a lpb(1)] assms(3) by (metis certInputs.select_convs(3,4,8) sum.inject(2))
  have "length (tbs_body sb val ?ci) \<le> 5 + (length sb + 6) + 14 + length (CADN i) + length val + length (VSubject v)
      + length (VSubjectPublicKeyInfo v) + (length (optBytes (VExtensions v)) + 6)"
    using tlv_length [of 2 sb] tlv_length [of "0xa3" "optBytes (VExtensions v)"]
    by (simp add: tbs_body_def version3_def sample_alg_def explicit_ext_def tlv_def [of _ "[_]"] tlv_def [of _ "[_, _, _]"]
        tlv_def [of _ "_ # _ # _ # _"] appendDERLength_def)
  moreover have "length der \<le> length (tbs_body sb val ?ci) + 6 + 14 + (length pb + 7) + 6"
    using tlv_length [of "0x30" "tlv 0x30 (tbs_body sb val ?ci) @ sample_alg @ tlv 0x03 (0 # pb)"] tlv_length [of "0x30" "tbs_body sb val ?ci"]
      tlv_length [of "0x03" "0 # pb"] unfolding der by (simp add: sample_alg_def [unfolded tlv_def] appendDERLength_def)
  ultimately show ?thesis using sb lpb(2) assms(4-8) by simp
qed

lemma own_sigs_canonical:
  assumes "own_sigs l" "rbind (Binary (lCosignerID (lcfg l))) TrustAnchorIDFromBinary = Inr (lCosignerID (lcfg l))"
  shows "\<forall>idx iss. Wait lib sha256 l idx = Some (Inr (Some iss)) \<longrightarrow> canonical_ids (ISignatures iss)"
proof (intro allI impI)
  fix idx iss
  assume "Wait lib sha256 l idx = Some (Inr (Some iss))"
  note b = Wait_issued(1) [OF this]
  show "canonical_ids (ISignatures iss)"
  proof (cases "ISignatures iss = []")
    case False
    obtain c s where "lcommitted l = Some c" "s \<in> set (csubtrees c)" "ISignatures iss = ssigs s"
      by (rule issued_from [OF b False]) blast
    then show ?thesis using assms unfolding own_sigs_def canonical_ids_def by fastforce
  qed (simp add: canonical_ids_def)
qed

definition sample_ca_cfg :: LogConfig where
  "sample_ca_cfg = sample_log_cfg\<lparr>lLogID := ''2.0.1''\<rparr>"

definition sample_issuer :: "Log Issuer" where
  "sample_issuer = \<lparr>IValidator = NewValidator sample_now, ILog = log_api (ref_tlog mk_Hash) mk_Hash (flush_env (ref_tlog mk_Hash) mk_Hash sample_now),
     CADN = projr (BuildCAName ''2''), LogNumber = 1\<rparr>"

definition sample_relying :: RelyingPartyConfig where
  "sample_relying = \<lparr>RPCAID = ''2'', RPCADN = Some (projr (BuildCAName ''2'')), RPLogHash = [],
     Cosigners = [\<lparr>CKID = ''2'', CKAlgorithm = AlgMLDSA44, CKPublicKey = sample_pub\<rparr>], RequiredCosigners = [], RevokedRanges = [],
     TrustedSubtrees = Map.empty\<rparr>"

lemma sample_ca_ready:
  "signer_ready mk_Hash sample_ca_cfg" "plain (lLogID sample_ca_cfg)" "plain (lCosignerID sample_ca_cfg)" "0 < lFlushPeriod sample_ca_cfg"
  "signs_verifiably sample_mldsa sample_ca_cfg" "lWaitForCosigners sample_ca_cfg \<le> 1" "lCosignerID sample_ca_cfg = ''2''"
  using sample_key_id [of "''2''"] sample_verifiable
  by (simp_all add: sample_ca_cfg_def signer_ready_def sample_log_cfg_def sample_signer_def OIDName_def OIDNamePrefix_def
      TrustAnchorOIDBase_def plain_char_def signs_verifiably_def)

lemma sample_id: "Binary ''2'' = Inr [2]" "rbind (Binary ''2'') TrustAnchorIDFromBinary = Inr ''2''"
  by code_simp+

lemma sample_signs_short: "signs_short sample_ca_cfg"
  by (simp add: signs_short_def sample_ca_cfg_def sample_log_cfg_def sample_signer_def sample_id(1))

lemma sample_new_issuer: "NewIssuer (Some (ILog sample_issuer)) sample_now ''2'' 1 = Inr sample_issuer"
proof -
  have "\<not> isl (BuildCAName ''2'')" by code_simp
  then show ?thesis by (cases "BuildCAName ''2''") (simp_all add: NewIssuer_def sample_issuer_def)
qed

lemma sample_relies: "relies_on sample_relying sample_ca_cfg sample_issuer"
proof -
  have "LogID ''2'' 1 = Inr ''2.0.1''" by code_simp
  then show ?thesis
    by (simp add: relies_on_def sample_relying_def sample_ca_cfg_def sample_log_cfg_def sample_issuer_def sample_signer_def keyMap_def Contains_def required_def)
qed

lemma sample_well_formed: "well_formed sample_csr"
  by code_simp

lemma sample_request_valid:
  "case Validate (NewValidator sample_now) sample_csr sample_order of Inl _ \<Rightarrow> False
   | Inr v \<Rightarrow> length (VSubject v) \<le> 1000 \<and> length (VSubjectPublicKeyInfo v) \<le> 1000 \<and> length (optBytes (VExtensions v)) \<le> 1000 \<and>
      length (projr (BuildCAName ''2'')) \<le> 1000 \<and>
      (case encodeValidity (UTCTime.truncate (VNotBefore v)) (UTCTime.truncate (VNotAfter v)) of Inl _ \<Rightarrow> False | Inr val \<Rightarrow> length val \<le> 1000) \<and>
      (case BuildLogEntry mk_Hash v (projr (BuildCAName ''2'')) of Inl _ \<Rightarrow> False | Inr (_, _, contents) \<Rightarrow> length contents \<le> 1000)"
  by code_simp

lemma sample_validE:
  obtains v e d contents val where "Validate (IValidator sample_issuer) sample_csr sample_order = Inr v"
    "BuildLogEntry mk_Hash v (CADN sample_issuer) = Inr (e, d, contents)" "length contents \<le> 1000"
    "encodeValidity (UTCTime.truncate (VNotBefore v)) (UTCTime.truncate (VNotAfter v)) = Inr val" "length val \<le> 1000"
    "length (CADN sample_issuer) \<le> 1000" "length (VSubject v) \<le> 1000" "length (VSubjectPublicKeyInfo v) \<le> 1000"
    "length (optBytes (VExtensions v)) \<le> 1000"
  using sample_request_valid by (auto simp: sample_issuer_def split: sum.splits)

lemma sample_fresh:
  obtains l0 where "NewLog (ref_tlog mk_Hash) sample_mldsa mk_Hash sample_ca_cfg sample_now (empty_store []) = Some (Inr l0)"
    "log_inv (ref_tlog mk_Hash) mk_Hash [] l0" "tw_inv (ref_tlog mk_Hash) [] (ltw l0)" "faultless (wfs (ltw l0))" "lpool l0 = []"
    "ldedup l0 = (\<lambda>_. None)" "lcfg l0 = sample_ca_cfg" "wsize (ltw l0) = 0" "own_sigs l0"
proof -
  obtain l0 where l0: "NewLog (ref_tlog mk_Hash) sample_mldsa mk_Hash sample_ca_cfg sample_now (empty_store []) = Some (Inr l0)"
    "log_inv (ref_tlog mk_Hash) mk_Hash [] l0" "tw_inv (ref_tlog mk_Hash) [] (ltw l0)" "faultless (wfs (ltw l0))" "lpool l0 = []"
    "ldedup l0 = (\<lambda>_. None)" "lcfg l0 = sample_ca_cfg"
    using ref.fresh_log [OF sample_ca_ready(1-4)] by blast
  then show thesis using that [OF l0] new_log_own [OF l0(1)] by (simp add: log_inv_def)
qed

lemma sample_issues:
  assumes "log_inv (ref_tlog mk_Hash) mk_Hash [] l0" "tw_inv (ref_tlog mk_Hash) [] (ltw l0)" "faultless (wfs (ltw l0))" "lpool l0 = []"
    "ldedup l0 = (\<lambda>_. None)" "lcfg l0 = sample_ca_cfg" "wsize (ltw l0) = 0" "own_sigs l0"
  shows "\<exists>der l'. Issue ref_cryptobyte mk_Hash sample_issuer sample_csr sample_order l0 = (Inr der, l') \<and> length der < 2 ^ 30 \<and>
    own_sigs l' \<and> lcfg l' = sample_ca_cfg"
proof -
  obtain v e d contents val where v: "Validate (IValidator sample_issuer) sample_csr sample_order = Inr v"
      "BuildLogEntry mk_Hash v (CADN sample_issuer) = Inr (e, d, contents)" "length contents \<le> 1000"
      "encodeValidity (UTCTime.truncate (VNotBefore v)) (UTCTime.truncate (VNotAfter v)) = Inr val" "length val \<le> 1000"
      "length (CADN sample_issuer) \<le> 1000" "length (VSubject v) \<le> 1000" "length (VSubjectPublicKeyInfo v) \<le> 1000"
      "length (optBytes (VExtensions v)) \<le> 1000"
    by (rule sample_validE)
  have i: "ILog sample_issuer = log_api (ref_tlog mk_Hash) mk_Hash (flush_env (ref_tlog mk_Hash) mk_Hash sample_now)"
    by (simp add: sample_issuer_def)
  obtain der l' idx iss where r: "Issue ref_cryptobyte mk_Hash sample_issuer sample_csr sample_order l0 = (Inr der, l')"
      "finishIssue ref_cryptobyte sample_issuer v idx iss = Inr der" "own_sigs l'" "lcfg l' = sample_ca_cfg"
    using Issue_completes [OF refcb.cryptobyte_laws_axioms ref.tlog_laws_axioms assms(1,2,8,3) _ _ _ _ _ i v(1,2)] v(3,9) assms
      sample_ca_ready sample_signs_short by auto
  have "length der < 2 ^ 30" using finishIssue_length [OF refcb.cryptobyte_laws_axioms r(2) v(4)] v by simp
  with r show ?thesis by blast
qed

theorem issued_certificate_verifies_witness:
  "\<exists>l0 der l'. NewLog (ref_tlog mk_Hash) sample_mldsa mk_Hash sample_ca_cfg sample_now (empty_store []) = Some (Inr l0) \<and>
     Issue ref_cryptobyte mk_Hash sample_issuer sample_csr sample_order l0 = (Inr der, l') \<and>
     VerifyCertificate sample_mldsa mk_Hash der sample_relying = Inr ()"
proof -
  obtain l0 where l0: "NewLog (ref_tlog mk_Hash) sample_mldsa mk_Hash sample_ca_cfg sample_now (empty_store []) = Some (Inr l0)"
      "log_inv (ref_tlog mk_Hash) mk_Hash [] l0" "tw_inv (ref_tlog mk_Hash) [] (ltw l0)" "faultless (wfs (ltw l0))" "lpool l0 = []"
      "ldedup l0 = (\<lambda>_. None)" "lcfg l0 = sample_ca_cfg" "wsize (ltw l0) = 0" "own_sigs l0"
    by (rule sample_fresh)
  obtain der l' where d: "Issue ref_cryptobyte mk_Hash sample_issuer sample_csr sample_order l0 = (Inr der, l')" "length der < 2 ^ 30"
      "own_sigs l'" "lcfg l' = sample_ca_cfg"
    using sample_issues [OF l0(2-9)] by blast
  have n: "new_request mk_Hash sample_issuer sample_csr sample_order l0" using l0(6) by (simp add: new_request_def split: sum.splits prod.splits)
  have c: "\<forall>idx iss. Wait (ref_tlog mk_Hash) mk_Hash l' idx = Some (Inr (Some iss)) \<longrightarrow> canonical_ids (ISignatures iss)"
    using d(4) sample_id(2) sample_ca_ready(7) by (intro own_sigs_canonical [OF d(3)]) simp
  have i: "NewIssuer (Some (log_api (ref_tlog mk_Hash) mk_Hash (flush_env (ref_tlog mk_Hash) mk_Hash sample_now))) sample_now ''2'' 1
      = Inr sample_issuer" using sample_new_issuer by (simp add: sample_issuer_def)
  from issued_certificate_verifies [OF refcb.cryptobyte_laws_axioms ref.tlog_laws_axioms l0(1) log_steps.start _ _ i sample_well_formed n d(1,2)
      c sample_relies sample_ca_ready(5)] l0 d(1) flush_env_steps
  show ?thesis by auto
qed

theorem issue_completes_witness:
  "\<exists>l der l'. own_sigs l \<and> Issue ref_cryptobyte mk_Hash sample_issuer sample_csr sample_order l = (Inr der, l')"
proof -
  obtain l0 where l0: "NewLog (ref_tlog mk_Hash) sample_mldsa mk_Hash sample_ca_cfg sample_now (empty_store []) = Some (Inr l0)"
      "log_inv (ref_tlog mk_Hash) mk_Hash [] l0" "tw_inv (ref_tlog mk_Hash) [] (ltw l0)" "faultless (wfs (ltw l0))" "lpool l0 = []"
      "ldedup l0 = (\<lambda>_. None)" "lcfg l0 = sample_ca_cfg" "wsize (ltw l0) = 0" "own_sigs l0"
    by (rule sample_fresh)
  obtain v e d contents where v: "Validate (IValidator sample_issuer) sample_csr sample_order = Inr v"
      "BuildLogEntry mk_Hash v (CADN sample_issuer) = Inr (e, d, contents)" "length contents \<le> 1000" "length (optBytes (VExtensions v)) \<le> 1000"
    by (rule sample_validE) blast
  have i: "ILog sample_issuer = log_api (ref_tlog mk_Hash) mk_Hash (flush_env (ref_tlog mk_Hash) mk_Hash sample_now)"
    by (simp add: sample_issuer_def)
  from issue_completes [OF refcb.cryptobyte_laws_axioms ref.tlog_laws_axioms l0(2,3,9,4) _ _ _ _ _ i v(1,2)] v(3,4) l0 sample_ca_ready sample_signs_short
  show ?thesis by auto
qed

end
