(* ===== verification/CACert.thy ===== *)
theory CACert
  imports Issuer
begin

text \<open>
  CA certificates (cert/cacert.go) and the relying-party configuration read from them
  (cert/rpverify.go, from \<open>ConfigFromCACertificate\<close> on). What is used of \<open>asn1.Unmarshal\<close> for
  structures is the reading of their fields in order; more elements at the end of a SEQUENCE are ignored.
  The decoder of BMPString differs between releases of the Go library and is the parameter \<open>bmp\<close>.
\<close>

section \<open>Library: asn1.Unmarshal of structures and strings\<close>

definition parseStruct :: "bytes \<Rightarrow> (bytes \<times> bytes) result" where
  "parseStruct bs = rbind (parseField (Some (0, 16, True)) bs) (\<lambda>(rv, rest). Inr (rvBytes rv, rest))"

text \<open>An \<open>algorithmIdentifier\<close>: the OID and the octets of the parameters.\<close>

definition unmarshalAlgID :: "bytes \<Rightarrow> ((nat list \<times> bytes) \<times> bytes) result" where
  "unmarshalAlgID bs =
     rbind (parseStruct bs) (\<lambda>(body, rest).
     rbind (unmarshalOID body) (\<lambda>(oid, r).
     rbind (if r = [] then Inr [] else rbind (unmarshalRaw r) (\<lambda>(p, _). Inr (FullBytes p))) (\<lambda>params.
       Inr ((oid, params), rest))))"

text \<open>An optional BOOLEAN: absent when the next element is of another type.\<close>

definition unmarshalOptBool :: "bytes \<Rightarrow> (bool \<times> bytes) result" where
  "unmarshalOptBool bs =
     (if bs = [] then Inr (False, [])
      else rbind (parseTagAndLength bs) (\<lambda>(t, _).
        if tlClass t \<noteq> 0 \<or> tlTag t \<noteq> 1 \<or> tlCompound t then Inr (False, bs)
        else rbind (parseField (Some (0, 1, False)) bs) (\<lambda>(rv, rest).
          if rvBytes rv = [0] then Inr (False, rest)
          else if rvBytes rv = [0xff] then Inr (True, rest)
          else Inl (Errorf ''asn1: syntax error: invalid boolean''))))"

definition unmarshalOctets :: "bytes \<Rightarrow> (bytes \<times> bytes) result" where
  "unmarshalOctets bs = rbind (parseField (Some (0, 4, False)) bs) (\<lambda>(rv, rest). Inr (rvBytes rv, rest))"

definition unmarshalExtension :: "bytes \<Rightarrow> (pkixExtension \<times> bytes) result" where
  "unmarshalExtension bs =
     rbind (parseStruct bs) (\<lambda>(body, rest).
     rbind (unmarshalOID body) (\<lambda>(oid, r1).
     rbind (unmarshalOptBool r1) (\<lambda>(crit, r2).
     rbind (unmarshalOctets r2) (\<lambda>(val, _). Inr (\<lparr>xID = oid, xCritical = crit, xValue = val\<rparr>, rest)))))"

text \<open>\<open>utf8.Valid\<close>.\<close>

definition continuation :: "byte \<Rightarrow> bool" where
  "continuation b \<longleftrightarrow> 0x80 \<le> b \<and> b \<le> 0xbf"

fun utf8Valid :: "bytes \<Rightarrow> bool" where
  "utf8Valid [] = True"
| "utf8Valid (a # r) =
     (if a < 0x80 then utf8Valid r
      else case r of
        b # r1 \<Rightarrow>
          if 0xc2 \<le> a \<and> a \<le> 0xdf then continuation b \<and> utf8Valid r1
          else (case r1 of
            c # r2 \<Rightarrow>
              if 0xe0 \<le> a \<and> a \<le> 0xef then
                (if a = 0xe0 then 0xa0 \<le> b \<and> b \<le> 0xbf else if a = 0xed then 0x80 \<le> b \<and> b \<le> 0x9f else continuation b)
                  \<and> continuation c \<and> utf8Valid r2
              else (case r2 of
                d # r3 \<Rightarrow>
                  0xf0 \<le> a \<and> a \<le> 0xf4 \<and>
                  (if a = 0xf0 then 0x90 \<le> b \<and> b \<le> 0xbf else if a = 0xf4 then 0x80 \<le> b \<and> b \<le> 0x8f else continuation b)
                    \<and> continuation c \<and> continuation d \<and> utf8Valid r3
              | [] \<Rightarrow> False)
          | [] \<Rightarrow> False)
      | [] \<Rightarrow> False)"

definition isPrintable :: "byte \<Rightarrow> bool" where
  "isPrintable b \<longleftrightarrow> (97 \<le> b \<and> b \<le> 122) \<or> (65 \<le> b \<and> b \<le> 90) \<or> (48 \<le> b \<and> b \<le> 57) \<or> (39 \<le> b \<and> b \<le> 41) \<or> (43 \<le> b \<and> b \<le> 47)
     \<or> b \<in> {32, 58, 61, 63, 42, 38}"

definition isNumeric :: "byte \<Rightarrow> bool" where
  "isNumeric b \<longleftrightarrow> (48 \<le> b \<and> b \<le> 57) \<or> b = 32"

text \<open>A Go string: any of the string types is accepted, each with its own check.\<close>

definition unmarshalString :: "(bytes \<Rightarrow> bytes result) \<Rightarrow> bytes \<Rightarrow> (bytes \<times> bytes) result" where
  "unmarshalString bmp bs =
     rbind (unmarshalRaw bs) (\<lambda>(rv, rest).
       if rvClass rv \<noteq> 0 \<or> IsCompound rv then Inl (Errorf ''asn1: tags don't match'')
       else
         let b = rvBytes rv
         in if rvTag rv = 19 then (if list_all isPrintable b then Inr (b, rest) else Inl (Errorf ''asn1: PrintableString contains invalid character''))
            else if rvTag rv = 18 then (if list_all isNumeric b then Inr (b, rest) else Inl (Errorf ''asn1: NumericString contains invalid character''))
            else if rvTag rv = 22 then (if list_all (\<lambda>x. x < 0x80) b then Inr (b, rest) else Inl (Errorf ''asn1: IA5String contains invalid character''))
            else if rvTag rv = 20 \<or> rvTag rv = 27 then Inr (b, rest)
            else if rvTag rv = 12 then (if utf8Valid b then Inr (b, rest) else Inl (Errorf ''asn1: invalid UTF-8 string''))
            else if rvTag rv = 30 then rbind (bmp b) (\<lambda>s. Inr (s, rest))
            else Inl (Errorf ''asn1: tags don't match''))"

section \<open>The MTCCertificationAuthority extension\<close>

definition OIDDigestSHA256 :: "nat list" where
  "OIDDigestSHA256 = [2, 16, 840, 1, 101, 3, 4, 2, 1]"

definition OIDAlgUnsigned :: "nat list" where
  "OIDAlgUnsigned = [1, 3, 6, 1, 5, 5, 7, 6, 36]"

definition OIDExtMTCCertificationAuthority :: "nat list" where
  "OIDExtMTCCertificationAuthority = [1, 3, 6, 1, 4, 1, 44363, 47, 2]"

definition oidExtSubjectKeyID :: "nat list" where
  "oidExtSubjectKeyID = [2, 5, 29, 14]"

definition oidExtKeyUsage :: "nat list" where
  "oidExtKeyUsage = [2, 5, 29, 15]"

definition oidExtBasicConstraints :: "nat list" where
  "oidExtBasicConstraints = [2, 5, 29, 19]"

text \<open>\<open>asn1.Marshal\<close> of an \<open>algorithmIdentifier\<close> without parameters.\<close>

definition marshalAlgID :: "nat list \<Rightarrow> bytes result" where
  "marshalAlgID oid = rbind (marshalOID oid) (\<lambda>o1. Inr (tlv 0x30 o1))"

definition MTCCA_Marshal :: "MTCCertificationAuthority \<Rightarrow> bytes result" where
  "MTCCA_Marshal m =
     (if CALogHash m = [] then Inl (Errorf ''cert: MTCCertificationAuthority logHash unset'')
      else if CASigAlg m = [] then Inl (Errorf ''cert: MTCCertificationAuthority sigAlg unset'')
      else rbind (marshalAlgID (CALogHash m)) (\<lambda>h.
           rbind (marshalAlgID (CASigAlg m)) (\<lambda>s.
             Inr (tlv 0x30 (h @ s @ tlv 0x02 (int_octets (unat (MinSerial m))))))))"

definition ParseMTCCertificationAuthority :: "bytes \<Rightarrow> MTCCertificationAuthority result" where
  "ParseMTCCertificationAuthority der =
     rbind (rwrap ''cert: parse MTCCertificationAuthority''
         (rbind (parseStruct der) (\<lambda>(body, rest).
          rbind (unmarshalAlgID body) (\<lambda>((h, _), r1).
          rbind (unmarshalAlgID r1) (\<lambda>((s, _), r2).
          rbind (unmarshalBigInt r2) (\<lambda>(m, _). Inr (h, s, m, rest))))))) (\<lambda>(h, s, m, rest).
       if rest \<noteq> [] then Inl (Errorf ''cert: trailing bytes after MTCCertificationAuthority'')
       else if m < 0 then Inl (Errorf ''cert: MTCCertificationAuthority minSerial missing or negative'')
       else if m \<ge> 2 ^ 64 then Inl (Errorf ''cert: MTCCertificationAuthority minSerial does not fit in uint64'')
       else Inr \<lparr>CALogHash = h, CASigAlg = s, MinSerial = of_int m\<rparr>)"

section \<open>Keys\<close>

definition oidSigMLDSA44 :: "nat list" where
  "oidSigMLDSA44 = [2, 16, 840, 1, 101, 3, 4, 3, 17]"

definition oidSigMLDSA65 :: "nat list" where
  "oidSigMLDSA65 = [2, 16, 840, 1, 101, 3, 4, 3, 18]"

definition oidSigMLDSA87 :: "nat list" where
  "oidSigMLDSA87 = [2, 16, 840, 1, 101, 3, 4, 3, 19]"

definition algFromSigAlgOID :: "nat list \<Rightarrow> SignatureAlgorithm result" where
  "algFromSigAlgOID oid =
     (if oid = oidSigMLDSA44 then Inr AlgMLDSA44
      else if oid = oidSigMLDSA65 then Inr AlgMLDSA65
      else if oid = oidSigMLDSA87 then Inr AlgMLDSA87
      else Inl (Errorf ''cert: unsupported CA cosigner sigAlg''))"

definition SigAlgOID :: "SignatureAlgorithm \<Rightarrow> nat list result" where
  "SigAlgOID alg =
     (case alg of AlgMLDSA44 \<Rightarrow> Inr oidSigMLDSA44 | AlgMLDSA65 \<Rightarrow> Inr oidSigMLDSA65 | AlgMLDSA87 \<Rightarrow> Inr oidSigMLDSA87
      | _ \<Rightarrow> Inl (Errorf ''cert: no PKIX sigAlg OID for algorithm''))"

definition MarshalCosignerSPKI :: "SignatureAlgorithm \<Rightarrow> bytes \<Rightarrow> bytes result" where
  "MarshalCosignerSPKI alg pub =
     rbind (SigAlgOID alg) (\<lambda>oid.
     rbind (marshalAlgID oid) (\<lambda>a. Inr (tlv 0x30 (a @ tlv 0x03 (0 # pub)))))"

definition rawKeyFromSPKI :: "bytes \<Rightarrow> nat list \<Rightarrow> bytes result" where
  "rawKeyFromSPKI spki wantOID =
     rbind (unmarshalRaw spki) (\<lambda>(sq, _).
     rbind (unmarshalRaw (rvBytes sq)) (\<lambda>(algID, rest).
     rbind (rwrap ''cert: parse SPKI algorithm'' (unmarshalOID (rvBytes algID))) (\<lambda>(algOID, algRest).
       if algRest \<noteq> [] then Inl (Errorf ''cert: SPKI algorithm identifier has unexpected parameters'')
       else if algOID \<noteq> wantOID then Inl (Errorf ''cert: SPKI algorithm does not match expected'')
       else rbind (unmarshalBitString rest) (\<lambda>((b, unused), _).
         if (8 * length b - unused) mod 8 \<noteq> 0 then Inl (Errorf ''cert: SPKI key bit length not a whole number of bytes'')
         else Inr b))))"

definition cosignerKeyFromSPKI :: "TrustAnchorID \<Rightarrow> bytes \<Rightarrow> nat list \<Rightarrow> CosignerKey result" where
  "cosignerKeyFromSPKI ID spki sigAlg =
     rbind (algFromSigAlgOID sigAlg) (\<lambda>alg.
     rbind (rwrap ''cert: extract ML-DSA key'' (rawKeyFromSPKI spki sigAlg)) (\<lambda>raw.
       Inr \<lparr>CKID = ID, CKAlgorithm = alg, CKPublicKey = raw\<rparr>))"

section \<open>Building the certificate\<close>

record CACertificateInput =
  inCAID :: TrustAnchorID
  inCosignerSPKI :: bytes
  inLogHash :: "nat list"
  inSigAlg :: "nat list"
  inMinSerial :: u64
  inNotBefore :: Time
  inNotAfter :: Time

definition BuildCACertificate :: "cryptobyte \<Rightarrow> CACertificateInput \<Rightarrow> bytes result" where
  "BuildCACertificate cb i =
     (if inCAID i = [] then Inl (Errorf ''cert: CA certificate needs a CA ID'')
      else if inCosignerSPKI i = [] then Inl (Errorf ''cert: CA certificate needs a cosigner SPKI'')
      else
        rbind (BuildCAName (inCAID i)) (\<lambda>dn.
        rbind (rwrap ''cert: CA ID'' (Binary (inCAID i))) (\<lambda>binID.
        rbind (MTCCA_Marshal \<lparr>CALogHash = inLogHash i, CASigAlg = inSigAlg i, MinSerial = inMinSerial i\<rparr>) (\<lambda>mtcExtVal.
        rbind (rmap marshalExtensionDER
            [\<lparr>xID = oidExtBasicConstraints, xCritical = True, xValue = tlv 0x30 (tlv 0x01 [0xff])\<rparr>,
             \<lparr>xID = oidExtKeyUsage, xCritical = True, xValue = tlv 0x03 [2, 0x04]\<rparr>,
             \<lparr>xID = OIDExtMTCCertificationAuthority, xCritical = True, xValue = mtcExtVal\<rparr>,
             \<lparr>xID = oidExtSubjectKeyID, xCritical = False, xValue = tlv 0x04 binID\<rparr>]) (\<lambda>exts.
        rbind (marshalAlgID OIDAlgUnsigned) (\<lambda>algID.
        rbind (encodeValidity (UTCTime.truncate (inNotBefore i)) (UTCTime.truncate (inNotAfter i))) (\<lambda>validityDER.
          let b1 = rbind (AddASN1Int64 cb 2) (AddASN1 cb 0xa0);
              b2 = badd b1 (AddASN1BigInt cb 1);
              b3 = badd b2 (Inr (algID @ dn @ validityDER @ dn @ inCosignerSPKI i));
              b4 = badd b3 (AddASN1 cb 0xa3 (tlv 0x30 (concat exts)))
          in rbind b4 (\<lambda>tbsBody.
             rbind (badd (Inr (wrapSequence tbsBody @ algID)) (AddASN1BitString cb [])) (\<lambda>outerBody.
               Inr (wrapSequence outerBody))))))))))"

section \<open>Reading the certificate\<close>

lemma parseStruct_shorter: "parseStruct bs = Inr (b, r) \<Longrightarrow> length r < length bs"
  by (auto simp: parseStruct_def rbind_eq_Inr dest: parseField_shorter)

lemma unmarshalExtension_shorter: "unmarshalExtension bs = Inr (e, r) \<Longrightarrow> length r < length bs"
  by (auto simp: unmarshalExtension_def rbind_eq_Inr dest: parseStruct_shorter)

function caExtLoop :: "bytes \<Rightarrow> (nat list \<Rightarrow> bytes option) \<Rightarrow> (nat list \<Rightarrow> bytes option) result" where
  "caExtLoop rest exts =
     (if rest = [] then Inr exts
      else case unmarshalExtension rest of
        Inl e \<Rightarrow> Inl (wrapf ''cert: CA cert extension'' e)
      | Inr (e, rest') \<Rightarrow> caExtLoop rest' (exts(xID e \<mapsto> xValue e)))"
  by pat_completeness auto
termination
  by (relation "measure (\<lambda>(rest, _). length rest)") (auto dest: unmarshalExtension_shorter)

declare caExtLoop.simps [simp del]

function caTailLoop :: "bytes \<Rightarrow> (nat list \<Rightarrow> bytes option) \<Rightarrow> (nat list \<Rightarrow> bytes option) result" where
  "caTailLoop body exts =
     (if body = [] then Inr exts
      else case unmarshalRaw body of
        Inl e \<Rightarrow> Inl e
      | Inr (rv, body') \<Rightarrow>
          if rvClass rv \<noteq> 2 \<or> rvTag rv \<noteq> 3 then caTailLoop body' exts
          else case unmarshalRaw (rvBytes rv) of
            Inl e \<Rightarrow> Inl (wrapf ''cert: CA cert extensions'' e)
          | Inr (extSeq, _) \<Rightarrow>
              (case caExtLoop (rvBytes extSeq) exts of
                 Inl e \<Rightarrow> Inl e
               | Inr exts' \<Rightarrow> caTailLoop body' exts'))"
  by pat_completeness auto
termination
  by (relation "measure (\<lambda>(body, _). length body)") (auto dest: parseField_shorter)

declare caTailLoop.simps [simp del]

definition takeField :: "string \<Rightarrow> bytes \<Rightarrow> (bytes \<times> bytes) result" where
  "takeField name body = rbind (rwrap (''cert: CA cert '' @ name) (unmarshalRaw body)) (\<lambda>(rv, rest). Inr (FullBytes rv, rest))"

definition parseCACertificate :: "bytes \<Rightarrow> (bytes \<times> bytes \<times> (nat list \<Rightarrow> bytes option)) result" where
  "parseCACertificate der =
     rbind (SplitCertificate der) (\<lambda>(tbs, _, _).
     rbind (unmarshalRaw tbs) (\<lambda>(outer, _).
     rbind (takeField ''version'' (rvBytes outer)) (\<lambda>(_, b1).
     rbind (takeField ''serialNumber'' b1) (\<lambda>(_, b2).
     rbind (takeField ''signature'' b2) (\<lambda>(_, b3).
     rbind (takeField ''issuer'' b3) (\<lambda>(_, b4).
     rbind (takeField ''validity'' b4) (\<lambda>(_, b5).
     rbind (takeField ''subject'' b5) (\<lambda>(subjectDN, b6).
     rbind (takeField ''subjectPublicKeyInfo'' b6) (\<lambda>(spki, b7).
     rbind (caTailLoop b7 Map.empty) (\<lambda>exts. Inr (subjectDN, spki, exts)))))))))))"

definition parseCANameDN :: "(bytes \<Rightarrow> bytes result) \<Rightarrow> bytes \<Rightarrow> TrustAnchorID result" where
  "parseCANameDN bmp dn =
     rbind (unmarshalRaw dn) (\<lambda>(rdnSeq, _).
       if rvTag rdnSeq \<noteq> 16 then Inl (Errorf ''cert: CA DN is not a SEQUENCE'')
       else rbind (unmarshalRaw (rvBytes rdnSeq)) (\<lambda>(rdn, _).
         if rvTag rdn \<noteq> 17 then Inl (Errorf ''cert: CA DN RDN is not a SET'')
         else
           rbind (parseStruct (rvBytes rdn)) (\<lambda>(body, _).
           rbind (unmarshalOID body) (\<lambda>(oid, r).
           rbind (unmarshalString bmp r) (\<lambda>(val, _).
             if oid \<noteq> OIDRDNATrustAnchorID then Inl (Errorf ''cert: CA DN attribute type is not id-rdna-trustAnchorID'')
             else if val = [] then Inl (Errorf ''cert: CA DN has empty trust anchor ID'')
             else Inr (string_of val))))))"

definition ConfigFromCACertificate :: "(bytes \<Rightarrow> bytes result) \<Rightarrow> bytes \<Rightarrow> RelyingPartyConfig result" where
  "ConfigFromCACertificate bmp caCertDER =
     rbind (parseCACertificate caCertDER) (\<lambda>(subjectDN, spki, exts).
       case exts OIDExtMTCCertificationAuthority of
         None \<Rightarrow> Inl (Errorf ''cert: CA certificate missing id-pe-mtcCertificationAuthority extension'')
       | Some mtcExt \<Rightarrow>
           rbind (ParseMTCCertificationAuthority mtcExt) (\<lambda>ca.
             if CALogHash ca \<noteq> OIDDigestSHA256 then Inl (Errorf ''cert: unsupported log hash (only id-sha256 is supported)'')
             else
               rbind (rwrap ''cert: CA certificate subject'' (parseCANameDN bmp subjectDN)) (\<lambda>caID.
               rbind (cosignerKeyFromSPKI caID spki (CASigAlg ca)) (\<lambda>cosigner.
                 Inr \<lparr>RPCAID = caID, RPCADN = Some subjectDN, RPLogHash = CALogHash ca, Cosigners = [cosigner],
                      RequiredCosigners = [caID], RevokedRanges = InitialRevokedRanges ca, TrustedSubtrees = Map.empty\<rparr>))))"

section \<open>Object identifiers round trip\<close>

lemma length_base128_hi: "m < 128 ^ k \<Longrightarrow> length (base128_hi m) \<le> k"
proof (induction k arbitrary: m)
  case (Suc k)
  have "m div 128 < 128 ^ k" using Suc.prems by (simp add: less_mult_imp_div_less mult.commute)
  then show ?case using Suc.IH by (simp add: base128_hi.simps [of m])
qed (simp add: base128_hi.simps)

lemma byte_high: "n < 128 \<Longrightarrow> (of_nat (n + 128) :: byte) AND 0x80 \<noteq> 0 \<and> unat ((of_nat (n + 128) :: byte) AND 0x7f) = n"
  "n < 128 \<Longrightarrow> (of_nat n :: byte) AND 0x80 = 0 \<and> unat ((of_nat n :: byte) AND 0x7f) = n"
proof -
  have h: "(b :: byte) AND 0x80 \<noteq> 0 \<longleftrightarrow> 128 \<le> unat b" for b using byte_and_high byte_bit_7 by auto
  assume n: "n < 128"
  then show "(of_nat n :: byte) AND 0x80 = 0 \<and> unat ((of_nat n :: byte) AND 0x7f) = n"
    using h [of "of_nat n"] by (auto simp: byte_and_7f unat_of_nat_byte)
  show "(of_nat (n + 128) :: byte) AND 0x80 \<noteq> 0 \<and> unat ((of_nat (n + 128) :: byte) AND 0x7f) = n"
    using n h [of "of_nat (n + 128)"] unat_of_nat_byte [of "n + 128"] unfolding byte_and_7f by (simp del: of_nat_add)
qed

lemma parse_base128_hi:
  "length (base128_hi m) \<le> 5 \<Longrightarrow> parseBase128Int 0 0 (base128_hi m @ rest) = parseBase128Int (length (base128_hi m)) m rest"
proof (induction m arbitrary: rest rule: base128_hi.induct)
  case (1 m)
  show ?case
  proof (cases "m = 0")
    case False
    let ?x = "of_nat (m mod 128 + 128) :: byte" and ?h = "base128_hi (m div 128)"
    have e: "base128_hi m = ?h @ [?x]" using False by (simp add: base128_hi.simps [of m])
    then have l: "length ?h < 5" using 1(2) by simp
    have x: "?x AND 0x80 \<noteq> 0 \<and> unat (?x AND 0x7f) = m mod 128" by (rule byte_high(1)) simp
    have z: "?x \<noteq> 0x80" if "?h = []"
    proof -
      have "m div 128 = 0" using that by (simp add: base128_hi.simps [of "m div 128"] split: if_splits)
      then have "m mod 128 \<noteq> 0" using False by (metis div_mult_mod_eq add.right_neutral mult_zero_left)
      then show ?thesis using x by auto
    qed
    have "parseBase128Int 0 0 (?h @ ?x # rest) = parseBase128Int (length ?h) (m div 128) (?x # rest)"
      using 1(1) [OF False, of "?x # rest"] l by simp
    also have "\<dots> = parseBase128Int (length ?h + 1) m rest"
      using x z l by (auto simp: Let_def simp del: of_nat_add)
    finally show ?thesis using e by simp
  qed (simp add: base128_hi.simps)
qed

lemma parse_base128:
  assumes "n < 2 ^ 31"
  shows "parseBase128Int 0 0 (base128 n @ rest) = Inr (n, rest)"
proof -
  have "n div 128 < 128 ^ 4" using assms by (simp add: less_mult_imp_div_less)
  then have l: "length (base128_hi (n div 128)) \<le> 4" by (rule length_base128_hi)
  let ?x = "of_nat (n mod 128) :: byte"
  have x: "?x AND 0x80 = 0 \<and> unat (?x AND 0x7f) = n mod 128" by (rule byte_high(2)) simp
  then have "?x \<noteq> 0x80" by auto
  then show ?thesis using parse_base128_hi [of "n div 128" "?x # rest"] l x assms by (simp add: base128_def Let_def)
qed

lemma oidLoop_base128: "\<forall>a\<in>set as. a < 2 ^ 31 \<Longrightarrow> oidLoop (concat (map base128 as)) = Inr as"
proof (induction as)
  case (Cons a as)
  have "base128 a @ concat (map base128 as) \<noteq> []" by (simp add: base128_def)
  then show ?case using Cons parse_base128 [of a "concat (map base128 as)"] by (simp add: oidLoop.simps [of "base128 a @ _"])
qed (simp add: oidLoop.simps)

definition oid_ok :: "nat list \<Rightarrow> bool" where
  "oid_ok oid \<longleftrightarrow> (case oid of a # b # r \<Rightarrow> a \<le> 2 \<and> (a < 2 \<longrightarrow> b < 40) \<and> b < 2 ^ 31 - 80 \<and> (\<forall>x\<in>set r. x < 2 ^ 31) \<and> length r \<le> 100 | _ \<Rightarrow> False)"

lemma length_base128: "n < 2 ^ 31 \<Longrightarrow> length (base128 n) \<le> 5"
  using length_base128_hi [of "n div 128" 4] by (simp add: base128_def less_mult_imp_div_less)

lemma oid_roundtrip:
  assumes "oid_ok oid"
  obtains b where "marshalOID oid = Inr (tlv 0x06 b)" "parseObjectIdentifier b = Inr oid" "length b \<le> 600"
proof -
  obtain x y r where o: "oid = x # y # r" using assms by (auto simp: oid_ok_def split: list.splits)
  then have c: "x \<le> 2" "x < 2 \<longrightarrow> y < 40" "y < 2 ^ 31 - 80" "\<forall>x\<in>set r. x < 2 ^ 31" "length r \<le> 100" using assms by (simp_all add: oid_ok_def)
  let ?b = "base128 (x * 40 + y) @ concat (map base128 r)"
  have v: "x * 40 + y < 2 ^ 31" using c(1,3) by simp
  have "marshalOID oid = Inr (tlv 0x06 ?b)" using o c(1,2) by (auto simp: marshalOID_def not_le)
  moreover have "(if x * 40 + y < 80 then [(x * 40 + y) div 40, (x * 40 + y) mod 40] else [2, x * 40 + y - 80]) = [x, y]"
  proof (cases "x < 2")
    case True
    then show ?thesis using c(2) by (cases "x = 0") auto
  qed (use c(1) in auto)
  then have "parseObjectIdentifier ?b = Inr oid"
    using parse_base128 [OF v, of "concat (map base128 r)"] oidLoop_base128 [OF c(4)] o by (simp add: parseObjectIdentifier_def base128_def)
  moreover have "length (concat (map base128 r)) \<le> 5 * length r"
    using c(4)
  proof (induction r)
    case (Cons a r)
    then show ?case using length_base128 [of a] by simp
  qed simp
  then have "length ?b \<le> 600" using length_base128 [OF v] c(5) by simp
  ultimately show thesis using that by blast
qed

lemma unmarshalOID_tlv:
  "parseObjectIdentifier b = Inr oid \<Longrightarrow> length b < 2 ^ 31 \<Longrightarrow> unmarshalOID (tlv 0x06 b @ r) = Inr (oid, r)"
  using parseField_tlv [of "0x06" b "Some (0, 6, False)" r] by (simp add: unmarshalOID_def)

lemma parseStruct_tlv: "length b < 2 ^ 31 \<Longrightarrow> parseStruct (tlv 0x30 b @ r) = Inr (b, r)"
  using parseField_tlv [of "0x30" b "Some (0, 16, True)" r] by (simp add: parseStruct_def)

lemma algid_roundtrip:
  assumes "oid_ok oid"
  obtains b where "marshalAlgID oid = Inr (tlv 0x30 (tlv 0x06 b))" "length (tlv 0x06 b) \<le> 606" "\<And>r. unmarshalOID (tlv 0x06 b @ r) = Inr (oid, r)"
    "\<And>r. unmarshalAlgID (tlv 0x30 (tlv 0x06 b) @ r) = Inr ((oid, []), r)"
proof -
  obtain b where b: "marshalOID oid = Inr (tlv 0x06 b)" "parseObjectIdentifier b = Inr oid" "length b \<le> 600" by (rule oid_roundtrip [OF assms])
  have l: "length (tlv 0x06 b) \<le> 606" using tlv_length [of "0x06" b] b(3) by simp
  have o: "unmarshalOID (tlv 0x06 b @ r) = Inr (oid, r)" for r using unmarshalOID_tlv [OF b(2)] b(3) by simp
  have "unmarshalAlgID (tlv 0x30 (tlv 0x06 b) @ r) = Inr ((oid, []), r)" for r
    using parseStruct_tlv [of "tlv 0x06 b" r] l o [of "[]"] by (simp add: unmarshalAlgID_def)
  then show thesis using that b(1) l o by (simp add: marshalAlgID_def)
qed

lemma bigint_roundtrip: "unmarshalBigInt (tlv 0x02 (int_octets (unat (n :: u64))) @ r) = Inr (uint n, r)"
proof -
  have "unat n < 128 * 256 ^ 8" using unat_less_u64 [of n] by simp
  then have "length (int_octets (unat n)) \<le> 9" using length_int_octets [of "unat n" 8] by simp
  then show ?thesis
    using parseField_tlv [of "0x02" "int_octets (unat n)" "Some (0, 2, False)" r] by (simp add: unmarshalBigInt_def parseBigInt_int_octets)
qed

section \<open>The extension round trips\<close>

lemma MTCCA_roundtrip:
  assumes "oid_ok (CALogHash m)" "oid_ok (CASigAlg m)" "MTCCA_Marshal m = Inr b"
  shows "ParseMTCCertificationAuthority b = Inr m" "length b \<le> 2000"
proof -
  obtain h where h: "marshalAlgID (CALogHash m) = Inr (tlv 0x30 (tlv 0x06 h))" "length (tlv 0x06 h) \<le> 606"
      "\<And>r. unmarshalAlgID (tlv 0x30 (tlv 0x06 h) @ r) = Inr ((CALogHash m, []), r)"
    using algid_roundtrip [OF assms(1)] by metis
  obtain s where s: "marshalAlgID (CASigAlg m) = Inr (tlv 0x30 (tlv 0x06 s))" "length (tlv 0x06 s) \<le> 606"
      "\<And>r. unmarshalAlgID (tlv 0x30 (tlv 0x06 s) @ r) = Inr ((CASigAlg m, []), r)"
    using algid_roundtrip [OF assms(2)] by metis
  let ?i = "tlv 0x02 (int_octets (unat (MinSerial m)))"
  let ?in = "tlv 0x30 (tlv 0x06 h) @ tlv 0x30 (tlv 0x06 s) @ ?i"
  have b: "b = tlv 0x30 ?in" using assms(3) h(1) s(1) by (auto simp: MTCCA_Marshal_def split: if_splits)
  have "unat (MinSerial m) < 128 * 256 ^ 8" using unat_less_u64 [of "MinSerial m"] by simp
  then have "length (int_octets (unat (MinSerial m))) \<le> 9" using length_int_octets [of "unat (MinSerial m)" 8] by simp
  then have l: "length ?in \<le> 1500"
    using tlv_length [of "0x30" "tlv 0x06 h"] tlv_length [of "0x30" "tlv 0x06 s"] tlv_length [of "0x02" "int_octets (unat (MinSerial m))"] h(2) s(2)
    by simp
  then show "length b \<le> 2000" using tlv_length [of "0x30" ?in] b by simp
  have "parseStruct b = Inr (?in, [])" using parseStruct_tlv [of ?in "[]"] l b by simp
  moreover have "uint (MinSerial m) < 2 ^ 64" using uint_lt2p [of "MinSerial m"] by simp
  ultimately show "ParseMTCCertificationAuthority b = Inr m"
    using h(3) s(3) bigint_roundtrip [of "MinSerial m" "[]"] by (simp add: ParseMTCCertificationAuthority_def)
qed

lemma extension_roundtrip:
  assumes "oid_ok (xID e)" "length (xValue e) < 2 ^ 30" "marshalExtensionDER e = Inr d"
  shows "unmarshalExtension (d @ r) = Inr (e, r)"
proof -
  obtain o1 where o1: "marshalOID (xID e) = Inr (tlv 0x06 o1)" "parseObjectIdentifier o1 = Inr (xID e)" "length o1 \<le> 600"
    by (rule oid_roundtrip [OF assms(1)])
  let ?c = "if xCritical e then tlv 0x01 [0xff] else []" and ?v = "tlv 0x04 (xValue e)"
  have d: "d = tlv 0x30 (tlv 0x06 o1 @ ?c @ ?v)" using assms(3) o1(1) by (simp add: marshalExtensionDER_def marshalOctets_tlv)
  have "length (tlv 0x06 o1 @ ?c @ ?v) < 2 ^ 31"
    using tlv_length [of "0x06" o1] tlv_length [of "0x04" "xValue e"] tlv_length [of "0x01" "[0xff]"] o1(3) assms(2) by simp
  then have st: "parseStruct (d @ r) = Inr (tlv 0x06 o1 @ ?c @ ?v, r)" unfolding d by (rule parseStruct_tlv)
  have oid: "unmarshalOID (tlv 0x06 o1 @ ?c @ ?v) = Inr (xID e, ?c @ ?v)" using unmarshalOID_tlv [OF o1(2)] o1(3) by simp
  have val: "unmarshalOctets ?v = Inr (xValue e, [])"
    using parseField_tlv [of "0x04" "xValue e" "Some (0, 4, False)" "[]"] assms(2) by (simp add: unmarshalOctets_def)
  have ne: "?c @ ?v \<noteq> []" by (simp add: tlv_Cons)
  have "unmarshalOptBool (?c @ ?v) = Inr (xCritical e, ?v)"
  proof (cases "xCritical e")
    case True
    have "parseTagAndLength (tlv 0x01 [0xff] @ ?v) = Inr (\<lparr>tlClass = 0, tlTag = 1, tlLength = 1, tlCompound = False\<rparr>, [0xff] @ ?v)"
      using parseTagAndLength_tlv [of "0x01" "[0xff]" ?v] by simp
    moreover have "parseField (Some (0, 1, False)) (tlv 0x01 [0xff] @ ?v) = Inr (element 0x01 [0xff], ?v)" by (rule parseField_tlv) simp_all
    ultimately show ?thesis using True ne by (simp add: unmarshalOptBool_def)
  next
    case False
    have "parseTagAndLength ?v = Inr (\<lparr>tlClass = 0, tlTag = 4, tlLength = length (xValue e), tlCompound = False\<rparr>, xValue e)"
      using parseTagAndLength_tlv [of "0x04" "xValue e" "[]"] assms(2) by simp
    then show ?thesis using False ne by (simp add: unmarshalOptBool_def)
  qed
  then show ?thesis using st oid val by (simp add: unmarshalExtension_def)
qed

definition add_ext :: "(nat list \<Rightarrow> bytes option) \<Rightarrow> pkixExtension \<Rightarrow> nat list \<Rightarrow> bytes option" where
  "add_ext m e = m(xID e \<mapsto> xValue e)"

lemma caExtLoop_exts:
  assumes "rmap marshalExtensionDER es = Inr ds" "\<forall>e\<in>set es. oid_ok (xID e) \<and> length (xValue e) < 2 ^ 30"
  shows "caExtLoop (concat ds) m = Inr (foldl add_ext m es)"
  using assms
proof (induction es arbitrary: ds m)
  case (Cons e es)
  then obtain d ds' where d: "marshalExtensionDER e = Inr d" "rmap marshalExtensionDER es = Inr ds'" "ds = d # ds'"
    by (auto simp: rbind_eq_Inr)
  have u: "unmarshalExtension (d @ concat ds') = Inr (e, concat ds')" using extension_roundtrip [OF _ _ d(1)] Cons.prems(2) by simp
  then have "d @ concat ds' \<noteq> []" using unmarshalExtension_shorter [OF u] by auto
  then have "caExtLoop (concat ds) m = caExtLoop (concat ds') (add_ext m e)"
    using u d(3) by (auto simp: caExtLoop.simps [of "d @ concat ds'"] add_ext_def)
  then show ?case using Cons.IH [OF d(2)] Cons.prems(2) by simp
qed (simp add: caExtLoop.simps)

section \<open>The certificate round trips\<close>

lemma utf8Valid_ascii: "\<forall>b\<in>set bs. b < 0x80 \<Longrightarrow> utf8Valid bs"
  by (induction bs) auto

lemma bytes_of_ascii: "\<forall>c\<in>set s. of_char c < (128 :: nat) \<Longrightarrow> b \<in> set (bytes_of s) \<Longrightarrow> b < 0x80"
  by (auto simp: bytes_of_def word_less_nat_alt of_char_byte)

lemma CAName_roundtrip:
  assumes "BuildCAName caID = Inr dn" "\<forall>c\<in>set caID. of_char c < (128 :: nat)" "length dn < 2 ^ 30"
  shows "parseCANameDN bmp dn = Inr caID"
proof -
  have ok: "oid_ok OIDRDNATrustAnchorID" by (simp add: oid_ok_def OIDRDNATrustAnchorID_def)
  obtain o1 where o1: "marshalOID OIDRDNATrustAnchorID = Inr (tlv 0x06 o1)" "parseObjectIdentifier o1 = Inr OIDRDNATrustAnchorID"
      "length o1 \<le> 600" by (rule oid_roundtrip [OF ok])
  let ?s = "tlv 0x0c (bytes_of caID)"
  have dn: "dn = tlv 0x30 (tlv 0x31 (tlv 0x30 (tlv 0x06 o1 @ ?s)))" and ne: "caID \<noteq> []"
    using assms(1) o1(1) by (auto simp: BuildCAName_def split: if_splits)
  have len: "length (tlv 0x31 (tlv 0x30 (tlv 0x06 o1 @ ?s))) < 2 ^ 31" "length (tlv 0x30 (tlv 0x06 o1 @ ?s)) < 2 ^ 31"
      "length (tlv 0x06 o1 @ ?s) < 2 ^ 31" "length (bytes_of caID) < 2 ^ 31"
    using assms(3) unfolding dn by (simp_all add: tlv_def)
  have 1: "unmarshalRaw dn = Inr (element 0x30 (tlv 0x31 (tlv 0x30 (tlv 0x06 o1 @ ?s))), [])"
    using tlv_element [of "0x30", OF _ len(1), of "[]"] dn by simp
  have 2: "unmarshalRaw (tlv 0x31 (tlv 0x30 (tlv 0x06 o1 @ ?s))) = Inr (element 0x31 (tlv 0x30 (tlv 0x06 o1 @ ?s)), [])"
    using tlv_element [of "0x31", OF _ len(2), of "[]"] by simp
  have 3: "parseStruct (tlv 0x30 (tlv 0x06 o1 @ ?s)) = Inr (tlv 0x06 o1 @ ?s, [])" using parseStruct_tlv [OF len(3), of "[]"] by simp
  have 4: "unmarshalOID (tlv 0x06 o1 @ ?s) = Inr (OIDRDNATrustAnchorID, ?s)" using unmarshalOID_tlv [OF o1(2)] o1(3) by simp
  have v: "utf8Valid (bytes_of caID)" using bytes_of_ascii [OF assms(2)] by (intro utf8Valid_ascii) blast
  have 5: "unmarshalString bmp ?s = Inr (bytes_of caID, [])"
    using tlv_element [of "0x0c", OF _ len(4), of "[]"] v by (simp add: unmarshalString_def Let_def)
  have "bytes_of caID \<noteq> []" using ne by (simp add: bytes_of_def)
  then show ?thesis using 1 2 3 4 5 by (simp add: parseCANameDN_def)
qed

lemma SigAlgOID_ok: "SigAlgOID alg = Inr oid \<Longrightarrow> oid_ok oid \<and> algFromSigAlgOID oid = Inr alg"
  by (auto simp: SigAlgOID_def oid_ok_def algFromSigAlgOID_def oidSigMLDSA44_def oidSigMLDSA65_def oidSigMLDSA87_def
      split: SignatureAlgorithm.splits)

lemma tlv_longer: "length b \<le> length (tlv t b)"
  by (simp add: tlv_def)

lemma SPKI_roundtrip:
  assumes "SigAlgOID alg = Inr oid" "MarshalCosignerSPKI alg pub = Inr spki" "length spki < 2 ^ 30"
  shows "cosignerKeyFromSPKI ID spki oid = Inr \<lparr>CKID = ID, CKAlgorithm = alg, CKPublicKey = pub\<rparr>" "is_element spki"
proof -
  note ok = SigAlgOID_ok [OF assms(1)]
  obtain b where b: "marshalAlgID oid = Inr (tlv 0x30 (tlv 0x06 b))" "length (tlv 0x06 b) \<le> 606" "\<And>r. unmarshalOID (tlv 0x06 b @ r) = Inr (oid, r)"
    using algid_roundtrip ok by metis
  let ?in = "tlv 0x30 (tlv 0x06 b) @ tlv 0x03 (0 # pub)"
  have s: "spki = tlv 0x30 ?in" using assms(1,2) b(1) by (simp add: MarshalCosignerSPKI_def)
  have len: "length ?in < 2 ^ 31" "length (tlv 0x06 b) < 2 ^ 31" "length (0 # pub) < 2 ^ 31"
    using assms(3) b(2) tlv_longer [of ?in "0x30"] tlv_longer [of "0 # pub" "0x03"] unfolding s by simp_all
  have 1: "unmarshalRaw spki = Inr (element 0x30 ?in, [])" using tlv_element [of "0x30", OF _ len(1), of "[]"] s by simp
  then show "is_element spki" by (simp add: is_element_def)
  have 2: "unmarshalRaw ?in = Inr (element 0x30 (tlv 0x06 b), tlv 0x03 (0 # pub))" using tlv_element [of "0x30", OF _ len(2)] by simp
  have 3: "unmarshalBitString (tlv 0x03 (0 # pub)) = Inr ((pub, 0), [])"
    using parseField_tlv [of "0x03" "0 # pub" "Some (0, 3, False)" "[]"] len(3) by (simp add: unmarshalBitString_def parseBitString_def)
  have "rawKeyFromSPKI spki oid = Inr pub" using 1 2 3 b(3) [of "[]"] by (simp add: rawKeyFromSPKI_def)
  then show "cosignerKeyFromSPKI ID spki oid = Inr \<lparr>CKID = ID, CKAlgorithm = alg, CKPublicKey = pub\<rparr>"
    using ok by (simp add: cosignerKeyFromSPKI_def)
qed

lemma takeField_element: "is_element b \<Longrightarrow> takeField name (b @ r) = Inr (b, r)"
  by (erule is_elementE) (simp add: takeField_def)

lemma caTailLoop_exts:
  assumes "rmap marshalExtensionDER es = Inr ds" "\<forall>e\<in>set es. oid_ok (xID e) \<and> length (xValue e) < 2 ^ 30" "length (tlv 0x30 (concat ds)) < 2 ^ 31"
  shows "caTailLoop (tlv 0xa3 (tlv 0x30 (concat ds))) m = Inr (foldl add_ext m es)"
proof -
  have "length (concat ds) < 2 ^ 31" using assms(3) tlv_longer [of "concat ds" "0x30"] by simp
  then have "unmarshalRaw (tlv 0x30 (concat ds)) = Inr (element 0x30 (concat ds), [])" using tlv_element [of "0x30" "concat ds" "[]"] by simp
  moreover have "unmarshalRaw (tlv 0xa3 (tlv 0x30 (concat ds))) = Inr (element 0xa3 (tlv 0x30 (concat ds)), [])"
    using tlv_element [of "0xa3" "tlv 0x30 (concat ds)" "[]"] assms(3) by simp
  moreover have "tlv 0xa3 (tlv 0x30 (concat ds)) \<noteq> []" by (simp add: tlv_Cons)
  ultimately show ?thesis
    using caExtLoop_exts [OF assms(1,2), of m]
    by (simp add: caTailLoop.simps [of "tlv 0xa3 (tlv 0x30 (concat ds))"] caTailLoop.simps [of "[]"])
qed

definition ca_exts :: "bytes \<Rightarrow> bytes \<Rightarrow> pkixExtension list" where
  "ca_exts mtcExtVal binID =
     [\<lparr>xID = oidExtBasicConstraints, xCritical = True, xValue = tlv 0x30 (tlv 0x01 [0xff])\<rparr>,
      \<lparr>xID = oidExtKeyUsage, xCritical = True, xValue = tlv 0x03 [2, 0x04]\<rparr>,
      \<lparr>xID = OIDExtMTCCertificationAuthority, xCritical = True, xValue = mtcExtVal\<rparr>,
      \<lparr>xID = oidExtSubjectKeyID, xCritical = False, xValue = tlv 0x04 binID\<rparr>]"

lemma ca_exts_ok:
  "e \<in> set (ca_exts mv binID) \<Longrightarrow> oid_ok (xID e)"
  "foldl add_ext Map.empty (ca_exts mv binID) OIDExtMTCCertificationAuthority = Some mv"
  by (auto simp: ca_exts_def oid_ok_def add_ext_def oidExtBasicConstraints_def oidExtKeyUsage_def OIDExtMTCCertificationAuthority_def
      oidExtSubjectKeyID_def)

lemma rmap_ext_length:
  "rmap marshalExtensionDER es = Inr ds \<Longrightarrow> e \<in> set es \<Longrightarrow> length (xValue e) \<le> length (concat ds)"
proof (induction es arbitrary: ds)
  case (Cons a es)
  then obtain d ds' where d: "marshalExtensionDER a = Inr d" "rmap marshalExtensionDER es = Inr ds'" "ds = d # ds'" by (auto simp: rbind_eq_Inr)
  have "length (xValue a) \<le> length d" using d(1) by (auto simp: marshalExtensionDER_def rbind_eq_Inr marshalOctets_def tlv_def)
  then show ?case using Cons.IH [OF d(2)] Cons.prems(2) d(3) by auto
qed simp

text \<open>The certificate that is built, in its parts.\<close>

lemma BuildCACertificate_parts:
  assumes "cryptobyte_laws cb" "BuildCACertificate cb i = Inr der"
  obtains dn mv binID ds alg val sb where "BuildCAName (inCAID i) = Inr dn" "Binary (inCAID i) = Inr binID"
    "MTCCA_Marshal \<lparr>CALogHash = inLogHash i, CASigAlg = inSigAlg i, MinSerial = inMinSerial i\<rparr> = Inr mv"
    "rmap marshalExtensionDER (ca_exts mv binID) = Inr ds" "marshalAlgID OIDAlgUnsigned = Inr alg"
    "encodeValidity (UTCTime.truncate (inNotBefore i)) (UTCTime.truncate (inNotAfter i)) = Inr val" "length sb \<le> 9"
    "der = tlv 0x30 (tlv 0x30 (version3 @ tlv 0x02 sb @ alg @ dn @ val @ dn @ inCosignerSPKI i @ tlv 0xa3 (tlv 0x30 (concat ds)))
       @ alg @ tlv 0x03 [0])"
proof -
  obtain sb where sb: "AddASN1BigInt cb 1 = Inr (tlv 0x02 sb)" "length sb \<le> 9"
    using cryptobyte_laws.read_bigint [OF assms(1), of 1] by auto
  have ver: "rbind (AddASN1Int64 cb 2) (AddASN1 cb 0xa0) = Inr version3"
    using cryptobyte_laws.add_int64 [OF assms(1), of 2] cryptobyte_laws.add_asn1 [OF assms(1), of "0xa0" "tlv 2 [2]"]
    by (simp add: version3_def tlv_def appendDERLength_def)
  have bits: "AddASN1BitString cb [] = Inr (tlv 0x03 [0])" using cryptobyte_laws.add_bits [OF assms(1), of "[]"] by simp
  note ext = cryptobyte_laws.add_asn1_octets [OF assms(1)]
  show thesis
    using assms(2) unfolding BuildCACertificate_def ver sb(1) bits Let_def wrapSequence_tlv ca_exts_def [symmetric]
    by (auto simp: rbind_eq_Inr badd_eq_Inr split: if_splits dest!: ext intro!: that [OF _ _ _ _ _ _ sb(2)])
qed

lemma caConfig:
  assumes "cryptobyte_laws cb" "BuildCACertificate cb i = Inr der" "length der < 2 ^ 30" "SigAlgOID alg = Inr (inSigAlg i)"
    "MarshalCosignerSPKI alg pub = Inr (inCosignerSPKI i)" "inLogHash i = OIDDigestSHA256" "\<forall>c\<in>set (inCAID i). of_char c < (128 :: nat)"
  shows "\<exists>dn. BuildCAName (inCAID i) = Inr dn \<and> ConfigFromCACertificate bmp der =
    Inr \<lparr>RPCAID = inCAID i, RPCADN = Some dn, RPLogHash = OIDDigestSHA256,
         Cosigners = [\<lparr>CKID = inCAID i, CKAlgorithm = alg, CKPublicKey = pub\<rparr>], RequiredCosigners = [inCAID i],
         RevokedRanges = (if inMinSerial i = 0 then [] else [\<lparr>RRStart = 0, RREnd = inMinSerial i\<rparr>]), TrustedSubtrees = Map.empty\<rparr>"
proof -
  let ?m = "\<lparr>CALogHash = inLogHash i, CASigAlg = inSigAlg i, MinSerial = inMinSerial i\<rparr>"
  obtain dn mv binID ds a val sb where dn: "BuildCAName (inCAID i) = Inr dn" and mv: "MTCCA_Marshal ?m = Inr mv"
    and ds: "rmap marshalExtensionDER (ca_exts mv binID) = Inr ds" and a: "marshalAlgID OIDAlgUnsigned = Inr a"
    and val: "encodeValidity (UTCTime.truncate (inNotBefore i)) (UTCTime.truncate (inNotAfter i)) = Inr val" and sb: "length sb \<le> 9"
    and der: "der = tlv 0x30 (tlv 0x30 (version3 @ tlv 0x02 sb @ a @ dn @ val @ dn @ inCosignerSPKI i @ tlv 0xa3 (tlv 0x30 (concat ds)))
       @ a @ tlv 0x03 [0])"
    by (rule BuildCACertificate_parts [OF assms(1,2)])
  let ?x = "tlv 0xa3 (tlv 0x30 (concat ds))"
  let ?body = "version3 @ tlv 0x02 sb @ a @ dn @ val @ dn @ inCosignerSPKI i @ ?x"
  have lb: "length ?body < 2 ^ 30"
    using assms(3) tlv_longer [of ?body "0x30"] tlv_longer [of "tlv 0x30 ?body @ a @ tlv 0x03 [0]" "0x30"] unfolding der by simp
  then have l: "length dn < 2 ^ 30" "length val < 2 ^ 31" "length (inCosignerSPKI i) < 2 ^ 30" "length (tlv 0x30 (concat ds)) < 2 ^ 30"
      "length (concat ds) < 2 ^ 30"
    using tlv_longer [of "tlv 0x30 (concat ds)" "0xa3"] tlv_longer [of "concat ds" "0x30"] by simp_all
  have okU: "oid_ok OIDAlgUnsigned" by (simp add: oid_ok_def OIDAlgUnsigned_def)
  obtain u where "marshalAlgID OIDAlgUnsigned = Inr (tlv 0x30 (tlv 0x06 u))" "length (tlv 0x06 u) \<le> 606" using algid_roundtrip [OF okU] by metis
  then have ea: "is_element a" using a tlv_element [of "0x30" "tlv 0x06 u" "[]"] by (auto simp: is_element_def)
  have ev: "is_element version3" "is_element (tlv 0x02 sb)"
    using version3_element(1) [of "[]"] tlv_element [of "0x02" sb "[]"] sb by (simp_all add: is_element_def)
  have ed: "is_element dn" "is_element val" "is_element (inCosignerSPKI i)"
    using BuildCAName_element [OF dn] validity_element [OF val] SPKI_roundtrip(2) [OF assms(4,5)] l by simp_all
  have sp: "SplitCertificate der = Inr (tlv 0x30 ?body, a, [])"
    unfolding der by (rule SplitCertificate_parts [OF _ ea]) (use assms(3) in \<open>simp add: der\<close>)
  have t: "unmarshalRaw (tlv 0x30 ?body) = Inr (element 0x30 ?body, [])" using tlv_element [of "0x30" ?body "[]"] lb by simp
  have "\<forall>e\<in>set (ca_exts mv binID). oid_ok (xID e) \<and> length (xValue e) < 2 ^ 30"
    using ca_exts_ok(1) rmap_ext_length [OF ds] l(5) by fastforce
  then have tail: "caTailLoop ?x Map.empty = Inr (foldl add_ext Map.empty (ca_exts mv binID))" using caTailLoop_exts [OF ds] l(4) by simp
  note tf = takeField_element [OF ev(1)] takeField_element [OF ev(2)] takeField_element [OF ea] takeField_element [OF ed(1)]
    takeField_element [OF ed(2)] takeField_element [OF ed(3)]
  have p: "parseCACertificate der = Inr (dn, inCosignerSPKI i, foldl add_ext Map.empty (ca_exts mv binID))"
    unfolding parseCACertificate_def sp rbind_simps prod.case t element_fields(4) tf tail by simp
  have "oid_ok OIDDigestSHA256" by (simp add: oid_ok_def OIDDigestSHA256_def)
  then have m: "ParseMTCCertificationAuthority mv = Inr ?m" using MTCCA_roundtrip(1) [OF _ _ mv] assms(6) SigAlgOID_ok [OF assms(4)] by simp
  show ?thesis
    using dn p m CAName_roundtrip [OF dn assms(7) l(1)] SPKI_roundtrip(1) [OF assms(4,5) l(3)] assms(6) ca_exts_ok(2) [of mv binID]
    by (simp add: ConfigFromCACertificate_def InitialRevokedRanges_def)
qed

text \<open>
  C15: CA certificates round trip. The configuration that a relying party reads from the certificate of a
  CA has the CA's identifier and name, its key with the algorithm, the CA as the required cosigner, and
  exactly the serial numbers below the minimum revoked.
\<close>

theorem ca_certificate_roundtrip:
  assumes "cryptobyte_laws cb" "BuildCACertificate cb i = Inr der" "length der < 2 ^ 30" "SigAlgOID alg = Inr (inSigAlg i)"
    "MarshalCosignerSPKI alg pub = Inr (inCosignerSPKI i)" "inLogHash i = OIDDigestSHA256" "\<forall>c\<in>set (inCAID i). of_char c < (128 :: nat)"
  shows "\<exists>dn. BuildCAName (inCAID i) = Inr dn \<and> ConfigFromCACertificate bmp der =
    Inr \<lparr>RPCAID = inCAID i, RPCADN = Some dn, RPLogHash = OIDDigestSHA256,
         Cosigners = [\<lparr>CKID = inCAID i, CKAlgorithm = alg, CKPublicKey = pub\<rparr>], RequiredCosigners = [inCAID i],
         RevokedRanges = (if inMinSerial i = 0 then [] else [\<lparr>RRStart = 0, RREnd = inMinSerial i\<rparr>]), TrustedSubtrees = Map.empty\<rparr>"
  using assms by (rule caConfig)

lemma ComposeSerial_ge: "ComposeSerial n idx = Inr serial \<Longrightarrow> push_bit 48 (ucast n) \<le> serial"
  using le_word_or2 by (auto simp: ComposeSerial_def serialIndexBits_def split: if_splits)

text \<open>
  C1: the whole system. A relying party that knows nothing but the CA's certificate accepts every
  certificate that the CA's issuer returns: the CA builds its certificate from its identifier and the
  key of its signer, with a minimum serial number not above those of the log, and the issuer runs as in
  the property about issued certificates.
\<close>

theorem ca_certificate_suffices:
  assumes "cryptobyte_laws cb" "tlog_laws lib sha256" "NewLog lib mlib sha256 cfg now fs = Some (Inr l0)" "log_steps lib sha256 l0 l1"
    "wsize (ltw l1) + length (lpool l1) < 2 ^ 63" "\<forall>l. log_steps lib sha256 l (env l)"
    "NewIssuer (Some (log_api lib sha256 env)) t caID n = Inr i" "well_formed csr" "new_request sha256 i csr order l1"
    "Issue cb sha256 i csr order l1 = (Inr der, l3)" "length der < 2 ^ 30"
    "\<forall>idx iss. Wait lib sha256 l3 idx = Some (Inr (Some iss)) \<longrightarrow> canonical_ids (ISignatures iss)" "signs_verifiably mlib cfg"
    "lCosignerID cfg = caID" "LogID caID n = Inr (lLogID cfg)"
    "BuildCACertificate cb c = Inr ca" "length ca < 2 ^ 30" "inCAID c = caID" "inLogHash c = OIDDigestSHA256"
    "SigAlgOID (SignerAlgorithm (lSigner cfg)) = Inr (inSigAlg c)"
    "MarshalCosignerSPKI (SignerAlgorithm (lSigner cfg)) (SignerPublicKey (lSigner cfg)) = Inr (inCosignerSPKI c)"
    "inMinSerial c \<le> push_bit 48 (ucast n)" "\<forall>x\<in>set caID. of_char x < (128 :: nat)"
  shows "\<exists>rp. ConfigFromCACertificate bmp ca = Inr rp \<and> VerifyCertificate mlib sha256 der rp = Inr ()"
proof -
  have i: "BuildCAName caID = Inr (CADN i)" "LogNumber i = n"
    using assms(7) by (auto simp: NewIssuer_def rbind_eq_Inr split: if_splits)
  let ?key = "\<lparr>CKID = caID, CKAlgorithm = SignerAlgorithm (lSigner cfg), CKPublicKey = SignerPublicKey (lSigner cfg)\<rparr>"
  let ?rp = "\<lparr>RPCAID = caID, RPCADN = Some (CADN i), RPLogHash = OIDDigestSHA256, Cosigners = [?key], RequiredCosigners = [caID],
         RevokedRanges = (if inMinSerial c = 0 then [] else [\<lparr>RRStart = 0, RREnd = inMinSerial c\<rparr>]), TrustedSubtrees = Map.empty\<rparr>"
  have rp: "ConfigFromCACertificate bmp ca = Inr ?rp"
    using caConfig [OF assms(1,16,17,20,21,19), of bmp] assms(18,23) i(1) by simp
  have rev: "\<not> Contains (RevokedRanges ?rp) serial" if "ComposeSerial n idx = Inr serial" for idx serial
    using order.trans [OF assms(22) ComposeSerial_ge [OF that]] by (simp add: Contains_def not_less)
  have "relies_on ?rp cfg i"
    using assms(14,15) i(2) rev by (simp add: relies_on_def keyMap_def required_def)
  from issued_accepted [OF assms(1-12) this assms(13)] rp show ?thesis by blast
qed

section \<open>A sample CA certificate\<close>

definition sample_ca :: "bytes \<Rightarrow> CACertificateInput" where
  "sample_ca spki = \<lparr>inCAID = ''2'', inCosignerSPKI = spki, inLogHash = OIDDigestSHA256, inSigAlg = oidSigMLDSA44, inMinSerial = 2 ^ 48,
     inNotBefore = sample_now, inNotAfter = sample_now\<lparr>Year := 2060\<rparr>\<rparr>"

lemma sample_ca_parts:
  "case rbind (BuildCAName ''2'') (\<lambda>dn. rbind (Binary ''2'') (\<lambda>b.
     rbind (MTCCA_Marshal \<lparr>CALogHash = OIDDigestSHA256, CASigAlg = oidSigMLDSA44, MinSerial = 2 ^ 48\<rparr>) (\<lambda>mv.
     rbind (rmap marshalExtensionDER (ca_exts mv b)) (\<lambda>ds. rbind (marshalAlgID OIDAlgUnsigned) (\<lambda>a.
     rbind (encodeValidity (UTCTime.truncate sample_now) (UTCTime.truncate (sample_now\<lparr>Year := 2060\<rparr>))) (\<lambda>v.
       Inr (length dn + length (concat ds) + length a + length v))))))) of Inl _ \<Rightarrow> False | Inr n \<Rightarrow> n \<le> 1000"
  by code_simp

lemma sample_ca_built:
  assumes "spki \<noteq> []" "length spki \<le> 2 ^ 20"
  shows "\<exists>der. BuildCACertificate ref_cryptobyte (sample_ca spki) = Inr der \<and> length der < 2 ^ 30"
proof -
  obtain dn b mv ds a v where p: "BuildCAName ''2'' = Inr dn" "Binary ''2'' = Inr b"
      "MTCCA_Marshal \<lparr>CALogHash = OIDDigestSHA256, CASigAlg = oidSigMLDSA44, MinSerial = 2 ^ 48\<rparr> = Inr mv"
      "rmap marshalExtensionDER (ca_exts mv b) = Inr ds" "marshalAlgID OIDAlgUnsigned = Inr a"
      "encodeValidity (UTCTime.truncate sample_now) (UTCTime.truncate (sample_now\<lparr>Year := 2060\<rparr>)) = Inr v"
      "length dn + length (concat ds) + length a + length v \<le> 1000"
    using sample_ca_parts by (auto simp: rbind_def split: sum.splits)
  let ?body = "tlv 0xa0 (tlv 0x02 [2]) @ tlv 0x02 [1] @ a @ dn @ v @ dn @ spki @ tlv 0xa3 (tlv 0x30 (concat ds))"
  let ?der = "tlv 0x30 (tlv 0x30 ?body @ a @ tlv 0x03 [0])"
  have o: "int_octets 2 = [2]" "int_octets 1 = [1]" "int_octets (Suc 0) = [1]" by (simp_all add: int_octets.simps)
  have "BuildCACertificate ref_cryptobyte (sample_ca spki) = Inr ?der"
    using p assms(1) unfolding BuildCACertificate_def ca_exts_def [symmetric]
    by (simp add: sample_ca_def ref_cryptobyte_def badd_def wrapSequence_tlv o Let_def)
  moreover have "length ?body \<le> length spki + 3000"
    using p(7) tlv_length [of "0xa0" "tlv 0x02 [2]"] tlv_length [of "0x02" "[2]"] tlv_length [of "0x02" "[1]"]
      tlv_length [of "0xa3" "tlv 0x30 (concat ds)"] tlv_length [of "0x30" "concat ds"] by simp
  moreover have "length ?der \<le> length ?body + 2000"
    using p(7) tlv_length [of "0x30" "tlv 0x30 ?body @ a @ tlv 0x03 [0]"] tlv_length [of "0x30" ?body] tlv_length [of "0x03" "[0]"] by simp
  ultimately show ?thesis using assms(2) by auto
qed

lemma sample_spki:
  "\<exists>spki. MarshalCosignerSPKI AlgMLDSA44 pub = Inr spki \<and> spki \<noteq> [] \<and> length spki \<le> length pub + 1000"
proof -
  have "oid_ok oidSigMLDSA44" by (simp add: oid_ok_def oidSigMLDSA44_def)
  then obtain b where b: "marshalAlgID oidSigMLDSA44 = Inr (tlv 0x30 (tlv 0x06 b))" "length (tlv 0x06 b) \<le> 606" using algid_roundtrip by metis
  let ?s = "tlv 0x30 (tlv 0x30 (tlv 0x06 b) @ tlv 0x03 (0 # pub))"
  have "length ?s \<le> length pub + 1000"
    using b(2) tlv_length [of "0x30" "tlv 0x30 (tlv 0x06 b) @ tlv 0x03 (0 # pub)"] tlv_length [of "0x30" "tlv 0x06 b"] tlv_length [of "0x03" "0 # pub"]
    by simp
  moreover have "?s \<noteq> []" by (simp add: tlv_Cons)
  ultimately show ?thesis using b(1) by (simp add: MarshalCosignerSPKI_def SigAlgOID_def)
qed

theorem ca_certificate_roundtrip_witness:
  "\<exists>spki der rp. BuildCACertificate ref_cryptobyte (sample_ca spki) = Inr der \<and> ConfigFromCACertificate Inr der = Inr rp \<and>
     RevokedRanges rp = [\<lparr>RRStart = 0, RREnd = 2 ^ 48\<rparr>]"
proof -
  obtain spki where s: "MarshalCosignerSPKI AlgMLDSA44 [7] = Inr spki" "spki \<noteq> []" "length spki \<le> 1001" using sample_spki [of "[7]"] by auto
  then obtain der where d: "BuildCACertificate ref_cryptobyte (sample_ca spki) = Inr der" "length der < 2 ^ 30"
    using sample_ca_built [of spki] by auto
  have c: "SigAlgOID AlgMLDSA44 = Inr (inSigAlg (sample_ca spki))" "MarshalCosignerSPKI AlgMLDSA44 [7] = Inr (inCosignerSPKI (sample_ca spki))"
      "inLogHash (sample_ca spki) = OIDDigestSHA256" "\<forall>x\<in>set (inCAID (sample_ca spki)). of_char x < (128 :: nat)"
    using s(1) by (simp_all add: sample_ca_def SigAlgOID_def)
  obtain rp where "ConfigFromCACertificate Inr der = Inr rp" "RevokedRanges rp = [\<lparr>RRStart = 0, RREnd = 2 ^ 48\<rparr>]"
    using ca_certificate_roundtrip [OF refcb.cryptobyte_laws_axioms d c, of Inr] by (auto simp: sample_ca_def)
  with d(1) show ?thesis by blast
qed

theorem ca_certificate_suffices_witness:
  "\<exists>l0 der l' ca rp. Issue ref_cryptobyte mk_Hash sample_issuer sample_csr sample_order l0 = (Inr der, l') \<and>
     ConfigFromCACertificate Inr ca = Inr rp \<and> VerifyCertificate sample_mldsa mk_Hash der rp = Inr ()"
proof -
  obtain l0 where l0: "NewLog (ref_tlog mk_Hash) sample_mldsa mk_Hash sample_ca_cfg sample_now (empty_store []) = Some (Inr l0)"
      "log_inv (ref_tlog mk_Hash) mk_Hash [] l0" "tw_inv (ref_tlog mk_Hash) [] (ltw l0)" "faultless (wfs (ltw l0))" "lpool l0 = []"
      "ldedup l0 = (\<lambda>_. None)" "lcfg l0 = sample_ca_cfg" "wsize (ltw l0) = 0" "own_sigs l0"
    by (rule sample_fresh)
  obtain der l' where d: "Issue ref_cryptobyte mk_Hash sample_issuer sample_csr sample_order l0 = (Inr der, l')" "length der < 2 ^ 30"
      "own_sigs l'" "lcfg l' = sample_ca_cfg"
    using sample_issues [OF l0(2-9)] by blast
  have n: "new_request mk_Hash sample_issuer sample_csr sample_order l0" using l0(6) by (simp add: new_request_def split: sum.splits prod.splits)
  have i: "NewIssuer (Some (log_api (ref_tlog mk_Hash) mk_Hash (flush_env (ref_tlog mk_Hash) mk_Hash sample_now))) sample_now ''2'' 1
      = Inr sample_issuer" using sample_new_issuer by (simp add: sample_issuer_def)
  have "length sample_pub \<le> 5000" by (simp add: sample_pub_def)
  then obtain spki where s: "MarshalCosignerSPKI AlgMLDSA44 sample_pub = Inr spki" "spki \<noteq> []" "length spki \<le> 2 ^ 20"
    using sample_spki [of sample_pub] by auto
  then obtain ca where ca: "BuildCACertificate ref_cryptobyte (sample_ca spki) = Inr ca" "length ca < 2 ^ 30" using sample_ca_built by blast
  have g: "lSigner sample_ca_cfg = sample_signer" "lLogID sample_ca_cfg = ''2.0.1''" by (simp_all add: sample_ca_cfg_def sample_log_cfg_def)
  have c: "SigAlgOID (SignerAlgorithm (lSigner sample_ca_cfg)) = Inr (inSigAlg (sample_ca spki))"
      "MarshalCosignerSPKI (SignerAlgorithm (lSigner sample_ca_cfg)) (SignerPublicKey (lSigner sample_ca_cfg)) = Inr (inCosignerSPKI (sample_ca spki))"
      "inCAID (sample_ca spki) = ''2''" "inLogHash (sample_ca spki) = OIDDigestSHA256"
      "inMinSerial (sample_ca spki) \<le> push_bit 48 (ucast (1 :: u16))" "\<forall>x\<in>set ''2''. of_char x < (128 :: nat)"
    using s(1) by (simp_all add: g sample_ca_def SigAlgOID_def sample_signer_def)
  have lid: "LogID ''2'' 1 = Inr (lLogID sample_ca_cfg)" unfolding g by code_simp
  from ca_certificate_suffices [OF refcb.cryptobyte_laws_axioms ref.tlog_laws_axioms l0(1) log_steps.start _ _ i sample_well_formed n d(1,2)
      own_sigs_canonical [OF d(3)] sample_ca_ready(5,7) lid ca c(3,4,1,2,5,6), of Inr] l0 d flush_env_steps sample_id(2) sample_ca_ready(7)
  show ?thesis by auto
qed

end
