(* ===== verification/Spec2Isabelle.thy ===== *)
theory Spec2Isabelle
  imports Landmark MirrorServer CACert
begin

text \<open>
  Verification of cactus, a server for Merkle Tree certificates written in Go.

  \<^bold>\<open>The program.\<close> The certification authority validates a certificate request (package ca), appends the
  log entry that stands for the certificate to its issuance log (package log, on the tile writer of
  log/tilewriter and the store of package storage), and waits until the log has flushed: the flush
  computes the tree, signs the checkpoint and the subtrees that cover the new entries, and asks the
  mirrors for cosignatures (cert/cosigner_request.go). The certificate carries an inclusion proof into a
  signed subtree in place of a signature (package cert, on the Merkle functions of package tlogx). A
  mirror follows the log of a CA and cosigns subtrees on request (package mirror). The landmark sequence
  (package landmark) names subtrees that relying parties hold, so that certificates need no signatures
  at all. The relying party (cert/verify.go, cert/rpverify.go) rebuilds the log entry from a certificate
  and checks its inclusion in a subtree that is signed or trusted.

  \<^bold>\<open>The theories and the code.\<close>
  \<^item> Prelude, Wire, GoStrings, GoTime, Asn1: the vocabulary (bytes, 64-bit words, Go errors as values of
    a sum type, the 32-byte \<open>Hash\<close>) and what the code uses of the Go library: big-endian integers and
    length prefixes, strconv, strings, base64, time, encoding/asn1. Asn1 also has the laws of the
    builder of golang.org/x/crypto/cryptobyte.
  \<^item> Merkle, Merkle_Consistency: reference functions on natural numbers (tree hash, audit path, the
    evaluation of paths and of consistency proofs).
  \<^item> Subtree (tlogx/subtree.go), Inclusion (tlogx/inclusion.go), Consistency (tlogx/consistency.go): the
    loops on 64-bit words. They compute the reference functions; proofs that are generated are accepted;
    proofs that are accepted pin the leaf or the subtree, or two of the strings that were hashed collide.
  \<^item> TrustAnchor (cert/trustanchorid.go, cert/caid.go), Entry (cert/entry.go), Proof (cert/proof.go),
    CertProperties (cert/properties.go, cert/keyid.go): encoders and parsers, with their round trips,
    canonicity and bounds.
  \<^item> Storage (storage/storage.go): the interface with faults, a tree of files and directories with the
    system calls of package os, each of which can fail, and the disk that refines the interface.
  \<^item> Tlog: the interface of golang.org/x/mod/sumdb/tlog as a record of functions and the locale
    \<open>tlog_laws\<close>, interpreted on a reference implementation. Tilewriter (log/tilewriter/tilewriter.go):
    appends, crash recovery, the error in the rollback of a failed append.
  \<^item> Landmark (landmark/sequence.go, landmark/handler.go, cmd/cactus-cli/cert.go): the reachable
    sequences are well formed and equal to the file; a restart changes nothing; the client reads the
    published list.
  \<^item> Note (log/note.go, mirror/note.go, mirror/note_parse.go), Cosign (cert/sigverify.go,
    cert/cosigner_request.go): notes round trip; a quorum is one of verified signatures in every
    interleaving of the concurrent requests, and every run ends even when mirrors hang.
  \<^item> Follower (mirror/follower.go), MirrorServer (mirror/server.go): the mirror holds a signed,
    prefix-growing copy of the log, halts on bad checkpoints, and signs only subtrees of its copy; an
    honest mirror answers an honest CA.
  \<^item> LogProof, Log, Issuance (log/log.go): the state of the log as a record, each method one step under
    the mutex, runs as the step relation \<open>log_steps\<close>. Indices are promises; what \<open>Wait\<close> answers
    verifies; flushes publish and make progress; a restart finds the published tree; a flush that fails
    after its append leaves its entries unsigned.
  \<^item> Validator (ca/validator.go, cert/dn.go), RelyingParty (cert/verify.go, cert/rpverify.go,
    cert/cacert.go, cert/landmark.go), Issuer (ca/issuer.go): a validated request is authorized; an
    accepted certificate is in the log; a landmark-relative certificate is accepted like the standalone
    one; every certificate the issuer returns is accepted, and on a working log the issuer returns one.
  \<^item> CACert (cert/cacert.go and the rest of cert/rpverify.go): the CA certificate and the relying-party
    configuration read from it round trip, and that configuration is enough to accept what the issuer
    returns.

  \<^bold>\<open>Parameters.\<close> SHA-256 is an arbitrary function to 32 bytes. A statement of binding ends in the disjunct
  \<open>colliding\<close>: two lists of strings, those which the verifier hashed and those which the tree or the other
  proof hashed, have members that differ and have the same hash. Both lists are functions of the inputs
  (\<open>inclusion_inputs\<close>, \<open>consistency_inputs\<close>, \<open>run_inputs\<close>, \<open>entry_inputs\<close>). ML-DSA, the signer, the HTTP client, json.Marshal, the BMPString decoder, sumdb/tlog and
  cryptobyte are arguments; what is used of them are named hypotheses or locales (\<open>tlog_laws\<close>, \<open>cryptobyte_laws\<close>,
  \<open>signs_verifiably\<close>), each with an instance. The integers and length prefixes that cryptobyte writes and
  reads in package cert are written out in Wire, as its documentation has them. A witness evaluates with \<open>mk_Hash\<close>, which keeps the first 32
  bytes, as the hash.

  \<^bold>\<open>Bounds and loops.\<close> Machine integers are words and wrap; sizes of trees in the invariants are below
  \<open>2\<^sup>6\<^sup>3\<close>, as the code converts them to int64. Loops are total functions with a measure; the three that
  may run forever (\<open>fetchLoop\<close> of the follower, \<open>pow2Loop\<close> and the walker of log/log.go) are partial
  functions to an option, and the theorems about them state that they return. There is no fuel.

  \<^bold>\<open>Simplifications.\<close> White space in strings and bytes is that of ASCII. Instants have no monotonic reading and
  no zone. A certificate request is the record of what crypto/x509 parsed: its names and the octets of its
  extensions are separate fields, as the validator reads the first and copies the second. Files have no
  permissions, and no other process changes them.

  \<^bold>\<open>Not modelled.\<close> The ACME front end (package acme) and the configuration are the next parts of the
  plan. Command lines, HTTP
  servers, logging, metrics and CORS are input and output around the modelled functions. The signer's key
  derivation calls a third-party package. \<open>ParseTBSCertificateLogEntry\<close> is used by tools only.
\<close>

end
